(* ===== verification/Prelude.thy ===== *)
theory Prelude
  imports Main "HOL-Library.Word"
begin

text \<open>
  Shared vocabulary of the development: Go's machine integers and byte slices, the result
  type every fallible operation returns, bounds-checked indexing and slicing (a failed Go
  bounds check is the value \<open>Panic\<close>, see theory \<open>Errors\<close>), and the generic lemmas the
  components use.

  Go's \<open>uint\<close> is modelled on a 64-bit platform as \<open>64 word\<close>: its \<open>+\<close>, \<open>-\<close> and \<open>*\<close> wrap
  exactly as in the code. A byte slice is a list of \<open>8 word\<close>. A Go slice never has more than
  \<open>2 ^ 63 - 1\<close> elements (its length is an \<open>int\<close>); \<open>glen\<close> is the code's \<open>uint(len(x))\<close> and
  saturates there, so that the definitions need no side condition on the length: on every list
  that is a Go slice it is the length (lemma \<open>unat_glen_eq\<close>).
\<close>

unbundle bit_operations_syntax

section \<open>Machine integers and slices\<close>

type_synonym byte = "8 word"
type_synonym uint = "64 word"
type_synonym bytes = "byte list"

named_theorems word_nat \<open>rewrite comparisons and sums of words to natural numbers\<close>

lemmas [word_nat] = word_less_nat_alt word_le_nat_alt

definition max_int :: nat where
  "max_int = 9223372036854775807"

definition glen :: "'a list \<Rightarrow> uint" where
  "glen xs = word_of_nat (min (length xs) max_int)"

lemma unat_glen [word_nat]: "unat (glen xs) = min (length xs) max_int"
  unfolding glen_def max_int_def by (simp add: unat_of_nat take_bit_nat_eq_self)

lemma unat_glen_eq: "length xs \<le> max_int \<Longrightarrow> unat (glen xs) = length xs"
  by (simp add: unat_glen)

lemma unat_glen_le: "unat (glen xs) \<le> max_int" "unat (glen xs) \<le> length xs"
  by (simp_all add: unat_glen)

text \<open>An executable form, for evaluation on concrete buffers.\<close>

lemma glen_fold:
  "foldl (\<lambda>n _. if n = 9223372036854775807 then n else n + 1) (word_of_nat (min k max_int) :: uint) xs =
     word_of_nat (min (k + length xs) max_int)"
proof (induction xs arbitrary: k)
  case Nil
  show ?case by simp
next
  case (Cons x xs)
  have "(word_of_nat (min k max_int) :: uint) = 9223372036854775807 \<longleftrightarrow> max_int \<le> k"
    by (auto simp: word_unat_eq_iff unat_of_nat take_bit_nat_eq_self max_int_def min_def)
  then have "(if (word_of_nat (min k max_int) :: uint) = 9223372036854775807
        then word_of_nat (min k max_int) else word_of_nat (min k max_int) + 1) =
      (word_of_nat (min (Suc k) max_int) :: uint)"
    by (auto simp: min_def max_int_def)
  with Cons.IH [of "Suc k"] show ?case by simp
qed

lemma glen_code [code]:
  "glen xs = foldl (\<lambda>n _. if n = 9223372036854775807 then n else n + 1) 0 xs"
  using glen_fold [of 0 xs] by (simp add: glen_def max_int_def)

lemma glen_less_length: "i < glen xs \<Longrightarrow> unat i < length xs"
  by (simp add: word_less_nat_alt unat_glen)

lemma unat_add_if:
  "unat (a + b :: uint) =
     (if unat a + unat b < 18446744073709551616 then unat a + unat b
      else unat a + unat b - 18446744073709551616)"
  by (simp add: unat_plus_if')

lemma unat_add_small:
  "unat a + unat b < 18446744073709551616 \<Longrightarrow> unat (a + b :: uint) = unat a + unat b"
  by (simp add: unat_add_if)

lemma unat_less_2_64: "unat (a :: uint) < 18446744073709551616"
  using unsigned_less [of a] by simp

section \<open>Results\<close>

text \<open>
  A fallible operation returns \<open>Inl\<close> of the error or \<open>Inr\<close> of its results; \<open>bindE\<close> is the
  code's \<open>if err != nil { return ..., err }\<close>.
\<close>

definition bindE :: "'e + 'a \<Rightarrow> ('a \<Rightarrow> 'e + 'b) \<Rightarrow> 'e + 'b" where
  "bindE m f = (case m of Inl e \<Rightarrow> Inl e | Inr x \<Rightarrow> f x)"

lemma bindE_Inl [simp]: "bindE (Inl e) f = Inl e"
  by (simp add: bindE_def)

lemma bindE_Inr [simp]: "bindE (Inr x) f = f x"
  by (simp add: bindE_def)

lemma bindE_cong [fundef_cong]:
  "m = m' \<Longrightarrow> (\<And>x. m' = Inr x \<Longrightarrow> f x = f' x) \<Longrightarrow> bindE m f = bindE m' f'"
  by (simp add: bindE_def split: sum.split)

lemma bindE_eq_Inr: "bindE m f = Inr y \<longleftrightarrow> (\<exists>x. m = Inr x \<and> f x = Inr y)"
  by (cases m) simp_all

lemma bindE_eq_Inl: "bindE m f = Inl e \<longleftrightarrow> m = Inl e \<or> (\<exists>x. m = Inr x \<and> f x = Inl e)"
  by (cases m) simp_all

lemma bindE_assoc: "bindE (bindE m f) g = bindE m (\<lambda>x. bindE (f x) g)"
  by (cases m) simp_all

lemma bindE_if: "bindE (if b then m else n) f = (if b then bindE m f else bindE n f)"
  by simp

text \<open>\<open>mapErr\<close> is the code's wrapping of an error on the way out.\<close>

definition mapErr :: "('e \<Rightarrow> 'e) \<Rightarrow> 'e + 'a \<Rightarrow> 'e + 'a" where
  "mapErr w m = (case m of Inl e \<Rightarrow> Inl (w e) | Inr x \<Rightarrow> Inr x)"

lemma mapErr_Inl [simp]: "mapErr w (Inl e) = Inl (w e)"
  by (simp add: mapErr_def)

lemma mapErr_Inr [simp]: "mapErr w (Inr x) = Inr x"
  by (simp add: mapErr_def)

lemma mapErr_eq_Inr [simp]: "mapErr w m = Inr x \<longleftrightarrow> m = Inr x"
  by (cases m) simp_all

lemma mapErr_eq_Inl: "mapErr w m = Inl e \<longleftrightarrow> (\<exists>e'. m = Inl e' \<and> e = w e')"
  by (cases m) auto

section \<open>Big-endian numbers\<close>

text \<open>The number a byte sequence denotes, most significant byte first: the reference every
  integer decoder is compared with.\<close>

fun be_nat :: "bytes \<Rightarrow> nat \<Rightarrow> nat" where
  "be_nat [] acc = acc"
| "be_nat (b # bs) acc = be_nat bs (256 * acc + unat b)"

lemma be_nat_acc: "be_nat bs acc = 256 ^ length bs * acc + be_nat bs 0"
proof (induction bs arbitrary: acc)
  case Nil
  show ?case by simp
next
  case (Cons b bs)
  show ?case
    using Cons.IH [of "256 * acc + unat b"] Cons.IH [of "unat b"]
    by (simp add: algebra_simps)
qed

lemma be_nat_snoc: "be_nat (bs @ [b]) acc = 256 * be_nat bs acc + unat b"
  by (induction bs arbitrary: acc) simp_all

lemma be_nat_append: "be_nat (bs @ cs) acc = be_nat cs (be_nat bs acc)"
  by (induction bs arbitrary: acc) simp_all

lemma unat_byte_less: "unat (b :: byte) < 256"
  using unsigned_less [of b] by simp

lemma be_nat_less: "be_nat bs 0 < 256 ^ length bs"
proof (induction bs rule: rev_induct)
  case Nil
  show ?case by simp
next
  case (snoc b bs)
  then have "256 * be_nat bs 0 + 256 \<le> 256 * 256 ^ length bs" by simp
  moreover have "unat b < 256" by (rule unat_byte_less)
  ultimately show ?case by (simp only: be_nat_snoc length_append_singleton power_Suc)
qed

text \<open>One step of the code's accumulation \<open>val << 8 | b\<close> at width \<open>'w\<close>.\<close>

lemma shift8_or_byte:
  fixes v :: "'w::len word" and b :: byte
  assumes "8 \<le> LENGTH('w)"
  shows "push_bit 8 v OR ucast b = v * 256 + ucast b"
proof -
  have disj: "push_bit 8 v AND ucast b = (0 :: 'w word)"
    by (rule bit_word_eqI) (auto simp: bit_simps dest: bit_imp_le_length)
  have "push_bit 8 v OR ucast b = push_bit 8 v + (ucast b :: 'w word)"
    by (rule disjunctive_add [symmetric])
       (metis disj bit_0_eq bit_and_iff bot_apply bot_bool_def)
  then show ?thesis by (simp add: push_bit_eq_mult)
qed

lemma word_of_nat_mod:
  "word_of_nat (m mod 2 ^ LENGTH('w)) = (word_of_nat m :: 'w::len word)"
  by (simp add: word_of_nat_eq_iff take_bit_eq_mod)

lemma foldl_shift8:
  fixes v :: "'w::len word"
  assumes "8 \<le> LENGTH('w)"
  shows "foldl (\<lambda>v b. push_bit 8 v OR ucast b) v bs = word_of_nat (be_nat bs (unat v))"
proof (induction bs arbitrary: v)
  case Nil
  show ?case by simp
next
  case (Cons b bs)
  have step: "push_bit 8 v OR ucast b = v * 256 + (ucast b :: 'w word)"
    using assms by (rule shift8_or_byte)
  have ind: "word_of_nat (be_nat cs (m mod 2 ^ LENGTH('w))) = (word_of_nat (be_nat cs m) :: 'w word)"
    for cs m
    by (simp only: be_nat_acc [of cs "m mod _"] be_nat_acc [of cs m] of_nat_add of_nat_mult
          word_of_nat_mod)
  have "v * 256 + ucast b = (word_of_nat (256 * unat v + unat b) :: 'w word)"
    by (simp add: mult.commute)
  then have "unat (v * 256 + ucast b) = (256 * unat v + unat b) mod 2 ^ LENGTH('w)"
    by (simp only: unat_of_nat take_bit_eq_mod)
  then show ?case by (simp add: step Cons.IH ind)
qed

section \<open>Strings\<close>

text \<open>
  A Go string is a sequence of bytes; copying it does not change its value. \<open>ascii\<close> gives the
  bytes of a literal, \<open>decimal\<close> the text \<open>fmt\<close> and \<open>strconv.Itoa\<close> print for a natural number.
\<close>

type_synonym gostring = bytes

definition ascii :: "string \<Rightarrow> gostring" where
  "ascii s = map (\<lambda>c. word_of_nat (of_char c)) s"

fun decimal :: "nat \<Rightarrow> string" where
  "decimal n =
     (if n < 10 then [char_of (48 + n)] else decimal (n div 10) @ [char_of (48 + n mod 10)])"

declare decimal.simps [simp del]

end
