(* ===== verification/Kinds.thy ===== *)
theory Kinds
  imports Prelude
begin

text \<open>
  MMDB data kinds (\<open>internal/decoder/data_decoder.go\<close>, type \<open>Kind\<close>) and sets of kinds
  (\<open>internal/decoder/decoder.go\<close>, type \<open>KindSet\<close>). A \<open>Kind\<close> is a Go \<open>int\<close> computed from a
  byte, so besides the sixteen named constants every other byte value is a possible kind: it is
  \<open>KindUnknown n\<close> here. \<open>kind_num\<close> is the underlying integer.
\<close>

section \<open>Kind\<close>

datatype Kind =
    KindExtended | KindPointer | KindString | KindFloat64 | KindBytes | KindUint16 | KindUint32
  | KindMap | KindInt32 | KindUint64 | KindUint128 | KindSlice | KindContainer | KindEndMarker
  | KindBool | KindFloat32 | KindUnknown nat

fun kind_num :: "Kind \<Rightarrow> nat" where
  "kind_num KindExtended = 0"
| "kind_num KindPointer = 1"
| "kind_num KindString = 2"
| "kind_num KindFloat64 = 3"
| "kind_num KindBytes = 4"
| "kind_num KindUint16 = 5"
| "kind_num KindUint32 = 6"
| "kind_num KindMap = 7"
| "kind_num KindInt32 = 8"
| "kind_num KindUint64 = 9"
| "kind_num KindUint128 = 10"
| "kind_num KindSlice = 11"
| "kind_num KindContainer = 12"
| "kind_num KindEndMarker = 13"
| "kind_num KindBool = 14"
| "kind_num KindFloat32 = 15"
| "kind_num (KindUnknown n) = n + 16"

text \<open>The Go conversion \<open>Kind(n)\<close>.\<close>

definition kind_of_num :: "nat \<Rightarrow> Kind" where
  "kind_of_num n =
     (if n < 16 then
        [KindExtended, KindPointer, KindString, KindFloat64, KindBytes, KindUint16, KindUint32,
         KindMap, KindInt32, KindUint64, KindUint128, KindSlice, KindContainer, KindEndMarker,
         KindBool, KindFloat32] ! n
      else KindUnknown (n - 16))"

definition Kind_of_byte :: "byte \<Rightarrow> Kind" where
  "Kind_of_byte b = kind_of_num (unat b)"

lemma less_16_cases:
  "n < (16::nat) \<Longrightarrow> n \<in> {0, 1, 2, 3, 4, 5, 6, 7, 8, 9, 10, 11, 12, 13, 14, 15}"
  unfolding insert_iff empty_iff by presburger

lemma kind_num_of_num [simp]: "kind_num (kind_of_num n) = n"
proof (cases "n < 16")
  case True
  then have "n \<in> {0, 1, 2, 3, 4, 5, 6, 7, 8, 9, 10, 11, 12, 13, 14, 15}"
    by (rule less_16_cases)
  then show ?thesis by (auto simp: kind_of_num_def)
next
  case False
  then show ?thesis by (simp add: kind_of_num_def)
qed

lemma kind_of_num_num [simp]: "kind_of_num (kind_num k) = k"
  by (cases k) (simp_all add: kind_of_num_def)

lemma kind_num_inject: "kind_num k = kind_num k' \<longleftrightarrow> k = k'"
  by (metis kind_of_num_num)

lemma Kind_of_byte_iff: "Kind_of_byte b = k \<longleftrightarrow> unat b = kind_num k"
  by (metis Kind_of_byte_def kind_num_of_num kind_of_num_num)

lemma Kind_of_byte_eq: "Kind_of_byte b = Kind_of_byte c \<longleftrightarrow> b = c"
  by (metis Kind_of_byte_iff word_unat_eq_iff)

fun Kind_String :: "Kind \<Rightarrow> string" where
  "Kind_String KindExtended = ''Extended''"
| "Kind_String KindPointer = ''Pointer''"
| "Kind_String KindString = ''String''"
| "Kind_String KindFloat64 = ''Float64''"
| "Kind_String KindBytes = ''Bytes''"
| "Kind_String KindUint16 = ''Uint16''"
| "Kind_String KindUint32 = ''Uint32''"
| "Kind_String KindMap = ''Map''"
| "Kind_String KindInt32 = ''Int32''"
| "Kind_String KindUint64 = ''Uint64''"
| "Kind_String KindUint128 = ''Uint128''"
| "Kind_String KindSlice = ''Slice''"
| "Kind_String KindContainer = ''Container''"
| "Kind_String KindEndMarker = ''EndMarker''"
| "Kind_String KindBool = ''Bool''"
| "Kind_String KindFloat32 = ''Float32''"
| "Kind_String (KindUnknown n) = ''Unknown('' @ decimal (n + 16) @ '')''"

definition IsContainer :: "Kind \<Rightarrow> bool" where
  "IsContainer k \<longleftrightarrow> k = KindMap \<or> k = KindSlice"

definition IsScalar :: "Kind \<Rightarrow> bool" where
  "IsScalar k \<longleftrightarrow>
     k \<in> {KindString, KindFloat64, KindBytes, KindUint16, KindUint32, KindInt32, KindUint64,
          KindUint128, KindBool, KindFloat32}"

text \<open>Kinds are ordered by their number, as Go orders the \<open>int\<close>s.\<close>

instantiation Kind :: linorder
begin

definition less_eq_Kind :: "Kind \<Rightarrow> Kind \<Rightarrow> bool" where
  "less_eq_Kind k k' \<longleftrightarrow> kind_num k \<le> kind_num k'"

definition less_Kind :: "Kind \<Rightarrow> Kind \<Rightarrow> bool" where
  "less_Kind k k' \<longleftrightarrow> kind_num k < kind_num k'"

instance
  by standard (auto simp: less_eq_Kind_def less_Kind_def kind_num_inject)

end

section \<open>KindSet\<close>

type_synonym KindSet = "64 word"

text \<open>\<open>1 << uint(kind)\<close> for a kind below 64.\<close>

definition kind_bit :: "Kind \<Rightarrow> KindSet" where
  "kind_bit k = push_bit (kind_num k) 1"

fun NewKindSet_loop :: "KindSet \<Rightarrow> Kind list \<Rightarrow> KindSet" where
  "NewKindSet_loop ks [] = ks"
| "NewKindSet_loop ks (k # kinds) =
     NewKindSet_loop (if kind_num k < 64 then ks OR kind_bit k else ks) kinds"

definition NewKindSet :: "Kind list \<Rightarrow> KindSet" where
  "NewKindSet kinds = NewKindSet_loop 0 kinds"

definition KindSet_Contains :: "KindSet \<Rightarrow> Kind \<Rightarrow> bool" where
  "KindSet_Contains s k \<longleftrightarrow> kind_num k < 64 \<and> s AND kind_bit k \<noteq> 0"

fun join_or :: "string list \<Rightarrow> string" where
  "join_or [] = ''''"
| "join_or [n] = n"
| "join_or (n # ns) = n @ '' or '' @ join_or ns"

definition KindSet_String :: "KindSet \<Rightarrow> string" where
  "KindSet_String s =
     (if s = 0 then ''none''
      else join_or (map Kind_String (filter (KindSet_Contains s) (map kind_of_num [0..<64]))))"

definition supportedMaxSizeKinds :: KindSet where
  "supportedMaxSizeKinds =
     kind_bit KindMap OR kind_bit KindSlice OR kind_bit KindString OR kind_bit KindBytes"

lemma KindSet_Contains_bit:
  "KindSet_Contains s k \<longleftrightarrow> kind_num k < 64 \<and> bit s (kind_num k)"
  by (simp add: KindSet_Contains_def kind_bit_def bit_iff_and_push_bit_not_eq_0)

lemma bit_NewKindSet_loop:
  "bit (NewKindSet_loop s kinds) n \<longleftrightarrow>
     bit s n \<or> (\<exists>k \<in> set kinds. kind_num k < 64 \<and> kind_num k = n)"
  by (induction s kinds rule: NewKindSet_loop.induct)
    (auto simp: kind_bit_def bit_simps)

lemma KindSet_Contains_New:
  "KindSet_Contains (NewKindSet kinds) k \<longleftrightarrow> kind_num k < 64 \<and> k \<in> set kinds"
  by (auto simp: KindSet_Contains_bit NewKindSet_def bit_NewKindSet_loop kind_num_inject)

lemma KindSet_Contains_single [simp]:
  "kind_num k < 64 \<Longrightarrow> KindSet_Contains (NewKindSet [k]) k' \<longleftrightarrow> k' = k"
  by (auto simp: KindSet_Contains_New)

lemma KindSet_Contains_supported:
  "KindSet_Contains supportedMaxSizeKinds k \<longleftrightarrow>
     k \<in> {KindMap, KindSlice, KindString, KindBytes}"
proof -
  have eq: "supportedMaxSizeKinds = NewKindSet [KindMap, KindSlice, KindString, KindBytes]"
    by (simp add: supportedMaxSizeKinds_def NewKindSet_def or.assoc)
  show ?thesis unfolding eq by (auto simp: KindSet_Contains_New)
qed

text \<open>
  C28. The bit set built by \<open>NewKindSet\<close> implements a set of kinds: \<open>Contains\<close> reports exactly
  the kinds that were put in, among those the 64-bit representation can hold (the code drops the
  others, and reports them absent).
\<close>

theorem KindSet_implements_set:
  "{k. KindSet_Contains (NewKindSet kinds) k} = {k. k \<in> set kinds \<and> kind_num k < 64}"
  by (auto simp: KindSet_Contains_New)

end
