(* ===== verification/Errors.thy ===== *)
theory Errors
  imports Kinds
begin

text \<open>
  The errors of the module (\<open>internal/mmdberrors\<close>, \<open>internal/decoder/error_context.go\<close> and the
  path helpers of \<open>internal/decoder/reflection.go\<close>). Each format string of an
  \<open>InvalidDatabaseError\<close> is a constructor of \<open>dbmsg\<close> that carries the formatted arguments (decoded data and errors formatted into a message excepted).
  \<open>Panic\<close> is Go's run-time panic of a failed bounds check: it is an outcome of the model so that
  its absence can be proved.
\<close>

section \<open>Error values\<close>

datatype tree_msg =
    NodePairOutOfBounds uint
  | TraversalOutOfBounds
  | UnsupportedRecordSize
  | InvalidNode
  | CorruptSearchTree
  | InvalidSearchTree
  | InternalNodeTooDeep uint
  | CycleAtNode uint
  | PathExceeds128Bits
  | TreeVerificationOutOfBounds

datatype file_msg =
    InvalidMaxMindDBFile
  | TreeSizeOverflow
  | InvalidMetadata
  | SeparatorUnexpectedEnd
  | SeparatorUnexpectedByte bytes
  | MetadataMarkerNotFound
  | FieldInvalidUTF8 string
  | FieldExpected string

datatype data_msg =
    DecodingErrorAt uint
  | ValidationErrorAt uint
  | OffsetWent uint uint
  | UnreferencedData uint
  | TrailingData uint uint
  | UnseenPointers nat nat
  | InvalidUTF8String
  | InvalidUTF8MapKey

datatype dbmsg =
    UnexpectedEnd
  | BadDataSize Kind uint
  | DecodedRecordTooLarge
  | InvalidPointerSize uint
  | UnexpectedMapKeyType Kind
  | ContainerSizeOverflow
  | PointerToPointerChain
  | BadDataRange uint uint
  | MaximumDepthExceeded
  | InvalidPointerToPointer uint
  | InvalidValueSize Kind uint
  | UnknownType Kind
  | MaxSizeExceeded Kind uint uint
  | TreeMsg tree_msg
  | FileMsg file_msg
  | DataMsg data_msg

datatype gerr =
    InvalidDatabaseError dbmsg
  | UnexpectedKindError Kind KindSet
  | UnmarshalTypeError string
  | ContextualError gerr gostring uint
  | PlainError string
  | Panic

abbreviation OffsetError :: gerr where
  "OffsetError \<equiv> InvalidDatabaseError UnexpectedEnd"

abbreviation errDecodedRecordTooLarge :: gerr where
  "errDecodedRecordTooLarge \<equiv> InvalidDatabaseError DecodedRecordTooLarge"

type_synonym 'a res = "gerr + 'a"

text \<open>The error below every layer of context, as \<open>errors.As\<close> finds it through \<open>Unwrap\<close>.\<close>

fun root_error :: "gerr \<Rightarrow> gerr" where
  "root_error (ContextualError e p off) = root_error e"
| "root_error e = e"

text \<open>An outcome that is not a run-time panic; \<open>safe\<close> collects the facts that show it.\<close>

definition no_panic :: "'a res \<Rightarrow> bool" where
  "no_panic r \<longleftrightarrow> (case r of Inl e \<Rightarrow> root_error e \<noteq> Panic | Inr _ \<Rightarrow> True)"

named_theorems safe \<open>operations that cannot panic\<close>

lemma no_panic_Inr [simp, safe]: "no_panic (Inr x)"
  by (simp add: no_panic_def)

lemma no_panic_Inl [simp]: "no_panic (Inl e) \<longleftrightarrow> root_error e \<noteq> Panic"
  by (simp add: no_panic_def)

lemma no_panic_bindE [safe]:
  "no_panic m \<Longrightarrow> (\<And>x. m = Inr x \<Longrightarrow> no_panic (f x)) \<Longrightarrow> no_panic (bindE m f)"
  by (cases m) simp_all

lemma no_panic_if [safe]:
  "(b \<Longrightarrow> no_panic x) \<Longrightarrow> (\<not> b \<Longrightarrow> no_panic y) \<Longrightarrow> no_panic (if b then x else y)"
  by simp

lemma no_panic_mapErr [safe]:
  "no_panic m \<Longrightarrow> (\<And>e. root_error (w e) = root_error e) \<Longrightarrow> no_panic (mapErr w m)"
  by (cases m) simp_all

section \<open>Bounds-checked access\<close>

text \<open>
  \<open>b[i]\<close> and \<open>b[lo:hi]\<close>. (Go bounds \<open>hi\<close> by the capacity; every slice expression of the modelled
  code has compared \<open>hi\<close> with the length before.)
\<close>

definition index :: "'a list \<Rightarrow> uint \<Rightarrow> 'a res" where
  "index xs i = (if i < glen xs then Inr (xs ! unat i) else Inl Panic)"

definition slice :: "'a list \<Rightarrow> uint \<Rightarrow> uint \<Rightarrow> 'a list res" where
  "slice xs lo hi =
     (if lo \<le> hi \<and> hi \<le> glen xs then Inr (take (unat hi - unat lo) (drop (unat lo) xs))
      else Inl Panic)"

lemma index_ok: "i < glen xs \<Longrightarrow> index xs i = Inr (xs ! unat i)"
  by (simp add: index_def)

lemma index_Inr: "index xs i = Inr x \<longleftrightarrow> i < glen xs \<and> x = xs ! unat i"
  by (auto simp: index_def)

lemma slice_ok:
  "lo \<le> hi \<Longrightarrow> hi \<le> glen xs \<Longrightarrow>
     slice xs lo hi = Inr (take (unat hi - unat lo) (drop (unat lo) xs))"
  by (simp add: slice_def)

lemma slice_length:
  assumes "slice xs lo hi = Inr ys"
  shows "length ys = unat hi - unat lo"
proof -
  have "hi \<le> glen xs" and "ys = take (unat hi - unat lo) (drop (unat lo) xs)"
    using assms by (auto simp: slice_def split: if_splits)
  moreover from this have "unat hi \<le> length xs"
    by (metis unat_glen_le(2) le_trans word_le_nat_alt)
  ultimately show ?thesis by simp
qed

lemma no_panic_index [safe]: "i < glen xs \<Longrightarrow> no_panic (index xs i)"
  by (simp add: index_def)

lemma no_panic_slice [safe]: "lo \<le> hi \<Longrightarrow> hi \<le> glen xs \<Longrightarrow> no_panic (slice xs lo hi)"
  by (simp add: slice_def)

text \<open>
  The same in terms of natural numbers, over the part of the list \<open>glen\<close> counts (all of it, for a
  Go slice).
\<close>

definition gtake :: "'a list \<Rightarrow> 'a list" where
  "gtake xs = take max_int xs"

lemma length_gtake: "length (gtake xs) = unat (glen xs)"
  by (simp add: gtake_def unat_glen)

lemma gtake_nth: "n < unat (glen xs) \<Longrightarrow> gtake xs ! n = xs ! n"
  by (simp add: gtake_def unat_glen)

lemma unat_glen_bound: "unat (glen xs) \<le> 9223372036854775807"
  using unat_glen_le(1) [of xs] by (simp add: max_int_def)

lemma index_gtake:
  "index xs i = (if unat i < length (gtake xs) then Inr (gtake xs ! unat i) else Inl Panic)"
  by (simp add: index_def length_gtake gtake_nth word_less_nat_alt)

lemma slice_gtake:
  "slice xs lo hi =
     (if unat lo \<le> unat hi \<and> unat hi \<le> length (gtake xs)
      then Inr (take (unat hi - unat lo) (drop (unat lo) (gtake xs))) else Inl Panic)"
  by (simp add: slice_def length_gtake word_le_nat_alt gtake_def unat_glen take_drop min_def)

section \<open>Error context and paths\<close>

text \<open>\<open>WrapWithContext\<close>; a missing tracker leaves the path empty.\<close>

definition WrapWithContext :: "gerr \<Rightarrow> uint \<Rightarrow> gostring option \<Rightarrow> gerr" where
  "WrapWithContext err offset tracker =
     ContextualError err (case tracker of None \<Rightarrow> [] | Some path \<Rightarrow> path) offset"

definition wrapErrorAtOffset :: "gerr \<Rightarrow> uint \<Rightarrow> gerr" where
  "wrapErrorAtOffset err offset = WrapWithContext err offset None"

lemma root_error_wrap [simp]:
  "root_error (WrapWithContext e off t) = root_error e"
  "root_error (wrapErrorAtOffset e off) = root_error e"
  by (simp_all add: WrapWithContext_def wrapErrorAtOffset_def)

text \<open>A \<open>PathBuilder\<close> is its list of segments; \<open>slash\<close> is the byte \<open>'/'\<close>.\<close>

type_synonym PathBuilder = "gostring list"

abbreviation slash :: byte where
  "slash \<equiv> 47"

definition NewPathBuilder :: PathBuilder where
  "NewPathBuilder = []"

definition PrependMap :: "gostring \<Rightarrow> PathBuilder \<Rightarrow> PathBuilder" where
  "PrependMap key p = key # p"

definition PrependSlice :: "nat \<Rightarrow> PathBuilder \<Rightarrow> PathBuilder" where
  "PrependSlice i p = ascii (decimal i) # p"

fun join_slash :: "gostring list \<Rightarrow> gostring" where
  "join_slash [] = []"
| "join_slash [s] = s"
| "join_slash (s # ss) = s @ slash # join_slash ss"

definition PathBuilder_Build :: "PathBuilder \<Rightarrow> gostring" where
  "PathBuilder_Build p = (if p = [] then [slash] else slash # join_slash p)"

text \<open>\<open>strings.SplitSeq (path, "/")\<close>: the pieces between separators, empty ones included.\<close>

fun split_slash :: "gostring \<Rightarrow> gostring \<Rightarrow> gostring list" where
  "split_slash acc [] = [acc]"
| "split_slash acc (c # cs) =
     (if c = slash then acc # split_slash [] cs else split_slash (acc @ [c]) cs)"

definition ParseAndExtend :: "gostring \<Rightarrow> PathBuilder \<Rightarrow> PathBuilder" where
  "ParseAndExtend path p =
     (if path = [] \<or> path = [slash] then p
      else
        let path = (if hd path = slash then tl path else path)
        in p @ filter (\<lambda>segment. segment \<noteq> []) (split_slash [] path))"

text \<open>
  \<open>errors.AsType[ContextualError]\<close> succeeds on a contextual error only (no other error of the
  module wraps one).
\<close>

definition wrapErrorWithPath :: "gerr \<Rightarrow> (PathBuilder \<Rightarrow> PathBuilder) \<Rightarrow> gerr" where
  "wrapErrorWithPath err prepend =
     (case err of
        ContextualError inner path offset \<Rightarrow>
          let pathBuilder = NewPathBuilder;
              pathBuilder =
                (if path \<noteq> [] \<and> path \<noteq> [slash] then ParseAndExtend path pathBuilder
                 else pathBuilder)
          in WrapWithContext inner offset (Some (PathBuilder_Build (prepend pathBuilder)))
      | _ \<Rightarrow> WrapWithContext err 0 (Some (PathBuilder_Build (prepend NewPathBuilder))))"

definition wrapErrorWithMapKey :: "gerr \<Rightarrow> gostring \<Rightarrow> gerr" where
  "wrapErrorWithMapKey err key = wrapErrorWithPath err (PrependMap key)"

definition wrapErrorWithSliceIndex :: "gerr \<Rightarrow> nat \<Rightarrow> gerr" where
  "wrapErrorWithSliceIndex err i = wrapErrorWithPath err (PrependSlice i)"

definition wrapRootDecodeError :: "gerr \<Rightarrow> uint \<Rightarrow> gerr" where
  "wrapRootDecodeError err offset =
     (case err of
        ContextualError inner path off \<Rightarrow>
          if off \<noteq> 0 \<or> offset = 0 then err
          else
            let pathBuilder = NewPathBuilder;
                pathBuilder =
                  (if path \<noteq> [] \<and> path \<noteq> [slash] then ParseAndExtend path pathBuilder
                   else pathBuilder)
            in WrapWithContext inner offset (Some (PathBuilder_Build pathBuilder))
      | _ \<Rightarrow> WrapWithContext err offset None)"

lemma root_error_wrapErrorWithPath [simp]: "root_error (wrapErrorWithPath e f) = root_error e"
  by (cases e) (simp_all add: wrapErrorWithPath_def Let_def)

lemma root_error_wrapPath [simp]:
  "root_error (wrapErrorWithMapKey e k) = root_error e"
  "root_error (wrapErrorWithSliceIndex e i) = root_error e"
  "root_error (wrapRootDecodeError e off) = root_error e"
  by (simp_all add: wrapErrorWithMapKey_def wrapErrorWithSliceIndex_def)
    (cases e; simp add: wrapRootDecodeError_def Let_def)

subsection \<open>Paths survive parsing and rebuilding\<close>

text \<open>A segment survives when it is not empty and holds no separator.\<close>

definition clean_segment :: "gostring \<Rightarrow> bool" where
  "clean_segment s \<longleftrightarrow> s \<noteq> [] \<and> slash \<notin> set s"

lemma split_slash_segment:
  "slash \<notin> set s \<Longrightarrow> split_slash acc s = [acc @ s]"
  by (induction s arbitrary: acc) auto

lemma split_slash_cons:
  "slash \<notin> set s \<Longrightarrow> split_slash acc (s @ slash # rest) = (acc @ s) # split_slash [] rest"
  by (induction s arbitrary: acc) auto

lemma split_join:
  "p \<noteq> [] \<Longrightarrow> \<forall>s \<in> set p. clean_segment s \<Longrightarrow> split_slash [] (join_slash p) = p"
  by (induction p rule: join_slash.induct)
    (simp_all add: split_slash_segment split_slash_cons clean_segment_def)

lemma join_slash_nonempty: "p \<noteq> [] \<Longrightarrow> \<forall>s \<in> set p. clean_segment s \<Longrightarrow> join_slash p \<noteq> []"
  by (induction p rule: join_slash.induct) (simp_all add: clean_segment_def)

lemma ParseAndExtend_Build:
  assumes "\<forall>s \<in> set p. clean_segment s"
  shows "ParseAndExtend (PathBuilder_Build p) q = q @ p"
proof (cases "p = []")
  case True
  then show ?thesis by (simp add: ParseAndExtend_def PathBuilder_Build_def)
next
  case False
  with assms have "filter (\<lambda>s. s \<noteq> []) p = p"
    by (auto simp: filter_id_conv clean_segment_def)
  with False assms show ?thesis
    by (simp add: ParseAndExtend_def PathBuilder_Build_def split_join join_slash_nonempty)
qed

text \<open>The error a decoder returns from below a path of keys, innermost key last.\<close>

fun wrap_keys :: "gerr \<Rightarrow> gostring list \<Rightarrow> gerr" where
  "wrap_keys e [] = e"
| "wrap_keys e (k # ks) = wrapErrorWithMapKey (wrap_keys e ks) k"

lemma Build_not_trivial:
  assumes "p \<noteq> []" "\<forall>s \<in> set p. clean_segment s"
  shows "PathBuilder_Build p \<noteq> []" "PathBuilder_Build p \<noteq> [slash]"
  using assms join_slash_nonempty [OF assms] by (simp_all add: PathBuilder_Build_def)

text \<open>
  Error paths: wrapping a context-free error in one map key after another while the decoder
  unwinds produces one contextual error whose path spells the keys from the outside in, provided
  no key is empty or holds a slash (each level re-parses the path the level below has built).
\<close>

theorem wrap_keys_path:
  assumes "ks \<noteq> []" and "\<forall>k \<in> set ks. clean_segment k"
  shows "wrap_keys (InvalidDatabaseError m) ks =
           ContextualError (InvalidDatabaseError m) (slash # join_slash ks) 0"
  using assms
proof (induction ks)
  case Nil
  then show ?case by simp
next
  case (Cons k ks)
  show ?case
  proof (cases "ks = []")
    case True
    then show ?thesis
      by (simp add: wrapErrorWithMapKey_def wrapErrorWithPath_def WrapWithContext_def
          PrependMap_def NewPathBuilder_def PathBuilder_Build_def)
  next
    case False
    then have "wrap_keys (InvalidDatabaseError m) ks =
        ContextualError (InvalidDatabaseError m) (PathBuilder_Build ks) 0"
      using Cons by (simp add: PathBuilder_Build_def)
    then show ?thesis
      using False Cons.prems Build_not_trivial [OF False]
      by (simp add: wrapErrorWithMapKey_def wrapErrorWithPath_def WrapWithContext_def
          PrependMap_def NewPathBuilder_def ParseAndExtend_Build)
        (simp add: PathBuilder_Build_def)
  qed
qed

theorem wrap_keys_path_witness:
  "wrap_keys (InvalidDatabaseError UnexpectedEnd) [ascii ''city'', ascii ''names''] =
     ContextualError (InvalidDatabaseError UnexpectedEnd)
       (slash # join_slash [ascii ''city'', ascii ''names'']) 0"
  by (rule wrap_keys_path) (simp_all add: clean_segment_def ascii_def)

end
