(* ===== verification/StringCache.thy ===== *)
theory StringCache
  imports Errors
begin

text \<open>
  The string cache (\<open>internal/decoder/string_cache.go\<close>): two arrays of 4096 slots that goroutines
  read and write with single atomic loads and stores. \<open>internAt\<close> is the function as one goroutine
  runs it. \<open>intern_step\<close> splits it at every atomic access, and \<open>cache_step\<close> interleaves any
  number of goroutines. The interface its clients need is the locale \<open>string_interner\<close>.
\<close>

section \<open>State\<close>

record cacheEntry =
  ce_str :: gostring
  ce_offset :: uint

text \<open>The arrays are functions from the slot number; \<open>slot_less\<close> shows every slot is below 4096.\<close>

record stringCache =
  entries :: "uint \<Rightarrow> cacheEntry option"
  recentMisses :: "uint \<Rightarrow> uint"

definition stringCacheSlots :: uint where
  "stringCacheSlots = 4096"

definition newStringCache :: stringCache where
  "newStringCache = \<lparr>entries = (\<lambda>_. None), recentMisses = (\<lambda>_. 0)\<rparr>"

section \<open>internAt\<close>

definition stringCacheAlternateIndex :: "uint \<Rightarrow> uint \<Rightarrow> uint" where
  "stringCacheAlternateIndex offset primary =
     (primary + (drop_bit 12 offset * 0x9e37 OR 1)) AND (stringCacheSlots - 1)"

definition primary_slot :: "uint \<Rightarrow> uint" where
  "primary_slot offset = offset AND (stringCacheSlots - 1)"

definition alternate_slot :: "uint \<Rightarrow> uint" where
  "alternate_slot offset = stringCacheAlternateIndex offset (primary_slot offset)"

definition not_cacheable :: "bytes \<Rightarrow> bool" where
  "not_cacheable value \<longleftrightarrow> glen value < 2 \<or> glen value > 100"

definition cache_hit :: "cacheEntry option \<Rightarrow> uint \<Rightarrow> bool" where
  "cache_hit cached offset \<longleftrightarrow> (case cached of None \<Rightarrow> False | Some e \<Rightarrow> ce_offset e = offset)"

definition internAt :: "stringCache \<Rightarrow> uint \<Rightarrow> bytes \<Rightarrow> gostring \<times> stringCache" where
  "internAt sc offset value =
     (if not_cacheable value then (value, sc)
      else
        let primary = offset AND (stringCacheSlots - 1);
            entry = entries sc primary
        in if cache_hit entry offset then (ce_str (the entry), sc)
        else
          let alternate = stringCacheAlternateIndex offset primary;
              cached = entries sc alternate
          in if cache_hit cached offset then (ce_str (the cached), sc)
          else
            let str = value;
                admissionValue = offset + 1
            in if recentMisses sc alternate = admissionValue then
                 let slot = (if entries sc primary \<noteq> None then alternate else primary)
                 in (str, sc\<lparr>entries := (entries sc)(slot := Some \<lparr>ce_str = str, ce_offset = offset\<rparr>)\<rparr>)
               else
                 (str, sc\<lparr>recentMisses := (recentMisses sc)(alternate := admissionValue)\<rparr>))"

lemma and_mask_less: "(x :: uint) AND (stringCacheSlots - 1) < stringCacheSlots"
proof -
  have "x AND 4095 \<le> 4095" by (rule word_and_le1)
  then show ?thesis by (simp add: stringCacheSlots_def order.strict_trans1)
qed

lemma slot_less:
  "primary_slot offset < stringCacheSlots" "alternate_slot offset < stringCacheSlots"
  by (simp_all add: primary_slot_def alternate_slot_def stringCacheAlternateIndex_def and_mask_less)

text \<open>The two slots of an offset differ: their distance is odd.\<close>

lemma bit_0_add_odd: "odd (y :: uint) \<Longrightarrow> bit (x + y) 0 \<longleftrightarrow> \<not> bit x 0"
  by (simp add: bit_0)

lemma slots_differ: "primary_slot offset \<noteq> alternate_slot offset"
proof -
  let ?y = "drop_bit 12 offset * 0x9e37 OR 1 :: uint"
  have odd: "odd ?y"
    by (metis bit_0 bit_or_iff bit_1_0)
  have m: "bit (stringCacheSlots - 1) 0"
    by (simp add: stringCacheSlots_def bit_0)
  have "bit (alternate_slot offset) 0 \<longleftrightarrow> \<not> bit (primary_slot offset) 0"
    using bit_0_add_odd [OF odd, of "primary_slot offset"] m
    by (simp add: alternate_slot_def stringCacheAlternateIndex_def bit_and_iff)
  then show ?thesis by auto
qed

section \<open>The interface\<close>

text \<open>
  A control-record offset identifies a payload: \<open>payload off\<close>. An interner that is asked with that
  payload answers with it, whatever it has stored, and keeps its own invariant.
\<close>

locale string_interner =
  fixes intern :: "'c \<Rightarrow> uint \<Rightarrow> bytes \<Rightarrow> gostring \<times> 'c"
    and good :: "(uint \<Rightarrow> bytes) \<Rightarrow> 'c \<Rightarrow> bool"
  assumes intern_value: "good payload c \<Longrightarrow> fst (intern c off (payload off)) = payload off"
    and intern_good: "good payload c \<Longrightarrow> good payload (snd (intern c off (payload off)))"
begin

text \<open>A client that interns one record after another.\<close>

fun intern_all :: "'c \<Rightarrow> (uint \<Rightarrow> bytes) \<Rightarrow> uint list \<Rightarrow> gostring list \<times> 'c" where
  "intern_all c payload [] = ([], c)"
| "intern_all c payload (off # offs) =
     (let (s, c) = intern c off (payload off); (ss, c) = intern_all c payload offs in (s # ss, c))"

lemma intern_all_values:
  "good payload c \<Longrightarrow>
     fst (intern_all c payload offs) = map payload offs \<and> good payload (snd (intern_all c payload offs))"
proof (induction offs arbitrary: c)
  case Nil
  then show ?case by simp
next
  case (Cons off offs)
  obtain s c' where i: "intern c off (payload off) = (s, c')" by fastforce
  with Cons.prems have "s = payload off" and "good payload c'"
    using intern_value [of payload c off] intern_good [of payload c off] by simp_all
  with Cons.IH [of c'] i show ?case by (simp add: case_prod_beta)
qed

end

definition cache_consistent :: "(uint \<Rightarrow> bytes) \<Rightarrow> stringCache \<Rightarrow> bool" where
  "cache_consistent payload sc \<longleftrightarrow>
     (\<forall>i e. entries sc i = Some e \<longrightarrow> ce_str e = payload (ce_offset e))"

lemma cache_consistent_new: "cache_consistent payload newStringCache"
  by (simp add: cache_consistent_def newStringCache_def)

lemma cache_hit_value:
  "cache_consistent payload sc \<Longrightarrow> cache_hit (entries sc i) off \<Longrightarrow>
     ce_str (the (entries sc i)) = payload off"
  by (auto simp: cache_consistent_def cache_hit_def split: option.splits)

lemma cache_consistent_store:
  "cache_consistent payload sc \<Longrightarrow>
     cache_consistent payload
       (sc\<lparr>entries := (entries sc)(i := Some \<lparr>ce_str = payload off, ce_offset = off\<rparr>)\<rparr>)"
  by (simp add: cache_consistent_def)

lemma cache_consistent_miss:
  "cache_consistent payload sc \<Longrightarrow> cache_consistent payload (sc\<lparr>recentMisses := r\<rparr>)"
  by (simp add: cache_consistent_def)

interpretation cached: string_interner internAt cache_consistent
  by unfold_locales
    (auto simp: internAt_def Let_def cache_hit_value cache_consistent_store cache_consistent_miss)

text \<open>The decoder's \<open>stringCache\<close> pointer may be nil: then every string is copied.\<close>

definition internOpt :: "stringCache option \<Rightarrow> uint \<Rightarrow> bytes \<Rightarrow> gostring \<times> stringCache option" where
  "internOpt sc offset value =
     (case sc of
        None \<Rightarrow> (value, None)
      | Some c \<Rightarrow> let (s, c') = internAt c offset value in (s, Some c'))"

definition opt_consistent :: "(uint \<Rightarrow> bytes) \<Rightarrow> stringCache option \<Rightarrow> bool" where
  "opt_consistent payload sc \<longleftrightarrow>
     (case sc of None \<Rightarrow> True | Some c \<Rightarrow> cache_consistent payload c)"

interpretation optional: string_interner internOpt opt_consistent
  by unfold_locales
    (auto simp: internOpt_def opt_consistent_def case_prod_beta
      cached.intern_value cached.intern_good split: option.splits)

text \<open>
  The cache admits a string only on the second consecutive miss of its offset in its slot: an
  entry is written only when the miss counter of the slot already holds this offset.
\<close>

theorem internAt_admission:
  "entries (snd (internAt sc off v)) = entries sc \<or>
   (recentMisses sc (alternate_slot off) = off + 1 \<and>
    (\<exists>slot \<in> {primary_slot off, alternate_slot off}.
       entries (snd (internAt sc off v)) =
         (entries sc)(slot := Some \<lparr>ce_str = v, ce_offset = off\<rparr>)))"
  by (auto simp: internAt_def Let_def primary_slot_def alternate_slot_def)

section \<open>Concurrent use\<close>

text \<open>
  The program counter of a goroutine inside \<open>internAt (offset, value)\<close>, named after the atomic
  access it is about to make.
\<close>

datatype intern_pc =
    Idle
  | LoadPrimary uint bytes
  | LoadAlternate uint bytes
  | LoadMiss uint bytes
  | ReloadPrimary uint bytes
  | StoreEntry uint bytes uint
  | StoreMiss uint bytes
  | Returned uint gostring

fun enter :: "uint \<Rightarrow> bytes \<Rightarrow> intern_pc" where
  "enter offset value =
     (if not_cacheable value then Returned offset value else LoadPrimary offset value)"

inductive intern_step :: "stringCache \<Rightarrow> intern_pc \<Rightarrow> stringCache \<Rightarrow> intern_pc \<Rightarrow> bool" where
  primary_hit: "entries sc (primary_slot off) = Some e \<Longrightarrow> ce_offset e = off \<Longrightarrow>
    intern_step sc (LoadPrimary off v) sc (Returned off (ce_str e))"
| primary_miss: "\<not> cache_hit (entries sc (primary_slot off)) off \<Longrightarrow>
    intern_step sc (LoadPrimary off v) sc (LoadAlternate off v)"
| alternate_hit: "entries sc (alternate_slot off) = Some e \<Longrightarrow> ce_offset e = off \<Longrightarrow>
    intern_step sc (LoadAlternate off v) sc (Returned off (ce_str e))"
| alternate_miss: "\<not> cache_hit (entries sc (alternate_slot off)) off \<Longrightarrow>
    intern_step sc (LoadAlternate off v) sc (LoadMiss off v)"
| second_miss: "recentMisses sc (alternate_slot off) = off + 1 \<Longrightarrow>
    intern_step sc (LoadMiss off v) sc (ReloadPrimary off v)"
| first_miss: "recentMisses sc (alternate_slot off) \<noteq> off + 1 \<Longrightarrow>
    intern_step sc (LoadMiss off v) sc (StoreMiss off v)"
| reload: "slot = (if entries sc (primary_slot off) \<noteq> None then alternate_slot off else primary_slot off) \<Longrightarrow>
    intern_step sc (ReloadPrimary off v) sc (StoreEntry off v slot)"
| store_entry: "intern_step sc (StoreEntry off v slot)
    (sc\<lparr>entries := (entries sc)(slot := Some \<lparr>ce_str = v, ce_offset = off\<rparr>)\<rparr>) (Returned off v)"
| store_miss: "intern_step sc (StoreMiss off v)
    (sc\<lparr>recentMisses := (recentMisses sc)(alternate_slot off := off + 1)\<rparr>) (Returned off v)"

inductive_cases intern_stepE: "intern_step sc pc sc' pc'"

text \<open>Run alone, a goroutine's accesses compose to \<open>internAt\<close>.\<close>

definition intern_run :: "stringCache \<times> intern_pc \<Rightarrow> stringCache \<times> intern_pc \<Rightarrow> bool" where
  "intern_run = (\<lambda>s s'. intern_step (fst s) (snd s) (fst s') (snd s'))\<^sup>*\<^sup>*"

lemma intern_run_refl: "intern_run s s"
  by (simp add: intern_run_def)

lemma intern_run_step:
  "intern_step sc pc sc' pc' \<Longrightarrow> intern_run (sc', pc') r \<Longrightarrow> intern_run (sc, pc) r"
  unfolding intern_run_def by (rule converse_rtranclp_into_rtranclp) simp_all

lemma intern_run_miss:
  "intern_run (sc, LoadMiss off v)
     (if recentMisses sc (alternate_slot off) = off + 1 then
        (sc\<lparr>entries := (entries sc)
           ((if entries sc (primary_slot off) \<noteq> None then alternate_slot off else primary_slot off)
              := Some \<lparr>ce_str = v, ce_offset = off\<rparr>)\<rparr>, Returned off v)
      else
        (sc\<lparr>recentMisses := (recentMisses sc)(alternate_slot off := off + 1)\<rparr>, Returned off v))"
  (is "intern_run _ (if ?again then ?admit else ?count)")
proof (cases ?again)
  case True
  have "intern_run (sc, LoadMiss off v) ?admit"
    by (rule intern_run_step [OF second_miss [OF True] intern_run_step [OF reload [OF refl]
            intern_run_step [OF store_entry intern_run_refl]]])
  with True show ?thesis by simp
next
  case False
  have "intern_run (sc, LoadMiss off v) ?count"
    by (rule intern_run_step [OF first_miss [OF False] intern_run_step [OF store_miss intern_run_refl]])
  with False show ?thesis by simp
qed

lemma cache_hitD: "cache_hit c off \<Longrightarrow> \<exists>e. c = Some e \<and> ce_offset e = off"
  by (simp add: cache_hit_def split: option.splits)

text \<open>
  The split is faithful: from any cache, a goroutine that runs its atomic accesses without
  interference ends in exactly the string and the cache \<open>internAt\<close> computes.
\<close>

theorem intern_run_internAt:
  "intern_run (sc, enter off v)
     (snd (internAt sc off v), Returned off (fst (internAt sc off v)))"
proof -
  consider (small) "not_cacheable v"
    | (primary) "\<not> not_cacheable v" "cache_hit (entries sc (primary_slot off)) off"
    | (alternate) "\<not> not_cacheable v" "\<not> cache_hit (entries sc (primary_slot off)) off"
        "cache_hit (entries sc (alternate_slot off)) off"
    | (miss) "\<not> not_cacheable v" "\<not> cache_hit (entries sc (primary_slot off)) off"
        "\<not> cache_hit (entries sc (alternate_slot off)) off"
    by blast
  then show ?thesis
  proof cases
    case small
    then show ?thesis by (simp add: internAt_def intern_run_refl)
  next
    case primary
    then obtain e where e: "entries sc (primary_slot off) = Some e" "ce_offset e = off"
      using cache_hitD by blast
    show ?thesis
      using primary e intern_run_step [OF primary_hit [OF e] intern_run_refl, of v]
      by (simp add: internAt_def Let_def primary_slot_def)
  next
    case alternate
    then obtain e where e: "entries sc (alternate_slot off) = Some e" "ce_offset e = off"
      using cache_hitD by blast
    show ?thesis
      using alternate e intern_run_step [OF primary_miss [OF alternate(2)]
        intern_run_step [OF alternate_hit [OF e] intern_run_refl], of v]
      by (simp add: internAt_def Let_def primary_slot_def alternate_slot_def)
  next
    case miss
    show ?thesis
      using miss intern_run_step [OF primary_miss [OF miss(2)]
        intern_run_step [OF alternate_miss [OF miss(3)] intern_run_miss], of v]
      by (simp add: internAt_def Let_def primary_slot_def alternate_slot_def split: if_splits)
  qed
qed

text \<open>
  The system: a shared cache and goroutines that call \<open>internAt\<close> with the payload of a record, at
  any time and in any order, each running one atomic access at a time.
\<close>

record cache_sys =
  shared :: stringCache
  pcs :: "nat \<Rightarrow> intern_pc"

definition cache_init :: cache_sys where
  "cache_init = \<lparr>shared = newStringCache, pcs = (\<lambda>_. Idle)\<rparr>"

inductive cache_step :: "(uint \<Rightarrow> bytes) \<Rightarrow> cache_sys \<Rightarrow> cache_sys \<Rightarrow> bool" for payload where
  call: "cache_step payload s (s\<lparr>pcs := (pcs s)(t := enter off (payload off))\<rparr>)"
| access: "intern_step (shared s) (pcs s t) sc' pc' \<Longrightarrow>
    cache_step payload s (s\<lparr>shared := sc', pcs := (pcs s)(t := pc')\<rparr>)"

inductive cache_reachable :: "(uint \<Rightarrow> bytes) \<Rightarrow> cache_sys \<Rightarrow> bool" for payload where
  start: "cache_reachable payload cache_init"
| step: "cache_reachable payload s \<Longrightarrow> cache_step payload s s' \<Longrightarrow> cache_reachable payload s'"

text \<open>What a program counter knows: the value it carries is the payload of its offset.\<close>

fun pc_ok :: "(uint \<Rightarrow> bytes) \<Rightarrow> intern_pc \<Rightarrow> bool" where
  "pc_ok payload Idle = True"
| "pc_ok payload (LoadPrimary off v) = (v = payload off)"
| "pc_ok payload (LoadAlternate off v) = (v = payload off)"
| "pc_ok payload (LoadMiss off v) = (v = payload off)"
| "pc_ok payload (ReloadPrimary off v) = (v = payload off)"
| "pc_ok payload (StoreEntry off v slot) = (v = payload off \<and> slot < stringCacheSlots)"
| "pc_ok payload (StoreMiss off v) = (v = payload off)"
| "pc_ok payload (Returned off s) = (s = payload off)"

lemma intern_step_ok:
  assumes "intern_step sc pc sc' pc'" and "cache_consistent payload sc" and "pc_ok payload pc"
  shows "cache_consistent payload sc' \<and> pc_ok payload pc'"
  using assms
  by (cases rule: intern_step.cases)
    (auto simp: cache_consistent_def slot_less)

lemma cache_reachable_ok:
  "cache_reachable payload s \<Longrightarrow>
     cache_consistent payload (shared s) \<and> (\<forall>t. pc_ok payload (pcs s t))"
proof (induction rule: cache_reachable.induct)
  case start
  show ?case by (simp add: cache_init_def cache_consistent_new)
next
  case (step s s')
  from step.hyps(2) show ?case
  proof (cases rule: cache_step.cases)
    case (call t off)
    with step.IH show ?thesis by simp
  next
    case (access t sc' pc')
    with step.IH intern_step_ok [OF access(2)] show ?thesis by simp
  qed
qed

text \<open>
  C26. Concurrent soundness of the string cache: however the atomic accesses of any number of
  goroutines interleave, a call of \<open>internAt\<close> that returns returns the payload of the control
  record it was called for, never a string of another record.
\<close>

theorem concurrent_intern_sound:
  assumes "cache_reachable payload s" and "pcs s t = Returned off str"
  shows "str = payload off"
  using cache_reachable_ok [OF assms(1)] assms(2) by (metis pc_ok.simps(8))

theorem concurrent_intern_sound_witness:
  "\<exists>s. cache_reachable (\<lambda>off. [ucast off, 7, 9]) s \<and> pcs s 3 = Returned 5 [5, 7, 9] \<and>
       [5, 7, 9] = (\<lambda>off::uint. [ucast off, 7, 9 :: byte]) 5"
proof -
  let ?p = "\<lambda>off::uint. [ucast off, 7, 9 :: byte]"
  define s1 where "s1 = cache_init\<lparr>pcs := (pcs cache_init)(3 := enter 5 (?p 5))\<rparr>"
  have pc1: "pcs s1 3 = LoadPrimary 5 [5, 7, 9]" and sh1: "shared s1 = newStringCache"
    by (simp_all add: s1_def cache_init_def not_cacheable_def glen_def max_int_def)
  have r1: "cache_reachable ?p s1"
    unfolding s1_def by (rule cache_reachable.step [OF cache_reachable.start cache_step.call])
  define s2 where "s2 = s1\<lparr>shared := newStringCache, pcs := (pcs s1)(3 := LoadAlternate 5 [5, 7, 9])\<rparr>"
  have "intern_step (shared s1) (pcs s1 3) newStringCache (LoadAlternate 5 [5, 7, 9])"
    unfolding pc1 sh1 by (rule primary_miss) (simp add: newStringCache_def cache_hit_def)
  then have r2: "cache_reachable ?p s2"
    unfolding s2_def by (rule cache_reachable.step [OF r1 cache_step.access])
  define s3 where "s3 = s2\<lparr>shared := newStringCache, pcs := (pcs s2)(3 := LoadMiss 5 [5, 7, 9])\<rparr>"
  have "intern_step (shared s2) (pcs s2 3) newStringCache (LoadMiss 5 [5, 7, 9])"
    unfolding s2_def by simp (rule alternate_miss, simp add: newStringCache_def cache_hit_def)
  then have r3: "cache_reachable ?p s3"
    unfolding s3_def by (rule cache_reachable.step [OF r2 cache_step.access])
  define s4 where "s4 = s3\<lparr>shared := newStringCache, pcs := (pcs s3)(3 := StoreMiss 5 [5, 7, 9])\<rparr>"
  have "intern_step (shared s3) (pcs s3 3) newStringCache (StoreMiss 5 [5, 7, 9])"
    unfolding s3_def by simp (rule first_miss, simp add: newStringCache_def)
  then have r4: "cache_reachable ?p s4"
    unfolding s4_def by (rule cache_reachable.step [OF r3 cache_step.access])
  obtain sc5 where "intern_step (shared s4) (pcs s4 3) sc5 (Returned 5 [5, 7, 9])"
    unfolding s4_def by simp (blast intro: store_miss)
  from cache_reachable.step [OF r4 cache_step.access [OF this]]
  obtain s5 where "cache_reachable ?p s5" and "pcs s5 3 = Returned 5 [5, 7, 9]"
    by fastforce
  then show ?thesis
    using concurrent_intern_sound by blast
qed

end
