(* ===== verification/DataDecoder.thy ===== *)
theory DataDecoder
  imports StringCache
begin

text \<open>
  The primitive decoders of \<open>internal/decoder/data_decoder.go\<close>: control records, pointers,
  booleans, integers, floats (as their IEEE bit patterns), byte strings and strings. Every read of
  the buffer goes through the bounds-checked \<open>index\<close> or \<open>slice\<close>.
\<close>

section \<open>The decoder\<close>

record DataDecoder =
  stringCache :: "stringCache option"
  buffer :: bytes

definition NewDataDecoder :: "bytes \<Rightarrow> DataDecoder" where
  "NewDataDecoder buf = \<lparr>stringCache = Some newStringCache, buffer = buf\<rparr>"

definition NewDataDecoderWithoutStringCache :: "bytes \<Rightarrow> DataDecoder" where
  "NewDataDecoderWithoutStringCache buf = \<lparr>stringCache = None, buffer = buf\<rparr>"

definition maxValueSize :: uint where
  "maxValueSize = 65821 + (push_bit 24 1 - 1)"

definition maximumDataStructureDepth :: nat where
  "maximumDataStructureDepth = 512"

definition decodeExpansionBudgetBytes :: "32 word" where
  "decodeExpansionBudgetBytes = push_bit 20 2"

definition decodePayloadBudgetBytes :: "32 word" where
  "decodePayloadBudgetBytes = push_bit 20 2"

definition decodeBudgetUnitShift :: nat where
  "decodeBudgetUnitShift = 6"

definition containerPreflightValueCount :: uint where
  "containerPreflightValueCount = 1024"

definition pointerBase2 :: uint where
  "pointerBase2 = 2048"

definition pointerBase3 :: uint where
  "pointerBase3 = 526336"

section \<open>Control records\<close>

text \<open>The size part of \<open>decodeCtrlData\<close>, from \<open>size := uint(ctrlByte & 0x1f)\<close> on.\<close>

definition decodeCtrlSize ::
  "DataDecoder \<Rightarrow> byte \<Rightarrow> Kind \<Rightarrow> uint \<Rightarrow> (Kind \<times> uint \<times> uint) res" where
  "decodeCtrlSize d ctrlByte kindNum newOffset =
     (let bufferLen = glen (buffer d);
          sz = ucast (ctrlByte AND 0x1f) :: uint
      in if sz < 29 then Inr (kindNum, sz, newOffset)
      else if kindNum = KindPointer then Inr (kindNum, sz, newOffset)
      else
        let endOffset = newOffset + sz - 28 in
        if endOffset > bufferLen then Inl OffsetError
        else if sz = 29 then
          bindE (index (buffer d) newOffset) (\<lambda>b. Inr (kindNum, 29 + ucast b, newOffset + 1))
        else if sz = 30 then
          bindE (index (buffer d) newOffset) (\<lambda>b0.
          bindE (index (buffer d) (newOffset + 1)) (\<lambda>b1.
            Inr (kindNum, 285 + (push_bit 8 (ucast b0) OR ucast b1), endOffset)))
        else
          bindE (index (buffer d) newOffset) (\<lambda>b0.
          bindE (index (buffer d) (newOffset + 1)) (\<lambda>b1.
          bindE (index (buffer d) (newOffset + 2)) (\<lambda>b2.
            Inr (kindNum,
                 65821 + (push_bit 16 (ucast b0) OR push_bit 8 (ucast b1) OR ucast b2),
                 endOffset)))))"

definition decodeCtrlData :: "DataDecoder \<Rightarrow> uint \<Rightarrow> (Kind \<times> uint \<times> uint) res" where
  "decodeCtrlData d offset =
     (let bufferLen = glen (buffer d);
          newOffset = offset + 1
      in if offset \<ge> bufferLen then Inl OffsetError
      else bindE (index (buffer d) offset) (\<lambda>ctrlByte.
        let kindNum = Kind_of_byte (drop_bit 5 ctrlByte) in
        if kindNum = KindExtended then
          if newOffset \<ge> bufferLen then Inl OffsetError
          else bindE (index (buffer d) newOffset) (\<lambda>b.
            decodeCtrlSize d ctrlByte (Kind_of_byte (b + 7)) (newOffset + 1))
        else decodeCtrlSize d ctrlByte kindNum newOffset))"

section \<open>Payloads\<close>

definition hasBufferRange :: "uint \<Rightarrow> uint \<Rightarrow> uint \<Rightarrow> bool" where
  "hasBufferRange bufferLen offset sz \<longleftrightarrow> sz \<le> bufferLen \<and> offset \<le> bufferLen - sz"

definition decodeBytes :: "DataDecoder \<Rightarrow> uint \<Rightarrow> uint \<Rightarrow> (bytes \<times> uint) res" where
  "decodeBytes d sz offset =
     (if offset + sz > glen (buffer d) then Inl OffsetError
      else
        let newOffset = offset + sz in
        bindE (slice (buffer d) offset newOffset) (\<lambda>bs. Inr (bs, newOffset)))"

text \<open>The accumulation loop \<open>val = (val << 8) | b\<close> at the width of the result.\<close>

definition be_word :: "bytes \<Rightarrow> 'w::len word" where
  "be_word bs = foldl (\<lambda>val b. push_bit 8 val OR ucast b) 0 bs"

definition decodeFloat64 :: "DataDecoder \<Rightarrow> uint \<Rightarrow> uint \<Rightarrow> (64 word \<times> uint) res" where
  "decodeFloat64 d sz offset =
     (if sz \<noteq> 8 then Inl (InvalidDatabaseError (BadDataSize KindFloat64 sz))
      else if offset + sz > glen (buffer d) then Inl OffsetError
      else
        let newOffset = offset + sz in
        bindE (slice (buffer d) offset newOffset) (\<lambda>bs. Inr (be_word bs, newOffset)))"

definition decodeFloat32 :: "DataDecoder \<Rightarrow> uint \<Rightarrow> uint \<Rightarrow> (32 word \<times> uint) res" where
  "decodeFloat32 d sz offset =
     (if sz \<noteq> 4 then Inl (InvalidDatabaseError (BadDataSize KindFloat32 sz))
      else if offset + sz > glen (buffer d) then Inl OffsetError
      else
        let newOffset = offset + sz in
        bindE (slice (buffer d) offset newOffset) (\<lambda>bs. Inr (be_word bs, newOffset)))"

text \<open>An \<open>int32\<close> is its 32-bit pattern; \<open>sint\<close> reads it.\<close>

definition decodeInt32 :: "DataDecoder \<Rightarrow> uint \<Rightarrow> uint \<Rightarrow> (32 word \<times> uint) res" where
  "decodeInt32 d sz offset =
     (if sz > 4 then Inl (InvalidDatabaseError (BadDataSize KindInt32 sz))
      else if offset + sz > glen (buffer d) then Inl OffsetError
      else
        let newOffset = offset + sz in
        bindE (slice (buffer d) offset newOffset) (\<lambda>bs. Inr (be_word bs, newOffset)))"

definition uintFromBytes :: "uint \<Rightarrow> bytes \<Rightarrow> uint" where
  "uintFromBytes prefix uintBytes = foldl (\<lambda>val b. push_bit 8 val OR ucast b) prefix uintBytes"

definition decodePointer :: "DataDecoder \<Rightarrow> uint \<Rightarrow> uint \<Rightarrow> (uint \<times> uint) res" where
  "decodePointer d sz offset =
     (let pointerSize = (drop_bit 3 sz AND 0x3) + 1;
          newOffset = offset + pointerSize
      in if newOffset > glen (buffer d) then Inl OffsetError
      else bindE (slice (buffer d) offset newOffset) (\<lambda>pointerBytes.
        let prefix = (if pointerSize = 4 then 0 else sz AND 0x7);
            unpacked = uintFromBytes prefix pointerBytes
        in if pointerSize = 1 \<or> pointerSize = 4 then Inr (unpacked + 0, newOffset)
        else if pointerSize = 2 then Inr (unpacked + pointerBase2, newOffset)
        else if pointerSize = 3 then Inr (unpacked + pointerBase3, newOffset)
        else Inl (InvalidDatabaseError (InvalidPointerSize pointerSize))))"

definition decodeBool :: "DataDecoder \<Rightarrow> uint \<Rightarrow> uint \<Rightarrow> (bool \<times> uint) res" where
  "decodeBool d sz offset =
     (if sz > 1 then Inl (InvalidDatabaseError (BadDataSize KindBool sz))
      else Inr (sz \<noteq> 0, offset))"

definition decodeUint16 :: "DataDecoder \<Rightarrow> uint \<Rightarrow> uint \<Rightarrow> (16 word \<times> uint) res" where
  "decodeUint16 d sz offset =
     (if sz > 2 then Inl (InvalidDatabaseError (BadDataSize KindUint16 sz))
      else if offset + sz > glen (buffer d) then Inl OffsetError
      else
        let newOffset = offset + sz in
        bindE (slice (buffer d) offset newOffset) (\<lambda>bs. Inr (be_word bs, newOffset)))"

definition decodeUint32 :: "DataDecoder \<Rightarrow> uint \<Rightarrow> uint \<Rightarrow> (32 word \<times> uint) res" where
  "decodeUint32 d sz offset =
     (if sz > 4 then Inl (InvalidDatabaseError (BadDataSize KindUint32 sz))
      else if offset + sz > glen (buffer d) then Inl OffsetError
      else
        let newOffset = offset + sz in
        bindE (slice (buffer d) offset newOffset) (\<lambda>bs. Inr (be_word bs, newOffset)))"

definition decodeUint64 :: "DataDecoder \<Rightarrow> uint \<Rightarrow> uint \<Rightarrow> (64 word \<times> uint) res" where
  "decodeUint64 d sz offset =
     (if sz > 8 then Inl (InvalidDatabaseError (BadDataSize KindUint64 sz))
      else if offset + sz > glen (buffer d) then Inl OffsetError
      else
        let newOffset = offset + sz in
        bindE (slice (buffer d) offset newOffset) (\<lambda>bs. Inr (be_word bs, newOffset)))"

definition append64 :: "64 word \<Rightarrow> byte \<Rightarrow> 64 word \<times> byte" where
  "append64 val b = (push_bit 8 val OR ucast b, ucast (drop_bit 56 val))"

fun uint128_loop :: "64 word \<Rightarrow> 64 word \<Rightarrow> bytes \<Rightarrow> 64 word \<times> 64 word" where
  "uint128_loop hi lo [] = (hi, lo)"
| "uint128_loop hi lo (b # bs) =
     (let (lo, carry) = append64 lo b;
          (hi, _) = append64 hi carry
      in uint128_loop hi lo bs)"

definition decodeUint128 :: "DataDecoder \<Rightarrow> uint \<Rightarrow> uint \<Rightarrow> (64 word \<times> 64 word \<times> uint) res" where
  "decodeUint128 d sz offset =
     (if sz > 16 then Inl (InvalidDatabaseError (BadDataSize KindUint128 sz))
      else if offset + sz > glen (buffer d) then Inl OffsetError
      else
        let newOffset = offset + sz in
        bindE (slice (buffer d) offset newOffset) (\<lambda>bs.
          let (hi, lo) = uint128_loop 0 0 bs in Inr (hi, lo, newOffset)))"

section \<open>Strings\<close>

text \<open>
  The decoders that consult the string cache return the decoder with the cache as it is left.
\<close>

definition decodeStringBytes :: "DataDecoder \<Rightarrow> uint \<Rightarrow> bytes \<Rightarrow> gostring \<times> DataDecoder" where
  "decodeStringBytes d controlOffset value =
     (let (s, c) = internOpt (stringCache d) controlOffset value
      in (s, d\<lparr>stringCache := c\<rparr>))"

definition string_headerSize :: "uint \<Rightarrow> uint" where
  "string_headerSize sz =
     (if sz \<ge> 29 then (if sz \<ge> 285 then (if sz \<ge> 65821 then 4 else 3) else 2) else 1)"

definition decodeString :: "DataDecoder \<Rightarrow> uint \<Rightarrow> uint \<Rightarrow> (gostring \<times> uint \<times> DataDecoder) res" where
  "decodeString d sz dataOffset =
     (if dataOffset + sz > glen (buffer d) then Inl OffsetError
      else
        let newOffset = dataOffset + sz in
        case stringCache d of
          None \<Rightarrow> bindE (slice (buffer d) dataOffset newOffset) (\<lambda>bs. Inr (bs, newOffset, d))
        | Some sc \<Rightarrow>
            let headerSize = string_headerSize sz in
            if dataOffset < headerSize then Inl OffsetError
            else
              let cacheOffset = dataOffset - headerSize in
              bindE (slice (buffer d) dataOffset newOffset) (\<lambda>bs.
                let (value, sc') = internAt sc cacheOffset bs
                in Inr (value, newOffset, d\<lparr>stringCache := Some sc'\<rparr>)))"

definition decodeCompactString :: "DataDecoder \<Rightarrow> uint \<Rightarrow> uint \<Rightarrow> (gostring \<times> DataDecoder) res" where
  "decodeCompactString d sz dataOffset =
     bindE (slice (buffer d) dataOffset (dataOffset + sz)) (\<lambda>bs.
       Inr (decodeStringBytes d (dataOffset - 1) bs))"



lemma unat_ucast_byte [simp]: "unat (ucast (b :: byte) :: uint) = unat b"
  using unat_byte_less [of b] by (simp add: unsigned_ucast_eq take_bit_nat_eq_self)

lemma ctrl_size_le: "unat (c AND 0x1f :: byte) \<le> 31"
proof -
  have "c AND 0x1f \<le> (0x1f :: byte)" by (rule word_and_le1)
  then show ?thesis by (simp add: word_le_nat_alt)
qed

lemma unat_be_word:
  assumes "8 \<le> LENGTH('w::len)" and "8 * length bs \<le> LENGTH('w)"
  shows "unat (be_word bs :: 'w word) = be_nat bs 0"
proof -
  have "be_nat bs 0 < 256 ^ length bs" by (rule be_nat_less)
  also have "\<dots> = 2 ^ (8 * length bs)" by (simp add: power_mult)
  also have "\<dots> \<le> 2 ^ LENGTH('w)" using assms(2) by (rule power_increasing) simp
  finally have "be_nat bs 0 < 2 ^ LENGTH('w)" .
  moreover have "be_word bs = (word_of_nat (be_nat bs 0) :: 'w word)"
    using foldl_shift8 [OF assms(1), of 0 bs] by (simp add: be_word_def)
  ultimately show ?thesis by (simp add: unat_of_nat take_bit_nat_eq_self)
qed

lemma be_word_of_nat: "8 \<le> LENGTH('w) \<Longrightarrow> be_word bs = (word_of_nat (be_nat bs 0) :: 'w::len word)"
  using foldl_shift8 [of "0 :: 'w word" bs] by (simp add: be_word_def)

lemma take_nth_Suc:
  "0 < length xs \<Longrightarrow> take 1 xs = [xs ! 0]"
  "1 < length xs \<Longrightarrow> take 2 xs = [xs ! 0, xs ! 1]"
  "2 < length xs \<Longrightarrow> take 3 xs = [xs ! 0, xs ! 1, xs ! 2]"
  by (cases xs; simp; cases "tl xs"; simp; cases "tl (tl xs)"; simp add: numeral_2_eq_2 numeral_3_eq_3)+

lemma be_word_2: "push_bit 8 (ucast b0) OR ucast b1 = (be_word [b0, b1] :: uint)"
  by (simp add: be_word_def)

lemma be_word_3:
  "push_bit 16 (ucast b0) OR push_bit 8 (ucast b1) OR ucast b2 = (be_word [b0, b1, b2] :: uint)"
  by (simp add: be_word_def push_bit_or or.assoc)

section \<open>Control records: the reference parser\<close>

definition header_tail :: "Kind \<Rightarrow> byte \<Rightarrow> bytes \<Rightarrow> (Kind \<times> nat \<times> nat) option" where
  "header_tail k c rest =
     (let sz = unat (c AND 0x1f) in
      if sz < 29 \<or> k = KindPointer then Some (k, sz, 0)
      else if length rest < sz - 28 then None
      else Some (k, (if sz = 29 then 29 else if sz = 30 then 285 else 65821)
                      + be_nat (take (sz - 28) rest) 0, sz - 28))"

definition header_spec :: "bytes \<Rightarrow> (Kind \<times> nat \<times> nat) option" where
  "header_spec bs =
     (case bs of
        [] \<Rightarrow> None
      | c # rest \<Rightarrow>
          let k = Kind_of_byte (drop_bit 5 c) in
          if k = KindExtended then
            (case rest of
               [] \<Rightarrow> None
             | b # rest \<Rightarrow> map_option (\<lambda>(k, s, l). (k, s, l + 2)) (header_tail (Kind_of_byte (b + 7)) c rest))
          else map_option (\<lambda>(k, s, l). (k, s, l + 1)) (header_tail k c rest))"

definition of_header :: "uint \<Rightarrow> (Kind \<times> nat \<times> nat) option \<Rightarrow> (Kind \<times> uint \<times> uint) res" where
  "of_header offset h =
     (case h of None \<Rightarrow> Inl OffsetError
      | Some (k, s, l) \<Rightarrow> Inr (k, word_of_nat s, offset + word_of_nat l))"

lemma decodeCtrlSize_spec:
  assumes "unat n \<le> unat (glen (buffer d))"
  shows "decodeCtrlSize d c k n = of_header n (header_tail k c (drop (unat n) (gtake (buffer d))))"
proof -
  let ?rest = "drop (unat n) (gtake (buffer d))"
  have g: "unat (glen (buffer d)) \<le> 9223372036854775807" by (rule unat_glen_bound)
  have len: "length ?rest = unat (glen (buffer d)) - unat n" by (simp add: length_gtake)
  have c31: "unat (c AND 31) \<le> 31" by (rule ctrl_size_le)
  have size: "unat (ucast (c AND 31) :: uint) = unat (c AND 31)" by simp
  show ?thesis
  proof (cases "unat (c AND 31) < 29 \<or> k = KindPointer")
    case True
    then show ?thesis
      using size
      by (auto simp: decodeCtrlSize_def Let_def header_tail_def of_header_def word_less_nat_alt)
  next
    case False
    then have sz: "29 \<le> unat (c AND 31)" and k: "k \<noteq> KindPointer" by auto
    have e: "n + ucast (c AND 31) - 28 = n + (ucast (c AND 31) - 28)" by simp
    have u28: "unat (ucast (c AND 31) - 28 :: uint) = unat (c AND 31) - 28"
      using sz size by (simp add: unat_sub word_le_nat_alt)
    have u: "unat (n + ucast (c AND 31) - 28) = unat n + (unat (c AND 31) - 28)"
      unfolding e using c31 assms g u28 by (subst unat_add_small) auto
    have idx: "index (buffer d) (n + word_of_nat j) = Inr (?rest ! j)"
      if "j < unat (c AND 31) - 28" "unat n + (unat (c AND 31) - 28) \<le> unat (glen (buffer d))" for j
    proof -
      have "unat (word_of_nat j :: uint) = j"
        using that c31 by (simp add: unat_of_nat take_bit_nat_eq_self)
      then have "unat (n + word_of_nat j) = unat n + j"
        using that g by (subst unat_add_small) auto
      then show ?thesis using that by (simp add: index_gtake length_gtake)
    qed
    have idx0: "index (buffer d) n = Inr (?rest ! 0)"
      and idx1: "30 \<le> unat (c AND 31) \<Longrightarrow> index (buffer d) (n + 1) = Inr (?rest ! 1)"
      and idx2: "31 \<le> unat (c AND 31) \<Longrightarrow> index (buffer d) (n + 2) = Inr (?rest ! 2)"
      if "unat n + (unat (c AND 31) - 28) \<le> unat (glen (buffer d))"
      using that sz idx [of 0] idx [of 1] idx [of 2] by auto
    show ?thesis
    proof (cases "unat n + (unat (c AND 31) - 28) \<le> unat (glen (buffer d))")
      case False
      then have "glen (buffer d) < n + ucast (c AND 31) - 28"
        using u by (simp add: word_less_nat_alt)
      then show ?thesis
        using sz k size False len
        by (auto simp: decodeCtrlSize_def Let_def header_tail_def of_header_def word_less_nat_alt)
    next
      case True
      then have nle: "\<not> glen (buffer d) < n + ucast (c AND 31) - 28"
        using u by (simp add: word_less_nat_alt)
      have "ucast (c AND 31) = (w :: uint) \<longleftrightarrow> unat (c AND 31) = unat w" for w
        using size by (metis word_unat_eq_iff)
      moreover have "unat (c AND 31) = 29 \<or> unat (c AND 31) = 30 \<or> unat (c AND 31) = 31"
        using sz c31 by linarith
      ultimately consider
          "ucast (c AND 31) = (29 :: uint)" "unat (c AND 31) = 29"
        | "ucast (c AND 31) = (30 :: uint)" "unat (c AND 31) = 30"
        | "ucast (c AND 31) = (31 :: uint)" "unat (c AND 31) = 31"
        by force
      then show ?thesis
      proof cases
        case 1
        with True len have "take 1 ?rest = [?rest ! 0]" by (intro take_nth_Suc(1)) simp
        with 1 k True len idx0 u nle show ?thesis
          by (simp add: decodeCtrlSize_def header_tail_def of_header_def)
      next
        case 2
        with True len have "take 2 ?rest = [?rest ! 0, ?rest ! 1]" by (intro take_nth_Suc(2)) simp
        with 2 k True len idx0 idx1 u nle show ?thesis
          by (simp add: decodeCtrlSize_def header_tail_def of_header_def be_word_2 be_word_of_nat)
      next
        case 3
        with True len have "take 3 ?rest = [?rest ! 0, ?rest ! 1, ?rest ! 2]"
          by (intro take_nth_Suc(3)) simp
        with 3 k True len idx0 idx1 idx2 u nle show ?thesis
          by (simp add: decodeCtrlSize_def header_tail_def of_header_def be_word_3 be_word_of_nat)
      qed
    qed
  qed
qed


lemma decodeCtrlData_spec:
  "decodeCtrlData d offset = of_header offset (header_spec (drop (unat offset) (gtake (buffer d))))"
proof (cases "unat offset < unat (glen (buffer d))")
  case False
  then show ?thesis
    by (simp add: decodeCtrlData_def of_header_def header_spec_def length_gtake word_le_nat_alt)
next
  case True
  let ?buf = "gtake (buffer d)"
  define c where "c = ?buf ! unat offset"
  define rest where "rest = drop (unat offset + 1) ?buf"
  have g: "unat (glen (buffer d)) \<le> 9223372036854775807" by (rule unat_glen_bound)
  have dr: "drop (unat offset) ?buf = c # rest"
    using True by (simp add: c_def rest_def Cons_nth_drop_Suc length_gtake)
  have ix: "index (buffer d) offset = Inr c"
    using True by (simp add: index_gtake length_gtake c_def)
  have u1: "unat (offset + 1) = unat offset + 1"
    using True g by (subst unat_add_small) auto
  have nle: "\<not> glen (buffer d) \<le> offset"
    using True by (simp add: word_le_nat_alt)
  have shift: "of_header (offset + word_of_nat m) h =
      of_header offset (map_option (\<lambda>(k, s, l). (k, s, l + m)) h)" for m h
    by (auto simp: of_header_def split: option.split)
  show ?thesis
  proof (cases "Kind_of_byte (drop_bit 5 c) = KindExtended")
    case False
    have "decodeCtrlSize d c (Kind_of_byte (drop_bit 5 c)) (offset + 1) =
        of_header (offset + 1) (header_tail (Kind_of_byte (drop_bit 5 c)) c rest)"
      using True u1 decodeCtrlSize_spec [of "offset + 1" d c] by (simp add: rest_def)
    then show ?thesis
      using False nle ix shift [of 1] by (simp add: decodeCtrlData_def dr header_spec_def)
  next
    case ext: True
    show ?thesis
    proof (cases "unat offset + 1 < unat (glen (buffer d))")
      case False
      then have "rest = []" and "glen (buffer d) \<le> offset + 1"
        using u1 by (simp_all add: rest_def length_gtake word_le_nat_alt)
      then show ?thesis
        using ext nle ix by (simp add: decodeCtrlData_def dr header_spec_def of_header_def)
    next
      case in2: True
      define b where "b = ?buf ! (unat offset + 1)"
      have rest: "rest = b # drop (unat offset + 2) ?buf"
        using in2 by (simp add: rest_def b_def Cons_nth_drop_Suc length_gtake)
      have ix1: "index (buffer d) (offset + 1) = Inr b"
        using in2 u1 by (simp add: index_gtake length_gtake b_def)
      have u2: "unat (offset + 2) = unat offset + 2"
        using True g by (subst unat_add_small) auto
      have "decodeCtrlSize d c (Kind_of_byte (b + 7)) (offset + 2) =
          of_header (offset + 2) (header_tail (Kind_of_byte (b + 7)) c (drop (unat offset + 2) ?buf))"
        using in2 u2 decodeCtrlSize_spec [of "offset + 2" d c] by simp
      moreover have "\<not> glen (buffer d) \<le> offset + 1"
        using in2 u1 by (simp add: word_le_nat_alt)
      ultimately show ?thesis
        using ext nle ix ix1 rest shift [of 2]
        by (simp add: decodeCtrlData_def dr header_spec_def add.assoc)
    qed
  qed
qed

lemma header_tail_bounds:
  assumes "header_tail k c rest = Some (k', s, l)"
  shows "l \<le> length rest" and "l \<le> 3" and "s \<le> 16843036" and "k' = k"
proof -
  have c: "unat (c AND 31) \<le> 31" by (rule ctrl_size_le)
  have b: "be_nat (take n rest) 0 < 256 ^ n" for n
    by (rule order.strict_trans2 [OF be_nat_less power_increasing]) simp_all
  show "l \<le> length rest" and "l \<le> 3" and "k' = k"
    using assms c by (auto simp: header_tail_def Let_def split: if_splits)
  consider "unat (c AND 31) < 29 \<or> k = KindPointer" | "unat (c AND 31) = 29" | "unat (c AND 31) = 30"
    | "unat (c AND 31) = 31" using c by linarith
  then show "s \<le> 16843036"
    using assms b [of 1] b [of 2] b [of 3] c
    by cases (auto simp: header_tail_def Let_def split: if_splits)
qed

lemma header_spec_bounds:
  assumes "header_spec bs = Some (k, s, l)"
  shows "0 < l" and "l \<le> length bs" and "l \<le> 5" and "s \<le> 16843036"
  using assms
  by (auto simp: header_spec_def Let_def split: list.splits if_splits dest: header_tail_bounds)

lemma decodeCtrlData_Inr:
  assumes "decodeCtrlData d offset = Inr (k, sz, n)"
  shows "unat offset < unat n" and "unat n \<le> unat offset + 5" and "unat n \<le> unat (glen (buffer d))"
    and "unat sz \<le> 16843036"
proof -
  obtain s l where h: "header_spec (drop (unat offset) (gtake (buffer d))) = Some (k, s, l)"
    and sz: "sz = word_of_nat s" and n: "n = offset + word_of_nat l"
    using assms by (auto simp: decodeCtrlData_spec of_header_def split: option.splits)
  note b = header_spec_bounds [OF h]
  have g: "unat (glen (buffer d)) \<le> 9223372036854775807" by (rule unat_glen_bound)
  have l: "unat (word_of_nat l :: uint) = l"
    using b(3) by (simp add: unat_of_nat take_bit_nat_eq_self)
  have "unat offset + l \<le> unat (glen (buffer d))"
    using b(1,2) by (simp add: length_gtake)
  moreover from this have "unat n = unat offset + l"
    unfolding n using l g by (subst unat_add_small) auto
  ultimately show "unat offset < unat n" and "unat n \<le> unat offset + 5"
    and "unat n \<le> unat (glen (buffer d))"
    using b(1,3) by simp_all
  show "unat sz \<le> 16843036"
    using b(4) by (simp add: sz unat_of_nat take_bit_nat_eq_self)
qed

lemma decodeCtrlData_Inl: "decodeCtrlData d offset = Inl e \<Longrightarrow> e = OffsetError"
  by (auto simp: decodeCtrlData_spec of_header_def split: option.splits)


lemma unat_plus_sz:
  fixes off sz :: uint
  shows "unat off \<le> unat (glen xs) \<Longrightarrow> unat sz \<le> 9223372036854775807 \<Longrightarrow>
     unat (off + sz) = unat off + unat sz"
  using unat_glen_bound [of xs] by (subst unat_add_small) auto

text \<open>The bytes of a payload.\<close>

definition payload :: "DataDecoder \<Rightarrow> uint \<Rightarrow> uint \<Rightarrow> bytes" where
  "payload d offset sz = take (unat sz) (drop (unat offset) (gtake (buffer d)))"

lemma length_payload:
  "unat off + unat sz \<le> unat (glen (buffer d)) \<Longrightarrow> length (payload d off sz) = unat sz"
  by (simp add: payload_def length_gtake)

lemma slice_payload:
  "unat off + unat sz \<le> unat (glen (buffer d)) \<Longrightarrow>
     slice (buffer d) off (off + sz) = Inr (payload d off sz)"
  using unat_glen_bound [of "buffer d"]
  by (simp add: slice_gtake payload_def length_gtake unat_add_small)

text \<open>The guard of every payload decoder, under the bounds \<open>decodeCtrlData\<close> gives.\<close>

definition small_range :: "DataDecoder \<Rightarrow> uint \<Rightarrow> uint \<Rightarrow> bool" where
  "small_range d off sz \<longleftrightarrow> unat off \<le> unat (glen (buffer d)) \<and> unat sz \<le> 9223372036854775807"

lemma decodeCtrlData_small: "decodeCtrlData d offset = Inr (k, sz, n) \<Longrightarrow> small_range d n sz"
  using decodeCtrlData_Inr [of d offset k sz n] by (simp add: small_range_def)

lemma guard_iff:
  "small_range d off sz \<Longrightarrow>
     off + sz > glen (buffer d) \<longleftrightarrow> unat (glen (buffer d)) < unat off + unat sz"
  by (simp add: small_range_def word_less_nat_alt unat_plus_sz [of off "buffer d"])

lemma decodeBytes_spec:
  "small_range d off sz \<Longrightarrow>
     decodeBytes d sz off =
       (if unat off + unat sz \<le> unat (glen (buffer d)) then Inr (payload d off sz, off + sz)
        else Inl OffsetError)"
  by (simp add: decodeBytes_def guard_iff slice_payload Let_def)

lemma hasBufferRange_iff:
  "hasBufferRange bl off sz \<longleftrightarrow> unat off + unat sz \<le> unat bl"
  by (auto simp: hasBufferRange_def word_le_nat_alt unat_sub)


section \<open>Numbers\<close>

definition uint_spec ::
  "nat \<Rightarrow> Kind \<Rightarrow> DataDecoder \<Rightarrow> uint \<Rightarrow> uint \<Rightarrow> ('w::len word \<times> uint) res" where
  "uint_spec w k d sz off =
     (if w < unat sz then Inl (InvalidDatabaseError (BadDataSize k sz))
      else if unat off + unat sz \<le> unat (glen (buffer d))
      then Inr (be_word (payload d off sz), off + sz)
      else Inl OffsetError)"

lemma uint_decoders_spec:
  assumes "small_range d off sz"
  shows "decodeUint16 d sz off = uint_spec 2 KindUint16 d sz off"
    and "decodeUint32 d sz off = uint_spec 4 KindUint32 d sz off"
    and "decodeUint64 d sz off = uint_spec 8 KindUint64 d sz off"
    and "decodeInt32 d sz off = uint_spec 4 KindInt32 d sz off"
  using guard_iff [OF assms] slice_payload [of off sz d]
  by (auto simp: decodeUint16_def decodeUint32_def decodeUint64_def decodeInt32_def uint_spec_def
      Let_def word_less_nat_alt)

lemma uint_spec_value:
  assumes "uint_spec w k d sz off = Inr (v :: 'w::len word, n)"
    and "8 \<le> LENGTH('w)" and "8 * w \<le> LENGTH('w)"
  shows "unat v = be_nat (payload d off sz) 0" and "n = off + sz"
    and "unat sz \<le> w" and "unat off + unat sz \<le> unat (glen (buffer d))"
  using assms by (auto simp: uint_spec_def length_payload unat_be_word split: if_splits)

lemma unat_shift8:
  "8 \<le> LENGTH('w) \<Longrightarrow>
     unat (push_bit 8 v OR ucast b :: 'w::len word) = (256 * unat v + unat (b :: byte)) mod 2 ^ LENGTH('w)"
proof -
  assume "8 \<le> LENGTH('w)"
  then have "push_bit 8 v OR ucast b = (word_of_nat (256 * unat v + unat b) :: 'w word)"
    by (simp only: shift8_or_byte) (simp add: mult.commute)
  then show ?thesis by (simp only: unat_of_nat take_bit_eq_mod)
qed

lemma unat_carry: "unat (ucast (drop_bit 56 (v :: 64 word)) :: byte) = unat v div 2 ^ 56"
proof -
  have "unat v < 18446744073709551616" by (rule unat_less_2_64)
  then have "unat v div 2 ^ 56 < 256" by simp
  then have "take_bit 8 (unat v div 2 ^ 56) = unat v div 2 ^ 56"
    by (simp only: take_bit_nat_eq_self_iff) simp
  moreover have "unat (drop_bit 56 v) = unat v div 2 ^ 56"
    by (simp only: unat_drop_bit_eq) (simp only: drop_bit_eq_div)
  ultimately show ?thesis by (simp only: unsigned_ucast_eq) simp
qed

lemma mod_split: "X < B \<Longrightarrow> (B * K + X) mod (B * C) = B * (K mod C) + (X :: nat)"
  by (simp add: mod_mult2_eq)

definition hi_lo :: "64 word \<Rightarrow> 64 word \<Rightarrow> nat" where
  "hi_lo hi lo = 2 ^ 64 * unat hi + unat lo"

lemma append64_step:
  assumes "append64 lo b = (lo', carry)" and "append64 hi carry = (hi', c)"
  shows "hi_lo hi' lo' = (256 * hi_lo hi lo + unat b) mod 2 ^ 128"
proof -
  define L where "L = unat lo"
  define H where "H = unat hi"
  have lo': "unat lo' = (256 * L + unat b) mod 2 ^ 64"
    and carry: "unat carry = L div 2 ^ 56"
    and hi': "unat hi' = (256 * H + L div 2 ^ 56) mod 2 ^ 64"
    using assms by (auto simp: append64_def unat_shift8 unat_carry L_def H_def)
  have L: "L < 2 ^ 64" using unat_less_2_64 [of lo] by (simp add: L_def)
  have b: "unat b < 256" by (rule unat_byte_less)
  have "(256 * L + unat b) div 2 ^ 64 = L div 2 ^ 56"
  proof -
    have "(256 * L + unat b) div 2 ^ 64 = (256 * L + unat b) div 256 div 2 ^ 56"
      by (simp add: div_mult2_eq)
    also have "(256 * L + unat b) div 256 = L" using b by simp
    finally show ?thesis .
  qed
  moreover have "256 * L + unat b =
      2 ^ 64 * ((256 * L + unat b) div 2 ^ 64) + (256 * L + unat b) mod 2 ^ 64"
    by (rule mult_div_mod_eq [symmetric])
  ultimately have eq: "256 * (2 ^ 64 * H + L) + unat b =
      2 ^ 64 * (256 * H + L div 2 ^ 56) + (256 * L + unat b) mod 2 ^ 64"
    by (simp only: distrib_left)
  have "(256 * (2 ^ 64 * H + L) + unat b) mod (2 ^ 64 * 2 ^ 64) =
      2 ^ 64 * ((256 * H + L div 2 ^ 56) mod 2 ^ 64) + (256 * L + unat b) mod 2 ^ 64"
    unfolding eq by (rule mod_split) simp
  then show ?thesis using hi' lo' by (simp add: hi_lo_def L_def H_def)
qed


lemma uint128_loop_value:
  "uint128_loop hi lo bs = (hi', lo') \<Longrightarrow> hi_lo hi' lo' = be_nat bs (hi_lo hi lo) mod 2 ^ 128"
proof (induction hi lo bs rule: uint128_loop.induct)
  case (1 hi lo)
  have "unat hi * 2 ^ 64 + unat lo < 2 ^ 64 * 2 ^ 64"
    using unat_less_2_64 [of hi] unat_less_2_64 [of lo] by simp
  with 1 show ?case by (simp add: hi_lo_def)
next
  case (2 hi lo b bs)
  obtain lo1 c hi1 c1 where a: "append64 lo b = (lo1, c)" "append64 hi c = (hi1, c1)"
    by fastforce
  have "be_nat bs (x mod 2 ^ 128) mod 2 ^ 128 = be_nat bs x mod 2 ^ 128" for x
    unfolding be_nat_acc [of bs "x mod _"] be_nat_acc [of bs x]
    by (metis mod_add_left_eq mod_mult_right_eq)
  with 2 a append64_step [OF a] show ?case by simp
qed


lemma decodeUint128_spec:
  assumes "small_range d off sz"
  shows "decodeUint128 d sz off =
     (if 16 < unat sz then Inl (InvalidDatabaseError (BadDataSize KindUint128 sz))
      else if unat off + unat sz \<le> unat (glen (buffer d))
      then (let (hi, lo) = uint128_loop 0 0 (payload d off sz) in Inr (hi, lo, off + sz))
      else Inl OffsetError)"
  using guard_iff [OF assms] slice_payload [of off sz d]
  by (auto simp: decodeUint128_def Let_def word_less_nat_alt)

lemma uint128_loop_exact:
  assumes "uint128_loop 0 0 bs = (hi, lo)" and "length bs \<le> 16"
  shows "hi_lo hi lo = be_nat bs 0"
proof -
  have "be_nat bs 0 < 256 ^ length bs" by (rule be_nat_less)
  also have "\<dots> \<le> 256 ^ 16" using assms(2) by (rule power_increasing) simp
  finally have "be_nat bs 0 < 2 ^ 128" by simp
  then show ?thesis using uint128_loop_value [OF assms(1)] by (simp add: hi_lo_def)
qed

lemma hi_lo_inject: "hi_lo hi lo = hi_lo hi' lo' \<longleftrightarrow> hi = hi' \<and> lo = lo'"
proof
  assume eq: "hi_lo hi lo = hi_lo hi' lo'"
  have "unat lo = hi_lo hi lo mod 2 ^ 64" "unat hi = hi_lo hi lo div 2 ^ 64"
    "unat lo' = hi_lo hi' lo' mod 2 ^ 64" "unat hi' = hi_lo hi' lo' div 2 ^ 64"
    using unat_less_2_64 [of lo] unat_less_2_64 [of lo'] by (simp_all add: hi_lo_def)
  with eq show "hi = hi' \<and> lo = lo'" by (simp add: word_unat_eq_iff)
qed simp

lemma uint_spec_iff:
  assumes "8 \<le> LENGTH('w)" and "8 * w \<le> LENGTH('w)"
  shows "uint_spec w k d sz off = Inr (v :: 'w::len word, n) \<longleftrightarrow>
     unat sz \<le> w \<and> unat off + unat sz \<le> unat (glen (buffer d)) \<and>
     unat v = be_nat (payload d off sz) 0 \<and> n = off + sz"
  using assms
  by (auto simp: uint_spec_def length_payload unat_be_word word_unat_eq_iff [of _ v] split: if_splits)

text \<open>
  Unsigned integers: after a control record, each unsigned decoder succeeds exactly when the
  payload fits the width and the buffer, and then returns the big-endian value of the payload bytes
  without loss and the offset after them; the 128-bit decoder returns it as two 64-bit words whose
  carry between the words loses nothing.
\<close>

theorem unsigned_decoders_value:
  assumes "decodeCtrlData d off = Inr (kind, sz, p)"
  shows "(decodeUint16 d sz p = Inr (v16, n) \<longleftrightarrow>
            unat sz \<le> 2 \<and> unat p + unat sz \<le> unat (glen (buffer d)) \<and>
            unat v16 = be_nat (payload d p sz) 0 \<and> n = p + sz) \<and>
         (decodeUint32 d sz p = Inr (v32, n) \<longleftrightarrow>
            unat sz \<le> 4 \<and> unat p + unat sz \<le> unat (glen (buffer d)) \<and>
            unat v32 = be_nat (payload d p sz) 0 \<and> n = p + sz) \<and>
         (decodeUint64 d sz p = Inr (v64, n) \<longleftrightarrow>
            unat sz \<le> 8 \<and> unat p + unat sz \<le> unat (glen (buffer d)) \<and>
            unat v64 = be_nat (payload d p sz) 0 \<and> n = p + sz) \<and>
         (decodeUint128 d sz p = Inr (hi, lo, n) \<longleftrightarrow>
            unat sz \<le> 16 \<and> unat p + unat sz \<le> unat (glen (buffer d)) \<and>
            2 ^ 64 * unat hi + unat lo = be_nat (payload d p sz) 0 \<and> n = p + sz)"
proof -
  have range: "small_range d p sz" using assms by (rule decodeCtrlData_small)
  have "decodeUint128 d sz p = Inr (hi, lo, n) \<longleftrightarrow>
      unat sz \<le> 16 \<and> unat p + unat sz \<le> unat (glen (buffer d)) \<and>
      hi_lo hi lo = be_nat (payload d p sz) 0 \<and> n = p + sz"
  proof (cases "unat sz \<le> 16 \<and> unat p + unat sz \<le> unat (glen (buffer d))")
    case True
    obtain hi' lo' where l: "uint128_loop 0 0 (payload d p sz) = (hi', lo')" by fastforce
    with True have "hi_lo hi' lo' = be_nat (payload d p sz) 0"
      by (intro uint128_loop_exact) (simp_all add: length_payload)
    then have "hi_lo hi lo = be_nat (payload d p sz) 0 \<longleftrightarrow> hi = hi' \<and> lo = lo'"
      by (metis hi_lo_inject)
    with True l show ?thesis by (auto simp: decodeUint128_spec [OF range])
  next
    case False
    then show ?thesis by (auto simp: decodeUint128_spec [OF range] split: if_splits)
  qed
  then show ?thesis
    by (simp add: uint_decoders_spec [OF range] uint_spec_iff hi_lo_def)
qed

theorem unsigned_decoders_value_witness:
  "decodeUint16 \<lparr>stringCache = None, buffer = [0xA2, 1, 2]\<rparr> 2 1 = Inr (258, 3) \<and>
   decodeUint128 \<lparr>stringCache = None, buffer = [0xA2, 1, 2]\<rparr> 2 1 = Inr (0, 258, 3)"
proof -
  let ?d = "\<lparr>stringCache = None, buffer = [0xA2, 1, 2]\<rparr>"
  have c: "decodeCtrlData ?d 0 = Inr (KindUint16, 2, 1)"
    by (simp add: decodeCtrlData_spec header_spec_def header_tail_def of_header_def gtake_def
        max_int_def Kind_of_byte_def kind_of_num_def)
  show ?thesis
    using unsigned_decoders_value [OF c, of 258 3 0 0 0 258]
    by (simp add: payload_def gtake_def max_int_def unat_glen)
qed

lemma sint_unat:
  assumes "unat (v :: 32 word) = u"
  shows "sint v = (if u < 2 ^ 31 then int u else int u - 2 ^ 32)"
proof -
  have u: "u < 2 ^ 32" using unsigned_less [of v, where 'a = nat] assms by simp
  have "v = word_of_int (int u)" using assms by auto
  then have s: "sint v = (int u + 2 ^ 31) mod 2 ^ 32 - 2 ^ 31"
    using int_word_sint [of "int u", where 'a = 32] by simp
  show ?thesis
  proof (cases "u < 2 ^ 31")
    case True
    with s show ?thesis by (simp add: mod_pos_pos_trivial)
  next
    case False
    have "(int u + 2 ^ 31) mod 2 ^ 32 = ((int u - 2 ^ 31) + 2 ^ 32) mod 2 ^ 32" by (simp add: add.commute)
    also have "\<dots> = (int u - 2 ^ 31) mod 2 ^ 32" by (rule mod_add_self2)
    also have "\<dots> = int u - 2 ^ 31" using False u by (intro mod_pos_pos_trivial) simp_all
    finally have "(int u + 2 ^ 31) mod 2 ^ 32 = int u - 2 ^ 31" .
    with False s show ?thesis by simp
  qed
qed

text \<open>
  Signed integers: after a control record, \<open>decodeInt32\<close> succeeds exactly when the payload has
  at most four bytes and fits the buffer; a four-byte payload is read as two's complement, a shorter
  one (including the empty payload) as a non-negative number.
\<close>

theorem decodeInt32_value:
  assumes "decodeCtrlData d off = Inr (kind, sz, p)"
  shows "decodeInt32 d sz p = Inr (v, n) \<longleftrightarrow>
     unat sz \<le> 4 \<and> unat p + unat sz \<le> unat (glen (buffer d)) \<and> n = p + sz \<and>
     sint v = (let u = int (be_nat (payload d p sz) 0)
               in if unat sz = 4 \<and> 2 ^ 31 \<le> u then u - 2 ^ 32 else u)"
proof -
  have range: "small_range d p sz" using assms by (rule decodeCtrlData_small)
  have short: "be_nat (payload d p sz) 0 < 2 ^ 24"
    if "unat sz < 4" "unat p + unat sz \<le> unat (glen (buffer d))"
  proof -
    have "be_nat (payload d p sz) 0 < 256 ^ length (payload d p sz)" by (rule be_nat_less)
    also have "\<dots> \<le> 256 ^ 3"
      using that by (intro power_increasing) (simp_all add: length_payload)
    finally show ?thesis by simp
  qed
  have full: "be_nat (payload d p sz) 0 < 2 ^ 32"
    if "unat sz \<le> 4" "unat p + unat sz \<le> unat (glen (buffer d))"
  proof -
    have "be_nat (payload d p sz) 0 < 256 ^ length (payload d p sz)" by (rule be_nat_less)
    also have "\<dots> \<le> 256 ^ 4"
      using that by (intro power_increasing) (simp_all add: length_payload)
    finally show ?thesis by simp
  qed
  define u where "u = unat v"
  have v: "u < 2 ^ 32" using unsigned_less [of v] by (simp add: u_def)
  have "u = be_nat (payload d p sz) 0 \<longleftrightarrow>
      sint v = (let u = int (be_nat (payload d p sz) 0)
               in if unat sz = 4 \<and> 2 ^ 31 \<le> u then u - 2 ^ 32 else u)"
    if "unat sz \<le> 4" "unat p + unat sz \<le> unat (glen (buffer d))"
    using that short full v
    by (cases "unat sz = 4") (auto simp: sint_unat [OF u_def [symmetric]] Let_def)
  then show ?thesis
    by (auto simp: uint_decoders_spec [OF range] uint_spec_iff u_def [symmetric])
qed

theorem decodeInt32_value_witness:
  "decodeInt32 \<lparr>stringCache = None, buffer = [4, 1, 255, 255, 255, 254]\<rparr> 4 2 = Inr (- 2, 6)"
proof -
  let ?d = "\<lparr>stringCache = None, buffer = [4, 1, 255, 255, 255, 254]\<rparr>"
  have c: "decodeCtrlData ?d 0 = Inr (KindInt32, 4, 2)"
    by (simp add: decodeCtrlData_spec header_spec_def header_tail_def of_header_def gtake_def
        max_int_def Kind_of_byte_def kind_of_num_def)
  show ?thesis
    using decodeInt32_value [OF c, of "- 2" 6]
    by (simp add: payload_def gtake_def max_int_def unat_glen)
qed

section \<open>Pointers\<close>

lemma pointer_width: "unat ((drop_bit 3 sz AND 3) + 1 :: uint) = (unat sz div 8) mod 4 + 1"
proof -
  have "unat (drop_bit 3 sz AND 3) = unat (take_bit 2 (drop_bit 3 sz))"
    by (simp add: take_bit_eq_mask mask_eq_exp_minus_1)
  also have "\<dots> = (unat sz div 8) mod 4"
    by (simp add: unat_div_distrib unat_mod_distrib take_bit_eq_mod drop_bit_eq_div)
  finally have u: "unat (drop_bit 3 sz AND 3) = (unat sz div 8) mod 4" .
  then show ?thesis by (subst unat_add_small) simp_all
qed

lemma pointer_prefix: "unat (sz AND 7 :: uint) = unat sz mod 8"
proof -
  have "unat (sz AND 7) = unat (take_bit 3 sz)"
    by (simp add: take_bit_eq_mask mask_eq_exp_minus_1)
  then show ?thesis by (simp add: unat_mod_distrib take_bit_eq_mod)
qed

definition pointer_value :: "nat \<Rightarrow> bytes \<Rightarrow> nat" where
  "pointer_value s bs =
     (let w = (s div 8) mod 4 + 1
      in be_nat bs (if w = 4 then 0 else s mod 8) +
           (if w = 2 then 2048 else if w = 3 then 526336 else 0))"

lemma pointer_value_less:
  assumes "length bs = (s div 8) mod 4 + 1"
  shows "pointer_value s bs < 2 ^ 32"
proof -
  have b: "be_nat bs 0 < 256 ^ length bs" by (rule be_nat_less)
  have "(s div 8) mod 4 = 0 \<or> (s div 8) mod 4 = 1 \<or> (s div 8) mod 4 = 2 \<or> (s div 8) mod 4 = 3"
    by linarith
  moreover have "s mod 8 < 8" by simp
  ultimately show ?thesis
    using assms b by (auto simp: pointer_value_def Let_def be_nat_acc [of bs "s mod 8"])
qed

lemma decodePointer_spec:
  assumes "unat off \<le> unat (glen (buffer d))"
  shows "decodePointer d sz off =
     (let w = (unat sz div 8) mod 4 + 1
      in if unat off + w \<le> unat (glen (buffer d))
         then Inr (word_of_nat (pointer_value (unat sz) (take w (drop (unat off) (gtake (buffer d))))),
                   off + word_of_nat w)
         else Inl OffsetError)"
proof -
  define W where "W = (drop_bit 3 sz AND 3) + 1"
  define m where "m = (unat sz div 8) mod 4"
  have uW: "unat W = m + 1" by (simp add: W_def m_def pointer_width)
  have m4: "m = 0 \<or> m = 1 \<or> m = 2 \<or> m = 3" unfolding m_def by linarith
  have sm: "small_range d off W"
    using assms uW m4 by (auto simp: small_range_def)
  have W: "W = word_of_nat (m + 1)"
    unfolding uW [symmetric] by simp
  have cases: "m = 0 \<and> W = 1 \<or> m = 1 \<and> W = 2 \<or> m = 2 \<and> W = 3 \<or> m = 3 \<and> W = 4"
    using m4 W by auto
  have fold: "uintFromBytes p bs = word_of_nat (be_nat bs (unat p))" for p bs
    unfolding uintFromBytes_def by (rule foldl_shift8) simp
  have def: "decodePointer d sz off =
     (if off + W > glen (buffer d) then Inl OffsetError
      else bindE (slice (buffer d) off (off + W)) (\<lambda>pointerBytes.
        let prefix = (if W = 4 then 0 else sz AND 0x7);
            unpacked = uintFromBytes prefix pointerBytes
        in if W = 1 \<or> W = 4 then Inr (unpacked + 0, off + W)
        else if W = 2 then Inr (unpacked + pointerBase2, off + W)
        else if W = 3 then Inr (unpacked + pointerBase3, off + W)
        else Inl (InvalidDatabaseError (InvalidPointerSize W))))"
    unfolding decodePointer_def W_def Let_def by (rule refl)
  show ?thesis
  proof (cases "unat off + unat W \<le> unat (glen (buffer d))")
    case False
    then show ?thesis using guard_iff [OF sm] uW by (simp add: def Let_def m_def)
  next
    case True
    have sl: "slice (buffer d) off (off + W) = Inr (payload d off W)"
      using True by (rule slice_payload)
    have p: "payload d off W = take (unat W) (drop (unat off) (gtake (buffer d)))"
      by (simp add: payload_def)
    show ?thesis
      unfolding pointer_value_def m_def [symmetric] Let_def
      using True cases guard_iff [OF sm] sl p uW pointer_prefix [of sz]
      by (elim disjE)
        (simp_all add: def fold pointerBase2_def pointerBase3_def del: One_nat_def)
  qed
qed

lemma decodePointer_Inr:
  assumes "decodePointer d sz off = Inr (p, n)" and "unat off \<le> unat (glen (buffer d))"
  shows "unat p < 2 ^ 32" and "unat off < unat n" and "unat n \<le> unat off + 4"
    and "unat n \<le> unat (glen (buffer d))"
proof -
  define w where "w = (unat sz div 8) mod 4 + 1"
  have w: "1 \<le> w" "w \<le> 4" by (simp_all add: w_def)
  have g: "unat (glen (buffer d)) \<le> 9223372036854775807" by (rule unat_glen_bound)
  have r: "unat off + w \<le> unat (glen (buffer d))"
    and p: "p = word_of_nat (pointer_value (unat sz) (take w (drop (unat off) (gtake (buffer d)))))"
    and n: "n = off + word_of_nat w"
    using assms by (auto simp: decodePointer_spec w_def Let_def split: if_splits)
  have "pointer_value (unat sz) (take w (drop (unat off) (gtake (buffer d)))) < 2 ^ 32"
    using r by (intro pointer_value_less) (simp add: w_def length_gtake)
  then show "unat p < 2 ^ 32" by (simp add: p unat_of_nat take_bit_nat_eq_self)
  have "unat (word_of_nat w :: uint) = w" using w by (simp add: unat_of_nat take_bit_nat_eq_self)
  then have "unat n = unat off + w"
    unfolding n using r g w by (subst unat_add_small) auto
  then show "unat off < unat n" "unat n \<le> unat off + 4" "unat n \<le> unat (glen (buffer d))"
    using w r by simp_all
qed

lemma decodePointer_Inl:
  "unat off \<le> unat (glen (buffer d)) \<Longrightarrow> decodePointer d sz off = Inl e \<Longrightarrow> e = OffsetError"
  by (auto simp: decodePointer_spec Let_def split: if_splits)


section \<open>Round trips with the documented encoding\<close>

text \<open>
  \<open>encodeHeader\<close> and \<open>encodePointer\<close> write a control record and a pointer as the comment of
  \<open>decodeCtrlData\<close> and the MaxMind DB format describe them: the shortest form of each.
\<close>

fun be_bytes :: "nat \<Rightarrow> nat \<Rightarrow> bytes" where
  "be_bytes 0 q = []"
| "be_bytes (Suc n) q = be_bytes n (q div 256) @ [word_of_nat (q mod 256)]"

lemma length_be_bytes [simp]: "length (be_bytes n q) = n"
  by (induction n arbitrary: q) simp_all

lemma be_nat_be_bytes: "be_nat (be_bytes n q) 0 = q mod 256 ^ n"
proof (induction n arbitrary: q)
  case 0
  then show ?case by simp
next
  case (Suc n)
  have "unat (word_of_nat (q mod 256) :: byte) = q mod 256"
    by (simp add: unat_of_nat take_bit_eq_mod)
  then show ?case
    by (simp add: be_nat_snoc Suc.IH mod_mult2_eq)
qed

declare be_bytes.simps [simp del]

definition size_bits :: "nat \<Rightarrow> nat \<times> bytes" where
  "size_bits s =
     (if s < 29 then (s, [])
      else if s < 285 then (29, be_bytes 1 (s - 29))
      else if s < 65821 then (30, be_bytes 2 (s - 285))
      else (31, be_bytes 3 (s - 65821)))"

definition encodeHeader :: "Kind \<Rightarrow> nat \<Rightarrow> bytes" where
  "encodeHeader k s =
     (let (bits, ext) = size_bits s in
      if kind_num k < 8 then word_of_nat (32 * kind_num k + bits) # ext
      else word_of_nat bits # word_of_nat (kind_num k - 7) # ext)"

definition encodePointer :: "nat \<Rightarrow> bytes" where
  "encodePointer p =
     (if p < 2048 then word_of_nat (32 + p div 256) # be_bytes 1 p
      else if p < 526336 then
        let q = p - 2048 in word_of_nat (32 + 8 + q div 65536) # be_bytes 2 q
      else if p < 526336 + 2 ^ 27 then
        let q = p - 526336 in word_of_nat (32 + 16 + q div 16777216) # be_bytes 3 q
      else word_of_nat (32 + 24) # be_bytes 4 p)"

lemma unat_and31: "unat (c AND 31 :: byte) = unat c mod 32"
proof -
  have "unat (c AND 31) = unat (take_bit 5 c)"
    by (simp add: take_bit_eq_mask mask_eq_exp_minus_1)
  then show ?thesis by (simp add: unat_mod_distrib take_bit_eq_mod)
qed

lemma unat_drop5: "unat (drop_bit 5 c :: byte) = unat c div 32"
  by (simp add: drop_bit_eq_div unat_div_distrib)

lemma unat_small_byte: "n < 256 \<Longrightarrow> unat (word_of_nat n :: byte) = n"
  by (simp add: unat_of_nat take_bit_nat_eq_self)

lemma size_bits_less: "fst (size_bits s) < 32"
  by (simp add: size_bits_def)

lemma header_tail_size_bits:
  assumes "unat (c AND 31) = fst (size_bits s)" and "s \<le> 16843036" and "k \<noteq> KindPointer"
  shows "header_tail k c (snd (size_bits s) @ rest) = Some (k, s, length (snd (size_bits s)))"
  using assms
  by (auto simp: header_tail_def size_bits_def be_nat_be_bytes split: if_splits)

lemma header_spec_encodeHeader:
  assumes "2 \<le> kind_num k" and "kind_num k < 256" and "s \<le> 16843036"
  shows "header_spec (encodeHeader k s @ rest) = Some (k, s, length (encodeHeader k s))"
proof -
  obtain b e where be: "size_bits s = (b, e)" by fastforce
  have b: "b < 32" using size_bits_less [of s] be by simp
  have ptr: "k \<noteq> KindPointer" "k \<noteq> KindExtended" using assms(1) by auto
  show ?thesis
  proof (cases "kind_num k < 8")
    case True
    define c where "c = (word_of_nat (32 * kind_num k + b) :: byte)"
    have c: "unat c = 32 * kind_num k + b" using True b unfolding c_def by (intro unat_small_byte) simp
    have "Kind_of_byte (drop_bit 5 c) = k" using c b by (simp add: Kind_of_byte_iff unat_drop5)
    moreover have "header_tail k c (e @ rest) = Some (k, s, length e)"
      using header_tail_size_bits [of c s k rest] c b be assms(3) ptr by (simp add: unat_and31)
    ultimately show ?thesis
      using True ptr be by (simp add: encodeHeader_def header_spec_def c_def)
  next
    case False
    define c where "c = (word_of_nat b :: byte)"
    define x where "x = (word_of_nat (kind_num k - 7) :: byte)"
    have c: "unat c = b" using b by (simp add: c_def unat_small_byte)
    have ext: "Kind_of_byte (drop_bit 5 c) = KindExtended"
      using c b by (simp add: Kind_of_byte_iff unat_drop5)
    have "x + 7 = word_of_nat (kind_num k - 7 + 7)" by (simp only: x_def of_nat_add) simp
    also have "kind_num k - 7 + 7 = kind_num k" using False by simp
    finally have "x + 7 = (word_of_nat (kind_num k) :: byte)" .
    then have k: "Kind_of_byte (x + 7) = k"
      using assms(2) by (simp add: Kind_of_byte_iff unat_small_byte)
    have "header_tail k c (e @ rest) = Some (k, s, length e)"
      using header_tail_size_bits [of c s k rest] c b be assms(3) ptr by (simp add: unat_and31)
    with False ext k be show ?thesis
      by (simp add: encodeHeader_def header_spec_def c_def x_def)
  qed
qed

lemma drop_gtake_append:
  assumes "length (pre @ xs) \<le> max_int"
  shows "drop (unat (word_of_nat (length pre) :: uint)) (gtake (pre @ xs)) = xs"
    and "unat (word_of_nat (length pre) :: uint) = length pre"
    and "unat (glen (pre @ xs)) = length pre + length xs"
proof -
  show u: "unat (word_of_nat (length pre) :: uint) = length pre"
    using assms by (simp add: unat_of_nat take_bit_nat_eq_self max_int_def)
  show "drop (unat (word_of_nat (length pre) :: uint)) (gtake (pre @ xs)) = xs"
    unfolding u using assms by (simp add: gtake_def)
  show "unat (glen (pre @ xs)) = length pre + length xs"
    using assms by (simp add: unat_glen)
qed

text \<open>
  C2. Control records round-trip: wherever the shortest encoding of a kind and a size stands in a
  buffer, \<open>decodeCtrlData\<close> reads back exactly that kind, that size and the offset of the byte after
  it, for every kind a header can carry and every size up to \<open>maxValueSize\<close>.
\<close>

theorem ctrl_roundtrip:
  assumes "buffer d = pre @ encodeHeader k s @ rest" and "length (buffer d) \<le> max_int"
    and "2 \<le> kind_num k" and "kind_num k < 256" and "s \<le> unat maxValueSize"
  shows "decodeCtrlData d (word_of_nat (length pre)) =
     Inr (k, word_of_nat s, word_of_nat (length pre + length (encodeHeader k s)))"
proof -
  have "s \<le> 16843036" using assms(5) by (simp add: maxValueSize_def)
  from header_spec_encodeHeader [OF assms(3,4) this]
  show ?thesis
    using assms(1,2) drop_gtake_append(1) [of pre "encodeHeader k s @ rest"]
    by (simp add: decodeCtrlData_spec of_header_def)
qed

theorem ctrl_roundtrip_witness:
  "decodeCtrlData \<lparr>stringCache = None, buffer = [0, 0] @ encodeHeader KindSlice 300 @ [7]\<rparr> 2 =
     Inr (KindSlice, 300, 6)"
  using ctrl_roundtrip [of "\<lparr>stringCache = None, buffer = [0, 0] @ encodeHeader KindSlice 300 @ [7]\<rparr>"
      "[0, 0]" KindSlice 300 "[7]"]
  by (simp add: max_int_def maxValueSize_def encodeHeader_def size_bits_def)

lemma pointer_value_small:
  "s < 32 \<Longrightarrow> s div 8 = w \<Longrightarrow> pointer_value s bs =
     be_nat bs (if w = 3 then 0 else s mod 8) + (if w = 1 then 2048 else if w = 2 then 526336 else 0)"
  by (auto simp: pointer_value_def Let_def)

lemma encodePointer_cases:
  assumes "p < 2 ^ 32"
  obtains s bs where "encodePointer p = word_of_nat (32 + s) # bs" and "s < 32"
    and "length bs = s div 8 + 1" and "pointer_value s bs = p"
proof -
  consider "p < 2048" | "2048 \<le> p" "p < 526336" | "526336 \<le> p" "p < 526336 + 2 ^ 27"
    | "526336 + 2 ^ 27 \<le> p" by linarith
  then show thesis
  proof cases
    case 1
    then have s: "p div 256 < 8" by simp
    then have "pointer_value (p div 256) (be_bytes 1 p) = 256 * (p div 256) + p mod 256"
      by (simp add: pointer_value_small be_nat_acc [of _ "p div 256"] be_nat_be_bytes)
    with 1 s show thesis by (intro that [of "p div 256" "be_bytes 1 p"]) (simp_all add: encodePointer_def)
  next
    case 2
    define q where "q = p - 2048"
    define t where "t = q div 65536"
    have t: "t < 8" using 2 by (simp add: t_def q_def) 
    have q: "65536 * t + q mod 65536 = q" by (simp add: t_def)
    have "(8 + t) div 8 = 1" "(8 + t) mod 8 = t" using t by simp_all
    then have "pointer_value (8 + t) (be_bytes 2 q) = p"
      using t q 2 by (simp add: pointer_value_small be_nat_acc [of _ t] be_nat_be_bytes q_def)
    with 2 t show thesis
      by (intro that [of "8 + t" "be_bytes 2 q"])
        (simp_all add: encodePointer_def Let_def q_def t_def)
  next
    case 3
    define q where "q = p - 526336"
    define t where "t = q div 16777216"
    have t: "t < 8" using 3 by (simp add: t_def q_def)
    have q: "16777216 * t + q mod 16777216 = q" by (simp add: t_def)
    have "(16 + t) div 8 = 2" using t by simp
    have "(16 + t) mod 8 = t" using t by presburger
    then have "pointer_value (16 + t) (be_bytes 3 q) = p"
      using t q 3 by (simp add: pointer_value_small [of _ 2] be_nat_acc [of _ t] be_nat_be_bytes q_def)
    with 3 t show thesis
      by (intro that [of "16 + t" "be_bytes 3 q"])
        (simp_all add: encodePointer_def Let_def q_def t_def)
  next
    case 4
    have "pointer_value 24 (be_bytes 4 p) = p"
      using assms by (simp add: pointer_value_small be_nat_be_bytes)
    with 4 show thesis
      by (intro that [of 24 "be_bytes 4 p"]) (simp_all add: encodePointer_def)
  qed
qed

text \<open>
  C29. Pointers round-trip: wherever the shortest encoding of a data-section offset below
  \<open>2 ^ 32\<close> stands in a buffer, the control record is read as a pointer and \<open>decodePointer\<close> returns
  that offset and the position after the pointer; the biases of the four widths fit together
  without gap or overlap.
\<close>

theorem pointer_roundtrip:
  assumes "buffer d = pre @ encodePointer p @ rest" and "length (buffer d) \<le> max_int"
    and "p < 2 ^ 32"
  shows "bindE (decodeCtrlData d (word_of_nat (length pre)))
           (\<lambda>(k, sz, off). bindE (decodePointer d sz off) (\<lambda>(pointer, next). Inr (k, pointer, next))) =
         Inr (KindPointer, word_of_nat p, word_of_nat (length pre + length (encodePointer p)))"
proof -
  obtain s bs where e: "encodePointer p = word_of_nat (32 + s) # bs" and s: "s < 32"
    and len: "length bs = s div 8 + 1" and val: "pointer_value s bs = p"
    using assms(3) by (rule encodePointer_cases)
  define c where "c = (word_of_nat (32 + s) :: byte)"
  have c: "unat c = 32 + s" using s unfolding c_def by (intro unat_small_byte) simp
  note app = drop_gtake_append [of pre "c # bs @ rest"]
  have buf: "buffer d = pre @ c # bs @ rest" using assms(1) e by (simp add: c_def)
  have "header_spec (c # bs @ rest) = Some (KindPointer, s, 1)"
    using c s
    by (simp add: header_spec_def header_tail_def Kind_of_byte_def unat_drop5 unat_and31
        kind_of_num_def)
  then have ctrl: "decodeCtrlData d (word_of_nat (length pre)) =
      Inr (KindPointer, word_of_nat s, word_of_nat (length pre) + 1)"
    using app(1) buf assms(2) by (simp add: decodeCtrlData_spec of_header_def)
  note app1 = drop_gtake_append [of "pre @ [c]" "bs @ rest"]
  have "decodePointer d (word_of_nat s) (word_of_nat (length (pre @ [c]))) =
      Inr (word_of_nat p, word_of_nat (length (pre @ [c])) + word_of_nat (s div 8 + 1))"
  proof -
    have us: "unat (word_of_nat s :: uint) = s" using s by (simp add: unat_of_nat take_bit_nat_eq_self)
    have w: "s div 8 mod 4 + 1 = length bs" using s len by simp
    have b2: "buffer d = (pre @ [c]) @ bs @ rest" using buf by simp
    have "unat (word_of_nat (length (pre @ [c])) :: uint) + length bs \<le> unat (glen (buffer d))"
      unfolding b2 using app1(2,3) assms(2) b2 by simp
    then show ?thesis
      using app1(1) assms(2) val w b2 len
      by (subst decodePointer_spec) (simp_all add: us Let_def)
  qed
  then show ?thesis
    using ctrl len e by (simp add: add.commute add.left_commute)
qed

theorem pointer_roundtrip_witness:
  "bindE (decodeCtrlData (NewDataDecoderWithoutStringCache ([1] @ encodePointer 5000 @ [2])) 1)
     (\<lambda>(k, sz, off). bindE (decodePointer (NewDataDecoderWithoutStringCache ([1] @ encodePointer 5000 @ [2])) sz off)
        (\<lambda>(pointer, next). Inr (k, pointer, next))) =
   Inr (KindPointer, 5000, 4)"
  using pointer_roundtrip [of "NewDataDecoderWithoutStringCache ([1] @ encodePointer 5000 @ [2])"
      "[1]" 5000 "[2]"]
  by (simp add: NewDataDecoderWithoutStringCache_def max_int_def encodePointer_def)

section \<open>Compact headers\<close>

text \<open>The header shapes the fast paths of the package read inline.\<close>

lemma decodeCtrlData_direct:
  assumes "index (buffer d) offset = Inr c" and "Kind_of_byte (drop_bit 5 c) = k"
    and "k \<noteq> KindExtended" and "(ucast (c AND 0x1f) :: uint) < 29 \<or> k = KindPointer"
  shows "decodeCtrlData d offset = Inr (k, ucast (c AND 0x1f), offset + 1)"
proof -
  have "\<not> glen (buffer d) \<le> offset" using assms(1) by (simp add: index_Inr not_le)
  with assms show ?thesis by (auto simp: decodeCtrlData_def decodeCtrlSize_def Let_def)
qed

lemma decodeCtrlData_two_byte_bool:
  assumes "index (buffer d) offset = Inr b" and "b \<le> 1"
    and "index (buffer d) (offset + 1) = Inr 7"
  shows "decodeCtrlData d offset = Inr (KindBool, ucast b, offset + 2)"
proof -
  have "unat b = 0 \<or> unat b = 1" using assms(2) by (auto simp: word_le_nat_alt)
  then have b: "b = 0 \<or> b = 1" by (metis unsigned_0 unsigned_1 word_unat_eq_iff)
  then have kind: "Kind_of_byte (drop_bit 5 b) = KindExtended"
    and small: "(ucast (b AND 31) :: uint) < 29" and sz: "(ucast (b AND 31) :: uint) = ucast b"
    by (auto simp: Kind_of_byte_iff)
  have bool: "Kind_of_byte (7 + 7) = KindBool" by (simp add: Kind_of_byte_iff)
  have "\<not> glen (buffer d) \<le> offset" "\<not> glen (buffer d) \<le> offset + 1"
    using assms(1,3) by (simp_all add: index_Inr not_le)
  with assms(1,3) kind small sz bool show ?thesis
    by (simp add: decodeCtrlData_def decodeCtrlSize_def Let_def add.assoc)
qed

lemma no_panic_decodeCtrlData [safe]: "no_panic (decodeCtrlData d offset)"
  by (auto simp: no_panic_def dest: decodeCtrlData_Inl split: sum.split)

lemma no_panic_decodePointer [safe]:
  "unat off \<le> unat (glen (buffer d)) \<Longrightarrow> no_panic (decodePointer d sz off)"
  by (auto simp: no_panic_def dest: decodePointer_Inl split: sum.split)

end
