(* ===== verification/Skip.thy ===== *)
theory Skip
  imports DataDecoder
begin

text \<open>
  Skipping values (\<open>nextValueOffset\<close> of \<open>internal/decoder/data_decoder.go\<close>) and the grammar of
  the data section every walk of the package agrees on: \<open>values_at d n off e\<close> says that \<open>n\<close>
  complete values stand one after another from \<open>off\<close> to \<open>e\<close>, containers with all their children,
  pointers as their token only.
\<close>

section \<open>nextValueOffset\<close>

text \<open>The \<open>switch\<close> on the kind: the offset after the token and the values still to skip.\<close>

definition skipStep :: "DataDecoder \<Rightarrow> Kind \<Rightarrow> uint \<Rightarrow> uint \<Rightarrow> uint \<Rightarrow> (uint \<times> uint) res" where
  "skipStep d kindNum sz newOffset numberToSkip =
     (if kindNum = KindPointer then
        let pointerSize = (drop_bit 3 sz AND 0x3) + 1;
            ptrEndOffset = newOffset + pointerSize
        in if ptrEndOffset > glen (buffer d) then Inl OffsetError
           else Inr (ptrEndOffset, numberToSkip)
      else if kindNum = KindMap then
        if sz > (NOT 0 - numberToSkip) div 2 then
          Inl (InvalidDatabaseError ContainerSizeOverflow)
        else Inr (newOffset, numberToSkip + 2 * sz)
      else if kindNum = KindSlice then
        if sz > NOT 0 - numberToSkip then Inl (InvalidDatabaseError ContainerSizeOverflow)
        else Inr (newOffset, numberToSkip + sz)
      else if kindNum = KindBool then Inr (newOffset, numberToSkip)
      else if \<not> hasBufferRange (glen (buffer d)) newOffset sz then Inl OffsetError
      else Inr (newOffset + sz, numberToSkip))"

lemma skipStep_offset:
  assumes "skipStep d k sz off n = Inr (off', n')" and "unat off \<le> unat (glen (buffer d))"
  shows "unat off \<le> unat off'" and "unat off' \<le> unat (glen (buffer d))"
proof -
  have g: "unat (glen (buffer d)) \<le> 9223372036854775807" by (rule unat_glen_bound)
  have w: "unat ((drop_bit 3 sz AND 3) + 1 :: uint) \<le> 4" by (simp add: pointer_width)
  have p: "unat (off + ((drop_bit 3 sz AND 3) + 1)) = unat off + unat ((drop_bit 3 sz AND 3) + 1 :: uint)"
    using assms(2) g w by (subst unat_add_small) auto
  have s: "unat (off + sz) = unat off + unat sz" if "hasBufferRange (glen (buffer d)) off sz"
    using that g by (subst unat_add_small) (auto simp: hasBufferRange_iff)
  show "unat off \<le> unat off'" and "unat off' \<le> unat (glen (buffer d))"
    using assms p s
    by (auto simp: skipStep_def Let_def hasBufferRange_iff word_less_nat_alt not_less
        split: if_splits)
qed

function (sequential) nextValueOffset :: "DataDecoder \<Rightarrow> uint \<Rightarrow> uint \<Rightarrow> uint res" where
  "nextValueOffset d offset numberToSkip =
     (if numberToSkip > 0 then
        bindE (decodeCtrlData d offset) (\<lambda>(kindNum, sz, newOffset).
        bindE (skipStep d kindNum sz newOffset numberToSkip) (\<lambda>(newOffset, numberToSkip).
          nextValueOffset d newOffset (numberToSkip - 1)))
      else Inr offset)"
  by pat_completeness auto
termination
proof (relation "measure (\<lambda>(d, offset, _). unat (glen (buffer d)) - unat offset)", goal_cases)
  case 1
  show ?case by simp
next
  case (2 d off n x k y sz o1 z o2 n2)
  then show ?case
    using decodeCtrlData_Inr [of d off k sz o1] skipStep_offset [of d k sz o1 n o2 n2] by auto
qed

declare nextValueOffset.simps [simp del]

section \<open>The grammar of values\<close>

text \<open>A value's token: the offset after it and the number of child values that follow.\<close>

definition token_len :: "Kind \<Rightarrow> uint \<Rightarrow> nat" where
  "token_len k sz =
     (if k = KindMap \<or> k = KindSlice \<or> k = KindBool then 0
      else if k = KindPointer then (unat sz div 8) mod 4 + 1 else unat sz)"

definition token_children :: "Kind \<Rightarrow> uint \<Rightarrow> nat" where
  "token_children k sz = (if k = KindMap then 2 * unat sz else if k = KindSlice then unat sz else 0)"

definition token :: "DataDecoder \<Rightarrow> uint \<Rightarrow> (uint \<times> nat) option" where
  "token d off =
     (case decodeCtrlData d off of
        Inl _ \<Rightarrow> None
      | Inr (k, sz, o1) \<Rightarrow>
          if unat o1 + token_len k sz \<le> unat (glen (buffer d))
          then Some (o1 + word_of_nat (token_len k sz), token_children k sz) else None)"

lemma unat_add_of_nat:
  assumes "unat off + l \<le> unat (glen xs)"
  shows "unat (off + word_of_nat l :: uint) = unat off + l"
proof -
  have g: "unat (glen xs) \<le> 9223372036854775807" by (rule unat_glen_bound)
  have "unat (word_of_nat l :: uint) = l"
    using assms g by (simp add: unat_of_nat take_bit_nat_eq_self)
  then show ?thesis using assms g by (subst unat_add_small) auto
qed

text \<open>
  \<open>walk tok n off e t\<close>: reading \<open>n\<close> values one after another, each with its children, leads from
  \<open>off\<close> to \<open>e\<close> and passes \<open>t\<close> tokens, for any way \<open>tok\<close> to read one token.
\<close>

inductive walk :: "(uint \<Rightarrow> (uint \<times> nat) option) \<Rightarrow> nat \<Rightarrow> uint \<Rightarrow> uint \<Rightarrow> nat \<Rightarrow> bool" for tok where
  walk_none: "walk tok 0 off off 0"
| walk_one: "tok off = Some (o1, m) \<Longrightarrow> walk tok m o1 o2 s \<Longrightarrow> walk tok n o2 e t \<Longrightarrow>
    walk tok (Suc n) off e (Suc (s + t))"

inductive_simps walk_0 [simp]: "walk tok 0 off e t"
inductive_simps walk_Suc: "walk tok (Suc n) off e t"

lemma walk_join:
  "walk tok m off mid s \<Longrightarrow> walk tok n mid e r \<Longrightarrow> walk tok (m + n) off e (s + r)"
proof (induction rule: walk.induct)
  case (walk_none off)
  then show ?case by simp
next
  case (walk_one off o1 k o2 s m mid t)
  then have "walk tok (Suc (m + n)) off e (Suc (s + (t + r)))" by (intro walk.walk_one)
  then show ?case by (simp add: add.assoc)
qed

lemma walk_split:
  "walk tok (m + n) off e t \<Longrightarrow> \<exists>mid s r. walk tok m off mid s \<and> walk tok n mid e r \<and> t = s + r"
proof (induction m arbitrary: off t)
  case 0
  then show ?case by simp
next
  case (Suc m)
  from Suc.prems obtain o1 k o2 s u where one: "tok off = Some (o1, k)" "walk tok k o1 o2 s"
    and rest: "walk tok (m + n) o2 e u" and t: "t = Suc (s + u)"
    by (auto simp: walk_Suc)
  from Suc.IH [OF rest] obtain mid s' r where "walk tok m o2 mid s'" "walk tok n mid e r" "u = s' + r"
    by blast
  moreover from this one have "walk tok (Suc m) off mid (Suc (s + s'))" by (intro walk_one)
  ultimately show ?case using t by (intro exI [of _ mid] exI [of _ "Suc (s + s')"] exI [of _ r]) simp
qed

lemma walk_append:
  "walk tok (m + n) off e t \<longleftrightarrow> (\<exists>mid s r. walk tok m off mid s \<and> walk tok n mid e r \<and> t = s + r)"
  using walk_join walk_split by blast

lemma walk_determ: "walk tok n off e t \<Longrightarrow> walk tok n off e' t' \<Longrightarrow> e' = e \<and> t' = t"
proof (induction arbitrary: e' t' rule: walk.induct)
  case (walk_none off)
  then show ?case by simp
next
  case (walk_one off o1 m o2 s n e t)
  from walk_one.prems walk_one.hyps(1) obtain p s' r where
    "walk tok m o1 p s'" "walk tok n p e' r" "t' = Suc (s' + r)"
    by (auto simp: walk_Suc)
  with walk_one.IH show ?case by blast
qed

text \<open>The values alone, without the count.\<close>

definition stream :: "(uint \<Rightarrow> (uint \<times> nat) option) \<Rightarrow> nat \<Rightarrow> uint \<Rightarrow> uint \<Rightarrow> bool" where
  "stream tok n off e \<longleftrightarrow> (\<exists>t. walk tok n off e t)"

lemma stream_0 [simp]: "stream tok 0 off e \<longleftrightarrow> e = off"
  by (auto simp: stream_def)

lemma stream_Suc:
  "stream tok (Suc n) off e \<longleftrightarrow>
     (\<exists>o1 m o2. tok off = Some (o1, m) \<and> stream tok m o1 o2 \<and> stream tok n o2 e)"
  by (auto simp: stream_def walk_Suc)

lemma stream_one:
  "tok off = Some (o1, m) \<Longrightarrow> stream tok m o1 o2 \<Longrightarrow> stream tok n o2 e \<Longrightarrow> stream tok (Suc n) off e"
  by (auto simp: stream_Suc)

lemma stream_induct [consumes 1, case_names none one]:
  assumes "stream tok n off e" and "\<And>off. P 0 off off"
    and "\<And>off o1 m o2 n e. tok off = Some (o1, m) \<Longrightarrow> stream tok m o1 o2 \<Longrightarrow> P m o1 o2 \<Longrightarrow>
      stream tok n o2 e \<Longrightarrow> P n o2 e \<Longrightarrow> P (Suc n) off e"
  shows "P n off e"
proof -
  obtain t where "walk tok n off e t" using assms(1) by (auto simp: stream_def)
  then show ?thesis
  proof induction
    case (walk_none off)
    show ?case by (rule assms(2))
  next
    case (walk_one off o1 m o2 s n e t)
    show ?case
      by (rule assms(3) [OF walk_one.hyps(1) _ walk_one.IH(1) _ walk_one.IH(2)])
        (use walk_one.hyps in \<open>auto simp: stream_def\<close>)
  qed
qed

lemma stream_append:
  "stream tok (m + n) off e \<longleftrightarrow> (\<exists>mid. stream tok m off mid \<and> stream tok n mid e)"
  by (auto simp: stream_def walk_append)

lemma stream_1: "stream tok 1 off e \<longleftrightarrow> (\<exists>o1 m. tok off = Some (o1, m) \<and> stream tok m o1 e)"
  by (simp add: stream_Suc)

lemma stream_determ: "stream tok n off e \<Longrightarrow> stream tok n off e' \<Longrightarrow> e' = e"
  using walk_determ by (auto simp: stream_def)

text \<open>
  The interface of a token reader: it moves forward and stays within the buffer. A stricter reader
  accepts some of the tokens and reads them alike.
\<close>

locale value_stream =
  fixes tok :: "uint \<Rightarrow> (uint \<times> nat) option" and limit :: nat
  assumes forward: "tok off = Some (o1, m) \<Longrightarrow> unat off < unat o1 \<and> unat o1 \<le> limit"
begin

lemma walk_offset:
  "walk tok n off e t \<Longrightarrow> unat off \<le> limit \<Longrightarrow>
     unat off + t \<le> unat e \<and> unat e \<le> limit \<and> n \<le> t"
proof (induction rule: walk.induct)
  case (walk_none off)
  then show ?case by simp
next
  case (walk_one off o1 m o2 s n e t)
  then show ?case using forward [OF walk_one.hyps(1)] by simp
qed

lemma stream_offset:
  "stream tok n off e \<Longrightarrow> unat off \<le> limit \<Longrightarrow> unat off + n \<le> unat e \<and> unat e \<le> limit"
  using walk_offset by (fastforce simp: stream_def)

lemma stream_start: "stream tok (Suc n) off e \<Longrightarrow> unat off < limit"
  using forward by (fastforce simp: stream_Suc)

end

locale strict_stream = value_stream +
  fixes strict :: "uint \<Rightarrow> (uint \<times> nat) option"
  assumes strict_tok: "strict off = Some x \<Longrightarrow> tok off = Some x"
begin

lemma strict_walk: "walk strict n off e t \<Longrightarrow> walk tok n off e t"
  by (induction rule: walk.induct) (auto intro: walk.intros strict_tok)

lemma strict_stream: "stream strict n off e \<Longrightarrow> stream tok n off e"
  unfolding stream_def using strict_walk by blast

end

lemma token_bounds:
  assumes "token d off = Some (o1, m)"
  shows "unat off < unat o1" and "unat o1 \<le> unat (glen (buffer d))" and "m \<le> 33686072"
proof -
  obtain k sz o0 where c: "decodeCtrlData d off = Inr (k, sz, o0)"
    and o1: "o1 = o0 + word_of_nat (token_len k sz)"
    and r: "unat o0 + token_len k sz \<le> unat (glen (buffer d))" and m: "m = token_children k sz"
    using assms by (auto simp: token_def split: sum.splits if_splits)
  note b = decodeCtrlData_Inr [OF c]
  show "unat off < unat o1" and "unat o1 \<le> unat (glen (buffer d))"
    using b r unat_add_of_nat [OF r] by (simp_all add: o1)
  show "m \<le> 33686072" using b(4) by (simp add: m token_children_def)
qed

interpretation plain: value_stream "token d" "unat (glen (buffer d))" for d
  by unfold_locales (use token_bounds in blast)

text \<open>The grammar of the data section: the walk over its plain tokens.\<close>

abbreviation values_at :: "DataDecoder \<Rightarrow> nat \<Rightarrow> uint \<Rightarrow> uint \<Rightarrow> bool" where
  "values_at d \<equiv> stream (token d)"

text \<open>The grammar with the sizes the kinds allow, as the validating walks check them.\<close>

definition well_sized :: "Kind \<Rightarrow> uint \<Rightarrow> bool" where
  "well_sized k sz \<longleftrightarrow>
     k \<in> {KindPointer, KindMap, KindSlice, KindString, KindBytes} \<or> k = KindBool \<and> sz \<le> 1 \<or>
     k = KindFloat64 \<and> sz = 8 \<or> k = KindFloat32 \<and> sz = 4 \<or> k \<in> {KindInt32, KindUint32} \<and> sz \<le> 4 \<or>
     k = KindUint16 \<and> sz \<le> 2 \<or> k = KindUint64 \<and> sz \<le> 8 \<or> k = KindUint128 \<and> sz \<le> 16"

definition strict_token :: "DataDecoder \<Rightarrow> uint \<Rightarrow> (uint \<times> nat) option" where
  "strict_token d off =
     (case decodeCtrlData d off of
        Inl _ \<Rightarrow> None
      | Inr (k, sz, _) \<Rightarrow> if well_sized k sz then token d off else None)"

abbreviation valid_at :: "DataDecoder \<Rightarrow> nat \<Rightarrow> uint \<Rightarrow> uint \<Rightarrow> bool" where
  "valid_at d \<equiv> stream (strict_token d)"

lemma strict_tokenD: "strict_token d off = Some x \<Longrightarrow> token d off = Some x"
  by (auto simp: strict_token_def split: sum.splits if_splits)

interpretation strict: strict_stream "token d" "unat (glen (buffer d))" "strict_token d" for d
  by unfold_locales (rule strict_tokenD)

interpretation strict_tokens: value_stream "strict_token d" "unat (glen (buffer d))" for d
  by unfold_locales (use plain.forward strict_tokenD in blast)

lemma no_panic_skipStep [safe]: "no_panic (skipStep d k sz off n)"
  by (simp add: skipStep_def Let_def)

text \<open>One turn of the loop reads one token.\<close>

lemma unat_max_sub: "unat (- 1 - n :: uint) = 18446744073709551615 - unat n"
proof -
  have "unat (- 1 :: uint) = 18446744073709551615" by (simp add: unsigned_minus_1_eq_mask mask_eq_exp_minus_1)
  moreover have "n \<le> - 1" by simp
  ultimately show ?thesis by (simp add: unat_sub)
qed

lemma skipStep_count:
  assumes "skipStep d k sz o0 n = Inr (o1, n')" and "unat sz \<le> 16843036"
  shows "unat n + token_children k sz < 18446744073709551616"
proof -
  have m: "unat (- 1 - n) = 18446744073709551615 - unat n" by (rule unat_max_sub)
  have n: "unat n < 18446744073709551616" by (rule unat_less_2_64)
  show ?thesis
    using assms m n
    by (auto simp: skipStep_def token_children_def word_less_nat_alt unat_div not_less
        split: if_splits)
qed

lemma skipStep_token:
  assumes "unat o0 \<le> unat (glen (buffer d))" and "unat sz \<le> 16843036"
    and "unat n + token_children k sz < 18446744073709551616"
  shows "skipStep d k sz o0 n =
     (if unat o0 + token_len k sz \<le> unat (glen (buffer d))
      then Inr (o0 + word_of_nat (token_len k sz), n + word_of_nat (token_children k sz))
      else Inl OffsetError)"
proof -
  define w where "w = ((drop_bit 3 sz AND 3) + 1 :: uint)"
  have w: "unat w = (unat sz div 8) mod 4 + 1" by (simp add: w_def pointer_width)
  have w': "word_of_nat ((unat sz div 8) mod 4 + 1) = w"
    by (simp add: w [symmetric] del: One_nat_def)
  have p: "unat (o0 + w) = unat o0 + unat w"
    using assms(1) w by (intro unat_plus_sz) simp_all
  show ?thesis
    using assms p w w'
    by (auto simp: skipStep_def token_len_def token_children_def Let_def hasBufferRange_iff
        word_less_nat_alt unat_max_sub unat_div not_less simp flip: w_def
        simp del: of_nat_add of_nat_Suc One_nat_def)
qed

lemma skipStep_turn:
  assumes "decodeCtrlData d off = Inr (k, sz, o0)" and "skipStep d k sz o0 n = Inr (o1, n')" and "n > 0"
  shows "token d off = Some (o1, token_children k sz)"
    and "unat (n' - 1) = token_children k sz + (unat n - 1)"
proof -
  note b = decodeCtrlData_Inr [OF assms(1)]
  have m: "unat n + token_children k sz < 18446744073709551616"
    using skipStep_count [OF assms(2) b(4)] .
  then show "token d off = Some (o1, token_children k sz)"
    using assms(1,2) skipStep_token [OF b(3,4) m] by (auto simp: token_def split: if_splits)
  have "n' = n + word_of_nat (token_children k sz)"
    using assms(2) skipStep_token [OF b(3,4) m] by (auto split: if_splits)
  moreover have "unat (word_of_nat (token_children k sz) :: uint) = token_children k sz"
    using m by (simp add: unat_of_nat take_bit_nat_eq_self)
  ultimately have "unat n' = unat n + token_children k sz"
    using m by (simp add: unat_add_small)
  then show "unat (n' - 1) = token_children k sz + (unat n - 1)"
    using assms(3) by (subst unat_sub) (simp_all add: word_le_nat_alt word_less_nat_alt)
qed

text \<open>
  The loop and the grammar. A count that fits is skipped value by value; the guards on the count
  never fire when the values are there, because every value takes at least one byte.
\<close>

lemma nextValueOffset_values:
  assumes "values_at d m off e" and "unat off \<le> unat (glen (buffer d))"
    and "unat n + (unat e - unat off) < 18446744073709551616"
  shows "nextValueOffset d off (n + word_of_nat m) = nextValueOffset d e n"
  using assms
proof (induction arbitrary: n rule: stream_induct)
  case (none off)
  then show ?case by simp
next
  case (one off o1 k o2 m e)
  obtain kind sz o0 where c: "decodeCtrlData d off = Inr (kind, sz, o0)"
    and o1: "o1 = o0 + word_of_nat (token_len kind sz)"
    and r: "unat o0 + token_len kind sz \<le> unat (glen (buffer d))" and k: "k = token_children kind sz"
    using one.hyps(1) by (auto simp: token_def split: sum.splits if_splits)
  note b = decodeCtrlData_Inr [OF c]
  note t = token_bounds [OF one.hyps(1)]
  have g: "unat (glen (buffer d)) \<le> 9223372036854775807" by (rule unat_glen_bound)
  have u2: "unat o1 + k \<le> unat o2 \<and> unat o2 \<le> unat (glen (buffer d))"
    using plain.stream_offset [OF one.hyps(2) t(2)] .
  have e: "unat o2 + m \<le> unat e \<and> unat e \<le> unat (glen (buffer d))"
    using plain.stream_offset [OF one.hyps(3)] u2 by blast
  have km: "k + m \<le> 9223372036854775807" using u2 e g t by linarith
  define N where "N = n + word_of_nat m"
  have um: "unat (word_of_nat m :: uint) = m" using km by (simp add: unat_of_nat take_bit_nat_eq_self)
  have room: "unat n + m + 1 + k < 18446744073709551616"
    using one.prems e u2 t by linarith
  then have uN: "unat N = unat n + m"
    using um unat_add_small [of n "word_of_nat m"] by (simp add: N_def)
  have uN1: "unat (N + 1) = unat n + m + 1"
    using room uN unat_add_small [of N 1] by simp
  have pos: "N + 1 > 0" using uN1 by (simp add: word_less_nat_alt)
  have "nextValueOffset d off (N + 1) = nextValueOffset d o1 (N + word_of_nat k)"
    using c pos b r k o1 uN1 room skipStep_token [OF b(3,4), of "N + 1"] t
    by (subst nextValueOffset.simps) (simp add: algebra_simps)
  also have "\<dots> = nextValueOffset d o2 N"
  proof (rule one.IH(1))
    show "unat o1 \<le> unat (glen (buffer d))" by (rule t(2))
    show "unat N + (unat o2 - unat o1) < 18446744073709551616"
      using one.prems(2) e u2 t uN by linarith
  qed
  also have "\<dots> = nextValueOffset d e n"
    unfolding N_def
  proof (rule one.IH(2))
    show "unat o2 \<le> unat (glen (buffer d))" using u2 by simp
    show "unat n + (unat e - unat o2) < 18446744073709551616"
      using one.prems(2) u2 t by linarith
  qed
  finally show ?case by (simp add: N_def algebra_simps)
qed

lemma nextValueOffset_sound:
  "nextValueOffset d off n = Inr e \<Longrightarrow> values_at d (unat n) off e"
proof (induction d off n rule: nextValueOffset.induct)
  case (1 d off n)
  show ?case
  proof (cases "n > 0")
    case False
    then have "n = 0" by (simp add: word_gt_0)
    with "1.prems" show ?thesis by (simp add: nextValueOffset.simps)
  next
    case True
    obtain k sz o0 o1 n' where c: "decodeCtrlData d off = Inr (k, sz, o0)"
      and s: "skipStep d k sz o0 n = Inr (o1, n')" and r: "nextValueOffset d o1 (n' - 1) = Inr e"
      using True "1.prems" by (subst (asm) nextValueOffset.simps) (auto simp: bindE_eq_Inr)
    note turn = skipStep_turn [OF c s True]
    then have "values_at d (token_children k sz + (unat n - 1)) o1 e"
      using "1.IH" [OF True c refl refl s refl r] by simp
    then obtain o2 where "values_at d (token_children k sz) o1 o2" "values_at d (unat n - 1) o2 e"
      by (auto simp: stream_append)
    then have "values_at d (Suc (unat n - 1)) off e" using turn(1) by (intro stream_one)
    then show ?thesis using True by (simp add: word_less_nat_alt)
  qed
qed

lemma nextValueOffset_complete:
  assumes "values_at d (unat n) off e" and "unat off \<le> unat (glen (buffer d))"
  shows "nextValueOffset d off n = Inr e"
proof -
  have "unat e \<le> 9223372036854775807"
    using plain.stream_offset [OF assms] unat_glen_bound [of "buffer d"] by linarith
  then have "nextValueOffset d off (0 + word_of_nat (unat n)) = nextValueOffset d e 0"
    using assms by (intro nextValueOffset_values) auto
  then show ?thesis by (simp add: nextValueOffset.simps [of d e 0])
qed

lemma no_panic_nextValueOffset [safe]: "no_panic (nextValueOffset d off n)"
proof (induction d off n rule: nextValueOffset.induct)
  case (1 d off n)
  then show ?case
    by (subst nextValueOffset.simps) (auto intro!: safe split: prod.splits)
qed

text \<open>
  C19. Skipping is exact: \<open>nextValueOffset\<close> always returns, never panics, and succeeds with offset
  \<open>e\<close> exactly when that many complete values stand between \<open>offset\<close> and \<open>e\<close> in the grammar of the
  data section; the guards against an overflowing count reject no such data.
\<close>

theorem nextValueOffset_exact:
  assumes "offset \<le> glen (buffer d)"
  shows "(nextValueOffset d offset n = Inr e \<longleftrightarrow> values_at d (unat n) offset e) \<and>
     nextValueOffset d offset n \<noteq> Inl Panic"
proof -
  have "unat offset \<le> unat (glen (buffer d))" using assms by (simp add: word_le_nat_alt)
  then have "nextValueOffset d offset n = Inr e \<longleftrightarrow> values_at d (unat n) offset e"
    using nextValueOffset_sound nextValueOffset_complete by blast
  moreover have "nextValueOffset d offset n \<noteq> Inl Panic"
    using no_panic_nextValueOffset [of d offset n] by auto
  ultimately show ?thesis by blast
qed

theorem nextValueOffset_exact_witness:
  "values_at (NewDataDecoderWithoutStringCache [0xE1, 0x41, 0x61, 1, 7]) 1 0 5"
proof -
  let ?d = "NewDataDecoderWithoutStringCache [0xE1, 0x41, 0x61, 1, 7]"
  have "nextValueOffset ?d 0 1 = Inr 5" by code_simp
  moreover have "0 \<le> glen (buffer ?d)" by simp
  ultimately show ?thesis using nextValueOffset_exact [of 0 ?d 1 5] by simp
qed

end
