(* ===== verification/Validator.thy ===== *)
theory Validator
  imports Skip
begin

text \<open>
  The structural validator of \<open>internal/decoder/reflection.go\<close>: an allocation-free walk over an
  encoded value that bounds its work by a depth limit and a budget of container children, and visits
  the target of every pointer it meets. The validator's mutable field \<open>remaining\<close> is passed and
  returned; the recursion is on the depth, which the code bounds by 512.
\<close>

section \<open>Budgets and bounds\<close>

definition containerCost :: "Kind \<Rightarrow> uint \<Rightarrow> 32 word" where
  "containerCost kind sz =
     (let cost = ucast sz in if kind = KindMap then cost * 2 else cost)"

definition newStructuralValidator :: "32 word" where
  "newStructuralValidator = drop_bit decodeBudgetUnitShift decodeExpansionBudgetBytes"

definition newAllocationValidator :: "Kind \<Rightarrow> uint \<Rightarrow> 32 word" where
  "newAllocationValidator kind sz = newStructuralValidator + containerCost kind sz"

definition v_reserve :: "32 word \<Rightarrow> 32 word \<Rightarrow> 32 word res" where
  "v_reserve remaining cost =
     (if cost > remaining then Inl errDecodedRecordTooLarge else Inr (remaining - cost))"

definition reserveContainer :: "32 word \<Rightarrow> Kind \<Rightarrow> uint \<Rightarrow> 32 word res" where
  "reserveContainer remaining kind sz = v_reserve remaining (containerCost kind sz)"

definition validateContainerBounds :: "uint \<Rightarrow> Kind \<Rightarrow> uint \<Rightarrow> uint \<Rightarrow> unit res" where
  "validateContainerBounds bufferLen kind sz offset =
     (if offset > bufferLen then Inl OffsetError
      else if kind = KindMap \<and> sz > NOT 0 div 2 then
        Inl (InvalidDatabaseError ContainerSizeOverflow)
      else
        let valueCount = (if kind = KindMap then sz * 2 else sz) in
        if valueCount > bufferLen - offset then Inl OffsetError else Inr ())"

section \<open>Scalars\<close>

definition validateMaximumSize :: "Kind \<Rightarrow> uint \<Rightarrow> uint \<Rightarrow> uint \<Rightarrow> uint \<Rightarrow> uint res" where
  "validateMaximumSize kind sz offset bufferLen maximum =
     (if sz > maximum then Inl (InvalidDatabaseError (InvalidValueSize kind sz))
      else if \<not> hasBufferRange bufferLen offset sz then Inl OffsetError
      else Inr (offset + sz))"

definition validateFixedSize :: "Kind \<Rightarrow> uint \<Rightarrow> uint \<Rightarrow> uint \<Rightarrow> uint \<Rightarrow> uint res" where
  "validateFixedSize kind sz offset bufferLen expected =
     (if sz \<noteq> expected then Inl (InvalidDatabaseError (InvalidValueSize kind sz))
      else validateMaximumSize kind sz offset bufferLen expected)"

definition validateScalar :: "Kind \<Rightarrow> uint \<Rightarrow> uint \<Rightarrow> uint \<Rightarrow> uint res" where
  "validateScalar kind sz dataOffset bufferLen =
     (if kind = KindString \<or> kind = KindBytes then
        if \<not> hasBufferRange bufferLen dataOffset sz then Inl OffsetError else Inr (dataOffset + sz)
      else if kind = KindFloat64 then validateFixedSize kind sz dataOffset bufferLen 8
      else if kind = KindFloat32 then validateFixedSize kind sz dataOffset bufferLen 4
      else if kind = KindInt32 \<or> kind = KindUint32 then
        validateMaximumSize kind sz dataOffset bufferLen 4
      else if kind = KindUint16 then validateMaximumSize kind sz dataOffset bufferLen 2
      else if kind = KindUint64 then validateMaximumSize kind sz dataOffset bufferLen 8
      else if kind = KindUint128 then validateMaximumSize kind sz dataOffset bufferLen 16
      else if kind = KindBool then
        if sz > 1 then Inl (InvalidDatabaseError (InvalidValueSize KindBool sz)) else Inr dataOffset
      else Inl (InvalidDatabaseError (UnknownType kind)))"

section \<open>The walk\<close>

text \<open>The inline test for a directly encoded short map key: its end, if it is one.\<close>

definition inlineKey :: "DataDecoder \<Rightarrow> uint \<Rightarrow> uint option res" where
  "inlineKey d offset =
     (let bufferLen = glen (buffer d) in
      bindE (if offset < bufferLen then index (buffer d) offset else Inr 0) (\<lambda>ctrlByte.
        let keySize = ucast (ctrlByte AND 0x1f) :: uint in
        if offset \<ge> bufferLen \<or> Kind_of_byte (drop_bit 5 ctrlByte) \<noteq> KindString \<or> keySize \<ge> 29 \<or>
           \<not> hasBufferRange bufferLen (offset + 1) keySize
        then Inr None
        else Inr (Some (offset + (1 + keySize)))))"

text \<open>The inline test for a two-byte boolean.\<close>

definition inlineBool :: "DataDecoder \<Rightarrow> uint \<Rightarrow> bool res" where
  "inlineBool d offset =
     (if offset + 1 < glen (buffer d) then
        bindE (index (buffer d) offset) (\<lambda>b0.
          if b0 \<le> 1 then bindE (index (buffer d) (offset + 1)) (\<lambda>b1. Inr (b1 = 7)) else Inr False)
      else Inr False)"

text \<open>The inline test for a directly encoded string or compact integer.\<close>

definition inlineScalar :: "DataDecoder \<Rightarrow> uint \<Rightarrow> uint option res" where
  "inlineScalar d offset =
     (let bufferLen = glen (buffer d) in
      if offset < bufferLen then
        bindE (index (buffer d) offset) (\<lambda>ctrlByte.
          let valueSize = ucast (ctrlByte AND 0x1f) :: uint;
              kind = Kind_of_byte (drop_bit 5 ctrlByte);
              valid = (if kind = KindString then valueSize < 29
                       else if kind = KindUint16 then valueSize \<le> 2
                       else if kind = KindUint32 then valueSize \<le> 4
                       else False)
          in if valid \<and> hasBufferRange bufferLen (offset + 1) valueSize
             then Inr (Some (offset + (1 + valueSize)))
             else Inr None)
      else Inr None)"

function (sequential)
  validateContainerContents ::
    "DataDecoder \<Rightarrow> 32 word \<Rightarrow> Kind \<Rightarrow> uint \<Rightarrow> uint \<Rightarrow> nat \<Rightarrow> (uint \<times> 32 word) res"
and validateEntries ::
    "DataDecoder \<Rightarrow> 32 word \<Rightarrow> Kind \<Rightarrow> nat \<Rightarrow> uint \<Rightarrow> nat \<Rightarrow> (uint \<times> 32 word) res"
and validateValue ::
    "DataDecoder \<Rightarrow> 32 word \<Rightarrow> uint \<Rightarrow> nat \<Rightarrow> bool \<Rightarrow> (uint \<times> 32 word) res"
where
  "validateContainerContents d remaining kind sz offset depth =
     bindE (validateContainerBounds (glen (buffer d)) kind sz offset) (\<lambda>_.
     bindE (reserveContainer remaining kind sz) (\<lambda>remaining.
       validateEntries d remaining kind (unat sz) offset depth))"
| "validateEntries d remaining kind 0 offset depth = Inr (offset, remaining)"
| "validateEntries d remaining kind (Suc n) offset depth =
     bindE
       (if kind = KindMap then
          bindE (inlineKey d offset) (\<lambda>key.
            case key of
              None \<Rightarrow> validateValue d remaining offset depth True
            | Some offset \<Rightarrow> Inr (offset, remaining))
        else Inr (offset, remaining))
       (\<lambda>(offset, remaining).
         bindE (inlineBool d offset) (\<lambda>isBool.
           if isBool then validateEntries d remaining kind n (offset + 2) depth
           else
             bindE (inlineScalar d offset) (\<lambda>scalar.
               case scalar of
                 Some offset \<Rightarrow> validateEntries d remaining kind n offset depth
               | None \<Rightarrow>
                   bindE (validateValue d remaining offset depth False) (\<lambda>(offset, remaining).
                     validateEntries d remaining kind n offset depth))))"
| "validateValue d remaining offset depth requireString =
     (if depth > maximumDataStructureDepth then Inl (InvalidDatabaseError MaximumDepthExceeded)
      else
        bindE (decodeCtrlData d offset) (\<lambda>(kind, sz, dataOffset).
          if kind = KindPointer then
            bindE (decodePointer d sz dataOffset) (\<lambda>(pointer, nextOffset).
            bindE (decodeCtrlData d pointer) (\<lambda>(targetKind, _, _).
              if targetKind = KindPointer then
                Inl (InvalidDatabaseError (InvalidPointerToPointer pointer))
              else
                bindE (validateValue d remaining pointer (depth + 1) requireString)
                  (\<lambda>(_, remaining). Inr (nextOffset, remaining))))
          else if requireString \<and> kind \<noteq> KindString then
            Inl (InvalidDatabaseError (UnexpectedMapKeyType kind))
          else if kind = KindMap \<or> kind = KindSlice then
            validateContainerContents d remaining kind sz dataOffset (depth + 1)
          else
            bindE (validateScalar kind sz dataOffset (glen (buffer d)))
              (\<lambda>offset. Inr (offset, remaining))))"
  by pat_completeness auto
termination
  by (relation "measures
        [\<lambda>x. case x of
            Inl (_, _, _, _, _, depth) \<Rightarrow> 1024 - depth
          | Inr (Inl (_, _, _, _, _, depth)) \<Rightarrow> 1024 - depth
          | Inr (Inr (_, _, _, depth, _)) \<Rightarrow> 1024 - depth,
         \<lambda>x. case x of Inl _ \<Rightarrow> 2 | Inr (Inl _) \<Rightarrow> 1 | Inr (Inr _) \<Rightarrow> 0,
         \<lambda>x. case x of Inr (Inl (_, _, _, n, _, _)) \<Rightarrow> n | _ \<Rightarrow> 0]")
    (auto simp: maximumDataStructureDepth_def)

declare validateContainerContents.simps [simp del] validateEntries.simps(2) [simp del]
  validateValue.simps [simp del]

section \<open>Scalars are tokens\<close>

lemma validateScalar_token:
  assumes "decodeCtrlData d off = Inr (k, sz, o1)" and "validateScalar k sz o1 (glen (buffer d)) = Inr e"
  shows "strict_token d off = Some (e, 0)" and "k \<noteq> KindPointer" and "k \<noteq> KindMap" and "k \<noteq> KindSlice"
proof -
  note b = decodeCtrlData_Inr [OF assms(1)]
  show k: "k \<noteq> KindPointer" "k \<noteq> KindMap" "k \<noteq> KindSlice"
    using assms(2) by (auto simp: validateScalar_def split: if_splits)
  have "unat o1 + token_len k sz \<le> unat (glen (buffer d)) \<and> e = o1 + word_of_nat (token_len k sz)"
    using assms(2) b(3) k
    by (auto simp: validateScalar_def validateFixedSize_def validateMaximumSize_def token_len_def
        hasBufferRange_iff split: if_splits)
  moreover have "well_sized k sz"
    using assms(2)
    by (auto simp: well_sized_def validateScalar_def validateFixedSize_def validateMaximumSize_def
        not_less split: if_splits)
  ultimately show "strict_token d off = Some (e, 0)"
    using assms(1) k by (simp add: strict_token_def token_def token_children_def)
qed

text \<open>The inline tests accept only what the general path would read as the same scalar.\<close>

lemma inlineKey_Some:
  assumes "inlineKey d off = Inr (Some e)"
  shows "\<exists>sz. decodeCtrlData d off = Inr (KindString, sz, off + 1) \<and>
     validateScalar KindString sz (off + 1) (glen (buffer d)) = Inr e"
proof -
  obtain c where c: "index (buffer d) off = Inr c" "Kind_of_byte (drop_bit 5 c) = KindString"
    and sz: "(ucast (c AND 31) :: uint) < 29" and e: "e = off + (1 + ucast (c AND 31))"
    and r: "hasBufferRange (glen (buffer d)) (off + 1) (ucast (c AND 31))"
    using assms by (auto simp: inlineKey_def bindE_eq_Inr Let_def split: if_splits)
  have "decodeCtrlData d off = Inr (KindString, ucast (c AND 31), off + 1)"
    using decodeCtrlData_direct [OF c] sz by simp
  moreover have "validateScalar KindString (ucast (c AND 31)) (off + 1) (glen (buffer d)) = Inr e"
    using r e by (simp add: validateScalar_def algebra_simps)
  ultimately show ?thesis by blast
qed

lemma inlineBool_True:
  assumes "inlineBool d off = Inr True"
  shows "\<exists>sz. decodeCtrlData d off = Inr (KindBool, sz, off + 2) \<and>
     validateScalar KindBool sz (off + 2) (glen (buffer d)) = Inr (off + 2)"
proof -
  obtain b where b: "index (buffer d) off = Inr b" "b \<le> 1" "index (buffer d) (off + 1) = Inr 7"
    using assms by (auto simp: inlineBool_def bindE_eq_Inr split: if_splits)
  have "\<not> (ucast b :: uint) > 1" using b(2) by (simp add: word_less_nat_alt word_le_nat_alt)
  then show ?thesis
    using decodeCtrlData_two_byte_bool [OF b] by (auto simp: validateScalar_def)
qed

lemma inlineScalar_Some:
  assumes "inlineScalar d off = Inr (Some e)"
  shows "\<exists>k sz. decodeCtrlData d off = Inr (k, sz, off + 1) \<and>
     validateScalar k sz (off + 1) (glen (buffer d)) = Inr e"
proof -
  obtain c k where c: "index (buffer d) off = Inr c" and k: "Kind_of_byte (drop_bit 5 c) = k"
    and e: "e = off + (1 + ucast (c AND 31))"
    and r: "hasBufferRange (glen (buffer d)) (off + 1) (ucast (c AND 31))"
    and v: "k = KindString \<and> (ucast (c AND 31) :: uint) < 29 \<or> k = KindUint16 \<and> (ucast (c AND 31) :: uint) \<le> 2 \<or>
      k = KindUint32 \<and> (ucast (c AND 31) :: uint) \<le> 4"
    using assms by (auto simp: inlineScalar_def bindE_eq_Inr Let_def split: if_splits)
  have "(ucast (c AND 31) :: uint) < 29" using v by (auto simp: word_less_nat_alt word_le_nat_alt)
  moreover have "k \<noteq> KindExtended" using v by auto
  ultimately have "decodeCtrlData d off = Inr (k, ucast (c AND 31), off + 1)"
    using decodeCtrlData_direct [OF c k] by simp
  moreover have "validateScalar k (ucast (c AND 31)) (off + 1) (glen (buffer d)) = Inr e"
    using v r e by (auto simp: validateScalar_def validateMaximumSize_def not_less algebra_simps)
  ultimately show ?thesis by blast
qed

lemma no_panic_inline [safe]:
  "no_panic (inlineKey d off)" "no_panic (inlineScalar d off)"
  by (auto simp: inlineKey_def inlineScalar_def Let_def index_ok)

lemma no_panic_inlineBool [safe]:
  assumes "unat off \<le> unat (glen (buffer d))"
  shows "no_panic (inlineBool d off)"
proof -
  have "unat (off + 1) = unat off + 1" using unat_plus_sz [OF assms, of 1] by simp
  then have "off < glen (buffer d)" if "off + 1 < glen (buffer d)"
    using that by (simp add: word_less_nat_alt)
  then show ?thesis by (auto simp: inlineBool_def index_ok)
qed

lemma no_panic_scalar [safe]: "no_panic (validateScalar k sz off n)"
  by (simp add: validateScalar_def validateFixedSize_def validateMaximumSize_def)

lemma no_panic_bounds [safe]:
  "no_panic (validateContainerBounds n k sz off)" "no_panic (reserveContainer r k sz)"
  by (simp_all add: validateContainerBounds_def Let_def reserveContainer_def v_reserve_def)

lemma reserveContainer_Inr:
  "reserveContainer r k sz = Inr r' \<longleftrightarrow>
     unat (containerCost k sz) \<le> unat r \<and> r' = r - containerCost k sz"
  by (auto simp: reserveContainer_def v_reserve_def word_less_nat_alt not_less)

lemma containerCost_children:
  assumes "unat sz \<le> 16843036" and "k = KindMap \<or> k = KindSlice"
  shows "unat (containerCost k sz) = token_children k sz"
proof -
  have u: "unat (ucast sz :: 32 word) = unat sz"
    using assms(1) by (simp add: unsigned_ucast_eq take_bit_nat_eq_self)
  have "unat ((ucast sz :: 32 word) * 2) = unat sz * 2"
    using assms(1) u by (subst unat_mult_lem [THEN iffD1]) simp_all
  with u assms(2) show ?thesis
    by (auto simp: containerCost_def token_children_def Let_def)
qed

section \<open>The walk, entry by entry\<close>

text \<open>The key and the value part of one turn of the loop of \<open>validateContainerContents\<close>.\<close>

definition entryKey :: "DataDecoder \<Rightarrow> 32 word \<Rightarrow> Kind \<Rightarrow> uint \<Rightarrow> nat \<Rightarrow> (uint \<times> 32 word) res" where
  "entryKey d remaining kind offset depth =
     (if kind = KindMap then
        bindE (inlineKey d offset)
          (case_option (validateValue d remaining offset depth True) (\<lambda>offset. Inr (offset, remaining)))
      else Inr (offset, remaining))"

definition entryValue :: "DataDecoder \<Rightarrow> 32 word \<Rightarrow> uint \<Rightarrow> nat \<Rightarrow> (uint \<times> 32 word) res" where
  "entryValue d remaining offset depth =
     bindE (inlineBool d offset) (\<lambda>isBool.
       if isBool then Inr (offset + 2, remaining)
       else bindE (inlineScalar d offset)
         (case_option (validateValue d remaining offset depth False) (\<lambda>offset. Inr (offset, remaining))))"

lemma validateEntries_Suc:
  "validateEntries d r k (Suc n) off depth =
     bindE (entryKey d r k off depth) (\<lambda>(o1, r1).
     bindE (entryValue d r1 o1 depth) (\<lambda>(o2, r2). validateEntries d r2 k n o2 depth))"
proof -
  have split: "bindE (bindE (inlineBool d o1) (\<lambda>b. if b then Inr (o1 + 2, r1)
        else bindE (inlineScalar d o1) (case_option V (\<lambda>o2. Inr (o2, r1))))) f =
      bindE (inlineBool d o1) (\<lambda>b. if b then f (o1 + 2, r1)
        else bindE (inlineScalar d o1) (case_option (bindE V f) (\<lambda>o2. f (o2, r1))))"
    for o1 r1 V and f :: "uint \<times> 32 word \<Rightarrow> (uint \<times> 32 word) res"
    by (auto simp: bindE_def split: sum.splits option.splits)
  show ?thesis
    unfolding validateEntries.simps entryKey_def [symmetric]
    by (simp add: entryValue_def split cong: if_cong option.case_cong)
qed

text \<open>
  Induction on the walk: a value rests on the walks one level deeper, the entries of a container on
  the values at their level, a container on its entries.
\<close>

lemma validate_induct [case_names level empty entry whole]:
  assumes level: "\<And>r off depth str.
      (depth \<le> maximumDataStructureDepth \<Longrightarrow> \<forall>r off str. V r off (depth + 1) str) \<Longrightarrow>
      (depth \<le> maximumDataStructureDepth \<Longrightarrow> \<forall>r k sz off. C r k sz off (depth + 1)) \<Longrightarrow>
      V r off depth str"
    and empty: "\<And>r k off depth. E r k 0 off depth"
    and entry: "\<And>r k n off depth. (\<And>r off str. V r off depth str) \<Longrightarrow> (\<And>r off. E r k n off depth) \<Longrightarrow>
      E r k (Suc n) off depth"
    and whole: "\<And>r k sz off depth. (\<And>r n off. E r k n off depth) \<Longrightarrow> C r k sz off depth"
  shows "V r off depth str" and "E r k n off depth" and "C r k sz off depth"
proof -
  have levels: "(\<forall>r off str. V r off depth str) \<and> (\<forall>r k n off. E r k n off depth) \<and>
      (\<forall>r k sz off. C r k sz off depth)" for depth
  proof (induction "1024 - depth" arbitrary: depth rule: less_induct)
    case less
    have deeper: "(\<forall>r off str. V r off (depth + 1) str) \<and> (\<forall>r k sz off. C r k sz off (depth + 1))"
      if "depth \<le> maximumDataStructureDepth"
      using that less [of "depth + 1"] by (simp add: maximumDataStructureDepth_def)
    have v: "V r off depth str" for r off str
      using deeper by (intro level) blast+
    have e: "E r k n off depth" for r k n off
    proof (induction n arbitrary: r off)
      case 0
      show ?case by (rule empty)
    next
      case (Suc n)
      then show ?case using v by (intro entry)
    qed
    have "C r k sz off depth" for r k sz off using e by (intro whole)
    with v e show ?case by blast
  qed
  show "V r off depth str" and "E r k n off depth" and "C r k sz off depth"
    using levels by blast+
qed

section \<open>Soundness of the walk\<close>

text \<open>
  What a successful walk has seen: the values stand in the buffer, and the budget paid for exactly
  their container children and those of every pointer target.
\<close>

lemma valid_token: "strict_token d off = Some (e, 0) \<Longrightarrow> valid_at d (Suc 0) off e"
  by (simp add: stream_Suc)

lemma valid_one_more:
  "valid_at d (Suc 0) off o1 \<Longrightarrow> valid_at d n o1 e \<Longrightarrow> valid_at d (Suc n) off e"
  using stream_append [of "strict_token d" 1 n off e] by auto

lemma inline_values:
  "inlineKey d off = Inr (Some e) \<Longrightarrow> valid_at d (Suc 0) off e"
  "inlineBool d off = Inr True \<Longrightarrow> valid_at d (Suc 0) off (off + 2)"
  "inlineScalar d off = Inr (Some e) \<Longrightarrow> valid_at d (Suc 0) off e"
  by (blast dest: inlineKey_Some inlineBool_True inlineScalar_Some validateScalar_token(1)
      valid_token)+

lemma valid_bound:
  "valid_at d n off e \<Longrightarrow> unat off \<le> unat (glen (buffer d)) \<Longrightarrow> unat e \<le> unat (glen (buffer d))"
  using strict_tokens.stream_offset by blast

lemma entryKey_cases:
  assumes "entryKey d r k off depth = Inr (e, r')"
  obtains (inline) "k = KindMap" and "inlineKey d off = Inr (Some e)" and "r' = r"
    | (validate) "k = KindMap" and "validateValue d r off depth True = Inr (e, r')"
    | (none) "k \<noteq> KindMap" and "e = off" and "r' = r"
  using assms by (auto simp: entryKey_def bindE_eq_Inr split: if_splits option.splits)

lemma entryValue_cases:
  assumes "entryValue d r off depth = Inr (e, r')"
  obtains (bool) "inlineBool d off = Inr True" and "e = off + 2" and "r' = r"
    | (inline) "inlineScalar d off = Inr (Some e)" and "r' = r"
    | (validate) "validateValue d r off depth False = Inr (e, r')"
  using assms by (auto simp: entryValue_def bindE_eq_Inr split: if_splits option.splits)

lemma validateValue_cases:
  assumes "validateValue d r off depth str = Inr (e, r')"
  obtains (pointer) sz o1 p t ts to e2 where "decodeCtrlData d off = Inr (KindPointer, sz, o1)"
      and "decodePointer d sz o1 = Inr (p, e)" and "decodeCtrlData d p = Inr (t, ts, to)"
      and "t \<noteq> KindPointer" and "validateValue d r p (depth + 1) str = Inr (e2, r')"
      and "depth \<le> maximumDataStructureDepth"
    | (container) k sz o1 where "k = KindMap \<or> k = KindSlice" and "\<not> str"
      and "decodeCtrlData d off = Inr (k, sz, o1)"
      and "validateContainerContents d r k sz o1 (depth + 1) = Inr (e, r')"
      and "depth \<le> maximumDataStructureDepth"
    | (scalar) k sz o1 where "decodeCtrlData d off = Inr (k, sz, o1)" and "r' = r"
      and "k \<noteq> KindPointer" and "k \<noteq> KindMap" and "k \<noteq> KindSlice" and "str \<longrightarrow> k = KindString"
      and "validateScalar k sz o1 (glen (buffer d)) = Inr e"
      and "depth \<le> maximumDataStructureDepth"
proof -
  have dep: "depth \<le> maximumDataStructureDepth"
    using assms by (subst (asm) validateValue.simps) (auto split: if_splits)
  obtain k sz o1 where c: "decodeCtrlData d off = Inr (k, sz, o1)"
    using assms dep by (subst (asm) validateValue.simps) (auto simp: bindE_eq_Inr)
  have run: "(if k = KindPointer then
        bindE (decodePointer d sz o1) (\<lambda>(pointer, nextOffset).
        bindE (decodeCtrlData d pointer) (\<lambda>(targetKind, _, _).
          if targetKind = KindPointer then Inl (InvalidDatabaseError (InvalidPointerToPointer pointer))
          else bindE (validateValue d r pointer (depth + 1) str) (\<lambda>(_, remaining). Inr (nextOffset, remaining))))
      else if str \<and> k \<noteq> KindString then Inl (InvalidDatabaseError (UnexpectedMapKeyType k))
      else if k = KindMap \<or> k = KindSlice then validateContainerContents d r k sz o1 (depth + 1)
      else bindE (validateScalar k sz o1 (glen (buffer d))) (\<lambda>offset. Inr (offset, r))) = Inr (e, r')"
    using assms dep c by (subst (asm) validateValue.simps) simp
  show thesis
  proof (cases "k = KindPointer")
    case True
    have "bindE (decodePointer d sz o1) (\<lambda>(pointer, nextOffset).
        bindE (decodeCtrlData d pointer) (\<lambda>(targetKind, _, _).
          if targetKind = KindPointer then Inl (InvalidDatabaseError (InvalidPointerToPointer pointer))
          else bindE (validateValue d r pointer (depth + 1) str) (\<lambda>(_, remaining). Inr (nextOffset, remaining))))
      = Inr (e, r')"
      using run by (simp only: if_P [OF True])
    then obtain p where p: "decodePointer d sz o1 = Inr (p, e)"
      and "bindE (decodeCtrlData d p) (\<lambda>(targetKind, _, _).
          if targetKind = KindPointer then Inl (InvalidDatabaseError (InvalidPointerToPointer p))
          else bindE (validateValue d r p (depth + 1) str) (\<lambda>(_, remaining). Inr (e, remaining)))
      = Inr (e, r')"
      by (auto simp: bindE_eq_Inr split: if_splits)
    then obtain t ts to e2 where "decodeCtrlData d p = Inr (t, ts, to)" and "t \<noteq> KindPointer"
      and "validateValue d r p (depth + 1) str = Inr (e2, r')"
      by (auto simp: bindE_eq_Inr split: if_splits)
    with p c True dep show thesis by (intro pointer) simp_all
  next
    case False
    with run have str: "str \<longrightarrow> k = KindString" by (auto split: if_splits)
    show thesis
    proof (cases "k = KindMap \<or> k = KindSlice")
      case True
      with run str c False show thesis by (intro container [OF True _ c _ dep]) auto
    next
      case scal: False
      with run str c False show thesis
        by (intro scalar [OF c _ False _ _ str _ dep]) (auto simp: bindE_eq_Inr)
    qed
  qed
qed

definition walked :: "DataDecoder \<Rightarrow> 32 word \<Rightarrow> nat \<Rightarrow> uint \<Rightarrow> (uint \<times> 32 word) res \<Rightarrow> bool" where
  "walked d r n off res \<longleftrightarrow> (\<forall>e r'. res = Inr (e, r') \<longrightarrow> valid_at d n off e \<and> unat r' \<le> unat r)"

lemma validate_values:
  "walked d r 1 off (validateValue d r off depth str)"
  "unat off \<le> unat (glen (buffer d)) \<Longrightarrow>
     walked d r (if k = KindMap then 2 * n else n) off (validateEntries d r k n off depth)"
  "unat off \<le> unat (glen (buffer d)) \<Longrightarrow> unat sz \<le> 16843036 \<Longrightarrow> k = KindMap \<or> k = KindSlice \<Longrightarrow>
     walked d r (token_children k sz) off (validateContainerContents d r k sz off depth)"
proof (induction r off depth str and r k n off depth and r k sz off depth rule: validate_induct)
  case (level r off depth str)
  show ?case
    unfolding walked_def
  proof (intro allI impI)
    fix e r'
    assume "validateValue d r off depth str = Inr (e, r')"
    then show "valid_at d 1 off e \<and> unat r' \<le> unat r"
    proof (cases rule: validateValue_cases)
      case (pointer sz o1 p t ts to e2)
      note b = decodeCtrlData_Inr [OF pointer(1)]
      have "strict_token d off = Some (e, 0)"
        using pointer(1,2) b(3)
        by (auto simp: strict_token_def well_sized_def token_def token_len_def token_children_def
            decodePointer_spec Let_def split: if_splits)
      then show ?thesis using level(1) pointer valid_token by (auto simp: walked_def)
    next
      case (container k sz o1)
      note b = decodeCtrlData_Inr [OF container(3)]
      have "strict_token d off = Some (o1, token_children k sz)"
        using container(1,3) b(3)
        by (auto simp: strict_token_def well_sized_def token_def token_len_def)
      then show ?thesis
        using level(2) container b by (auto simp: walked_def stream_1 simp del: One_nat_def)
    next
      case (scalar k sz o1)
      then show ?thesis using validateScalar_token(1) valid_token by auto
    qed
  qed
next
  case (empty r k off depth)
  then show ?case by (simp add: walked_def)
next
  case (entry r k n off depth)
  show ?case
    unfolding walked_def
  proof (intro allI impI)
    fix e r'
    assume "validateEntries d r k (Suc n) off depth = Inr (e, r')"
    then obtain o1 r1 o2 r2 where key: "entryKey d r k off depth = Inr (o1, r1)"
      and val: "entryValue d r1 o1 depth = Inr (o2, r2)"
      and rest: "validateEntries d r2 k n o2 depth = Inr (e, r')"
      by (auto simp: validateEntries_Suc bindE_eq_Inr)
    have 1: "valid_at d (if k = KindMap then 1 else 0) off o1 \<and> unat r1 \<le> unat r"
      using key entry(1) by (cases rule: entryKey_cases) (auto simp: walked_def inline_values)
    have 2: "valid_at d 1 o1 o2 \<and> unat r2 \<le> unat r1"
      using val entry(1) by (cases rule: entryValue_cases) (auto simp: walked_def inline_values)
    have b: "unat o2 \<le> unat (glen (buffer d))"
      using 1 2 entry.prems valid_bound by blast
    then have 3: "valid_at d (if k = KindMap then 2 * n else n) o2 e \<and> unat r' \<le> unat r2"
      using entry(2) rest by (simp add: walked_def)
    have "valid_at d ((if k = KindMap then 1 else 0) + (1 + (if k = KindMap then 2 * n else n))) off e"
      unfolding stream_append using 1 2 3 by blast
    also have "(if k = KindMap then 1 else 0) + (1 + (if k = KindMap then 2 * n else n)) =
        (if k = KindMap then 2 * Suc n else Suc n)" by simp
    finally show "valid_at d (if k = KindMap then 2 * Suc n else Suc n) off e \<and> unat r' \<le> unat r"
      using 1 2 3 by simp
  qed
next
  case (whole r k sz off depth)
  have "(if k = KindMap then 2 * unat sz else unat sz) = token_children k sz"
    using whole.prems by (auto simp: token_children_def)
  then show ?case
    using whole containerCost_children [of sz k]
    by (fastforce simp: walked_def validateContainerContents.simps bindE_eq_Inr reserveContainer_Inr
        unat_sub word_le_nat_alt)
qed

lemma no_panic_validate [safe]:
  "no_panic (validateValue d r off depth str)"
  "unat off \<le> unat (glen (buffer d)) \<Longrightarrow> no_panic (validateEntries d r k n off depth)"
  "unat off \<le> unat (glen (buffer d)) \<Longrightarrow> no_panic (validateContainerContents d r k sz off depth)"
proof (induction r off depth str and r k n off depth and r k sz off depth rule: validate_induct)
  case (level r off depth str)
  then show ?case
    by (subst validateValue.simps)
      (auto intro!: safe dest: decodeCtrlData_Inr(3) split: prod.splits simp: not_less)
next
  case (empty r k off depth)
  then show ?case by simp
next
  case (entry r k n off depth)
  have key: "no_panic (entryKey d r k off depth)"
    using entry(1) by (auto simp: entryKey_def intro!: safe split: option.splits)
  have b1: "unat o1 \<le> unat (glen (buffer d))" if "entryKey d r k off depth = Inr (o1, r1)" for o1 r1
    using that entry.prems validate_values(1) [of d r off depth True] valid_bound
    by (cases rule: entryKey_cases) (auto simp: walked_def dest: inline_values)
  have val: "no_panic (entryValue d r1 o1 depth)" if "unat o1 \<le> unat (glen (buffer d))" for o1 r1
    using that entry(1) by (auto simp: entryValue_def intro!: safe split: option.splits)
  have b2: "unat o2 \<le> unat (glen (buffer d))"
    if "entryValue d r1 o1 depth = Inr (o2, r2)" "unat o1 \<le> unat (glen (buffer d))" for o1 r1 o2 r2
    using that validate_values(1) [of d r1 o1 depth False] valid_bound
    by (cases rule: entryValue_cases) (auto simp: walked_def dest: inline_values)
  show ?case
    unfolding validateEntries_Suc
    using key b1 val b2 entry(2) by (auto intro!: no_panic_bindE)
next
  case (whole r k sz off depth)
  then show ?case
    by (auto simp: validateContainerContents.simps intro!: safe)
qed

section \<open>The fast paths\<close>

text \<open>The loop of \<open>validateContainerContents\<close> without its inline tests.\<close>

fun plainEntries :: "DataDecoder \<Rightarrow> 32 word \<Rightarrow> Kind \<Rightarrow> nat \<Rightarrow> uint \<Rightarrow> nat \<Rightarrow> (uint \<times> 32 word) res" where
  "plainEntries d remaining kind 0 offset depth = Inr (offset, remaining)"
| "plainEntries d remaining kind (Suc n) offset depth =
     bindE (if kind = KindMap then validateValue d remaining offset depth True
            else Inr (offset, remaining)) (\<lambda>(offset, remaining).
     bindE (validateValue d remaining offset depth False) (\<lambda>(offset, remaining).
       plainEntries d remaining kind n offset depth))"

lemma validateValue_scalar:
  assumes "decodeCtrlData d off = Inr (k, sz, o1)" and "validateScalar k sz o1 (glen (buffer d)) = Inr e"
    and "depth \<le> maximumDataStructureDepth" and "str \<longrightarrow> k = KindString"
  shows "validateValue d r off depth str = Inr (e, r)"
  using assms validateScalar_token(2,3,4) [OF assms(1,2)]
  by (subst validateValue.simps) auto

lemma inline_validateValue:
  assumes "depth \<le> maximumDataStructureDepth"
  shows "inlineKey d off = Inr (Some e) \<Longrightarrow> validateValue d r off depth True = Inr (e, r)"
    and "inlineBool d off = Inr True \<Longrightarrow> validateValue d r off depth False = Inr (off + 2, r)"
    and "inlineScalar d off = Inr (Some e) \<Longrightarrow> validateValue d r off depth False = Inr (e, r)"
  using assms
  by (blast dest: inlineKey_Some inlineBool_True inlineScalar_Some intro: validateValue_scalar)+

lemma inline_tests_succeed:
  "\<exists>x. inlineKey d off = Inr x"
  "unat off \<le> unat (glen (buffer d)) \<Longrightarrow> \<exists>x. inlineBool d off = Inr x"
  "\<exists>x. inlineScalar d off = Inr x"
proof -
  show "\<exists>x. inlineKey d off = Inr x" "\<exists>x. inlineScalar d off = Inr x"
    by (auto simp: inlineKey_def inlineScalar_def Let_def index_ok)
  assume "unat off \<le> unat (glen (buffer d))"
  then have "unat (off + 1) = unat off + 1" using unat_plus_sz [of off "buffer d" 1] by simp
  then have "off < glen (buffer d)" if "off + 1 < glen (buffer d)"
    using that by (simp add: word_less_nat_alt)
  then show "\<exists>x. inlineBool d off = Inr x" by (auto simp: inlineBool_def index_ok)
qed

text \<open>
  C30. The inline tests of the validator's loop change nothing: up to the depth limit, the loop with
  the tests for short keys, booleans, short strings and compact integers returns exactly what the
  loop returns that sends every key and value through \<open>validateValue\<close>: the same end offset and
  remaining budget, or the same error.
\<close>

theorem validator_fast_paths:
  assumes "offset \<le> glen (buffer d)" and "depth \<le> maximumDataStructureDepth"
  shows "validateEntries d remaining kind n offset depth = plainEntries d remaining kind n offset depth"
proof -
  have "unat offset \<le> unat (glen (buffer d))" using assms(1) by (simp add: word_le_nat_alt)
  then show ?thesis
  proof (induction n arbitrary: remaining offset)
    case 0
    show ?case by simp
  next
    case (Suc n)
    have key: "entryKey d r k off depth =
        (if k = KindMap then validateValue d r off depth True else Inr (off, r))" for r k off
      using inline_tests_succeed(1) [of d off] inline_validateValue(1) [OF assms(2)]
      by (auto simp: entryKey_def split: option.splits)
    have val: "entryValue d r off depth = validateValue d r off depth False"
      if "unat off \<le> unat (glen (buffer d))" for r off
      using inline_tests_succeed(2) [OF that] inline_tests_succeed(3) [of d off]
        inline_validateValue(2,3) [OF assms(2)]
      by (auto simp: entryValue_def split: option.splits)
    have b: "unat e \<le> unat (glen (buffer d))"
      if "validateValue d r off depth str = Inr (e, r')" "unat off \<le> unat (glen (buffer d))" for r off str e r'
      using that validate_values(1) [of d r off depth str] valid_bound by (auto simp: walked_def)
    show ?case
      unfolding validateEntries_Suc plainEntries.simps key
    proof (rule bindE_cong [OF refl], clarify)
      fix o1 r1
      assume k: "(if kind = KindMap then validateValue d remaining offset depth True
          else Inr (offset, remaining)) = Inr (o1, r1)"
      then have b1: "unat o1 \<le> unat (glen (buffer d))"
        using Suc.prems b by (auto split: if_splits)
      show "bindE (entryValue d r1 o1 depth) (\<lambda>(o2, r2). validateEntries d r2 kind n o2 depth) =
          bindE (validateValue d r1 o1 depth False) (\<lambda>(o2, r2). plainEntries d r2 kind n o2 depth)"
        unfolding val [OF b1] using b1 b Suc.IH by (auto intro!: bindE_cong)
    qed
  qed
qed

theorem validator_fast_paths_witness:
  "validateEntries (NewDataDecoderWithoutStringCache [0xE1, 0x41, 0x61, 1, 7]) 9 KindMap 1 1 1 =
   plainEntries (NewDataDecoderWithoutStringCache [0xE1, 0x41, 0x61, 1, 7]) 9 KindMap 1 1 1"
  by (rule validator_fast_paths) (simp_all add: NewDataDecoderWithoutStringCache_def glen_def
      max_int_def maximumDataStructureDepth_def)

text \<open>
  C21. The structural validator is sound: it returns without a panic on any buffer, and when it
  accepts the value at an offset, a complete value with well-sized scalars stands there, the skip
  function accepts it and stops at the same offset, and the walk spent no more than the budget of
  container children it was given.
\<close>

theorem validator_sound:
  "validateValue d remaining offset depth requireString \<noteq> Inl Panic \<and>
   (validateValue d remaining offset depth requireString = Inr (e, remaining') \<longrightarrow>
      valid_at d 1 offset e \<and> nextValueOffset d offset 1 = Inr e \<and> remaining' \<le> remaining)"
proof -
  have "validateValue d remaining offset depth requireString \<noteq> Inl Panic"
    using no_panic_validate(1) [of d remaining offset depth requireString] by auto
  moreover
  have "valid_at d 1 offset e \<and> nextValueOffset d offset 1 = Inr e \<and> remaining' \<le> remaining"
    if "validateValue d remaining offset depth requireString = Inr (e, remaining')"
  proof -
    have v: "valid_at d 1 offset e" and r: "remaining' \<le> remaining"
      using that validate_values(1) [of d remaining offset depth requireString]
      by (auto simp: walked_def word_le_nat_alt)
    have "unat offset \<le> unat (glen (buffer d))"
      using strict_tokens.stream_start [of d 0 offset e] v by simp
    then have "nextValueOffset d offset 1 = Inr e"
      using strict.strict_stream [OF v] nextValueOffset_complete [of d 1 offset e] by simp
    with v r show ?thesis by blast
  qed
  ultimately show ?thesis by blast
qed

theorem validator_sound_witness:
  "nextValueOffset (NewDataDecoderWithoutStringCache [0xE1, 0x41, 0x61, 1, 7]) 0 1 = Inr 5 \<and>
   (32766 :: 32 word) \<le> newStructuralValidator"
proof -
  let ?d = "NewDataDecoderWithoutStringCache [0xE1, 0x41, 0x61, 1, 7]"
  have "validateValue ?d newStructuralValidator 0 0 False = Inr (5, 32766)" by code_simp
  then show ?thesis
    using validator_sound [of ?d newStructuralValidator 0 0 False 5 32766] by simp
qed

end
