(* ===== verification/Strings.thy ===== *)
theory Strings
  imports Validator
begin

text \<open>
  The readers of \<open>internal/decoder/data_decoder.go\<close> that follow a pointer: \<open>resolveCtrlData\<close> (in
  \<open>decoder.go\<close>), strings and map keys. Each has inline fast paths for the compact encodings and a
  general path behind them; the equivalence theorems say that the fast paths change nothing, and the
  transparency theorem that the string cache does not either.
\<close>

section \<open>Resolving one pointer\<close>

text \<open>Kind, size, offset of the data, and the offset after the pointer (0 without a pointer).\<close>

definition resolveCtrlData :: "DataDecoder \<Rightarrow> uint \<Rightarrow> (Kind \<times> uint \<times> uint \<times> uint) res" where
  "resolveCtrlData d offset =
     bindE (decodeCtrlData d offset) (\<lambda>(kind, sz, dataOffset).
       if kind \<noteq> KindPointer then Inr (kind, sz, dataOffset, 0)
       else
         bindE (decodePointer d sz dataOffset) (\<lambda>(dataOffset, pointerEndOffset).
           let nextOffset = pointerEndOffset in
           bindE (decodeCtrlData d dataOffset) (\<lambda>(kind, sz, dataOffset).
             if kind = KindPointer then Inl (InvalidDatabaseError PointerToPointerChain)
             else Inr (kind, sz, dataOffset, nextOffset))))"

section \<open>Strings\<close>

text \<open>The \<open>switch\<close> that assembles a pointer inline; \<open>None\<close> is its missing default.\<close>

definition inlinePointer :: "DataDecoder \<Rightarrow> uint \<Rightarrow> uint \<Rightarrow> uint \<Rightarrow> uint option res" where
  "inlinePointer d sz payloadOffset pointerSize =
     (let at = (\<lambda>i. index (buffer d) (payloadOffset + i)) in
      if pointerSize = 1 then
        bindE (at 0) (\<lambda>b0. Inr (Some (push_bit 8 (sz AND 0x7) OR ucast b0)))
      else if pointerSize = 2 then
        bindE (at 0) (\<lambda>b0. bindE (at 1) (\<lambda>b1.
          Inr (Some ((push_bit 16 (sz AND 0x7) OR push_bit 8 (ucast b0) OR ucast b1) + pointerBase2))))
      else if pointerSize = 3 then
        bindE (at 0) (\<lambda>b0. bindE (at 1) (\<lambda>b1. bindE (at 2) (\<lambda>b2.
          Inr (Some ((push_bit 24 (sz AND 0x7) OR push_bit 16 (ucast b0) OR push_bit 8 (ucast b1)
                      OR ucast b2) + pointerBase3)))))
      else if pointerSize = 4 then
        bindE (at 0) (\<lambda>b0. bindE (at 1) (\<lambda>b1. bindE (at 2) (\<lambda>b2. bindE (at 3) (\<lambda>b3.
          Inr (Some (push_bit 24 (ucast b0) OR push_bit 16 (ucast b1) OR push_bit 8 (ucast b2)
                     OR ucast b3))))))
      else Inr None)"

text \<open>
  The target of a pointer, when it is a compact string inside the buffer: its size. The callers
  test the end of its data with two different expressions, here the argument \<open>fits\<close>.
\<close>

definition pointedString :: "DataDecoder \<Rightarrow> (uint \<Rightarrow> uint \<Rightarrow> bool) \<Rightarrow> uint \<Rightarrow> uint option res" where
  "pointedString d fits pointer =
     (if pointer < glen (buffer d) then
        bindE (index (buffer d) pointer) (\<lambda>pointedCtrlByte.
          if Kind_of_byte (drop_bit 5 pointedCtrlByte) = KindString then
            let pointedSize = ucast (pointedCtrlByte AND 0x1f) :: uint;
                dataOffset = pointer + 1
            in if pointedSize < 29 \<and> fits dataOffset pointedSize then Inr (Some pointedSize)
               else Inr None
          else Inr None)
      else Inr None)"

definition copyString :: "DataDecoder \<Rightarrow> uint \<Rightarrow> uint \<Rightarrow> (gostring \<times> DataDecoder) res" where
  "copyString d dataOffset sz =
     bindE (slice (buffer d) dataOffset (dataOffset + sz)) (\<lambda>bs.
       Inr (decodeStringBytes d (dataOffset - 1) bs))"

text \<open>
  The inline switch for the compact encodings, which \<open>decodeStringValue\<close> and
  \<open>Cursor.ReadStringMaxSize\<close> both hold: the offset and size of the string's bytes and the
  successor of the value.
\<close>

definition compactString :: "DataDecoder \<Rightarrow> uint \<Rightarrow> (uint \<times> uint \<times> uint) option res" where
  "compactString d offset =
     (let bufferLen = glen (buffer d) in
      if offset < bufferLen then
        bindE (index (buffer d) offset) (\<lambda>ctrlByte.
          let kind = Kind_of_byte (drop_bit 5 ctrlByte); sz = ucast (ctrlByte AND 0x1f) :: uint in
          if kind = KindString then
            if sz < 29 then
              let dataOffset = offset + 1; nextOffset = dataOffset + sz in
              if nextOffset \<le> bufferLen then Inr (Some (dataOffset, sz, nextOffset)) else Inr None
            else Inr None
          else if kind = KindPointer then
            if sz < 8 then
              if offset + 2 \<le> bufferLen then
                bindE (index (buffer d) (offset + 1)) (\<lambda>b.
                  let pointer = push_bit 8 (sz AND 0x7) OR ucast b in
                  bindE (pointedString d (\<lambda>dataOffset n. dataOffset + n \<le> bufferLen) pointer) (\<lambda>target.
                    case target of
                      None \<Rightarrow> Inr None
                    | Some pointedSize \<Rightarrow> Inr (Some (pointer + 1, pointedSize, offset + 2))))
              else Inr None
            else
              let payloadOffset = offset + 1;
                  pointerSize = (drop_bit 3 sz AND 0x3) + 1;
                  pointerEnd = payloadOffset + pointerSize
              in if pointerEnd \<le> bufferLen then
                   bindE (inlinePointer d sz payloadOffset pointerSize) (\<lambda>assembled.
                     let pointer = (case assembled of None \<Rightarrow> 0 | Some p \<Rightarrow> p) in
                     bindE (pointedString d (\<lambda>dataOffset n. n \<le> bufferLen - dataOffset) pointer) (\<lambda>target.
                       case target of
                         None \<Rightarrow> Inr None
                       | Some pointedSize \<Rightarrow> Inr (Some (pointer + 1, pointedSize, pointerEnd))))
                 else Inr None
          else Inr None)
      else Inr None)"

definition stringValueSlow :: "DataDecoder \<Rightarrow> uint \<Rightarrow> (gostring \<times> uint \<times> DataDecoder) res" where
  "stringValueSlow d offset =
     bindE (resolveCtrlData d offset) (\<lambda>(kind, sz, dataOffset, nextOffset).
       let nextOffset = (if nextOffset = 0 then dataOffset + sz else nextOffset) in
       if kind \<noteq> KindString then Inl (UnexpectedKindError kind (NewKindSet [KindString]))
       else
         bindE (decodeString d sz dataOffset) (\<lambda>(s, _, d). Inr (s, nextOffset, d)))"

definition decodeStringValue :: "DataDecoder \<Rightarrow> uint \<Rightarrow> (gostring \<times> uint \<times> DataDecoder) res" where
  "decodeStringValue d offset =
     bindE (compactString d offset) (\<lambda>compact.
       case compact of
         Some (dataOffset, sz, nextOffset) \<Rightarrow>
           bindE (copyString d dataOffset sz) (\<lambda>(s, d). Inr (s, nextOffset, d))
       | None \<Rightarrow> stringValueSlow d offset)"

section \<open>Map keys\<close>

text \<open>The key bytes, their data offset and the offset after the pointer.\<close>

definition decodePointerKeyFast :: "DataDecoder \<Rightarrow> uint \<Rightarrow> uint \<Rightarrow> uint \<Rightarrow> (bytes \<times> uint \<times> uint) option res" where
  "decodePointerKeyFast d offset ctrlByte bufferLen =
     (let sz = ctrlByte AND 0x1f;
          pointerSize = (drop_bit 3 sz AND 0x3) + 1;
          newOffset = offset + 1 + pointerSize
      in if newOffset > bufferLen then Inr None
      else
        bindE (inlinePointer d sz (offset + 1) pointerSize) (\<lambda>assembled.
          case assembled of
            None \<Rightarrow> Inr None
          | Some pointer \<Rightarrow>
              bindE (pointedString d (\<lambda>dataOffset n. dataOffset + n \<le> bufferLen) pointer) (\<lambda>target.
                case target of
                  None \<Rightarrow> Inr None
                | Some pointedSize \<Rightarrow>
                    let dataOffset = pointer + 1 in
                    bindE (slice (buffer d) dataOffset (dataOffset + pointedSize)) (\<lambda>key.
                      Inr (Some (key, dataOffset, newOffset))))))"

definition unexpectedMapKeyKind :: "DataDecoder \<Rightarrow> uint \<Rightarrow> Kind \<Rightarrow> gerr" where
  "unexpectedMapKeyKind d offset kind =
     (if \<not> IsContainer kind then
        (case validateValue d newStructuralValidator offset 0 False of
           Inl err \<Rightarrow> err
         | Inr _ \<Rightarrow> InvalidDatabaseError (UnexpectedMapKeyType kind))
      else InvalidDatabaseError (UnexpectedMapKeyType kind))"

text \<open>The key bytes, the offset of their control record, and the offset after the key.\<close>

definition keyAtFast :: "DataDecoder \<Rightarrow> uint \<Rightarrow> byte \<Rightarrow> (bytes \<times> uint \<times> uint) option res" where
  "keyAtFast d offset ctrlByte =
     (let bufferLen = glen (buffer d);
          kind = Kind_of_byte (drop_bit 5 ctrlByte);
          sz = ucast (ctrlByte AND 0x1f) :: uint
      in if kind = KindString then
           if sz < 29 then
             let dataOffset = offset + 1; newOffset = dataOffset + sz in
             if newOffset > bufferLen then Inl OffsetError
             else bindE (slice (buffer d) dataOffset newOffset) (\<lambda>key. Inr (Some (key, offset, newOffset)))
           else Inr None
         else if kind = KindPointer then
           bindE
             (if sz < 8 \<and> offset + 2 \<le> bufferLen then
                bindE (index (buffer d) (offset + 1)) (\<lambda>b.
                  let pointer = push_bit 8 (sz AND 0x7) OR ucast b in
                  bindE (pointedString d (\<lambda>dataOffset n. dataOffset + n \<le> bufferLen) pointer) (\<lambda>target.
                    case target of
                      None \<Rightarrow> Inr None
                    | Some pointedSize \<Rightarrow>
                        let dataOffset = pointer + 1 in
                        bindE (slice (buffer d) dataOffset (dataOffset + pointedSize)) (\<lambda>key.
                          Inr (Some (key, pointer, offset + 2)))))
              else Inr None)
             (\<lambda>compact.
               case compact of
                 Some result \<Rightarrow> Inr (Some result)
               | None \<Rightarrow>
                   bindE (decodePointerKeyFast d offset (ucast ctrlByte) bufferLen) (\<lambda>fast.
                     case fast of
                       None \<Rightarrow> Inr None
                     | Some (key, dataOffset, newOffset) \<Rightarrow> Inr (Some (key, dataOffset - 1, newOffset))))
         else Inr None)"

definition keyAtSlow :: "DataDecoder \<Rightarrow> uint \<Rightarrow> (bytes \<times> uint \<times> uint) res" where
  "keyAtSlow d offset =
     bindE (resolveCtrlData d offset) (\<lambda>(kindNum, sz, dataOffset, nextOffset).
       let nextOffset = (if nextOffset = 0 then dataOffset + sz else nextOffset) in
       if kindNum \<noteq> KindString then Inl (unexpectedMapKeyKind d offset kindNum)
       else
         let newOffset = dataOffset + sz in
         if newOffset > glen (buffer d) then Inl OffsetError
         else
           let headerSize = string_headerSize sz in
           if dataOffset < headerSize then Inl OffsetError
           else bindE (slice (buffer d) dataOffset newOffset) (\<lambda>key.
             Inr (key, dataOffset - headerSize, nextOffset)))"

definition decodeKeyAt :: "DataDecoder \<Rightarrow> uint \<Rightarrow> (bytes \<times> uint \<times> uint) res" where
  "decodeKeyAt d offset =
     (if offset \<ge> glen (buffer d) then Inl OffsetError
      else bindE (index (buffer d) offset) (\<lambda>ctrlByte.
        bindE (keyAtFast d offset ctrlByte) (\<lambda>fast.
          case fast of Some result \<Rightarrow> Inr result | None \<Rightarrow> keyAtSlow d offset)))"

definition decodeKey :: "DataDecoder \<Rightarrow> uint \<Rightarrow> (bytes \<times> uint) res" where
  "decodeKey d offset =
     bindE (decodeKeyAt d offset) (\<lambda>(key, _, nextOffset). Inr (key, nextOffset))"

definition decodeStringKey :: "DataDecoder \<Rightarrow> uint \<Rightarrow> (gostring \<times> uint \<times> DataDecoder) res" where
  "decodeStringKey d offset =
     bindE (decodeKeyAt d offset) (\<lambda>(key, cacheOffset, nextOffset).
       case stringCache d of
         None \<Rightarrow> Inr (key, nextOffset, d)
       | Some sc \<Rightarrow>
           let (s, sc') = internAt sc cacheOffset key in
           Inr (s, nextOffset, d\<lparr>stringCache := Some sc'\<rparr>))"

section \<open>What a successful resolution has read\<close>

lemma decodePointer_Inr_at:
  assumes "decodeCtrlData d off = Inr (k, sz, o1)" and "decodePointer d sz o1 = Inr (p, n)"
  shows "unat p < 2 ^ 32" and "unat o1 < unat n" and "unat n \<le> unat o1 + 4"
    and "unat n \<le> unat (glen (buffer d))"
  using decodePointer_Inr [OF assms(2) decodeCtrlData_Inr(3) [OF assms(1)]] by blast+

text \<open>A resolved value: its control record stands at \<open>r\<close>, and the containing stream goes on at \<open>n\<close>.\<close>

definition resolves :: "DataDecoder \<Rightarrow> uint \<Rightarrow> uint \<Rightarrow> uint \<Rightarrow> bool" where
  "resolves d off r n \<longleftrightarrow>
     (r = off \<and> n = 0 \<and> (\<forall>sz o1. decodeCtrlData d off \<noteq> Inr (KindPointer, sz, o1))) \<or>
     (\<exists>sz o1. decodeCtrlData d off = Inr (KindPointer, sz, o1) \<and> decodePointer d sz o1 = Inr (r, n))"

lemma resolveCtrlData_Inr:
  assumes "resolveCtrlData d off = Inr (k, sz, o1, n)"
  obtains r where "resolves d off r n" and "decodeCtrlData d r = Inr (k, sz, o1)" and "k \<noteq> KindPointer"
proof -
  obtain k0 sz0 o0 where c: "decodeCtrlData d off = Inr (k0, sz0, o0)"
    using assms by (auto simp: resolveCtrlData_def bindE_eq_Inr)
  show thesis
  proof (cases "k0 = KindPointer")
    case False
    with assms c have "k = k0" "sz = sz0" "o1 = o0" "n = 0" by (simp_all add: resolveCtrlData_def)
    with False c show thesis by (intro that [of off]) (simp_all add: resolves_def)
  next
    case True
    with assms c obtain r where "decodePointer d sz0 o0 = Inr (r, n)"
      and "decodeCtrlData d r = Inr (k, sz, o1)" and "k \<noteq> KindPointer"
      by (auto simp: resolveCtrlData_def bindE_eq_Inr Let_def split: if_splits)
    with True c show thesis by (intro that [of r]) (auto simp: resolves_def)
  qed
qed

lemma resolveCtrlData_intro:
  assumes "resolves d off r n" and "decodeCtrlData d r = Inr (k, sz, o1)" and "k \<noteq> KindPointer"
  shows "resolveCtrlData d off = Inr (k, sz, o1, n)"
  using assms by (auto simp: resolveCtrlData_def resolves_def)

lemma no_panic_resolveCtrlData [safe]: "no_panic (resolveCtrlData d off)"
  by (auto simp: resolveCtrlData_def intro!: safe dest: decodeCtrlData_Inr(3) split: prod.splits)

section \<open>The fast paths read the same\<close>

lemma take_4: "3 < length xs \<Longrightarrow> take 4 xs = [xs ! 0, xs ! 1, xs ! 2, xs ! 3]"
  using take_nth_Suc(1) [of "drop 3 xs"] take_nth_Suc(3) [of xs] take_add [of 3 1 xs] by simp

lemma index_after:
  assumes "unat po + i < unat (glen xs)"
  shows "index xs (po + word_of_nat i) = Inr (drop (unat po) (gtake xs) ! i)"
  using assms unat_add_of_nat [of po i xs] by (simp add: index_gtake length_gtake)

lemma inlinePointer_decodePointer:
  assumes "unat po + unat ps \<le> unat (glen (buffer d))" and "ps = (drop_bit 3 sz AND 0x3) + 1"
  shows "\<exists>p. inlinePointer d sz po ps = Inr (Some p) \<and> decodePointer d sz po = Inr (p, po + ps)"
proof -
  have w: "unat ps = (unat sz div 8) mod 4 + 1" by (simp add: assms(2) pointer_width)
  have fit: "\<not> po + ps > glen (buffer d)"
    using assms(1) w unat_plus_sz [of po "buffer d" ps] by (simp add: word_less_nat_alt)
  define bs where "bs = drop (unat po) (gtake (buffer d))"
  have len: "unat ps \<le> length bs" using assms(1) by (simp add: bs_def length_gtake)
  have sl: "slice (buffer d) po (po + ps) = Inr (take (unat ps) bs)"
    using slice_payload [OF assms(1)] by (simp add: payload_def bs_def)
  have ix: "index (buffer d) (po + word_of_nat i) = Inr (bs ! i)" if "i < unat ps" for i
    using that assms(1) index_after [of po i "buffer d"] by (simp add: bs_def)
  have dec: "decodePointer d sz po =
      (let prefix = (if ps = 4 then 0 else sz AND 0x7);
           unpacked = uintFromBytes prefix (take (unat ps) bs)
       in if ps = 1 \<or> ps = 4 then Inr (unpacked + 0, po + ps)
          else if ps = 2 then Inr (unpacked + pointerBase2, po + ps)
          else if ps = 3 then Inr (unpacked + pointerBase3, po + ps)
          else Inl (InvalidDatabaseError (InvalidPointerSize ps)))"
    using fit sl unfolding decodePointer_def assms(2) [symmetric] Let_def by simp
  consider "ps = 1" | "ps = 2" | "ps = 3" | "ps = 4"
  proof -
    have "unat ps = 1 \<or> unat ps = 2 \<or> unat ps = 3 \<or> unat ps = 4" using w by linarith
    then show thesis using that by (auto simp: word_unat_eq_iff)
  qed
  then show ?thesis
  proof cases
    case 1
    then show ?thesis
      using dec ix [of 0] len take_nth_Suc(1) [of bs] by (cases bs) (simp_all add: inlinePointer_def uintFromBytes_def)
  next
    case 2
    then show ?thesis
      using dec ix [of 0] ix [of 1] len take_nth_Suc(2) [of bs]
      by (simp add: inlinePointer_def uintFromBytes_def push_bit_or or.assoc)
  next
    case 3
    then show ?thesis
      using dec ix [of 0] ix [of 1] ix [of 2] len take_nth_Suc(3) [of bs]
      by (simp add: inlinePointer_def uintFromBytes_def push_bit_or or.assoc)
  next
    case 4
    then show ?thesis
      using dec ix [of 0] ix [of 1] ix [of 2] ix [of 3] len take_4 [of bs]
      by (simp add: inlinePointer_def uintFromBytes_def push_bit_or or.assoc)
  qed
qed

lemma pointer_compact:
  assumes "index (buffer d) (off + 1) = Inr b" and "unat off + 2 \<le> unat (glen (buffer d))"
    and "(sz :: uint) < 8"
  shows "decodePointer d sz (off + 1) = Inr (push_bit 8 (sz AND 0x7) OR ucast b, off + 2)"
proof -
  have "(drop_bit 3 sz :: uint) = 0"
    using assms(3) by (simp add: drop_bit_eq_div word_less_nat_alt word_unat_eq_iff unat_div)
  then have ps: "(1 :: uint) = (drop_bit 3 sz AND 0x3) + 1" by simp
  have u: "unat (off + 1) = unat off + 1"
    using assms(2) unat_plus_sz [of off "buffer d" 1] by simp
  from assms(1,2) u inlinePointer_decodePointer [OF _ ps, of "off + 1" d]
  show ?thesis by (auto simp: inlinePointer_def add.assoc)
qed

lemma pointedString_Inr:
  assumes "\<And>n. unat p < unat (glen (buffer d)) \<Longrightarrow> n < 29 \<Longrightarrow>
    fits (p + 1) n \<longleftrightarrow> unat p + 1 + unat n \<le> unat (glen (buffer d))"
  shows "\<exists>target. pointedString d fits p = Inr target \<and>
     (\<forall>n. target = Some n \<longrightarrow> n < 29 \<and> decodeCtrlData d p = Inr (KindString, n, p + 1) \<and>
        unat p + 1 + unat n \<le> unat (glen (buffer d)))"
proof (cases "p < glen (buffer d)")
  case False
  then show ?thesis by (simp add: pointedString_def)
next
  case True
  then obtain c where c: "index (buffer d) p = Inr c" by (simp add: index_ok)
  have "unat p < unat (glen (buffer d))" using True by (simp add: word_less_nat_alt)
  from assms [OF this] show ?thesis
    using True c decodeCtrlData_direct [OF c]
    by (auto simp: pointedString_def Let_def)
qed

lemma fits_iff:
  assumes "unat p < unat (glen (xs :: byte list))" and "(n :: uint) < 29"
  shows "p + 1 + n \<le> glen xs \<longleftrightarrow> unat p + 1 + unat n \<le> unat (glen xs)"
    and "n \<le> glen xs - (p + 1) \<longleftrightarrow> unat p + 1 + unat n \<le> unat (glen xs)"
proof -
  have g: "unat (glen xs) \<le> 9223372036854775807" by (rule unat_glen_bound)
  have n: "unat n < 29" using assms(2) by (simp add: word_less_nat_alt)
  have u1: "unat (p + 1) = unat p + 1" using assms(1) unat_plus_sz [of p xs 1] by simp
  have u2: "unat (p + 1 + n) = unat p + 1 + unat n"
    using assms(1) u1 n unat_plus_sz [of "p + 1" xs n] by simp
  show "p + 1 + n \<le> glen xs \<longleftrightarrow> unat p + 1 + unat n \<le> unat (glen xs)"
    using u2 by (simp add: word_le_nat_alt)
  have "unat (glen xs - (p + 1)) = unat (glen xs) - (unat p + 1)"
    using assms(1) u1 by (subst unat_sub) (simp_all add: word_le_nat_alt)
  then show "n \<le> glen xs - (p + 1) \<longleftrightarrow> unat p + 1 + unat n \<le> unat (glen xs)"
    using assms(1) by (auto simp: word_le_nat_alt)
qed

text \<open>A compact string is copied the way \<open>decodeString\<close> copies it.\<close>

lemma copyString_decodeString:
  assumes "decodeCtrlData d p = Inr (KindString, n, p + 1)" and "n < 29"
    and "unat p + 1 + unat n \<le> unat (glen (buffer d))"
  shows "\<exists>s d'. copyString d (p + 1) n = Inr (s, d') \<and>
     decodeString d n (p + 1) = Inr (s, p + 1 + n, d')"
proof -
  have u1: "unat (p + 1) = unat p + 1" using assms(3) unat_plus_sz [of p "buffer d" 1] by simp
  have sl: "slice (buffer d) (p + 1) (p + 1 + n) = Inr (payload d (p + 1) n)"
    using assms(3) u1 by (intro slice_payload) simp
  have r: "small_range d (p + 1) n"
    using assms(2,3) u1 by (simp add: small_range_def word_less_nat_alt)
  have g: "\<not> p + 1 + n > glen (buffer d)"
    using guard_iff [OF r] assms(3) u1 by simp
  have h: "string_headerSize n = 1" using assms(2) by (simp add: string_headerSize_def not_le)
  have "\<not> p + 1 < 1" using u1 by (simp add: word_less_nat_alt)
  then show ?thesis
    using sl g h
    by (auto simp: copyString_def decodeString_def decodeStringBytes_def internOpt_def Let_def
        split: option.splits prod.splits)
qed

lemma next_nonzero:
  assumes "decodeCtrlData d off = Inr (k, sz, o1)" and "decodePointer d sz o1 = Inr (p, n)"
  shows "n \<noteq> 0"
  using decodePointer_Inr_at(2) [OF assms] by auto

text \<open>A compact string is one that resolves to a short directly encoded string.\<close>

definition compact_at :: "DataDecoder \<Rightarrow> uint \<Rightarrow> uint \<Rightarrow> uint \<Rightarrow> uint \<Rightarrow> bool" where
  "compact_at d off p n m \<longleftrightarrow>
     resolves d off p m \<and> decodeCtrlData d p = Inr (KindString, n, p + 1) \<and> n < 29 \<and>
     unat p + 1 + unat n \<le> unat (glen (buffer d))"

lemma compactString_spec:
  "\<exists>compact. compactString d off = Inr compact \<and>
     (\<forall>dataOffset n next. compact = Some (dataOffset, n, next) \<longrightarrow>
        (\<exists>p m. dataOffset = p + 1 \<and> compact_at d off p n m \<and> next = (if m = 0 then p + 1 + n else m)))"
proof (cases "off < glen (buffer d)")
  case False
  then show ?thesis by (simp add: compactString_def)
next
  case True
  then have o: "unat off < unat (glen (buffer d))" by (simp add: word_less_nat_alt)
  obtain c where c: "index (buffer d) off = Inr c" using True by (simp add: index_ok)
  define sz where "sz = (ucast (c AND 31) :: uint)"
  have u1: "unat (off + 1) = unat off + 1" using o unat_plus_sz [of off "buffer d" 1] by simp
  have u2: "unat (off + 2) = unat off + 2" using o unat_plus_sz [of off "buffer d" 2] by simp
  define ps where "ps = (drop_bit 3 sz AND 3) + (1 :: uint)"
  have bail: "compactString d off = Inr None"
    if "\<not> (Kind_of_byte (drop_bit 5 c) = KindString \<and> sz < 29 \<and> off + 1 + sz \<le> glen (buffer d))"
      and "\<not> (Kind_of_byte (drop_bit 5 c) = KindPointer \<and> sz < 8 \<and> off + 2 \<le> glen (buffer d))"
      and "\<not> (Kind_of_byte (drop_bit 5 c) = KindPointer \<and> \<not> sz < 8 \<and> off + 1 + ps \<le> glen (buffer d))"
    using that True c
    by (auto simp: compactString_def Let_def simp flip: sz_def ps_def simp del: not_less)
  consider (str) "Kind_of_byte (drop_bit 5 c) = KindString" "sz < 29" "off + 1 + sz \<le> glen (buffer d)"
    | (short) "Kind_of_byte (drop_bit 5 c) = KindPointer" "sz < 8" "off + 2 \<le> glen (buffer d)"
    | (long) "Kind_of_byte (drop_bit 5 c) = KindPointer" "\<not> sz < 8" "off + 1 + ps \<le> glen (buffer d)"
    | (none) "compactString d off = Inr None"
    using bail by blast
  then show ?thesis
  proof cases
    case str
    have ctrl: "decodeCtrlData d off = Inr (KindString, sz, off + 1)"
      using decodeCtrlData_direct [OF c str(1)] str(2) by (simp add: sz_def)
    have fit: "unat off + 1 + unat sz \<le> unat (glen (buffer d))"
      using fits_iff(1) [OF o str(2)] str(3) by simp
    have at: "compact_at d off off sz 0"
      using ctrl str(2) fit by (simp add: compact_at_def resolves_def)
    have "compactString d off = Inr (Some (off + 1, sz, off + 1 + sz))"
      using True c str by (simp add: compactString_def Let_def flip: sz_def)
    then show ?thesis using at by fastforce
  next
    case short
    have ctrl: "decodeCtrlData d off = Inr (KindPointer, sz, off + 1)"
      using decodeCtrlData_direct [OF c short(1)] by (simp add: sz_def)
    have fit: "unat off + 2 \<le> unat (glen (buffer d))"
      using short(3) u2 by (simp add: word_le_nat_alt)
    then obtain b where b: "index (buffer d) (off + 1) = Inr b"
      using u1 by (auto simp: index_def word_less_nat_alt)
    define p where "p = (push_bit 8 (sz AND 7) OR ucast b :: uint)"
    have ptr: "decodePointer d sz (off + 1) = Inr (p, off + 2)"
      using pointer_compact [OF b fit short(2)] by (simp add: p_def)
    obtain target where t: "pointedString d (\<lambda>dataOffset n. dataOffset + n \<le> glen (buffer d)) p = Inr target"
      and str: "\<And>n. target = Some n \<Longrightarrow> n < 29 \<and> decodeCtrlData d p = Inr (KindString, n, p + 1) \<and>
        unat p + 1 + unat n \<le> unat (glen (buffer d))"
      using pointedString_Inr [of p d "\<lambda>dataOffset n. dataOffset + n \<le> glen (buffer d)"] fits_iff(1) by auto
    have "compactString d off = (case target of None \<Rightarrow> Inr None | Some n \<Rightarrow> Inr (Some (p + 1, n, off + 2)))"
      using True c short b t
      by (cases target) (simp_all add: compactString_def Let_def p_def flip: sz_def)
    moreover have "compact_at d off p n next" if "target = Some n" "decodePointer d sz (off + 1) = Inr (p, next)" for n "next"
      using ctrl that str [OF that(1)] by (auto simp: compact_at_def resolves_def)
    ultimately show ?thesis
      using ptr next_nonzero [OF ctrl ptr] by (cases target) force+
  next
    case long
    have ctrl: "decodeCtrlData d off = Inr (KindPointer, sz, off + 1)"
      using decodeCtrlData_direct [OF c long(1)] by (simp add: sz_def)
    have "unat ps \<le> 4" by (simp add: ps_def pointer_width)
    then have "unat (off + 1 + ps) = unat (off + 1) + unat ps"
      using o u1 by (intro unat_plus_sz [of _ "buffer d"]) simp_all
    then have fit: "unat (off + 1) + unat ps \<le> unat (glen (buffer d))"
      using long(3) by (simp add: word_le_nat_alt)
    obtain p where inl: "inlinePointer d sz (off + 1) ps = Inr (Some p)"
      and ptr: "decodePointer d sz (off + 1) = Inr (p, off + 1 + ps)"
      using inlinePointer_decodePointer [OF fit ps_def] by blast
    obtain target where t: "pointedString d (\<lambda>dataOffset n. n \<le> glen (buffer d) - dataOffset) p = Inr target"
      and str: "\<And>n. target = Some n \<Longrightarrow> n < 29 \<and> decodeCtrlData d p = Inr (KindString, n, p + 1) \<and>
        unat p + 1 + unat n \<le> unat (glen (buffer d))"
      using pointedString_Inr [of p d "\<lambda>dataOffset n. n \<le> glen (buffer d) - dataOffset"] fits_iff(2) by auto
    have "compactString d off = (case target of None \<Rightarrow> Inr None | Some n \<Rightarrow> Inr (Some (p + 1, n, off + 1 + ps)))"
      using True c long inl t
      by (cases target) (simp_all add: compactString_def Let_def flip: sz_def ps_def)
    moreover have "compact_at d off p n next" if "target = Some n" "decodePointer d sz (off + 1) = Inr (p, next)" for n "next"
      using ctrl that str [OF that(1)] by (auto simp: compact_at_def resolves_def)
    ultimately show ?thesis
      using ptr next_nonzero [OF ctrl ptr] by (cases target) force+
  next
    case none
    then show ?thesis by simp
  qed
qed

lemma compact_at_resolve:
  "compact_at d off p n m \<Longrightarrow> resolveCtrlData d off = Inr (KindString, n, p + 1, m)"
  by (auto simp: compact_at_def intro: resolveCtrlData_intro)

lemma decodeStringValue_eq: "decodeStringValue d offset = stringValueSlow d offset"
proof -
  obtain compact where c: "compactString d offset = Inr compact"
    and spec: "\<And>dataOffset n next. compact = Some (dataOffset, n, next) \<Longrightarrow>
      \<exists>p m. dataOffset = p + 1 \<and> compact_at d offset p n m \<and> next = (if m = 0 then p + 1 + n else m)"
    using compactString_spec [of d offset] by blast
  show ?thesis
  proof (cases compact)
    case None
    then show ?thesis by (simp add: decodeStringValue_def c)
  next
    case (Some r)
    then obtain p n m where r: "compact = Some (p + 1, n, if m = 0 then p + 1 + n else m)"
      and at: "compact_at d offset p n m" using spec by (cases r) blast
    obtain s d' where "copyString d (p + 1) n = Inr (s, d')" "decodeString d n (p + 1) = Inr (s, p + 1 + n, d')"
      using copyString_decodeString [of d p n] at unfolding compact_at_def by blast
    with compact_at_resolve [OF at] show ?thesis
      by (simp add: decodeStringValue_def c r stringValueSlow_def)
  qed
qed

text \<open>
  C24. The fast paths of \<open>decodeStringValue\<close> (direct short strings, and pointers of every width to
  short strings, assembled inline) change nothing: the function returns exactly what
  \<open>resolveCtrlData\<close> followed by \<open>decodeString\<close> returns, on every buffer and offset: the same
  string, successor and cache state, or the same error.
\<close>

theorem decodeStringValue_fast_paths: "decodeStringValue d offset = stringValueSlow d offset"
  by (rule decodeStringValue_eq)

lemma compact_key:
  assumes "decodeCtrlData d p = Inr (KindString, n, p + 1)" and "n < 29"
    and "unat p + 1 + unat n \<le> unat (glen (buffer d))" and "resolves d off p next"
  shows "slice (buffer d) (p + 1) (p + 1 + n) = Inr (payload d (p + 1) n)"
    and "keyAtSlow d off =
      Inr (payload d (p + 1) n, p, if next = 0 then p + 1 + n else next)"
proof -
  have u1: "unat (p + 1) = unat p + 1" using assms(3) unat_plus_sz [of p "buffer d" 1] by simp
  show sl: "slice (buffer d) (p + 1) (p + 1 + n) = Inr (payload d (p + 1) n)"
    using assms(3) u1 by (intro slice_payload) simp
  have r: "small_range d (p + 1) n"
    using assms(2,3) u1 by (simp add: small_range_def word_less_nat_alt)
  have g: "\<not> p + 1 + n > glen (buffer d)"
    using guard_iff [OF r] assms(3) u1 by simp
  have h: "string_headerSize n = 1" using assms(2) by (simp add: string_headerSize_def not_le)
  have "\<not> p + 1 < 1" using u1 by (simp add: word_less_nat_alt)
  moreover have "resolveCtrlData d off = Inr (KindString, n, p + 1, next)"
    using assms(1,4) by (intro resolveCtrlData_intro) simp_all
  ultimately show "keyAtSlow d off = Inr (payload d (p + 1) n, p, if next = 0 then p + 1 + n else next)"
    using sl g h by (simp add: keyAtSlow_def)
qed

definition agrees :: "'a option res \<Rightarrow> 'a res \<Rightarrow> bool" where
  "agrees fast slow \<longleftrightarrow> fast = Inr None \<or> fast = map_sum id Some slow"

lemma decodePointerKeyFast_slow:
  assumes "off < glen (buffer d)" and "index (buffer d) off = Inr c"
    and "Kind_of_byte (drop_bit 5 c) = KindPointer"
  shows "agrees (map_sum id (map_option (\<lambda>(key, dataOffset, n). (key, dataOffset - 1, n)))
      (decodePointerKeyFast d off (ucast c) (glen (buffer d)))) (keyAtSlow d off)"
proof -
  have o: "unat off < unat (glen (buffer d))" using assms(1) by (simp add: word_less_nat_alt)
  define sz where "sz = (ucast (c AND 31) :: uint)"
  have sz: "ucast c AND 31 = sz" by (simp add: sz_def unsigned_and_eq)
  have ctrl: "decodeCtrlData d off = Inr (KindPointer, sz, off + 1)"
    using decodeCtrlData_direct [OF assms(2,3)] by (simp add: sz_def)
  define ps where "ps = (drop_bit 3 sz AND 3) + (1 :: uint)"
  have u1: "unat (off + 1) = unat off + 1" using o unat_plus_sz [of off "buffer d" 1] by simp
  have ps4: "unat ps \<le> 4" by (simp add: ps_def pointer_width)
  then have u: "unat (off + 1 + ps) = unat (off + 1) + unat ps"
    using o u1 by (intro unat_plus_sz [of _ "buffer d"]) simp_all
  have run: "decodePointerKeyFast d off (ucast c) (glen (buffer d)) =
      (if off + 1 + ps > glen (buffer d) then Inr None
       else bindE (inlinePointer d sz (off + 1) ps) (\<lambda>assembled.
         case assembled of
           None \<Rightarrow> Inr None
         | Some pointer \<Rightarrow>
             bindE (pointedString d (\<lambda>dataOffset n. dataOffset + n \<le> glen (buffer d)) pointer) (\<lambda>target.
               case target of
                 None \<Rightarrow> Inr None
               | Some n \<Rightarrow> bindE (slice (buffer d) (pointer + 1) (pointer + 1 + n)) (\<lambda>key.
                   Inr (Some (key, pointer + 1, off + 1 + ps))))))"
    by (simp only: decodePointerKeyFast_def Let_def sz ps_def)
  show ?thesis
  proof (cases "off + 1 + ps > glen (buffer d)")
    case True
    then show ?thesis by (simp add: agrees_def run)
  next
    case False
    then have fit: "unat (off + 1) + unat ps \<le> unat (glen (buffer d))"
      using u by (simp add: word_less_nat_alt)
    obtain p where inl: "inlinePointer d sz (off + 1) ps = Inr (Some p)"
      and ptr: "decodePointer d sz (off + 1) = Inr (p, off + 1 + ps)"
      using inlinePointer_decodePointer [OF fit ps_def] by blast
    obtain target where t: "pointedString d (\<lambda>dataOffset n. dataOffset + n \<le> glen (buffer d)) p = Inr target"
      and str: "\<And>n. target = Some n \<Longrightarrow> n < 29 \<and> decodeCtrlData d p = Inr (KindString, n, p + 1) \<and>
        unat p + 1 + unat n \<le> unat (glen (buffer d))"
      using pointedString_Inr [of p d "\<lambda>dataOffset n. dataOffset + n \<le> glen (buffer d)"] fits_iff(1) by auto
    have r: "resolves d off p (off + 1 + ps)" using ctrl ptr by (auto simp: resolves_def)
    show ?thesis
    proof (cases target)
      case None
      with False inl t show ?thesis by (simp add: agrees_def run)
    next
      case (Some n)
      with str have n: "n < 29" "decodeCtrlData d p = Inr (KindString, n, p + 1)"
        "unat p + 1 + unat n \<le> unat (glen (buffer d))" by auto
      show ?thesis
        using False inl t Some compact_key [OF n(2,1,3) r] next_nonzero [OF ctrl ptr]
        by (simp add: agrees_def run)
    qed
  qed
qed

lemma keyAtFast_string:
  assumes "off < glen (buffer d)" and c: "index (buffer d) off = Inr c"
    and str: "Kind_of_byte (drop_bit 5 c) = KindString"
  shows "agrees (keyAtFast d off c) (keyAtSlow d off)"
proof -
  have o: "unat off < unat (glen (buffer d))" using assms(1) by (simp add: word_less_nat_alt)
  define sz where "sz = (ucast (c AND 31) :: uint)"
  show ?thesis
  proof (cases "sz < 29")
    case False
    with str show ?thesis by (simp add: agrees_def keyAtFast_def flip: sz_def)
  next
    case True
    have ctrl: "decodeCtrlData d off = Inr (KindString, sz, off + 1)"
      using decodeCtrlData_direct [OF c str] True by (simp add: sz_def)
    have r: "resolves d off off 0" using ctrl by (simp add: resolves_def)
    show ?thesis
    proof (cases "off + 1 + sz > glen (buffer d)")
      case bad: True
      then have "keyAtSlow d off = Inl OffsetError"
        using resolveCtrlData_intro [OF r ctrl] by (simp add: keyAtSlow_def)
      with bad True str show ?thesis
        by (simp add: agrees_def keyAtFast_def Let_def flip: sz_def)
    next
      case False
      then have "unat off + 1 + unat sz \<le> unat (glen (buffer d))"
        using fits_iff(1) [OF o True] by (simp add: not_less)
      from compact_key [OF ctrl True this r] False True str show ?thesis
        by (simp add: agrees_def keyAtFast_def Let_def flip: sz_def)
    qed
  qed
qed

lemma keyAtFast_pointer:
  assumes inside: "off < glen (buffer d)" and c: "index (buffer d) off = Inr c"
    and ptr: "Kind_of_byte (drop_bit 5 c) = KindPointer"
  shows "agrees (keyAtFast d off c) (keyAtSlow d off)"
proof -
  have o: "unat off < unat (glen (buffer d))" using inside by (simp add: word_less_nat_alt)
  have u1: "unat (off + 1) = unat off + 1" using o unat_plus_sz [of off "buffer d" 1] by simp
  have u2: "unat (off + 2) = unat off + 2" using o unat_plus_sz [of off "buffer d" 2] by simp
  define sz where "sz = (ucast (c AND 31) :: uint)"
  have ctrl: "decodeCtrlData d off = Inr (KindPointer, sz, off + 1)"
    using decodeCtrlData_direct [OF c ptr] by (simp add: sz_def)
  define compact where "compact = (if sz < 8 \<and> off + 2 \<le> glen (buffer d) then
      bindE (index (buffer d) (off + 1)) (\<lambda>b.
        let pointer = push_bit 8 (sz AND 0x7) OR ucast b in
        bindE (pointedString d (\<lambda>dataOffset n. dataOffset + n \<le> glen (buffer d)) pointer) (\<lambda>target.
          case target of
            None \<Rightarrow> Inr None
          | Some n \<Rightarrow>
              let dataOffset = pointer + 1 in
              bindE (slice (buffer d) dataOffset (dataOffset + n)) (\<lambda>key.
                Inr (Some (key, pointer, off + 2)))))
      else Inr None)"
  have "agrees compact (keyAtSlow d off)"
  proof (cases "sz < 8 \<and> off + 2 \<le> glen (buffer d)")
    case False
    then show ?thesis by (auto simp: agrees_def compact_def)
  next
    case True
    then have fit: "unat off + 2 \<le> unat (glen (buffer d))" using u2 by (simp add: word_le_nat_alt)
    then obtain b where b: "index (buffer d) (off + 1) = Inr b"
      using u1 by (auto simp: index_def word_less_nat_alt)
    define p where "p = (push_bit 8 (sz AND 7) OR ucast b :: uint)"
    have dec: "decodePointer d sz (off + 1) = Inr (p, off + 2)"
      using pointer_compact [OF b fit] True by (simp add: p_def)
    have r: "resolves d off p (off + 2)" using ctrl dec by (auto simp: resolves_def)
    obtain target where t: "pointedString d (\<lambda>dataOffset n. dataOffset + n \<le> glen (buffer d)) p = Inr target"
      and str: "\<And>n. target = Some n \<Longrightarrow> n < 29 \<and> decodeCtrlData d p = Inr (KindString, n, p + 1) \<and>
        unat p + 1 + unat n \<le> unat (glen (buffer d))"
      using pointedString_Inr [of p d "\<lambda>dataOffset n. dataOffset + n \<le> glen (buffer d)"] fits_iff(1) by auto
    have run: "compact = (case target of None \<Rightarrow> Inr None
        | Some n \<Rightarrow> bindE (slice (buffer d) (p + 1) (p + 1 + n)) (\<lambda>key. Inr (Some (key, p, off + 2))))"
      unfolding compact_def if_P [OF True] b bindE_Inr Let_def p_def [symmetric] t by (rule refl)
    show ?thesis
    proof (cases target)
      case None
      then show ?thesis by (simp add: run agrees_def)
    next
      case (Some n)
      with str have n: "n < 29" "decodeCtrlData d p = Inr (KindString, n, p + 1)"
        "unat p + 1 + unat n \<le> unat (glen (buffer d))" by auto
      show ?thesis
        using Some compact_key [OF n(2,1,3) r] next_nonzero [OF ctrl dec] by (simp add: run agrees_def)
    qed
  qed
  moreover have "keyAtFast d off c = bindE compact (\<lambda>compact. case compact of
      Some result \<Rightarrow> Inr (Some result)
    | None \<Rightarrow> map_sum id (map_option (\<lambda>(key, dataOffset, n). (key, dataOffset - 1, n)))
        (decodePointerKeyFast d off (ucast c) (glen (buffer d))))"
  proof -
    have m: "bindE m (\<lambda>fast. case fast of None \<Rightarrow> Inr None
        | Some (key, dataOffset, n) \<Rightarrow> Inr (Some (key, dataOffset - 1, n))) =
      map_sum id (map_option (\<lambda>(key, dataOffset, n). (key, dataOffset - 1, n))) m"
      for m :: "(bytes \<times> uint \<times> uint) option res"
      by (cases m) (auto split: option.split)
    show ?thesis
      unfolding keyAtFast_def Let_def ptr sz_def [symmetric] m compact_def by simp
  qed
  ultimately show ?thesis
    using decodePointerKeyFast_slow [OF inside c ptr]
    by (cases "keyAtSlow d off") (auto simp: agrees_def)
qed

lemma decodeKeyAt_eq: "decodeKeyAt d offset = keyAtSlow d offset"
proof (cases "offset < glen (buffer d)")
  case False
  then have "decodeCtrlData d offset = Inl OffsetError" by (simp add: decodeCtrlData_def not_less)
  with False show ?thesis by (simp add: decodeKeyAt_def keyAtSlow_def resolveCtrlData_def not_less)
next
  case True
  then obtain c where c: "index (buffer d) offset = Inr c" by (simp add: index_ok)
  have "agrees (keyAtFast d offset c) (keyAtSlow d offset)"
    using keyAtFast_string [OF True c] keyAtFast_pointer [OF True c]
    by (cases "Kind_of_byte (drop_bit 5 c) \<in> {KindString, KindPointer}")
      (auto simp: agrees_def keyAtFast_def)
  with True c show ?thesis
    by (cases "keyAtSlow d offset") (auto simp: decodeKeyAt_def agrees_def not_le)
qed

text \<open>
  C25. The fast paths of \<open>decodeKeyAt\<close> (direct short keys, the inlined two-byte pointer and
  \<open>decodePointerKeyFast\<close>) change nothing: on every buffer and offset the key bytes, the offset of
  their control record and the successor, or the error, are those of \<open>resolveCtrlData\<close> and the
  general path behind it.
\<close>

theorem decodeKeyAt_fast_paths: "decodeKeyAt d offset = keyAtSlow d offset"
  by (rule decodeKeyAt_eq)

section \<open>The string cache is transparent\<close>

text \<open>Nothing but the string decoders reads the cache.\<close>

lemma cache_irrelevant [simp]:
  "decodeCtrlData (stringCache_update f d) off = decodeCtrlData d off"
  "decodePointer (stringCache_update f d) sz off = decodePointer d sz off"
  "payload (stringCache_update f d) off sz = payload d off sz"
  by (simp_all add: decodeCtrlData_spec decodePointer_def payload_def Let_def cong: if_cong)

lemma resolveCtrlData_cache [simp]:
  "resolveCtrlData (stringCache_update f d) off = resolveCtrlData d off"
  by (simp add: resolveCtrlData_def Let_def cong: if_cong)

lemma validate_cache [simp]:
  "validateValue (stringCache_update f d) r off depth str = validateValue d r off depth str"
  "validateEntries (stringCache_update f d) r k n off depth = validateEntries d r k n off depth"
  "validateContainerContents (stringCache_update f d) r k sz off depth =
     validateContainerContents d r k sz off depth"
proof (induction r off depth str and r k n off depth and r k sz off depth rule: validate_induct)
  case (level r off depth str)
  then show ?case
    unfolding validateValue.simps [of _ r off depth str]
    by (auto intro!: bindE_cong split: prod.splits)
next
  case (empty r k off depth)
  show ?case by simp
next
  case (entry r k n off depth)
  have "entryKey (stringCache_update f d) r k off depth = entryKey d r k off depth"
    using entry(1) by (simp add: entryKey_def inlineKey_def Let_def cong: if_cong)
  moreover have "entryValue (stringCache_update f d) r' o' depth = entryValue d r' o' depth" for r' o'
    using entry(1)
    by (simp add: entryValue_def inlineBool_def inlineScalar_def Let_def cong: if_cong)
  ultimately show ?case using entry(2) by (simp add: validateEntries_Suc)
next
  case (whole r k sz off depth)
  then show ?case by (simp add: validateContainerContents.simps)
qed

lemma unexpectedMapKeyKind_cache [simp]:
  "unexpectedMapKeyKind (stringCache_update f d) off k = unexpectedMapKeyKind d off k"
  by (simp add: unexpectedMapKeyKind_def)

lemma decodeKeyAt_cache [simp]: "decodeKeyAt (stringCache_update f d) off = decodeKeyAt d off"
  by (simp add: decodeKeyAt_eq keyAtSlow_def Let_def cong: if_cong)

text \<open>
  The payload of the string record a cache offset names. The offset is that of the control byte,
  except that a string with the two-byte extended type is named by its second byte, \<open>0xFB\<close>, which is
  no string control byte: so the name is unique.
\<close>

definition string_named :: "DataDecoder \<Rightarrow> uint \<Rightarrow> uint \<Rightarrow> bytes option" where
  "string_named d cacheOffset h =
     (case decodeCtrlData d h of
        Inl _ \<Rightarrow> None
      | Inr (k, sz, p) \<Rightarrow>
          if k = KindString \<and> p - string_headerSize sz = cacheOffset then Some (payload d p sz) else None)"

definition recordPayload :: "DataDecoder \<Rightarrow> uint \<Rightarrow> bytes" where
  "recordPayload d cacheOffset =
     (case string_named d cacheOffset cacheOffset of
        Some v \<Rightarrow> v
      | None \<Rightarrow> (case string_named d cacheOffset (cacheOffset - 1) of Some v \<Rightarrow> v | None \<Rightarrow> []))"

lemma recordPayload_cache [simp]: "recordPayload (stringCache_update f d) = recordPayload d"
  by (simp add: recordPayload_def string_named_def fun_eq_iff cong: if_cong option.case_cong sum.case_cong)

lemma header_tail_string_size:
  assumes "header_tail KindString c rest = Some (k, s, l)"
  shows "unat (string_headerSize (word_of_nat s)) = l + 1"
proof -
  have c: "unat (c AND 31) \<le> 31" by (rule ctrl_size_le)
  have b: "be_nat (take n rest) 0 < 256 ^ n" for n
    by (rule order.strict_trans2 [OF be_nat_less power_increasing]) simp_all
  have s: "unat (word_of_nat s :: uint) = s"
    using header_tail_bounds(3) [OF assms] by (simp add: unat_of_nat take_bit_nat_eq_self)
  have hs: "unat (string_headerSize (word_of_nat s)) =
      (if s < 29 then 1 else if s < 285 then 2 else if s < 65821 then 3 else 4)"
    by (simp add: string_headerSize_def word_le_nat_alt s not_less)
  consider "unat (c AND 31) < 29" | "unat (c AND 31) = 29" | "unat (c AND 31) = 30"
    | "unat (c AND 31) = 31" using c by linarith
  then show ?thesis
    using assms b [of 1] b [of 2] b [of 3] unfolding hs
    by cases (auto simp: header_tail_def Let_def split: if_splits)
qed

lemma string_name:
  assumes "decodeCtrlData d h = Inr (KindString, sz, p)"
  shows "\<not> p < string_headerSize sz"
    and "p - string_headerSize sz = h \<or>
      p - string_headerSize sz = h + 1 \<and> decodeCtrlData d (h + 1) \<noteq> Inr (KindString, sz', p')"
proof -
  define bs where "bs = drop (unat h) (gtake (buffer d))"
  obtain s l where hd: "header_spec bs = Some (KindString, s, l)"
    and sz: "sz = word_of_nat s" and p: "p = h + word_of_nat l"
    using assms by (auto simp: decodeCtrlData_spec of_header_def bs_def split: option.splits)
  have up: "unat h + l \<le> unat (glen (buffer d))"
    using header_spec_bounds(1,2) [OF hd] by (simp add: bs_def length_gtake)
  have hs: "string_headerSize sz = word_of_nat n" if "unat (string_headerSize sz) = n" for n
    using that by auto
  have le: "\<not> p < word_of_nat n" if "n \<le> l" for n
  proof -
    have "unat (word_of_nat n :: uint) = n"
      using that up unat_glen_bound [of "buffer d"] by (simp add: unat_of_nat take_bit_nat_eq_self)
    then show ?thesis
      using that unat_add_of_nat [OF up] by (simp add: p word_less_nat_alt)
  qed
  obtain c rest where bs: "bs = c # rest" using hd by (cases bs) (auto simp: header_spec_def)
  have concl: "\<not> p < string_headerSize sz \<and> (p - string_headerSize sz = h \<or>
      p - string_headerSize sz = h + 1 \<and> decodeCtrlData d (h + 1) \<noteq> Inr (KindString, sz', p'))"
  proof (cases "Kind_of_byte (drop_bit 5 c) = KindExtended")
    case False
    then obtain l' where t: "header_tail (Kind_of_byte (drop_bit 5 c)) c rest = Some (KindString, s, l')"
      and l: "l = l' + 1" using hd by (auto simp: bs header_spec_def)
    have "Kind_of_byte (drop_bit 5 c) = KindString" using header_tail_bounds(4) [OF t] by simp
    then have "string_headerSize sz = word_of_nat l"
      using t header_tail_string_size [of c rest KindString s l'] by (intro hs) (simp add: sz l)
    then show ?thesis using le [of l] p by simp
  next
    case ext: True
    then obtain b rest' l' where rest: "rest = b # rest'"
      and t: "header_tail (Kind_of_byte (b + 7)) c rest' = Some (KindString, s, l')" and l: "l = l' + 2"
      using hd by (auto simp: bs header_spec_def split: list.splits)
    have k: "Kind_of_byte (b + 7) = KindString" using header_tail_bounds(4) [OF t] by simp
    then have "string_headerSize sz = word_of_nat (l' + 1)"
      using t header_tail_string_size [of c rest' KindString s l'] by (intro hs) (simp add: sz)
    moreover have "p - word_of_nat (l' + 1) = h + 1" by (simp add: p l)
    moreover have "decodeCtrlData d (h + 1) \<noteq> Inr (KindString, sz', p')"
    proof -
      have "unat (b + 7) = 2" using k by (simp add: Kind_of_byte_iff)
      then have "b + 7 = 2" by (simp add: word_unat_eq_iff)
      then have "b = 2 - 7" by (metis add_diff_cancel_right')
      then have b: "b = 251" by simp
      have "unat (h + 1) = unat h + 1"
        using up l unat_plus_sz [of h "buffer d" 1] by simp
      then have "drop (unat (h + 1)) (gtake (buffer d)) = b # rest'"
        using bs rest by (simp add: bs_def flip: drop_drop drop_Suc) 
          (metis bs_def drop_Suc drop_drop list.sel(3) plus_1_eq_Suc tl_drop)
      moreover have "Kind_of_byte (drop_bit 5 b) = KindMap" by (simp add: b Kind_of_byte_iff)
      ultimately show ?thesis
        by (auto simp: decodeCtrlData_spec of_header_def header_spec_def dest: header_tail_bounds(4)
            split: option.splits)
    qed
    ultimately show ?thesis using le [of "l' + 1"] l by simp
  qed
  then show "\<not> p < string_headerSize sz"
    and "p - string_headerSize sz = h \<or>
      p - string_headerSize sz = h + 1 \<and> decodeCtrlData d (h + 1) \<noteq> Inr (KindString, sz', p')"
    by blast+
qed

lemma recordPayload_string:
  assumes "decodeCtrlData d h = Inr (KindString, sz, p)"
  shows "recordPayload d (p - string_headerSize sz) = payload d p sz"
proof (cases "p - string_headerSize sz = h")
  case True
  then show ?thesis using assms by (simp add: recordPayload_def string_named_def)
next
  case False
  then have o: "p - string_headerSize sz = h + 1"
    and n: "\<And>sz' p'. decodeCtrlData d (h + 1) \<noteq> Inr (KindString, sz', p')"
    using string_name(2) [OF assms] by blast+
  have "string_named d (h + 1) (h + 1) = None"
    using n by (auto simp: string_named_def split: sum.splits)
  then show ?thesis using assms o by (simp add: recordPayload_def string_named_def)
qed

definition cache_ok :: "DataDecoder \<Rightarrow> bool" where
  "cache_ok d \<longleftrightarrow> opt_consistent (recordPayload d) (stringCache d)"

lemma cache_ok_fresh [simp]:
  "cache_ok (NewDataDecoder buf)" "cache_ok (NewDataDecoderWithoutStringCache buf)"
  by (simp_all add: cache_ok_def opt_consistent_def NewDataDecoder_def
      NewDataDecoderWithoutStringCache_def cache_consistent_new)

lemma internOpt_record:
  assumes "cache_ok d" and "decodeCtrlData d h = Inr (KindString, sz, p)"
    and "internOpt (stringCache d) (p - string_headerSize sz) (payload d p sz) = (s, c)"
  shows "s = payload d p sz" and "cache_ok (d\<lparr>stringCache := c\<rparr>)"
  using assms optional.intern_value [of "recordPayload d" "stringCache d" "p - string_headerSize sz"]
    optional.intern_good [of "recordPayload d" "stringCache d" "p - string_headerSize sz"]
    recordPayload_string [OF assms(2)]
  by (simp_all add: cache_ok_def)

lemma decodeString_record:
  assumes "cache_ok d" and "decodeCtrlData d h = Inr (KindString, sz, p)"
  shows "if unat p + unat sz \<le> unat (glen (buffer d))
     then \<exists>c. decodeString d sz p = Inr (payload d p sz, p + sz, d\<lparr>stringCache := c\<rparr>) \<and>
       cache_ok (d\<lparr>stringCache := c\<rparr>)
     else decodeString d sz p = Inl OffsetError"
proof -
  have g: "p + sz > glen (buffer d) \<longleftrightarrow> unat (glen (buffer d)) < unat p + unat sz"
    using guard_iff [OF decodeCtrlData_small [OF assms(2)]] .
  show ?thesis
  proof (cases "unat p + unat sz \<le> unat (glen (buffer d))")
    case False
    then show ?thesis using g by (simp add: decodeString_def)
  next
    case fit: True
    obtain s c where i: "internOpt (stringCache d) (p - string_headerSize sz) (payload d p sz) = (s, c)"
      by fastforce
    note rec = internOpt_record [OF assms i]
    have "decodeString d sz p = Inr (payload d p sz, p + sz, d\<lparr>stringCache := c\<rparr>)"
      using fit g slice_payload [OF fit] string_name(1) [OF assms(2)] i rec(1)
      by (cases "stringCache d") (auto simp: decodeString_def internOpt_def Let_def split: prod.splits)
    then show ?thesis using fit rec(2) by auto
  qed
qed

text \<open>What a reader returns apart from the decoder with its cache.\<close>

definition outcome :: "(gostring \<times> uint \<times> DataDecoder) res \<Rightarrow> (gostring \<times> uint) res" where
  "outcome = map_sum id (\<lambda>(s, next, d). (s, next))"

definition transparent :: "DataDecoder \<Rightarrow> (DataDecoder \<Rightarrow> (gostring \<times> uint \<times> DataDecoder) res) \<Rightarrow> bool" where
  "transparent d f \<longleftrightarrow>
     outcome (f d) = outcome (f (d\<lparr>stringCache := None\<rparr>)) \<and>
     (\<forall>s next d'. f d = Inr (s, next, d') \<longrightarrow> (\<exists>c. d' = d\<lparr>stringCache := c\<rparr>) \<and> cache_ok d')"

lemma decodeStringValue_transparent:
  assumes "cache_ok d"
  shows "transparent d (\<lambda>d. decodeStringValue d off)"
proof (cases "\<exists>sz p n. resolveCtrlData d off = Inr (KindString, sz, p, n)")
  case False
  then have "stringValueSlow d off = stringValueSlow (d\<lparr>stringCache := None\<rparr>) off"
    and "\<And>x. stringValueSlow d off \<noteq> Inr x"
    by (cases "resolveCtrlData d off"; force simp: stringValueSlow_def)+
  then show ?thesis by (simp add: transparent_def decodeStringValue_eq)
next
  case True
  then obtain sz p n r where res: "resolveCtrlData d off = Inr (KindString, sz, p, n)"
    and rec: "decodeCtrlData d r = Inr (KindString, sz, p)" by (blast elim: resolveCtrlData_Inr)
  have "cache_ok (d\<lparr>stringCache := None\<rparr>)" by (simp add: cache_ok_def opt_consistent_def)
  with decodeString_record [OF assms rec] decodeString_record [of "d\<lparr>stringCache := None\<rparr>" r sz p] rec
  show ?thesis
    by (auto simp: transparent_def decodeStringValue_eq stringValueSlow_def res outcome_def
        split: if_splits)
qed

lemma decodeStringKey_transparent:
  assumes "cache_ok d"
  shows "transparent d (\<lambda>d. decodeStringKey d off)"
proof (cases "decodeKeyAt d off")
  case (Inl e)
  then show ?thesis by (simp add: transparent_def decodeStringKey_def outcome_def)
next
  case (Inr result)
  then obtain key co n where key: "keyAtSlow d off = Inr (key, co, n)"
    by (cases result) (simp add: decodeKeyAt_eq)
  then obtain sz p m where res: "resolveCtrlData d off = Inr (KindString, sz, p, m)"
    and fit: "\<not> p + sz > glen (buffer d)" and sl: "slice (buffer d) p (p + sz) = Inr key"
    and co: "co = p - string_headerSize sz"
    by (auto simp: keyAtSlow_def bindE_eq_Inr Let_def split: if_splits)
  obtain r where rec: "decodeCtrlData d r = Inr (KindString, sz, p)"
    using res by (blast elim: resolveCtrlData_Inr)
  have "key = payload d p sz"
    using sl fit guard_iff [OF decodeCtrlData_small [OF rec]] slice_payload [of p sz d] by simp
  then obtain s c where i: "internOpt (stringCache d) co key = (s, c)"
    and s: "s = key" and ok: "cache_ok (d\<lparr>stringCache := c\<rparr>)"
    using internOpt_record [OF assms rec] co by (metis surj_pair)
  have "decodeStringKey d off = Inr (key, n, d\<lparr>stringCache := c\<rparr>)"
    using key i s by (cases "stringCache d")
      (auto simp: decodeStringKey_def decodeKeyAt_eq internOpt_def split: prod.splits)
  moreover have "decodeStringKey (d\<lparr>stringCache := None\<rparr>) off = Inr (key, n, d\<lparr>stringCache := None\<rparr>)"
    using key by (simp add: decodeStringKey_def flip: decodeKeyAt_eq)
  ultimately show ?thesis using ok by (auto simp: transparent_def outcome_def)
qed

section \<open>Safety and successors\<close>

lemma resolves_next:
  assumes "resolves d off r n" and "decodeCtrlData d r = Inr (k, sz, o1)"
  shows "(n = 0 \<and> r = off) \<or> (n \<noteq> 0 \<and> token d off = Some (n, 0))"
proof -
  consider "r = off" "n = 0" | sz0 o0 where "decodeCtrlData d off = Inr (KindPointer, sz0, o0)"
    "decodePointer d sz0 o0 = Inr (r, n)"
    using assms(1) by (auto simp: resolves_def)
  then show ?thesis
  proof cases
    case 2
    note b = decodeCtrlData_Inr [OF 2(1)]
    have "token d off = Some (n, 0)"
      using 2 b(3)
      by (auto simp: token_def token_len_def token_children_def decodePointer_spec Let_def
          split: if_splits)
    with next_nonzero [OF 2] show ?thesis by simp
  qed simp
qed

lemma no_panic_unexpectedMapKeyKind [simp]: "root_error (unexpectedMapKeyKind d off k) \<noteq> Panic"
  using no_panic_validate(1) [of d newStructuralValidator off 0 False]
  by (auto simp: unexpectedMapKeyKind_def split: sum.split)

lemma no_panic_decodeString [safe]:
  assumes "unat p \<le> unat (glen (buffer d))" and "unat sz \<le> 16843036"
  shows "no_panic (decodeString d sz p)"
proof -
  have r: "small_range d p sz" using assms by (simp add: small_range_def)
  show ?thesis
    using guard_iff [OF r] slice_payload [of p sz d]
    by (auto simp: decodeString_def Let_def not_less split: option.splits prod.splits)
qed

lemma no_panic_decodeStringValue [safe]: "no_panic (decodeStringValue d off)"
  by (auto simp: decodeStringValue_eq stringValueSlow_def Let_def intro!: safe
      elim!: resolveCtrlData_Inr dest: decodeCtrlData_Inr(3,4))

lemma no_panic_decodeKeyAt [safe]: "no_panic (decodeKeyAt d off)"
proof -
  have "p \<le> p + sz" and "p + sz \<le> glen (buffer d)"
    if "decodeCtrlData d r = Inr (k, sz, p)" "\<not> p + sz > glen (buffer d)" for r k sz p
    using that decodeCtrlData_Inr(3,4) [OF that(1)] unat_plus_sz [of p "buffer d" sz]
    by (simp_all add: not_less word_le_nat_alt)
  then show ?thesis
    by (auto simp: decodeKeyAt_eq keyAtSlow_def Let_def intro!: safe elim!: resolveCtrlData_Inr)
qed

lemma no_panic_keys [safe]: "no_panic (decodeKey d off)" "no_panic (decodeStringKey d off)"
  by (auto simp: decodeKey_def decodeStringKey_def intro!: safe split: option.splits prod.splits)

section \<open>The transparency theorem\<close>

text \<open>
  C27. The string cache is transparent: from any cache whose entries hold the payloads of the records
  they are filed under (a new cache does, and every reader keeps it so), the string and key readers
  return exactly what they return without a cache, with the same successor or error, although short
  and extended encodings, pointers and compact fast paths file their strings under differently
  computed offsets.
\<close>

theorem string_cache_transparent:
  assumes "cache_ok d"
  shows "outcome (decodeStringValue d offset) = outcome (decodeStringValue (d\<lparr>stringCache := None\<rparr>) offset) \<and>
    outcome (decodeStringKey d offset) = outcome (decodeStringKey (d\<lparr>stringCache := None\<rparr>) offset) \<and>
    (\<forall>s next d'. decodeStringValue d offset = Inr (s, next, d') \<longrightarrow> cache_ok d') \<and>
    (\<forall>s next d'. decodeStringKey d offset = Inr (s, next, d') \<longrightarrow> cache_ok d')"
  using decodeStringValue_transparent [OF assms, of offset] decodeStringKey_transparent [OF assms, of offset]
  unfolding transparent_def by blast

theorem string_cache_transparent_witness:
  "outcome (decodeStringValue (NewDataDecoder [0x42, 104, 105]) 0) = Inr ([104, 105], 3)"
proof -
  have "outcome (decodeStringValue (NewDataDecoder [0x42, 104, 105]) 0) =
      outcome (decodeStringValue ((NewDataDecoder [0x42, 104, 105])\<lparr>stringCache := None\<rparr>) 0)"
    using string_cache_transparent [OF cache_ok_fresh(1)] by blast
  also have "\<dots> = Inr ([104, 105], 3)" by code_simp
  finally show ?thesis .
qed

end
