(* ===== verification/Budget.thy ===== *)
theory Budget
  imports Strings
begin

text \<open>
  The operation-local limits of \<open>ReflectionDecoder\<close> (\<open>internal/decoder/reflection.go\<close>): the budget
  of container children and of copied payload, the skip that charges it, and the small operations
  that read a header only. The budget fields are part of the record and returned updated; an error
  ends the operation that owns the record, so no state is returned with it.
\<close>

section \<open>The decoder\<close>

text \<open>
  \<open>callbackDecoder\<close> only caches a pointer to a copy of the embedded \<open>DataDecoder\<close> and is left out.
  \<open>budgetRemaining\<close> is 0 for inactive limits and otherwise one more than the child slots left.
\<close>

record ReflectionDecoder =
  dataDecoder :: DataDecoder
  budgetRemaining :: "32 word"
  payloadRemaining :: "32 word"

definition NewReflectionDecoder :: "bytes \<Rightarrow> ReflectionDecoder" where
  "NewReflectionDecoder buf =
     \<lparr>dataDecoder = NewDataDecoder buf, budgetRemaining = 0, payloadRemaining = 0\<rparr>"

definition NewWithoutStringCache :: "bytes \<Rightarrow> ReflectionDecoder" where
  "NewWithoutStringCache buf =
     \<lparr>dataDecoder = NewDataDecoderWithoutStringCache buf, budgetRemaining = 0, payloadRemaining = 0\<rparr>"

definition newBudgetedDecoder :: "ReflectionDecoder \<Rightarrow> ReflectionDecoder" where
  "newBudgetedDecoder d =
     \<lparr>dataDecoder = dataDecoder d,
      budgetRemaining = drop_bit decodeBudgetUnitShift decodeExpansionBudgetBytes + 1,
      payloadRemaining = decodePayloadBudgetBytes\<rparr>"

section \<open>Charging the budget\<close>

definition reserveActiveContainer :: "ReflectionDecoder \<Rightarrow> Kind \<Rightarrow> uint \<Rightarrow> ReflectionDecoder res" where
  "reserveActiveContainer d kind sz =
     (if kind = KindMap then
        if sz \<ge> ucast ((budgetRemaining d + 1) div 2) then Inl errDecodedRecordTooLarge
        else Inr (d\<lparr>budgetRemaining := budgetRemaining d - ucast (sz * 2)\<rparr>)
      else if sz \<ge> ucast (budgetRemaining d) then Inl errDecodedRecordTooLarge
      else Inr (d\<lparr>budgetRemaining := budgetRemaining d - ucast sz\<rparr>))"

definition reserveExactPayload :: "ReflectionDecoder \<Rightarrow> uint \<Rightarrow> ReflectionDecoder res" where
  "reserveExactPayload d sz =
     (if budgetRemaining d = 0 then Inr d
      else if sz > ucast (payloadRemaining d) then Inl errDecodedRecordTooLarge
      else Inr (d\<lparr>payloadRemaining := payloadRemaining d - ucast sz\<rparr>))"

definition validateContainerSize :: "ReflectionDecoder \<Rightarrow> Kind \<Rightarrow> uint \<Rightarrow> uint \<Rightarrow> nat \<Rightarrow> unit res" where
  "validateContainerSize d kind sz offset depth =
     bindE (validateContainerBounds (glen (buffer (dataDecoder d))) kind sz offset) (\<lambda>_.
       let valueCount = (if kind = KindMap then sz * 2 else sz) in
       if valueCount \<ge> containerPreflightValueCount then
         bindE (validateContainerContents (dataDecoder d) (newAllocationValidator kind sz) kind sz offset depth)
           (\<lambda>_. Inr ())
       else Inr ())"

section \<open>Headers\<close>

text \<open>The loop of \<open>IsEmptyValueAt\<close>; the count of followed pointers never exceeds one.\<close>

function IsEmptyValue_loop :: "DataDecoder \<Rightarrow> uint \<Rightarrow> nat \<Rightarrow> bool res" where
  "IsEmptyValue_loop d dataOffset followedPointers =
     bindE (decodeCtrlData d dataOffset) (\<lambda>(kindNum, sz, newOffset).
       if kindNum = KindPointer then
         if followedPointers > 0 then Inl (InvalidDatabaseError (InvalidPointerToPointer dataOffset))
         else bindE (decodePointer d sz newOffset) (\<lambda>(dataOffset, _).
           IsEmptyValue_loop d dataOffset (followedPointers + 1))
       else Inr ((kindNum = KindMap \<or> kindNum = KindSlice) \<and> sz = 0))"
  by pat_completeness auto
termination
  by (relation "measure (\<lambda>(_, _, n). 1 - n)") auto

declare IsEmptyValue_loop.simps [simp del]

definition IsEmptyValueAt :: "ReflectionDecoder \<Rightarrow> uint \<Rightarrow> bool res" where
  "IsEmptyValueAt d offset = IsEmptyValue_loop (dataDecoder d) offset 0"

definition structFieldValueIsInlineContainer :: "ReflectionDecoder \<Rightarrow> uint \<Rightarrow> bool res" where
  "structFieldValueIsInlineContainer d offset =
     (let buf = buffer (dataDecoder d) in
      if offset < glen buf then
        bindE (index buf offset) (\<lambda>ctrlByte.
          if drop_bit 5 ctrlByte = word_of_nat (kind_num KindMap) then Inr True
          else if drop_bit 5 ctrlByte = word_of_nat (kind_num KindExtended) \<and> offset + 1 < glen buf then
            bindE (index buf (offset + 1)) (\<lambda>b.
              Inr (b = word_of_nat (kind_num KindMap - 7) \<or> b = word_of_nat (kind_num KindSlice - 7)))
          else Inr False)
      else Inr False)"

section \<open>The budgeted skip\<close>

text \<open>The header as the loop reads it: compact headers inline, the others by the parser.\<close>

definition budgetHeader :: "DataDecoder \<Rightarrow> uint \<Rightarrow> (Kind \<times> uint \<times> uint) res" where
  "budgetHeader d offset =
     bindE (index (buffer d) offset) (\<lambda>ctrlByte.
       let kind = Kind_of_byte (drop_bit 5 ctrlByte); sz = ucast (ctrlByte AND 0x1f) in
       if kind = KindExtended \<or> (kind \<noteq> KindPointer \<and> sz \<ge> 29) then decodeCtrlData d offset
       else Inr (kind, sz, offset + 1))"

definition skipRange :: "DataDecoder \<Rightarrow> uint \<Rightarrow> uint \<Rightarrow> uint res" where
  "skipRange d newOffset sz =
     (if \<not> hasBufferRange (glen (buffer d)) newOffset sz then Inl OffsetError
      else Inr (newOffset + sz))"

text \<open>The \<open>switch\<close>: the offset after the token, the values still to skip and the charged budget.\<close>

definition budgetStep ::
  "ReflectionDecoder \<Rightarrow> Kind \<Rightarrow> uint \<Rightarrow> uint \<Rightarrow> uint \<Rightarrow> (uint \<times> uint \<times> ReflectionDecoder) res" where
  "budgetStep d kind sz newOffset numberToSkip =
     (let scalar = (\<lambda>valid.
            if \<not> valid then Inl (InvalidDatabaseError (InvalidValueSize kind sz))
            else bindE (skipRange (dataDecoder d) newOffset sz) (\<lambda>newOffset.
              Inr (newOffset, numberToSkip, d)))
      in if kind = KindPointer then
           let pointerSize = (drop_bit 3 sz AND 0x3) + 1 in
           bindE (skipRange (dataDecoder d) newOffset pointerSize) (\<lambda>newOffset.
             Inr (newOffset, numberToSkip, d))
         else if kind = KindMap then
           bindE (reserveActiveContainer d KindMap sz) (\<lambda>d.
             if sz > (NOT 0 - numberToSkip) div 2 then Inl (InvalidDatabaseError ContainerSizeOverflow)
             else Inr (newOffset, numberToSkip + 2 * sz, d))
         else if kind = KindSlice then
           bindE (reserveActiveContainer d KindSlice sz) (\<lambda>d.
             if sz > NOT 0 - numberToSkip then Inl (InvalidDatabaseError ContainerSizeOverflow)
             else Inr (newOffset, numberToSkip + sz, d))
         else if kind = KindBool then
           if sz > 1 then Inl (InvalidDatabaseError (InvalidValueSize KindBool sz))
           else Inr (newOffset, numberToSkip, d)
         else if kind = KindFloat64 then scalar (sz = 8)
         else if kind = KindFloat32 then scalar (sz = 4)
         else if kind = KindInt32 \<or> kind = KindUint32 then scalar (sz \<le> 4)
         else if kind = KindUint16 then scalar (sz \<le> 2)
         else if kind = KindUint64 then scalar (sz \<le> 8)
         else if kind = KindUint128 then scalar (sz \<le> 16)
         else if kind = KindString \<or> kind = KindBytes then scalar True
         else Inl (InvalidDatabaseError (UnknownType kind)))"

lemma budgetHeader_ctrl:
  assumes "offset < glen (buffer d)"
  shows "budgetHeader d offset = decodeCtrlData d offset"
proof -
  obtain c where c: "index (buffer d) offset = Inr c" using assms by (simp add: index_ok)
  show ?thesis
    using decodeCtrlData_direct [OF c refl]
    by (auto simp: budgetHeader_def c Let_def not_le)
qed

text \<open>A charged step is a plain step on a well-sized token, and it charges the token's children.\<close>

lemma unat_ucast_32 [simp]: "unat (ucast (x :: 32 word) :: uint) = unat x"
  using unsigned_less [of x, where 'a = nat] by (simp add: unsigned_ucast_eq take_bit_nat_eq_self)

lemma unat_ucast_small: "unat (x :: uint) < 4294967296 \<Longrightarrow> unat (ucast x :: 32 word) = unat x"
  by (simp add: unsigned_ucast_eq take_bit_nat_eq_self)

lemma reserveActiveContainer_Inr:
  assumes "reserveActiveContainer d k sz = Inr d'" and "k = KindMap \<or> k = KindSlice"
  shows "dataDecoder d' = dataDecoder d" and "payloadRemaining d' = payloadRemaining d"
    and "unat (budgetRemaining d') + token_children k sz = unat (budgetRemaining d)"
    and "budgetRemaining d' \<noteq> 0"
proof -
  have b32: "unat (budgetRemaining d) < 4294967296"
    using unsigned_less [of "budgetRemaining d"] by simp
  show "dataDecoder d' = dataDecoder d" and "payloadRemaining d' = payloadRemaining d"
    using assms(1) by (auto simp: reserveActiveContainer_def split: if_splits)
  define cost where "cost = (if k = KindMap then sz * 2 else sz)"
  have fits: "unat cost = token_children k sz \<and> unat cost < unat (budgetRemaining d)"
  proof (cases "k = KindMap")
    case True
    then have "\<not> sz \<ge> ucast ((budgetRemaining d + 1) div 2)"
      using assms(1) by (auto simp: reserveActiveContainer_def split: if_splits)
    then have lt: "unat sz < unat (budgetRemaining d + 1) div 2"
      by (simp add: word_le_nat_alt unat_div not_le)
    have "unat (budgetRemaining d + 1) \<le> unat (budgetRemaining d) + 1"
      using b32 by (simp add: unat_plus_if')
    with lt have c: "2 * unat sz < unat (budgetRemaining d)" by linarith
    then have "unat (sz * 2) = unat sz * 2"
      using b32 by (subst unat_mult_lem [THEN iffD1]) simp_all
    with True c show ?thesis by (simp add: cost_def token_children_def)
  next
    case False
    then show ?thesis
      using assms by (auto simp: reserveActiveContainer_def cost_def token_children_def not_le
          word_less_nat_alt split: if_splits)
  qed
  then have u: "unat (ucast cost :: 32 word) = token_children k sz"
    using b32 by (simp add: unat_ucast_small)
  have d': "budgetRemaining d' = budgetRemaining d - ucast cost"
    using assms by (auto simp: reserveActiveContainer_def cost_def split: if_splits)
  then have b': "unat (budgetRemaining d') = unat (budgetRemaining d) - token_children k sz"
    using u fits by (simp add: unat_sub word_le_nat_alt)
  then show "unat (budgetRemaining d') + token_children k sz = unat (budgetRemaining d)"
    using fits by simp
  show "budgetRemaining d' \<noteq> 0" using b' fits by auto
qed

lemma skipRange_Inr:
  "skipRange d off sz = Inr e \<longleftrightarrow> hasBufferRange (glen (buffer d)) off sz \<and> e = off + sz"
  by (auto simp: skipRange_def)

lemma budgetStep_scalar:
  assumes "k \<noteq> KindPointer" "k \<noteq> KindMap" "k \<noteq> KindSlice"
  shows "well_sized k sz \<Longrightarrow> budgetStep d k sz o1 n =
      (if k = KindBool then Inr (o1, n, d)
       else bindE (skipRange (dataDecoder d) o1 sz) (\<lambda>o2. Inr (o2, n, d)))"
    and "\<not> well_sized k sz \<Longrightarrow> budgetStep d k sz o1 n \<noteq> Inr x"
  using assms by (cases k; simp add: budgetStep_def well_sized_def not_less not_le)+

lemma budgetStep_well_sized: "budgetStep d k sz o1 n = Inr x \<Longrightarrow> well_sized k sz"
  using budgetStep_scalar(2) [of k sz d o1 n x] by (auto simp: well_sized_def)

lemma budgetStep_Inr:
  assumes "budgetStep d k sz o1 n = Inr (o2, n', d')" and "unat o1 \<le> unat (glen (buffer (dataDecoder d)))"
  shows "skipStep (dataDecoder d) k sz o1 n = Inr (o2, n')"
    and "dataDecoder d' = dataDecoder d"
    and "unat (budgetRemaining d') + token_children k sz = unat (budgetRemaining d)"
    and "budgetRemaining d \<noteq> 0 \<Longrightarrow> budgetRemaining d' \<noteq> 0"
proof -
  define ps where "ps = (drop_bit 3 sz AND 3) + (1 :: uint)"
  have ps4: "unat ps \<le> 4" by (simp add: ps_def pointer_width)
  have ptr: "hasBufferRange (glen (buffer (dataDecoder d))) o1 ps \<longleftrightarrow>
      \<not> o1 + ps > glen (buffer (dataDecoder d))"
    using assms(2) ps4 unat_plus_sz [of o1 "buffer (dataDecoder d)" ps]
    by (simp add: hasBufferRange_iff word_less_nat_alt not_less)
  consider (pointer) "k = KindPointer" | (container) "k = KindMap \<or> k = KindSlice"
    | (scalar) "k \<noteq> KindPointer" "k \<noteq> KindMap" "k \<noteq> KindSlice" by blast
  then have "skipStep (dataDecoder d) k sz o1 n = Inr (o2, n') \<and> dataDecoder d' = dataDecoder d \<and>
      unat (budgetRemaining d') + token_children k sz = unat (budgetRemaining d) \<and>
      (budgetRemaining d \<noteq> 0 \<longrightarrow> budgetRemaining d' \<noteq> 0)"
  proof cases
    case pointer
    then have "hasBufferRange (glen (buffer (dataDecoder d))) o1 ps" "o2 = o1 + ps" "n' = n" "d' = d"
      using assms(1) by (auto simp: budgetStep_def bindE_eq_Inr skipRange_Inr ps_def)
    then show ?thesis
      using pointer ptr by (simp add: skipStep_def token_children_def Let_def flip: ps_def)
  next
    case container
    then obtain d0 where "reserveActiveContainer d k sz = Inr d0" "d' = d0"
      "skipStep (dataDecoder d) k sz o1 n = Inr (o2, n')"
      using assms(1)
      by (auto simp: budgetStep_def skipStep_def bindE_eq_Inr Let_def split: if_splits)
    with reserveActiveContainer_Inr [OF this(1) container] show ?thesis by simp
  next
    case scalar
    then show ?thesis
      using assms(1) budgetStep_scalar(1) [OF scalar budgetStep_well_sized [OF assms(1)]]
      by (auto simp: skipStep_def token_children_def bindE_eq_Inr skipRange_Inr split: if_splits)
  qed
  then show "skipStep (dataDecoder d) k sz o1 n = Inr (o2, n')"
    and "dataDecoder d' = dataDecoder d"
    and "unat (budgetRemaining d') + token_children k sz = unat (budgetRemaining d)"
    and "budgetRemaining d \<noteq> 0 \<Longrightarrow> budgetRemaining d' \<noteq> 0"
    by blast+
qed

function (sequential) nextValueOffsetBudgetedSlow ::
  "ReflectionDecoder \<Rightarrow> uint \<Rightarrow> uint \<Rightarrow> (uint \<times> ReflectionDecoder) res" where
  "nextValueOffsetBudgetedSlow d offset numberToSkip =
     (if numberToSkip > 0 then
        if offset \<ge> glen (buffer (dataDecoder d)) then Inl OffsetError
        else
          bindE (budgetHeader (dataDecoder d) offset) (\<lambda>(kind, sz, newOffset).
          bindE (budgetStep d kind sz newOffset numberToSkip) (\<lambda>(newOffset, numberToSkip, d).
            nextValueOffsetBudgetedSlow d newOffset (numberToSkip - 1)))
      else Inr (offset, d))"
  by pat_completeness auto
termination
proof (relation "measure (\<lambda>(d, offset, _). unat (glen (buffer (dataDecoder d))) - unat offset)", goal_cases)
  case 1
  show ?case by simp
next
  case (2 d off n x k y sz o1 z o2 w n2 d2)
  then have c: "decodeCtrlData (dataDecoder d) off = Inr (k, sz, o1)"
    by (simp add: budgetHeader_ctrl not_le)
  have s: "budgetStep d k sz o1 n = Inr (o2, n2, d2)" using 2 by simp
  show ?case
    using decodeCtrlData_Inr [OF c] skipStep_offset [OF budgetStep_Inr(1) [OF s]]
      budgetStep_Inr(2) [OF s] by auto
qed

declare nextValueOffsetBudgetedSlow.simps [simp del]

definition nextValueOffsetBudgeted ::
  "ReflectionDecoder \<Rightarrow> uint \<Rightarrow> uint \<Rightarrow> (uint \<times> ReflectionDecoder) res" where
  "nextValueOffsetBudgeted d offset numberToSkip =
     (let buf = buffer (dataDecoder d);
          slow = (if budgetRemaining d = 0 then
                    bindE (nextValueOffsetBudgetedSlow (newBudgetedDecoder d) offset numberToSkip)
                      (\<lambda>(next, _). Inr (next, d))
                  else nextValueOffsetBudgetedSlow d offset numberToSkip);
          plainSkip = bindE (nextValueOffset (dataDecoder d) offset 1) (\<lambda>next. Inr (next, d))
      in if numberToSkip = 1 \<and> offset < glen buf then
           bindE (index buf offset) (\<lambda>ctrlByte.
             let kind = Kind_of_byte (drop_bit 5 ctrlByte);
                 sz = ucast (ctrlByte AND 0x1f) :: uint
             in if kind = KindPointer \<or> kind = KindString \<or> kind = KindBytes then plainSkip
                else if kind = KindFloat64 \<and> sz = 8 then plainSkip
                else if kind = KindUint16 \<and> sz \<le> 2 then plainSkip
                else if kind = KindUint32 \<and> sz \<le> 4 then plainSkip
                else slow)
         else slow)"

section \<open>Exactness of the budgeted skip\<close>

lemma budgetStep_state: "budgetStep d k sz o1 n = Inr (o2, n', d') \<Longrightarrow> \<exists>b. d' = d\<lparr>budgetRemaining := b\<rparr>"
  by (auto simp: budgetStep_def reserveActiveContainer_def bindE_eq_Inr Let_def split: if_splits
      intro: exI [of _ "budgetRemaining d"])

lemma budget_sound:
  "nextValueOffsetBudgetedSlow d off n = Inr (e, d') \<Longrightarrow>
     \<exists>t. walk (strict_token (dataDecoder d)) (unat n) off e t \<and>
       t + unat (budgetRemaining d') = unat n + unat (budgetRemaining d) \<and>
       (\<exists>b. d' = d\<lparr>budgetRemaining := b\<rparr>) \<and>
       (budgetRemaining d \<noteq> 0 \<longrightarrow> budgetRemaining d' \<noteq> 0)"
proof (induction d off n arbitrary: e d' rule: nextValueOffsetBudgetedSlow.induct)
  case (1 d off n)
  show ?case
  proof (cases "n > 0")
    case False
    then have "n = 0" by (simp add: word_gt_0)
    with "1.prems" show ?thesis
      by (simp add: nextValueOffsetBudgetedSlow.simps [of d off 0] exI [of _ "budgetRemaining d"])
  next
    case True
    obtain k sz o0 o1 n' d1 where inside: "\<not> glen (buffer (dataDecoder d)) \<le> off"
      and h: "budgetHeader (dataDecoder d) off = Inr (k, sz, o0)"
      and s: "budgetStep d k sz o0 n = Inr (o1, n', d1)"
      and r: "nextValueOffsetBudgetedSlow d1 o1 (n' - 1) = Inr (e, d')"
      using True "1.prems"
      by (subst (asm) nextValueOffsetBudgetedSlow.simps) (auto simp: bindE_eq_Inr split: if_splits)
    have c: "decodeCtrlData (dataDecoder d) off = Inr (k, sz, o0)"
      using h inside by (simp add: budgetHeader_ctrl)
    note step = budgetStep_Inr [OF s decodeCtrlData_Inr(3) [OF c]]
    note turn = skipStep_turn [OF c step(1) True]
    have tok: "strict_token (dataDecoder d) off = Some (o1, token_children k sz)"
      using turn(1) c budgetStep_well_sized [OF s] by (simp add: strict_token_def)
    from "1.IH" [OF True inside h refl refl s refl refl r]
    obtain t where w: "walk (strict_token (dataDecoder d)) (token_children k sz + (unat n - 1)) o1 e t"
      and t: "t + unat (budgetRemaining d') = unat (n' - 1) + unat (budgetRemaining d1)"
      and st: "\<exists>b. d' = d1\<lparr>budgetRemaining := b\<rparr>" "budgetRemaining d1 \<noteq> 0 \<longrightarrow> budgetRemaining d' \<noteq> 0"
      unfolding turn(2) step(2) by blast
    from w obtain o2 t1 t2 where "walk (strict_token (dataDecoder d)) (token_children k sz) o1 o2 t1"
      "walk (strict_token (dataDecoder d)) (unat n - 1) o2 e t2" and tt: "t = t1 + t2"
      by (auto simp: walk_append)
    then have "walk (strict_token (dataDecoder d)) (Suc (unat n - 1)) off e (Suc (t1 + t2))"
      using tok by (intro walk_one)
    moreover have pos: "Suc (unat n - 1) = unat n" using True by (simp add: word_less_nat_alt)
    moreover have "Suc (t1 + t2) + unat (budgetRemaining d') = unat n + unat (budgetRemaining d)"
      using t tt turn(2) step(3) pos by simp
    moreover have "\<exists>b. d' = d\<lparr>budgetRemaining := b\<rparr>"
      using st(1) budgetStep_state [OF s] by auto
    ultimately show ?thesis using st(2) step(4) by auto
  qed
qed

lemma ucast_of_nat_32: "unat (x :: uint) < 4294967296 \<Longrightarrow> (ucast x :: 32 word) = word_of_nat (unat x)"
  by (simp add: word_unat_eq_iff unat_ucast_small unat_of_nat take_bit_nat_eq_self)

lemma reserveActiveContainer_ok:
  assumes "k = KindMap \<or> k = KindSlice" and "token_children k sz < unat (budgetRemaining d)"
    and "unat (budgetRemaining d) < 4294967295"
  shows "reserveActiveContainer d k sz =
    Inr (d\<lparr>budgetRemaining := budgetRemaining d - word_of_nat (token_children k sz)\<rparr>)"
proof (cases "k = KindMap")
  case True
  have u: "unat (budgetRemaining d + 1) = unat (budgetRemaining d) + 1"
    using assms(3) by (simp add: unat_plus_if')
  have c: "2 * unat sz < unat (budgetRemaining d)" using assms(2) True by (simp add: token_children_def)
  then have "unat (sz * 2) = 2 * unat sz"
    using assms(3) by (subst unat_mult_lem [THEN iffD1]) simp_all
  then have "(ucast (sz * 2) :: 32 word) = word_of_nat (2 * unat sz)"
    using c assms(3) ucast_of_nat_32 [of "sz * 2"] by simp
  moreover have "\<not> sz \<ge> ucast ((budgetRemaining d + 1) div 2)"
    using c u by (simp add: word_le_nat_alt unat_div)
  ultimately show ?thesis using True by (simp add: reserveActiveContainer_def token_children_def)
next
  case False
  then have k: "k = KindSlice" using assms(1) by simp
  then show ?thesis
    using assms(2,3) ucast_of_nat_32 [of sz]
    by (simp add: reserveActiveContainer_def token_children_def word_le_nat_alt)
qed

lemma budgetStep_ok:
  assumes "well_sized k sz" and "unat o1 \<le> unat (glen (buffer (dataDecoder d)))"
    and "skipStep (dataDecoder d) k sz o1 n = Inr (o2, n')"
    and "k = KindMap \<or> k = KindSlice \<Longrightarrow>
      token_children k sz < unat (budgetRemaining d) \<and> unat (budgetRemaining d) < 4294967295"
  shows "budgetStep d k sz o1 n =
    Inr (o2, n', d\<lparr>budgetRemaining := budgetRemaining d - word_of_nat (token_children k sz)\<rparr>)"
proof -
  define ps where "ps = (drop_bit 3 sz AND 3) + (1 :: uint)"
  have ps4: "unat ps \<le> 4" by (simp add: ps_def pointer_width)
  have ptr: "hasBufferRange (glen (buffer (dataDecoder d))) o1 ps \<longleftrightarrow>
      \<not> o1 + ps > glen (buffer (dataDecoder d))"
    using assms(2) ps4 unat_plus_sz [of o1 "buffer (dataDecoder d)" ps]
    by (simp add: hasBufferRange_iff word_less_nat_alt not_less)
  consider (pointer) "k = KindPointer" | (container) "k = KindMap \<or> k = KindSlice"
    | (scalar) "k \<noteq> KindPointer" "k \<noteq> KindMap" "k \<noteq> KindSlice" by blast
  then show ?thesis
  proof cases
    case pointer
    then show ?thesis
      using assms(3) ptr
      by (auto simp: budgetStep_def skipStep_def token_children_def skipRange_def Let_def
          simp flip: ps_def split: if_splits)
  next
    case container
    note res = reserveActiveContainer_ok [OF container, of sz d] assms(4) [OF container]
    from container show ?thesis
    proof
      assume "k = KindMap"
      with assms(3) res show ?thesis by (simp add: budgetStep_def skipStep_def split: if_splits)
    next
      assume "k = KindSlice"
      with assms(3) res show ?thesis by (simp add: budgetStep_def skipStep_def split: if_splits)
    qed
  next
    case scalar
    note run = budgetStep_scalar(1) [OF scalar assms(1)]
    show ?thesis
      using scalar assms(3)
      by (auto simp: run skipStep_def token_children_def skipRange_def split: if_splits)
  qed
qed

lemma skipStep_children:
  assumes "decodeCtrlData d off = Inr (k, sz, o0)" and "token d off = Some (o1, m)"
    and "unat n + m < 18446744073709551616"
  shows "m = token_children k sz" and "skipStep d k sz o0 n = Inr (o1, n + word_of_nat m)"
proof -
  note b = decodeCtrlData_Inr [OF assms(1)]
  show m: "m = token_children k sz" using assms(1,2) by (auto simp: token_def split: if_splits)
  show "skipStep d k sz o0 n = Inr (o1, n + word_of_nat m)"
    using assms skipStep_token [OF b(3,4), of n] by (auto simp: token_def split: if_splits)
qed

lemma unat_sub_of_nat: "k \<le> unat r \<Longrightarrow> unat (r - word_of_nat k :: 32 word) = unat r - k"
  using unsigned_less [of r, where 'a = nat]
  by (subst unat_sub) (simp_all add: word_le_nat_alt unat_of_nat take_bit_nat_eq_self)

text \<open>
  Completeness, for any count \<open>n\<close> that continues the walk: the values are skipped one by one and
  the budget pays the tokens beyond the values asked for.
\<close>

lemma budget_complete:
  assumes "walk (strict_token dd) m off e t" and "unat off \<le> unat (glen (buffer dd))"
    and "unat n + (unat e - unat off) < 18446744073709551616"
    and "dataDecoder d = dd" and "t - m < unat (budgetRemaining d)"
    and "unat (budgetRemaining d) < 4294967295"
  shows "nextValueOffsetBudgetedSlow d off (n + word_of_nat m) =
    nextValueOffsetBudgetedSlow (d\<lparr>budgetRemaining := budgetRemaining d - word_of_nat (t - m)\<rparr>) e n"
  using assms
proof (induction arbitrary: n d rule: walk.induct)
  case (walk_none off)
  then show ?case by simp
next
  case (walk_one off o1 k o2 s m e t)
  obtain kind sz o0 where c: "decodeCtrlData dd off = Inr (kind, sz, o0)"
    and ws: "well_sized kind sz" and tok: "token dd off = Some (o1, k)"
    using walk_one.hyps(1) by (auto simp: strict_token_def split: sum.splits if_splits)
  note b = decodeCtrlData_Inr [OF c]
  note tb = token_bounds [OF tok]
  have w1: "unat o1 + s \<le> unat o2 \<and> unat o2 \<le> unat (glen (buffer dd)) \<and> k \<le> s"
    using strict_tokens.walk_offset [OF walk_one.hyps(2) tb(2)] .
  then have w2: "unat o2 + t \<le> unat e \<and> unat e \<le> unat (glen (buffer dd)) \<and> m \<le> t"
    using strict_tokens.walk_offset [OF walk_one.hyps(3)] by blast
  define N where "N = n + word_of_nat m"
  have room: "unat n + m + 1 + k < 18446744073709551616"
    using walk_one.prems(2) w1 w2 tb by linarith
  have um: "unat (word_of_nat m :: uint) = m"
    using room by (simp add: unat_of_nat take_bit_nat_eq_self)
  have uN: "unat N = unat n + m"
    using room um unat_add_small [of n "word_of_nat m"] by (simp add: N_def)
  have uN1: "unat (N + 1) = unat n + m + 1"
    using room uN unat_add_small [of N 1] by simp
  have pos: "N + 1 > 0" using uN1 by (simp add: word_less_nat_alt)
  define r where "r = budgetRemaining d"
  have spent: "s + t - m < unat r" "unat r < 4294967295"
    using walk_one.prems(4,5) w1 w2 by (simp_all add: r_def)
  have k: "k = token_children kind sz" and st: "skipStep dd kind sz o0 (N + 1) = Inr (o1, N + 1 + word_of_nat k)"
    using skipStep_children [OF c tok, of "N + 1"] uN1 room by simp_all
  have kr: "k < unat r" and sr: "s - k + k < unat r" and tr: "t - m < unat r - k - (s - k)"
    using spent w1 w2 by linarith+
  have "budgetStep d kind sz o0 (N + 1) =
      Inr (o1, N + 1 + word_of_nat k, d\<lparr>budgetRemaining := r - word_of_nat k\<rparr>)"
    using budgetStep_ok [of kind sz o0 d "N + 1" o1 "N + 1 + word_of_nat k"] ws b st k spent(2) kr
      walk_one.prems(3) by (simp add: r_def)
  moreover have inside: "off < glen (buffer dd)" using b by (simp add: word_less_nat_alt)
  moreover have "\<not> glen (buffer dd) \<le> off" using inside by (simp add: not_le)
  ultimately have "nextValueOffsetBudgetedSlow d off (N + 1) =
      nextValueOffsetBudgetedSlow (d\<lparr>budgetRemaining := r - word_of_nat k\<rparr>) o1 (N + word_of_nat k)"
    using pos c budgetHeader_ctrl [OF inside] walk_one.prems(3)
    by (subst nextValueOffsetBudgetedSlow.simps) (simp add: add.commute add.left_commute)
  also have "\<dots> = nextValueOffsetBudgetedSlow
      (d\<lparr>budgetRemaining := r - word_of_nat k - word_of_nat (s - k)\<rparr>) o2 N"
  proof (rule trans [OF walk_one.IH(1)])
    show "unat o1 \<le> unat (glen (buffer dd))" by (rule tb(2))
    show "unat N + (unat o2 - unat o1) < 18446744073709551616"
      using walk_one.prems(2) w1 w2 tb uN by linarith
    show "dataDecoder (d\<lparr>budgetRemaining := r - word_of_nat k\<rparr>) = dd"
      using walk_one.prems(3) by simp
    show "s - k < unat (budgetRemaining (d\<lparr>budgetRemaining := r - word_of_nat k\<rparr>))"
      using kr sr by (simp add: unat_sub_of_nat)
    show "unat (budgetRemaining (d\<lparr>budgetRemaining := r - word_of_nat k\<rparr>)) < 4294967295"
      using kr spent by (simp add: unat_sub_of_nat)
  qed simp
  also have "\<dots> = nextValueOffsetBudgetedSlow
      (d\<lparr>budgetRemaining := r - word_of_nat k - word_of_nat (s - k) - word_of_nat (t - m)\<rparr>) e n"
    unfolding N_def
  proof (rule trans [OF walk_one.IH(2)])
    have left: "unat (r - word_of_nat k - word_of_nat (s - k)) = unat r - k - (s - k)"
      using kr sr by (simp add: unat_sub_of_nat)
    show "unat o2 \<le> unat (glen (buffer dd))" using w1 by simp
    show "unat n + (unat e - unat o2) < 18446744073709551616"
      using walk_one.prems(2) w1 w2 tb by linarith
    show "dataDecoder (d\<lparr>budgetRemaining := r - word_of_nat k - word_of_nat (s - k)\<rparr>) = dd"
      using walk_one.prems(3) by simp
    show "t - m < unat (budgetRemaining (d\<lparr>budgetRemaining := r - word_of_nat k - word_of_nat (s - k)\<rparr>))"
      using tr by (simp add: left)
    show "unat (budgetRemaining (d\<lparr>budgetRemaining := r - word_of_nat k - word_of_nat (s - k)\<rparr>)) < 4294967295"
      using spent by (simp add: left)
  qed simp
  also have "r - word_of_nat k - word_of_nat (s - k) - word_of_nat (t - m) = r - word_of_nat (Suc (s + t) - Suc m)"
  proof -
    have "Suc (s + t) - Suc m = k + (s - k) + (t - m)" using w1 w2 by simp
    then show ?thesis by (simp only: of_nat_add) (simp add: algebra_simps)
  qed
  finally show ?case by (simp add: N_def r_def algebra_simps)
qed

section \<open>The properties\<close>

lemma budget_size: "budgetRemaining (newBudgetedDecoder d) = 32769"
  by (simp add: newBudgetedDecoder_def decodeExpansionBudgetBytes_def decodeBudgetUnitShift_def)

text \<open>
  C28. The budgeted skip is exact: it succeeds precisely when that many complete values with
  well-sized scalars stand at the offset and the values nested in them number fewer than the budget;
  it stops where they end and charges the budget one unit for each nested value (so with the fresh
  budget of an operation it reads at most 32,768 values more than it was asked for).
\<close>

theorem budgeted_skip_exact:
  assumes "offset \<le> glen (buffer (dataDecoder d))" and "budgetRemaining d \<noteq> 0"
    and "unat (budgetRemaining d) < 2 ^ 32 - 1"
  shows "nextValueOffsetBudgetedSlow d offset n = Inr (e, d') \<longleftrightarrow>
    (\<exists>t. walk (strict_token (dataDecoder d)) (unat n) offset e t \<and>
         t - unat n < unat (budgetRemaining d) \<and>
         d' = d\<lparr>budgetRemaining := budgetRemaining d - word_of_nat (t - unat n)\<rparr>)"
proof
  assume "nextValueOffsetBudgetedSlow d offset n = Inr (e, d')"
  from budget_sound [OF this] obtain t b where w: "walk (strict_token (dataDecoder d)) (unat n) offset e t"
    and t: "t + unat (budgetRemaining d') = unat n + unat (budgetRemaining d)"
    and b: "d' = d\<lparr>budgetRemaining := b\<rparr>" and nz: "budgetRemaining d' \<noteq> 0"
    using assms(2) by blast
  have "unat n \<le> t"
    using strict_tokens.walk_offset [OF w] assms(1) by (simp add: word_le_nat_alt)
  moreover have "0 < unat b" using nz b by (simp add: unat_gt_0)
  ultimately have spent: "t - unat n < unat (budgetRemaining d)" and "unat b = unat (budgetRemaining d) - (t - unat n)"
    using t b by simp_all
  then have "b = budgetRemaining d - word_of_nat (t - unat n)"
    by (simp add: word_unat_eq_iff unat_sub_of_nat)
  with w b spent show "\<exists>t. walk (strict_token (dataDecoder d)) (unat n) offset e t \<and>
      t - unat n < unat (budgetRemaining d) \<and>
      d' = d\<lparr>budgetRemaining := budgetRemaining d - word_of_nat (t - unat n)\<rparr>" by blast
next
  assume "\<exists>t. walk (strict_token (dataDecoder d)) (unat n) offset e t \<and>
      t - unat n < unat (budgetRemaining d) \<and>
      d' = d\<lparr>budgetRemaining := budgetRemaining d - word_of_nat (t - unat n)\<rparr>"
  then obtain t where w: "walk (strict_token (dataDecoder d)) (unat n) offset e t"
    and s: "t - unat n < unat (budgetRemaining d)"
    and d': "d' = d\<lparr>budgetRemaining := budgetRemaining d - word_of_nat (t - unat n)\<rparr>" by blast
  have o: "unat offset \<le> unat (glen (buffer (dataDecoder d)))" using assms(1) by (simp add: word_le_nat_alt)
  have "unat e \<le> 9223372036854775807"
    using strict_tokens.walk_offset [OF w o] unat_glen_bound [of "buffer (dataDecoder d)"] by linarith
  then have "nextValueOffsetBudgetedSlow d offset (0 + word_of_nat (unat n)) = nextValueOffsetBudgetedSlow d' e 0"
    using budget_complete [OF w o, of 0 d] s assms(3) d' by simp
  then show "nextValueOffsetBudgetedSlow d offset n = Inr (e, d')"
    by (simp add: nextValueOffsetBudgetedSlow.simps [of d' e 0])
qed

theorem budgeted_skip_exact_witness:
  "\<exists>t. walk (strict_token (NewDataDecoderWithoutStringCache [0xE1, 0x40, 0x40])) 1 0 3 t \<and> t - 1 < 9"
proof -
  let ?d = "\<lparr>dataDecoder = NewDataDecoderWithoutStringCache [0xE1, 0x40, 0x40], budgetRemaining = 9, payloadRemaining = 0\<rparr>"
  have r: "nextValueOffsetBudgetedSlow ?d 0 1 = Inr (3, ?d\<lparr>budgetRemaining := 7\<rparr>)" by code_simp
  have "0 \<le> glen (buffer (dataDecoder ?d))" "budgetRemaining ?d \<noteq> 0"
    "unat (budgetRemaining ?d) < 2 ^ 32 - 1" by simp_all
  note exact = budgeted_skip_exact [OF this, of 1 3 "?d\<lparr>budgetRemaining := 7\<rparr>"]
  obtain t where "walk (strict_token (dataDecoder ?d)) (unat (1 :: uint)) 0 3 t"
    and "t - unat (1 :: uint) < unat (budgetRemaining ?d)"
    using r unfolding exact by (elim exE conjE)
  then show ?thesis by (intro exI [of _ t]) simp
qed

lemma decodeCtrlData_kind:
  assumes "index (buffer d) off = Inr c" and "Kind_of_byte (drop_bit 5 c) = k" and "k \<noteq> KindExtended"
    and "decodeCtrlData d off = Inr (k', sz, o1)"
  shows "k' = k"
  using assms
  by (auto simp: decodeCtrlData_def decodeCtrlSize_def bindE_eq_Inr Let_def split: if_splits)

lemma budgetStep_plain:
  assumes "well_sized k sz" and "k \<noteq> KindMap" and "k \<noteq> KindSlice"
    and "unat o1 \<le> unat (glen (buffer (dataDecoder d)))"
  shows "budgetStep d k sz o1 n = bindE (skipStep (dataDecoder d) k sz o1 n) (\<lambda>(o2, n'). Inr (o2, n', d))"
proof (cases "k = KindPointer")
  case True
  define ps where "ps = (drop_bit 3 sz AND 3) + (1 :: uint)"
  have "unat ps \<le> 4" by (simp add: ps_def pointer_width)
  then have "hasBufferRange (glen (buffer (dataDecoder d))) o1 ps \<longleftrightarrow>
      \<not> o1 + ps > glen (buffer (dataDecoder d))"
    using assms(4) unat_plus_sz [of o1 "buffer (dataDecoder d)" ps]
    by (simp add: hasBufferRange_iff word_less_nat_alt not_less)
  with True show ?thesis
    by (simp add: budgetStep_def skipStep_def skipRange_def Let_def flip: ps_def)
next
  case False
  show ?thesis
    using budgetStep_scalar(1) [OF False assms(2,3,1), of d o1 n] False assms(2,3)
    by (simp add: skipStep_def skipRange_def)
qed

lemma budget_shortcut:
  assumes "offset < glen (buffer (dataDecoder d))" and c: "index (buffer (dataDecoder d)) offset = Inr c"
    and k: "Kind_of_byte (drop_bit 5 c) = k" and sz: "ucast (c AND 0x1f) = (sz :: uint)"
    and "k \<in> {KindPointer, KindString, KindBytes} \<or> k = KindFloat64 \<and> sz = 8 \<or>
      k = KindUint16 \<and> sz \<le> 2 \<or> k = KindUint32 \<and> sz \<le> 4"
  shows "nextValueOffsetBudgetedSlow d offset 1 =
    bindE (nextValueOffset (dataDecoder d) offset 1) (\<lambda>next. Inr (next, d))"
proof (cases "decodeCtrlData (dataDecoder d) offset")
  case (Inl e)
  then show ?thesis
    using assms(1) budgetHeader_ctrl [OF assms(1)]
    by (simp add: nextValueOffsetBudgetedSlow.simps [of d offset 1] nextValueOffset.simps [of _ offset 1]
        not_le [symmetric])
next
  case (Inr r)
  then obtain k' s o1 where ctrl: "decodeCtrlData (dataDecoder d) offset = Inr (k', s, o1)" by (cases r) auto
  have ne: "k \<noteq> KindExtended" "k \<noteq> KindMap" "k \<noteq> KindSlice" using assms(5) by auto
  have k': "k' = k" using decodeCtrlData_kind [OF c k ne(1) ctrl] .
  have "s = sz" if "sz < 29" using decodeCtrlData_direct [OF c k ne(1)] that sz ctrl by simp
  then have ws: "well_sized k' s"
    using assms(5) by (auto simp: k' well_sized_def word_le_nat_alt word_less_nat_alt)
  have o1: "unat o1 \<le> unat (glen (buffer (dataDecoder d)))" using decodeCtrlData_Inr(3) [OF ctrl] .
  have count: "n' = 1" if "skipStep (dataDecoder d) k' s o1 1 = Inr (o2, n')" for o2 n'
    using that ne by (auto simp: k' skipStep_def Let_def split: if_splits)
  have zero: "nextValueOffsetBudgetedSlow d o2 0 = Inr (o2, d)" "nextValueOffset (dataDecoder d) o2 0 = Inr o2" for o2
    by (simp_all add: nextValueOffsetBudgetedSlow.simps [of d o2 0] nextValueOffset.simps [of _ o2 0])
  have "\<not> glen (buffer (dataDecoder d)) \<le> offset" using assms(1) by (simp add: not_le)
  then show ?thesis
    using ctrl budgetHeader_ctrl [OF assms(1)] budgetStep_plain [OF ws _ _ o1, of 1] ne k' count
    by (cases "skipStep (dataDecoder d) k' s o1 1")
      (auto simp: nextValueOffsetBudgetedSlow.simps [of d offset 1] nextValueOffset.simps [of _ offset 1] zero)
qed

text \<open>
  The shortcuts of \<open>nextValueOffsetBudgeted\<close> change nothing: handing a single pointer, string,
  byte string, double or compact integer to the plain skip gives the result, the error and the
  budget of the charging loop (run on a fresh budget when the limits are inactive).
\<close>

theorem budgeted_skip_shortcuts:
  "nextValueOffsetBudgeted d offset n =
     (if budgetRemaining d = 0 then
        bindE (nextValueOffsetBudgetedSlow (newBudgetedDecoder d) offset n) (\<lambda>(next, _). Inr (next, d))
      else nextValueOffsetBudgetedSlow d offset n)"
proof (cases "n = 1 \<and> offset < glen (buffer (dataDecoder d))")
  case False
  then show ?thesis by (auto simp: nextValueOffsetBudgeted_def Let_def)
next
  case True
  then obtain c where c: "index (buffer (dataDecoder d)) offset = Inr c" by (auto simp: index_ok)
  define k where "k = Kind_of_byte (drop_bit 5 c)"
  define sz where "sz = (ucast (c AND 31) :: uint)"
  show ?thesis
  proof (cases "k \<in> {KindPointer, KindString, KindBytes} \<or> k = KindFloat64 \<and> sz = 8 \<or>
      k = KindUint16 \<and> sz \<le> 2 \<or> k = KindUint32 \<and> sz \<le> 4")
    case False
    then show ?thesis
      using True c by (auto simp: nextValueOffsetBudgeted_def Let_def simp flip: k_def sz_def)
  next
    case short: True
    have run: "nextValueOffsetBudgeted d offset n =
        bindE (nextValueOffset (dataDecoder d) offset 1) (\<lambda>next. Inr (next, d))"
      using True c short by (auto simp: nextValueOffsetBudgeted_def Let_def simp flip: k_def sz_def)
    have fresh: "dataDecoder (newBudgetedDecoder d) = dataDecoder d" by (simp add: newBudgetedDecoder_def)
    have "nextValueOffsetBudgetedSlow d offset 1 =
        bindE (nextValueOffset (dataDecoder d) offset 1) (\<lambda>next. Inr (next, d))"
      using True by (intro budget_shortcut [OF _ c k_def [symmetric] sz_def [symmetric] short]) simp
    moreover have "nextValueOffsetBudgetedSlow (newBudgetedDecoder d) offset 1 =
        bindE (nextValueOffset (dataDecoder d) offset 1) (\<lambda>next. Inr (next, newBudgetedDecoder d))"
      using True c budget_shortcut [of offset "newBudgetedDecoder d" c k sz] short
      by (simp add: fresh k_def sz_def)
    ultimately show ?thesis using True run by (simp add: bindE_assoc)
  qed
qed

lemma IsEmptyValueAt_resolve:
  "IsEmptyValueAt d offset = Inr b \<longleftrightarrow>
     (\<exists>k sz o1 n. resolveCtrlData (dataDecoder d) offset = Inr (k, sz, o1, n) \<and>
        b = ((k = KindMap \<or> k = KindSlice) \<and> sz = 0))"
proof -
  have again: "IsEmptyValue_loop d0 p (Suc 0) = bindE (decodeCtrlData d0 p) (\<lambda>(k, sz, _).
      if k = KindPointer then Inl (InvalidDatabaseError (InvalidPointerToPointer p))
      else Inr ((k = KindMap \<or> k = KindSlice) \<and> sz = 0))" for d0 p
    by (subst IsEmptyValue_loop.simps) (auto intro!: bindE_cong)
  show ?thesis
  proof (cases "decodeCtrlData (dataDecoder d) offset")
    case (Inl e)
    then show ?thesis
      by (simp add: IsEmptyValueAt_def IsEmptyValue_loop.simps [of _ offset 0] resolveCtrlData_def)
  next
    case (Inr x)
    then obtain k sz o1 where c: "decodeCtrlData (dataDecoder d) offset = Inr (k, sz, o1)" by (cases x) auto
    show ?thesis
    proof (cases "k = KindPointer")
      case False
      with c show ?thesis
        by (auto simp: IsEmptyValueAt_def IsEmptyValue_loop.simps [of _ offset 0] resolveCtrlData_def)
    next
      case ptr: True
      show ?thesis
      proof (cases "decodePointer (dataDecoder d) sz o1")
        case (Inl e)
        with c ptr show ?thesis
          by (simp add: IsEmptyValueAt_def IsEmptyValue_loop.simps [of _ offset 0] resolveCtrlData_def)
      next
        case (Inr y)
        then obtain p n where "decodePointer (dataDecoder d) sz o1 = Inr (p, n)" by (cases y) auto
        with c ptr show ?thesis
          by (cases "decodeCtrlData (dataDecoder d) p")
            (auto simp: IsEmptyValueAt_def IsEmptyValue_loop.simps [of _ offset 0] again
              resolveCtrlData_def Let_def split: if_splits)
      qed
    qed
  qed
qed

lemma structFieldValue_kind:
  assumes "decodeCtrlData (dataDecoder d) offset = Inr (k, sz, o1)"
  shows "structFieldValueIsInlineContainer d offset = Inr (k = KindMap \<or> k = KindSlice)"
proof -
  let ?buf = "buffer (dataDecoder d)"
  have inside: "offset < glen ?buf"
    using decodeCtrlData_Inr [OF assms] by (simp add: word_less_nat_alt)
  then obtain c where c: "index ?buf offset = Inr c" by (simp add: index_ok)
  have kind: "drop_bit 5 c = word_of_nat n \<longleftrightarrow> Kind_of_byte (drop_bit 5 c) = kind_of_num n" if "n < 16" for n
    using that by (auto simp: Kind_of_byte_def word_unat_eq_iff unat_small_byte)
      (metis kind_num_of_num)
  show ?thesis
  proof (cases "Kind_of_byte (drop_bit 5 c) = KindExtended")
    case False
    then have "Kind_of_byte (drop_bit 5 c) = k"
      using decodeCtrlData_kind [OF c refl False assms] by simp
    moreover have "unat (drop_bit 5 c) < 8"
      using unat_byte_less [of c] by (simp add: unat_drop5)
    ultimately have "k \<noteq> KindSlice" by (auto simp: Kind_of_byte_iff)
    with False c inside kind [of 0] kind [of 7] \<open>Kind_of_byte (drop_bit 5 c) = k\<close> show ?thesis
      by (auto simp: structFieldValueIsInlineContainer_def kind_of_num_def)
  next
    case True
    obtain b where b: "index ?buf (offset + 1) = Inr b" and in2: "offset + 1 < glen ?buf"
      and k: "k = Kind_of_byte (b + 7)"
      using assms True c inside
      by (auto simp: decodeCtrlData_def decodeCtrlSize_def bindE_eq_Inr Let_def not_le split: if_splits)
    have "b + 7 = 7 \<longleftrightarrow> b = 0" by simp
    moreover have "b + 7 = 11 \<longleftrightarrow> b = 4"
    proof
      assume "b + 7 = 11"
      then have "b = 11 - 7" by (metis add_diff_cancel_right')
      then show "b = 4" by simp
    qed simp
    moreover have "k = KindMap \<longleftrightarrow> b + 7 = 7" "k = KindSlice \<longleftrightarrow> b + 7 = 11"
      by (simp_all add: k Kind_of_byte_iff word_unat_eq_iff)
    ultimately show ?thesis
      using True c b in2 inside kind [of 0] kind [of 7]
      by (auto simp: structFieldValueIsInlineContainer_def kind_of_num_def)
  qed
qed

text \<open>
  Header queries: \<open>IsEmptyValueAt\<close> answers exactly when \<open>resolveCtrlData\<close> resolves the offset,
  and says whether the resolved value is an empty map or slice; on a readable header
  \<open>structFieldValueIsInlineContainer\<close>, which only looks at two raw bytes, says whether it is that of
  a map or a slice.
\<close>

theorem header_queries:
  "(IsEmptyValueAt d offset = Inr b \<longleftrightarrow>
      (\<exists>k sz o1 n. resolveCtrlData (dataDecoder d) offset = Inr (k, sz, o1, n) \<and>
         b = ((k = KindMap \<or> k = KindSlice) \<and> sz = 0))) \<and>
   (decodeCtrlData (dataDecoder d) offset = Inr (k, sz, o1) \<longrightarrow>
      structFieldValueIsInlineContainer d offset = Inr (k = KindMap \<or> k = KindSlice))"
  using IsEmptyValueAt_resolve structFieldValue_kind by blast

theorem header_queries_witness:
  "structFieldValueIsInlineContainer (NewReflectionDecoder [1, 4, 0x40]) 0 = Inr True"
proof -
  have "decodeCtrlData (dataDecoder (NewReflectionDecoder [1, 4, 0x40])) 0 = Inr (KindSlice, 1, 2)"
    by code_simp
  then show ?thesis
    using header_queries [of "NewReflectionDecoder [1, 4, 0x40]" 0 True KindSlice 1 2] by simp
qed

end
