(* ===== verification/Cursor.thy ===== *)
theory Cursor
  imports Budget
begin

text \<open>
  Cursors (\<open>internal/decoder/cursor.go\<close>). A cursor holds a pointer to a decoder: here an address
  (\<open>None\<close> is nil) into a heap of decoders, so that cursors of different decoders can be told apart and
  a string read leaves its cache behind in the decoder it shares with every other cursor. Reads
  return the value and the successor cursor; a successor carries the offset of the value it follows
  as its origin token. Map and slice cursors are mutable records and are returned updated.
\<close>

section \<open>Cursors\<close>

type_synonym heap = "nat \<Rightarrow> DataDecoder"

record Cursor =
  c_decoder :: "nat option"
  c_offset :: uint
  originToken :: uint

definition zeroCursor :: Cursor where
  "zeroCursor = \<lparr>c_decoder = None, c_offset = 0, originToken = 0\<rparr>"

definition successor :: "Cursor \<Rightarrow> uint \<Rightarrow> Cursor" where
  "successor c offset = \<lparr>c_decoder = c_decoder c, c_offset = offset, originToken = c_offset c + 1\<rparr>"

text \<open>\<open>validate\<close> returns the address of the decoder it has found not to be nil.\<close>

definition validate :: "Cursor \<Rightarrow> nat res" where
  "validate c = (case c_decoder c of None \<Rightarrow> Inl (PlainError ''invalid zero cursor'') | Some a \<Rightarrow> Inr a)"

definition c_wrapError :: "Cursor \<Rightarrow> gerr \<Rightarrow> gerr" where
  "c_wrapError c err = wrapErrorAtOffset err (c_offset c)"

definition maxSizeError :: "Cursor \<Rightarrow> Kind \<Rightarrow> uint \<Rightarrow> uint \<Rightarrow> gerr" where
  "maxSizeError c actual sz maximum =
     c_wrapError c (InvalidDatabaseError (MaxSizeExceeded actual sz maximum))"

definition unexpectedKinds :: "heap \<Rightarrow> Cursor \<Rightarrow> KindSet \<Rightarrow> Kind \<Rightarrow> gerr" where
  "unexpectedKinds h c expected actual =
     (case c_decoder c of
        None \<Rightarrow> Panic
      | Some a \<Rightarrow>
          (case (if \<not> IsContainer actual
                 then validateValue (h a) newStructuralValidator (c_offset c) 0 False else Inr (0, 0)) of
             Inl err \<Rightarrow> c_wrapError c err
           | Inr _ \<Rightarrow> c_wrapError c (UnexpectedKindError actual expected)))"

definition unexpectedKind :: "heap \<Rightarrow> Cursor \<Rightarrow> Kind \<Rightarrow> Kind \<Rightarrow> gerr" where
  "unexpectedKind h c expected actual = unexpectedKinds h c (NewKindSet [expected]) actual"

text \<open>\<open>malformedRangeError\<close> reports the wrapped sum of its arguments.\<close>

definition malformedRangeError :: "uint \<Rightarrow> uint \<Rightarrow> uint \<Rightarrow> gerr" where
  "malformedRangeError offset sz len = InvalidDatabaseError (BadDataRange (offset + sz) len)"

section \<open>Position\<close>

definition Cursor_Offset :: "heap \<Rightarrow> Cursor \<Rightarrow> uint res" where
  "Cursor_Offset h c =
     bindE (validate c) (\<lambda>a.
     bindE (mapErr (c_wrapError c) (decodeCtrlData (h a) (c_offset c))) (\<lambda>(kind, sz, ctrlEnd).
       if kind \<noteq> KindPointer then Inr (c_offset c)
       else
         bindE (mapErr (c_wrapError c) (decodePointer (h a) sz ctrlEnd)) (\<lambda>(pointer, _).
         bindE (mapErr (c_wrapError c) (decodeCtrlData (h a) pointer)) (\<lambda>(kind, _, _).
           if kind = KindPointer then
             Inl (c_wrapError c (InvalidDatabaseError PointerToPointerChain))
           else Inr pointer))))"

definition Cursor_Kind :: "heap \<Rightarrow> Cursor \<Rightarrow> Kind res" where
  "Cursor_Kind h c =
     bindE (validate c) (\<lambda>a.
     bindE (mapErr (c_wrapError c) (resolveCtrlData (h a) (c_offset c))) (\<lambda>(kind, _, _, _). Inr kind))"

definition Skip :: "heap \<Rightarrow> Cursor \<Rightarrow> Cursor res" where
  "Skip h c =
     bindE (validate c) (\<lambda>a.
     bindE (mapErr (c_wrapError c) (nextValueOffset (h a) (c_offset c) 1)) (\<lambda>next.
       Inr (successor c next)))"

section \<open>Scalars\<close>

text \<open>The size and offset of a scalar of the expected kind, and the offset after the value.\<close>

definition scalarFast :: "DataDecoder \<Rightarrow> uint \<Rightarrow> Kind \<Rightarrow> (uint \<times> uint \<times> uint) option res" where
  "scalarFast d offset expected =
     (if offset < glen (buffer d) then
        bindE (index (buffer d) offset) (\<lambda>ctrlByte.
          let sz = ucast (ctrlByte AND 0x1f) :: uint in
          if sz < 29 then
            let kind = Kind_of_byte (drop_bit 5 ctrlByte); dataOffset = offset + 1 in
            bindE (if kind = KindExtended \<and> dataOffset < glen (buffer d) then
                     bindE (index (buffer d) dataOffset) (\<lambda>b. Inr (Kind_of_byte (b + 7), dataOffset + 1))
                   else Inr (kind, dataOffset))
              (\<lambda>(kind, dataOffset).
                 if kind = expected then
                   Inr (Some (sz, dataOffset, if kind = KindBool then dataOffset else dataOffset + sz))
                 else Inr None)
          else Inr None)
      else Inr None)"

definition scalarSlow :: "heap \<Rightarrow> Cursor \<Rightarrow> nat \<Rightarrow> Kind \<Rightarrow> (uint \<times> uint \<times> uint) res" where
  "scalarSlow h c a expected =
     bindE (mapErr (c_wrapError c) (resolveCtrlData (h a) (c_offset c))) (\<lambda>(kind, sz, dataOffset, pointerEnd).
       if kind \<noteq> expected then Inl (unexpectedKind h c expected kind)
       else
         let next = (if kind = KindBool then dataOffset else dataOffset + sz);
             next = (if pointerEnd \<noteq> 0 then pointerEnd else next)
         in Inr (sz, dataOffset, next))"

definition scalar :: "heap \<Rightarrow> Cursor \<Rightarrow> Kind \<Rightarrow> (uint \<times> uint \<times> uint) res" where
  "scalar h c expected =
     bindE (validate c) (\<lambda>a.
     bindE (scalarFast (h a) (c_offset c) expected) (\<lambda>fast.
       case fast of Some result \<Rightarrow> Inr result | None \<Rightarrow> scalarSlow h c a expected))"

text \<open>The reads that follow \<open>scalar\<close> with one of the primitive decoders.\<close>

definition readScalar ::
  "heap \<Rightarrow> Cursor \<Rightarrow> Kind \<Rightarrow> (DataDecoder \<Rightarrow> uint \<Rightarrow> uint \<Rightarrow> ('v \<times> uint) res) \<Rightarrow> ('v \<times> Cursor) res" where
  "readScalar h c expected decode =
     bindE (scalar h c expected) (\<lambda>(sz, dataOffset, next).
     bindE (validate c) (\<lambda>a.
     bindE (mapErr (c_wrapError c) (decode (h a) sz dataOffset)) (\<lambda>(value, _).
       Inr (value, successor c next))))"

definition ReadBool :: "heap \<Rightarrow> Cursor \<Rightarrow> (bool \<times> Cursor) res" where
  "ReadBool h c = readScalar h c KindBool decodeBool"

definition ReadFloat32 :: "heap \<Rightarrow> Cursor \<Rightarrow> (32 word \<times> Cursor) res" where
  "ReadFloat32 h c = readScalar h c KindFloat32 decodeFloat32"

definition ReadFloat64 :: "heap \<Rightarrow> Cursor \<Rightarrow> (64 word \<times> Cursor) res" where
  "ReadFloat64 h c = readScalar h c KindFloat64 decodeFloat64"

definition ReadInt32 :: "heap \<Rightarrow> Cursor \<Rightarrow> (32 word \<times> Cursor) res" where
  "ReadInt32 h c = readScalar h c KindInt32 decodeInt32"

definition ReadUint128 :: "heap \<Rightarrow> Cursor \<Rightarrow> ((64 word \<times> 64 word) \<times> Cursor) res" where
  "ReadUint128 h c =
     readScalar h c KindUint128 (\<lambda>d sz off.
       bindE (decodeUint128 d sz off) (\<lambda>(hi, lo, next). Inr ((hi, lo), next)))"

definition ReadBytes :: "heap \<Rightarrow> Cursor \<Rightarrow> (bytes \<times> Cursor) res" where
  "ReadBytes h c =
     bindE (scalar h c KindBytes) (\<lambda>(sz, dataOffset, next).
     bindE (validate c) (\<lambda>a.
       let buf = buffer (h a) in
       if dataOffset > glen buf \<or> sz > glen buf - dataOffset then
         Inl (c_wrapError c (malformedRangeError dataOffset sz (glen buf)))
       else
         bindE (slice buf dataOffset (dataOffset + sz)) (\<lambda>bs. Inr (bs, successor c next))))"

section \<open>Strings\<close>

text \<open>The cache the read leaves behind is stored back through the pointer.\<close>

definition ReadStringMaxSize :: "heap \<Rightarrow> Cursor \<Rightarrow> uint \<Rightarrow> (gostring \<times> Cursor \<times> heap) res" where
  "ReadStringMaxSize h c maximum =
     bindE (validate c) (\<lambda>a.
       let d = h a; offset = c_offset c in
       bindE (compactString d offset) (\<lambda>compact.
         case compact of
           Some (dataOffset, sz, nextOffset) \<Rightarrow>
             if sz > maximum then Inl (maxSizeError c KindString sz maximum)
             else bindE (copyString d dataOffset sz) (\<lambda>(s, d').
               Inr (s, successor c nextOffset, h(a := d')))
         | None \<Rightarrow>
             bindE (mapErr (c_wrapError c) (resolveCtrlData d offset)) (\<lambda>(kind, sz, dataOffset, nextOffset).
               let nextOffset = (if nextOffset = 0 then dataOffset + sz else nextOffset) in
               if kind \<noteq> KindString then Inl (unexpectedKind h c KindString kind)
               else if sz > maximum then Inl (maxSizeError c KindString sz maximum)
               else bindE (mapErr (c_wrapError c) (decodeString d sz dataOffset)) (\<lambda>(value, _, d').
                 Inr (value, successor c nextOffset, h(a := d'))))))"

definition ReadString :: "heap \<Rightarrow> Cursor \<Rightarrow> (gostring \<times> Cursor \<times> heap) res" where
  "ReadString h c = ReadStringMaxSize h c maxValueSize"

section \<open>Numbers of several kinds\<close>

text \<open>
  The conversion of a \<open>float32\<close> to \<open>float64\<close> on the IEEE bit patterns: zeros, subnormals (which
  become normal), normal numbers, infinities, and NaNs (which come out quiet).
\<close>

fun top_bit :: "nat \<Rightarrow> nat" where
  "top_bit n = (if n < 2 then 0 else Suc (top_bit (n div 2)))"

declare top_bit.simps [simp del]

definition float64_of_float32 :: "32 word \<Rightarrow> 64 word" where
  "float64_of_float32 v =
     (let s = push_bit 63 (ucast (drop_bit 31 v) :: 64 word);
          e = unat (drop_bit 23 v AND 0xff);
          m = ucast (v AND 0x7fffff) :: 64 word
      in if e = 255 then
           s OR push_bit 52 0x7ff OR push_bit 29 m OR (if m \<noteq> 0 then push_bit 51 1 else 0)
         else if e = 0 then
           if m = 0 then s
           else let p = top_bit (unat m) in
             s OR push_bit 52 (word_of_nat (874 + p)) OR (push_bit (52 - p) m AND mask 52)
         else s OR push_bit 52 (word_of_nat (e + 896)) OR push_bit 29 m)"

text \<open>The inline cases of \<open>ReadFloat\<close>.\<close>

definition floatFast :: "DataDecoder \<Rightarrow> uint \<Rightarrow> (64 word \<times> uint) res option res" where
  "floatFast d offset =
     (if offset < glen (buffer d) then
        bindE (index (buffer d) offset) (\<lambda>ctrlByte.
          let sz = ucast (ctrlByte AND 0x1f) :: uint; kind = Kind_of_byte (drop_bit 5 ctrlByte) in
          if sz < 29 then
            if kind = KindFloat64 then Inr (Some (decodeFloat64 d sz (offset + 1)))
            else if kind = KindExtended \<and> offset + 1 < glen (buffer d) then
              bindE (index (buffer d) (offset + 1)) (\<lambda>b.
                if Kind_of_byte (b + 7) = KindFloat32 then
                  Inr (Some (bindE (decodeFloat32 d sz (offset + 2)) (\<lambda>(v, stop).
                    Inr (float64_of_float32 v, stop))))
                else Inr None)
            else Inr None
          else Inr None)
      else Inr None)"

definition ReadFloat :: "heap \<Rightarrow> Cursor \<Rightarrow> (64 word \<times> Cursor) res" where
  "ReadFloat h c =
     bindE (validate c) (\<lambda>a.
     bindE (floatFast (h a) (c_offset c)) (\<lambda>fast.
       case fast of
         Some result \<Rightarrow>
           bindE (mapErr (c_wrapError c) result) (\<lambda>(value, stop). Inr (value, successor c stop))
       | None \<Rightarrow>
           bindE (mapErr (c_wrapError c) (resolveCtrlData (h a) (c_offset c))) (\<lambda>(kind, sz, dataOffset, pointerEnd).
           bindE
             (if kind = KindFloat32 then
                mapErr (c_wrapError c) (bindE (decodeFloat32 (h a) sz dataOffset) (\<lambda>(v, stop).
                  Inr (float64_of_float32 v, stop)))
              else if kind = KindFloat64 then
                mapErr (c_wrapError c) (decodeFloat64 (h a) sz dataOffset)
              else Inl (unexpectedKinds h c (NewKindSet [KindFloat64, KindFloat32]) kind))
             (\<lambda>(value, stop).
                Inr (value, successor c (if pointerEnd \<noteq> 0 then pointerEnd else stop))))))"

definition ReadUint :: "heap \<Rightarrow> Cursor \<Rightarrow> (64 word \<times> Cursor) res" where
  "ReadUint h c =
     bindE (validate c) (\<lambda>a.
     bindE (mapErr (c_wrapError c) (resolveCtrlData (h a) (c_offset c))) (\<lambda>(kind, sz, dataOffset, pointerEnd).
     bindE
       (if kind = KindUint16 then
          mapErr (c_wrapError c) (bindE (decodeUint16 (h a) sz dataOffset) (\<lambda>(v, stop). Inr (ucast v, stop)))
        else if kind = KindUint32 then
          mapErr (c_wrapError c) (bindE (decodeUint32 (h a) sz dataOffset) (\<lambda>(v, stop). Inr (ucast v, stop)))
        else if kind = KindUint64 then mapErr (c_wrapError c) (decodeUint64 (h a) sz dataOffset)
        else Inl (unexpectedKinds h c (NewKindSet [KindUint16, KindUint32, KindUint64]) kind))
       (\<lambda>(value, stop).
          Inr (value, successor c (if pointerEnd \<noteq> 0 then pointerEnd else stop)))))"

text \<open>\<open>ReadInteger\<close> returns the 64-bit pattern of the value and whether it is signed.\<close>

definition integerFast :: "DataDecoder \<Rightarrow> uint \<Rightarrow> (64 word \<times> uint) res option res" where
  "integerFast d offset =
     (if offset < glen (buffer d) then
        bindE (index (buffer d) offset) (\<lambda>ctrlByte.
          let sz = ucast (ctrlByte AND 0x1f) :: uint; kind = Kind_of_byte (drop_bit 5 ctrlByte) in
          if kind = KindUint16 \<and> sz < 29 then
            Inr (Some (bindE (decodeUint16 d sz (offset + 1)) (\<lambda>(v, stop). Inr (ucast v, stop))))
          else if kind = KindUint32 \<and> sz < 29 then
            Inr (Some (bindE (decodeUint32 d sz (offset + 1)) (\<lambda>(v, stop). Inr (ucast v, stop))))
          else Inr None)
      else Inr None)"

definition ReadInteger :: "heap \<Rightarrow> Cursor \<Rightarrow> (64 word \<times> bool \<times> Cursor) res" where
  "ReadInteger h c =
     bindE (validate c) (\<lambda>a.
     bindE (integerFast (h a) (c_offset c)) (\<lambda>fast.
       case fast of
         Some result \<Rightarrow>
           bindE (mapErr (c_wrapError c) result) (\<lambda>(value, stop). Inr (value, False, successor c stop))
       | None \<Rightarrow>
           bindE (mapErr (c_wrapError c) (resolveCtrlData (h a) (c_offset c))) (\<lambda>(kind, sz, dataOffset, pointerEnd).
           bindE
             (if kind = KindInt32 then
                mapErr (c_wrapError c) (bindE (decodeInt32 (h a) sz dataOffset) (\<lambda>(v, stop). Inr (scast v, stop)))
              else if kind = KindUint16 then
                mapErr (c_wrapError c) (bindE (decodeUint16 (h a) sz dataOffset) (\<lambda>(v, stop). Inr (ucast v, stop)))
              else if kind = KindUint32 then
                mapErr (c_wrapError c) (bindE (decodeUint32 (h a) sz dataOffset) (\<lambda>(v, stop). Inr (ucast v, stop)))
              else if kind = KindUint64 then mapErr (c_wrapError c) (decodeUint64 (h a) sz dataOffset)
              else Inl (unexpectedKinds h c (NewKindSet [KindUint16, KindUint32, KindInt32, KindUint64]) kind))
             (\<lambda>(value, stop).
                Inr (value, kind = KindInt32, successor c (if pointerEnd \<noteq> 0 then pointerEnd else stop))))))"

section \<open>Size limits\<close>

definition CheckMaxSize :: "heap \<Rightarrow> Cursor \<Rightarrow> KindSet \<Rightarrow> uint \<Rightarrow> unit res" where
  "CheckMaxSize h c expected maximum =
     bindE (validate c) (\<lambda>a.
       if expected = 0 \<or> expected AND NOT supportedMaxSizeKinds \<noteq> 0 then
         Inl (PlainError (''maxsize is not supported for '' @ KindSet_String expected))
       else
         let buf = buffer (h a) in
         bindE (if c_offset c < glen buf then
                  bindE (index buf (c_offset c)) (\<lambda>ctrlByte.
                    let actual = Kind_of_byte (drop_bit 5 ctrlByte); sz = ucast (ctrlByte AND 0x1f) :: uint in
                    if actual \<noteq> KindPointer \<and> actual \<noteq> KindExtended \<and> sz < 29 then Inr (Some (actual, sz))
                    else Inr None)
                else Inr None)
           (\<lambda>fast.
             bindE (case fast of
                      Some (actual, sz) \<Rightarrow> Inr (actual, sz)
                    | None \<Rightarrow>
                        bindE (mapErr (c_wrapError c) (resolveCtrlData (h a) (c_offset c)))
                          (\<lambda>(actual, sz, _, _). Inr (actual, sz)))
               (\<lambda>(actual, sz).
                 if KindSet_Contains expected actual \<and> sz > maximum
                 then Inl (maxSizeError c actual sz maximum) else Inr ())))"

section \<open>Maps\<close>

definition cursorContainerSizeIsCheap :: "Kind \<Rightarrow> uint \<Rightarrow> uint \<Rightarrow> uint \<Rightarrow> bool" where
  "cursorContainerSizeIsCheap kind sz offset bufferLen =
     (if kind = KindMap \<and> sz > NOT 0 div 2 then False
      else
        let valueCount = (if kind = KindMap then sz * 2 else sz) in
        offset \<le> bufferLen \<and> valueCount \<le> bufferLen - offset \<and>
        valueCount < containerPreflightValueCount)"

definition validateCursorContainerSize :: "DataDecoder \<Rightarrow> Kind \<Rightarrow> uint \<Rightarrow> uint \<Rightarrow> unit res" where
  "validateCursorContainerSize d kind sz offset =
     (if cursorContainerSizeIsCheap kind sz offset (glen (buffer d)) then Inr ()
      else
        let validator = \<lparr>dataDecoder = d, budgetRemaining = 0, payloadRemaining = 0\<rparr> in
        validateContainerSize validator kind sz offset 0)"

record MapCursor =
  m_decoder :: "nat option"
  m_err :: "gerr option"
  m_valueOrigin :: uint
  m_offset :: uint
  m_outerEnd :: uint
  m_size :: uint
  m_remaining :: uint
  m_pending :: bool

record MapReader =
  r_decoder :: "nat option"
  r_valueOrigin :: uint
  r_dataOffset :: uint
  r_outerEnd :: uint
  r_size :: uint

text \<open>The inline case of \<open>Map\<close> and \<open>MapReader\<close>: the size of a compact map header.\<close>

definition compactMap :: "DataDecoder \<Rightarrow> uint \<Rightarrow> uint option res" where
  "compactMap d offset =
     (if offset < glen (buffer d) then
        bindE (index (buffer d) offset) (\<lambda>ctrlByte.
          let sz = ucast (ctrlByte AND 0x1f) :: uint in
          if Kind_of_byte (drop_bit 5 ctrlByte) = KindMap \<and> sz < 29 then Inr (Some sz) else Inr None)
      else Inr None)"

text \<open>Their general case: the resolved map and its bounds.\<close>

definition resolveMap :: "heap \<Rightarrow> Cursor \<Rightarrow> nat \<Rightarrow> (uint \<times> uint \<times> uint) res" where
  "resolveMap h c a =
     bindE (mapErr (c_wrapError c) (resolveCtrlData (h a) (c_offset c))) (\<lambda>(kind, sz, dataOffset, pointerEnd).
       if kind \<noteq> KindMap then Inl (unexpectedKind h c KindMap kind)
       else
         let bufferLen = glen (buffer (h a)) in
         if dataOffset > bufferLen \<or>
            (sz \<ge> containerPreflightValueCount \<and> sz > (bufferLen - dataOffset) div 2)
         then Inl (c_wrapError c OffsetError)
         else Inr (sz, dataOffset, pointerEnd))"

definition Cursor_Map :: "heap \<Rightarrow> Cursor \<Rightarrow> MapCursor res" where
  "Cursor_Map h c =
     bindE (validate c) (\<lambda>a.
     bindE (compactMap (h a) (c_offset c)) (\<lambda>compact.
     bindE (case compact of
              Some sz \<Rightarrow> Inr (sz, c_offset c + 1, 0)
            | None \<Rightarrow> resolveMap h c a)
       (\<lambda>(sz, dataOffset, pointerEnd).
     bindE (mapErr (c_wrapError c) (validateCursorContainerSize (h a) KindMap sz dataOffset)) (\<lambda>_.
       Inr \<lparr>m_decoder = c_decoder c, m_err = None, m_valueOrigin = c_offset c, m_offset = dataOffset,
            m_outerEnd = pointerEnd, m_size = sz, m_remaining = sz, m_pending = False\<rparr>))))"

definition Cursor_MapReader :: "heap \<Rightarrow> Cursor \<Rightarrow> MapReader res" where
  "Cursor_MapReader h c =
     bindE (validate c) (\<lambda>a.
     bindE (compactMap (h a) (c_offset c)) (\<lambda>compact.
     bindE (case compact of
              Some sz \<Rightarrow> Inr (sz, c_offset c + 1, 0)
            | None \<Rightarrow> resolveMap h c a)
       (\<lambda>(sz, dataOffset, pointerEnd).
          Inr \<lparr>r_decoder = c_decoder c, r_valueOrigin = c_offset c, r_dataOffset = dataOffset,
               r_outerEnd = pointerEnd, r_size = sz\<rparr>)))"

definition MapReader_Len :: "MapReader \<Rightarrow> uint" where
  "MapReader_Len m = r_size m"

text \<open>\<open>SizeForAllocation\<close>: \<open>None\<close> is \<open>ok = false\<close>.\<close>

definition SizeForAllocation :: "heap \<Rightarrow> MapReader \<Rightarrow> uint option" where
  "SizeForAllocation h m =
     (case r_decoder m of
        None \<Rightarrow> None
      | Some a \<Rightarrow>
          if \<not> cursorContainerSizeIsCheap KindMap (r_size m) (r_dataOffset m) (glen (buffer (h a)))
          then None else Some (r_size m))"

definition MapReader_Size :: "heap \<Rightarrow> MapReader \<Rightarrow> uint res" where
  "MapReader_Size h m =
     (case SizeForAllocation h m of
        Some sz \<Rightarrow> Inr sz
      | None \<Rightarrow>
          (case r_decoder m of
             None \<Rightarrow> Inl (PlainError ''invalid zero map reader'')
           | Some a \<Rightarrow>
               bindE (mapErr (\<lambda>err. wrapErrorAtOffset err (r_valueOrigin m))
                        (validateCursorContainerSize (h a) KindMap (r_size m) (r_dataOffset m)))
                 (\<lambda>_. Inr (r_size m))))"

definition MapReader_First :: "MapReader \<Rightarrow> Cursor" where
  "MapReader_First m = \<lparr>c_decoder = r_decoder m, c_offset = r_dataOffset m, originToken = 0\<rparr>"

definition MapReader_End :: "MapReader \<Rightarrow> Cursor \<Rightarrow> Cursor res" where
  "MapReader_End m next =
     (if r_decoder m = None then Inl (PlainError ''invalid zero map reader'')
      else if c_decoder next \<noteq> r_decoder m then
        Inl (PlainError ''map successor belongs to another decoder'')
      else if originToken next = 0 \<and> (r_size m \<noteq> 0 \<or> c_offset next \<noteq> r_dataOffset m) then
        Inl (PlainError ''map successor is not proven to follow a decoded value'')
      else
        Inr \<lparr>c_decoder = r_decoder m,
             c_offset = (if r_outerEnd m \<noteq> 0 then r_outerEnd m else c_offset next),
             originToken = r_valueOrigin m + 1\<rparr>)"

definition MapCursor_Size :: "MapCursor \<Rightarrow> uint" where
  "MapCursor_Size m = m_size m"

text \<open>
  \<open>Next\<close>: the updated cursor and, when it reports true, the key and the value cursor. The first
  part consumes the successor of the value before; the second reads the next key.
\<close>

definition MapCursor_consume :: "MapCursor \<Rightarrow> Cursor \<Rightarrow> MapCursor" where
  "MapCursor_consume m succ =
     (if m_pending m then
        if c_decoder succ \<noteq> m_decoder m \<or> originToken succ \<noteq> m_offset m + 1 then
          m\<lparr>m_err := Some (PlainError ''cursor is not the successor of the current map value'')\<rparr>
        else m\<lparr>m_offset := c_offset succ, m_remaining := m_remaining m - 1, m_pending := False\<rparr>
      else if c_decoder succ \<noteq> None then m\<lparr>m_err := Some (PlainError ''map has no current value'')\<rparr>
      else m)"

definition MapCursor_Next :: "heap \<Rightarrow> MapCursor \<Rightarrow> Cursor \<Rightarrow> (MapCursor \<times> (bytes \<times> Cursor) option) res" where
  "MapCursor_Next h m succ =
     (if m_err m \<noteq> None then Inr (m, None)
      else
        let m = MapCursor_consume m succ in
        if m_err m \<noteq> None then Inr (m, None)
        else if m_remaining m = 0 then Inr (m, None)
        else
          case m_decoder m of
            None \<Rightarrow> Inl Panic
          | Some a \<Rightarrow>
              (case decodeKey (h a) (m_offset m) of
                 Inl err \<Rightarrow>
                   if root_error err = Panic then Inl err
                   else Inr (m\<lparr>m_err := Some (wrapErrorAtOffset err (m_offset m))\<rparr>, None)
               | Inr (key, valueOffset) \<Rightarrow>
                   let m = m\<lparr>m_offset := valueOffset, m_pending := True\<rparr> in
                   Inr (m, Some (key, \<lparr>c_decoder = m_decoder m, c_offset = m_offset m, originToken = 0\<rparr>))))"

definition MapCursor_Err :: "MapCursor \<Rightarrow> gerr option" where
  "MapCursor_Err m =
     (if m_err m \<noteq> None then m_err m
      else if m_decoder m = None then Some (PlainError ''invalid zero map cursor'') else None)"

definition MapCursor_End :: "MapCursor \<Rightarrow> Cursor res" where
  "MapCursor_End m =
     (case MapCursor_Err m of
        Some err \<Rightarrow> Inl err
      | None \<Rightarrow>
          if m_pending m \<or> m_remaining m \<noteq> 0 then Inl (PlainError ''map was not completely consumed'')
          else Inr \<lparr>c_decoder = m_decoder m,
                    c_offset = (if m_outerEnd m \<noteq> 0 then m_outerEnd m else m_offset m),
                    originToken = m_valueOrigin m + 1\<rparr>)"

definition ReadMapKey :: "heap \<Rightarrow> Cursor \<Rightarrow> (bytes \<times> Cursor) res" where
  "ReadMapKey h c =
     bindE (validate c) (\<lambda>a.
     bindE (mapErr (c_wrapError c) (decodeKey (h a) (c_offset c))) (\<lambda>(key, valueOffset).
       Inr (key, \<lparr>c_decoder = c_decoder c, c_offset = valueOffset, originToken = 0\<rparr>)))"

section \<open>Slices\<close>

record SliceCursor =
  s_decoder :: "nat option"
  s_err :: "gerr option"
  s_valueOrigin :: uint
  s_dataOffset :: uint
  s_offset :: uint
  s_outerEnd :: uint
  s_size :: uint
  s_remaining :: uint
  s_index :: uint
  s_valueOffset :: uint
  s_pending :: bool

text \<open>The inline case of \<open>Slice\<close>: a two-byte slice header.\<close>

definition compactSlice :: "DataDecoder \<Rightarrow> uint \<Rightarrow> uint option res" where
  "compactSlice d offset =
     (let bufferLen = glen (buffer d) in
      if offset < bufferLen \<and> offset + 1 < bufferLen then
        bindE (index (buffer d) offset) (\<lambda>ctrlByte.
          let sz = ucast (ctrlByte AND 0x1f) :: uint in
          if Kind_of_byte (drop_bit 5 ctrlByte) = KindExtended then
            bindE (index (buffer d) (offset + 1)) (\<lambda>b.
              if unat b + 7 = kind_num KindSlice \<and> sz < 29 then Inr (Some sz) else Inr None)
          else Inr None)
      else Inr None)"

definition resolveSlice :: "heap \<Rightarrow> Cursor \<Rightarrow> nat \<Rightarrow> (uint \<times> uint \<times> uint) res" where
  "resolveSlice h c a =
     bindE (mapErr (c_wrapError c) (resolveCtrlData (h a) (c_offset c))) (\<lambda>(kind, sz, dataOffset, pointerEnd).
       if kind \<noteq> KindSlice then Inl (unexpectedKind h c KindSlice kind)
       else
         let bufferLen = glen (buffer (h a)) in
         if dataOffset > bufferLen \<or> sz > bufferLen - dataOffset then Inl (c_wrapError c OffsetError)
         else Inr (sz, dataOffset, pointerEnd))"

definition Cursor_Slice :: "heap \<Rightarrow> Cursor \<Rightarrow> SliceCursor res" where
  "Cursor_Slice h c =
     bindE (validate c) (\<lambda>a.
     bindE (compactSlice (h a) (c_offset c)) (\<lambda>compact.
     bindE (case compact of
              Some sz \<Rightarrow>
                let dataOffset = c_offset c + 2 in
                if sz > glen (buffer (h a)) - dataOffset then Inl (c_wrapError c OffsetError)
                else Inr (sz, dataOffset, 0)
            | None \<Rightarrow> resolveSlice h c a)
       (\<lambda>(sz, dataOffset, pointerEnd).
          Inr \<lparr>s_decoder = c_decoder c, s_err = None, s_valueOrigin = c_offset c,
               s_dataOffset = dataOffset, s_offset = dataOffset, s_outerEnd = pointerEnd, s_size = sz,
               s_remaining = sz, s_index = 0, s_valueOffset = 0, s_pending = False\<rparr>)))"

definition SliceMaxSize :: "heap \<Rightarrow> Cursor \<Rightarrow> uint \<Rightarrow> SliceCursor res" where
  "SliceMaxSize h c maximum =
     bindE (Cursor_Slice h c) (\<lambda>values.
       if s_size values > maximum then Inl (maxSizeError c KindSlice (s_size values) maximum)
       else Inr values)"

definition SliceCursor_Err :: "SliceCursor \<Rightarrow> gerr option" where
  "SliceCursor_Err s =
     (if s_err s \<noteq> None then s_err s
      else if s_decoder s = None then Some (PlainError ''invalid zero slice cursor'') else None)"

text \<open>\<open>Size\<close> remembers a failed validation in the cursor.\<close>

definition SliceCursor_Size :: "heap \<Rightarrow> SliceCursor \<Rightarrow> uint res \<times> SliceCursor" where
  "SliceCursor_Size h s =
     (case SliceCursor_Err s of
        Some err \<Rightarrow> (Inl err, s)
      | None \<Rightarrow>
          (case s_decoder s of
             None \<Rightarrow> (Inl Panic, s)
           | Some a \<Rightarrow>
               (case validateCursorContainerSize (h a) KindSlice (s_size s) (s_dataOffset s) of
                  Inl err \<Rightarrow>
                    let wrapped = wrapErrorAtOffset err (s_valueOrigin s) in
                    (Inl wrapped, s\<lparr>s_err := Some wrapped\<rparr>)
                | Inr _ \<Rightarrow> (Inr (s_size s), s))))"

text \<open>\<open>capacity\<close> is a Go \<open>int\<close>.\<close>

definition SizeForCapacity :: "SliceCursor \<Rightarrow> 64 word \<Rightarrow> uint option" where
  "SizeForCapacity s capacity =
     (if s_err s \<noteq> None \<or> s_decoder s = None then None
      else if 0 \<le> sint capacity \<and> capacity \<ge> s_size s \<and> s_size s < containerPreflightValueCount
      then Some (s_size s) else None)"

definition SliceCursor_consume :: "SliceCursor \<Rightarrow> Cursor \<Rightarrow> SliceCursor" where
  "SliceCursor_consume s succ =
     (if s_pending s then
        if c_decoder succ \<noteq> s_decoder s \<or> originToken succ \<noteq> s_valueOffset s + 1 then
          s\<lparr>s_err := Some (PlainError ''cursor is not the successor of the current slice value'')\<rparr>
        else s\<lparr>s_offset := c_offset succ, s_remaining := s_remaining s - 1, s_index := s_index s + 1,
               s_pending := False\<rparr>
      else if c_decoder succ \<noteq> None then s\<lparr>s_err := Some (PlainError ''slice has no current value'')\<rparr>
      else s)"

definition SliceCursor_Next :: "SliceCursor \<Rightarrow> Cursor \<Rightarrow> SliceCursor \<times> (uint \<times> Cursor) option" where
  "SliceCursor_Next s succ =
     (if s_err s \<noteq> None then (s, None)
      else
        let s = SliceCursor_consume s succ in
        if s_err s \<noteq> None then (s, None)
        else if s_remaining s = 0 then (s, None)
        else
          let s = s\<lparr>s_valueOffset := s_offset s, s_pending := True\<rparr> in
          (s, Some (s_index s, \<lparr>c_decoder = s_decoder s, c_offset = s_offset s, originToken = 0\<rparr>)))"

definition SliceCursor_End :: "SliceCursor \<Rightarrow> Cursor res" where
  "SliceCursor_End s =
     (case SliceCursor_Err s of
        Some err \<Rightarrow> Inl err
      | None \<Rightarrow>
          if s_pending s \<or> s_remaining s \<noteq> 0 then Inl (PlainError ''slice was not completely consumed'')
          else Inr \<lparr>c_decoder = s_decoder s,
                    c_offset = (if s_outerEnd s \<noteq> 0 then s_outerEnd s else s_offset s),
                    originToken = s_valueOrigin s + 1\<rparr>)"

section \<open>Custom unmarshalers\<close>

text \<open>
  The user's \<open>UnmarshalMaxMindDBCursor\<close> is a parameter; \<open>None\<close> stands for a nil interface or an
  interface that holds a typed nil.
\<close>

definition UnmarshalCursor ::
  "heap \<Rightarrow> Cursor \<Rightarrow> (heap \<Rightarrow> Cursor \<Rightarrow> (Cursor \<times> heap) res) option \<Rightarrow> (Cursor \<times> heap) res" where
  "UnmarshalCursor h c value =
     bindE (validate c) (\<lambda>_.
       case value of
         None \<Rightarrow> Inl (PlainError ''cannot unmarshal into nil'')
       | Some unmarshal \<Rightarrow>
           bindE (unmarshal h c) (\<lambda>(next, h').
             if c_decoder next \<noteq> c_decoder c then
               Inl (PlainError ''cursor unmarshaler returned a cursor from another decoder'')
             else if originToken next \<noteq> c_offset c + 1 then
               Inl (PlainError ''cursor unmarshaler did not return the successor of its input'')
             else Inr (next, h')))"

end
