(* ===== verification/CursorReads.thy ===== *)
theory CursorReads
  imports Cursor
begin

text \<open>
  Properties of the cursor reads: their inline fast paths agree with the general path, their
  successor is the cursor \<open>Skip\<close> returns, their size limits agree with \<open>CheckMaxSize\<close>, and none of
  them panics. The locale \<open>scalar_read\<close> states what a read needs from its primitive decoder.
\<close>

section \<open>Skipping past a resolved value\<close>

lemma nextValueOffset_token:
  assumes "token d off = Some (e, 0)"
  shows "nextValueOffset d off 1 = Inr e"
proof -
  have "values_at d 1 off e" using assms by (simp add: stream_Suc)
  moreover have "unat off \<le> unat (glen (buffer d))" using token_bounds [OF assms] by simp
  ultimately show ?thesis using nextValueOffset_complete [of d 1 off e] by simp
qed

lemma resolved_next:
  assumes "resolveCtrlData d off = Inr (k, sz, o1, n)" and "k \<noteq> KindMap" and "k \<noteq> KindSlice"
    and "unat o1 + token_len k sz \<le> unat (glen (buffer d))"
  shows "nextValueOffset d off 1 = Inr (if n \<noteq> 0 then n else o1 + word_of_nat (token_len k sz))"
proof -
  obtain r where r: "resolves d off r n" and c: "decodeCtrlData d r = Inr (k, sz, o1)"
    using assms(1) by (rule resolveCtrlData_Inr)
  from resolves_next [OF r c] show ?thesis
  proof
    assume n: "n = 0 \<and> r = off"
    then have "token d off = Some (o1 + word_of_nat (token_len k sz), 0)"
      using c assms(2-4) by (simp add: token_def token_children_def)
    then show ?thesis using n nextValueOffset_token by simp
  next
    assume "n \<noteq> 0 \<and> token d off = Some (n, 0)"
    then show ?thesis using nextValueOffset_token by simp
  qed
qed

section \<open>Scalars\<close>

lemma scalarFast_Some:
  assumes "scalarFast d off k = Inr (Some (sz, o1, next))" and "k \<noteq> KindExtended" and "k \<noteq> KindPointer"
  shows "resolveCtrlData d off = Inr (k, sz, o1, 0)"
    and "next = (if k = KindBool then o1 else o1 + sz)"
proof -
  have inside: "off < glen (buffer d)" using assms(1) by (auto simp: scalarFast_def split: if_splits)
  then obtain c where c: "index (buffer d) off = Inr c" by (simp add: index_ok)
  define kd where "kd = (if Kind_of_byte (drop_bit 5 c) = KindExtended \<and> off + 1 < glen (buffer d)
        then bindE (index (buffer d) (off + 1)) (\<lambda>b. Inr (Kind_of_byte (b + 7), off + 1 + 1))
        else Inr (Kind_of_byte (drop_bit 5 c), off + 1))"
  have run: "(if (ucast (c AND 31) :: uint) < 29 then bindE kd (\<lambda>(kind, dataOffset).
      if kind = k then Inr (Some (ucast (c AND 31), dataOffset, if kind = KindBool then dataOffset else dataOffset + ucast (c AND 31)))
      else Inr None) else Inr None) = Inr (Some (sz, o1, next))"
    using assms(1) unfolding scalarFast_def if_P [OF inside] c bindE_Inr Let_def kd_def .
  then have small: "(ucast (c AND 31) :: uint) < 29" by (simp split: if_splits)
  with run have sz: "sz = ucast (c AND 31)" and rest: "kd = Inr (k, o1)"
    and n: "next = (if k = KindBool then o1 else o1 + sz)"
    by (auto simp: bindE_eq_Inr split: if_splits)
  note rest = rest [unfolded kd_def]
  show "next = (if k = KindBool then o1 else o1 + sz)" by (rule n)
  have nle: "\<not> glen (buffer d) \<le> off" using inside by (simp add: not_le)
  have "decodeCtrlData d off = Inr (k, sz, o1)"
  proof (cases "Kind_of_byte (drop_bit 5 c) = KindExtended")
    case True
    with rest assms(2) have in2: "off + 1 < glen (buffer d)" by (auto split: if_splits)
    with True rest obtain b where "index (buffer d) (off + 1) = Inr b" "k = Kind_of_byte (b + 7)"
      "o1 = off + 1 + 1" by (auto simp: bindE_eq_Inr)
    with True c nle in2 small sz show ?thesis
      by (simp add: decodeCtrlData_def decodeCtrlSize_def Let_def not_le)
  next
    case False
    with rest have "Kind_of_byte (drop_bit 5 c) = k" "o1 = off + 1" by simp_all
    with decodeCtrlData_direct [OF c this(1) assms(2)] small sz show ?thesis by simp
  qed
  then show "resolveCtrlData d off = Inr (k, sz, o1, 0)"
    using assms(3) by (simp add: resolveCtrlData_def)
qed

lemma scalarFast_Inr: "\<exists>fast. scalarFast d off k = Inr fast"
  by (cases "off < glen (buffer d)"; cases "off + 1 < glen (buffer d)")
    (auto simp: scalarFast_def index_ok Let_def)

lemma scalar_eq:
  assumes "k \<noteq> KindExtended" and "k \<noteq> KindPointer"
  shows "scalar h c k = bindE (validate c) (\<lambda>a. scalarSlow h c a k)"
proof (cases "c_decoder c")
  case None
  then show ?thesis by (simp add: scalar_def validate_def)
next
  case (Some a)
  obtain fast where fast: "scalarFast (h a) (c_offset c) k = Inr fast" using scalarFast_Inr by blast
  show ?thesis
  proof (cases fast)
    case None
    then show ?thesis using fast by (simp add: scalar_def validate_def Some)
  next
    case (Some r)
    then obtain sz o1 n where r: "fast = Some (sz, o1, n)" by (cases r) auto
    note s = scalarFast_Some [OF fast [unfolded r] assms]
    show ?thesis
      using \<open>c_decoder c = Some a\<close> fast r s by (simp add: scalar_def validate_def scalarSlow_def)
  qed
qed

text \<open>What \<open>scalar\<close> has read, and where the value ends if its payload is there.\<close>

lemma scalar_Inr:
  assumes "scalar h c k = Inr (sz, o1, next)"
    and "k \<noteq> KindExtended" and "k \<noteq> KindPointer" and "k \<noteq> KindMap" and "k \<noteq> KindSlice"
  obtains a r where "c_decoder c = Some a" and "decodeCtrlData (h a) r = Inr (k, sz, o1)"
    and "unat o1 + token_len k sz \<le> unat (glen (buffer (h a))) \<Longrightarrow>
      nextValueOffset (h a) (c_offset c) 1 = Inr next"
proof -
  obtain a n where a: "c_decoder c = Some a" and res: "resolveCtrlData (h a) (c_offset c) = Inr (k, sz, o1, n)"
    and nx: "next = (if n \<noteq> 0 then n else if k = KindBool then o1 else o1 + sz)"
    using assms(1) by (auto simp: scalar_eq [OF assms(2,3)] validate_def scalarSlow_def bindE_eq_Inr Let_def
        split: option.splits if_splits)
  obtain r where c: "decodeCtrlData (h a) r = Inr (k, sz, o1)" using res by (rule resolveCtrlData_Inr)
  have "nextValueOffset (h a) (c_offset c) 1 = Inr next"
    if "unat o1 + token_len k sz \<le> unat (glen (buffer (h a)))"
    using resolved_next [OF res assms(4,5) that] assms(3-5) by (simp add: nx token_len_def)
  with a c show thesis by (rule that)
qed

lemma no_panic_unexpectedKinds [simp]:
  "c_decoder c = Some a \<Longrightarrow> root_error (unexpectedKinds h c ks k) \<noteq> Panic"
  "c_decoder c = Some a \<Longrightarrow> root_error (unexpectedKind h c k' k) \<noteq> Panic"
  using no_panic_validate(1) [of "h a" newStructuralValidator "c_offset c" 0 False]
  by (auto simp: unexpectedKind_def unexpectedKinds_def c_wrapError_def split: sum.split)

lemma root_error_c_wrapError [simp]: "root_error (c_wrapError c e) = root_error e"
  by (simp add: c_wrapError_def)

lemma no_panic_validate_cursor [safe]: "no_panic (validate c)"
  by (simp add: validate_def split: option.split)

lemma validate_Some [simp]: "c_decoder c = Some a \<Longrightarrow> validate c = Inr a"
  by (simp add: validate_def)

lemma validate_Inr [simp]: "validate c = Inr a \<longleftrightarrow> c_decoder c = Some a"
  by (simp add: validate_def split: option.split)

lemma no_panic_cursor_scalar:
  assumes "k \<noteq> KindExtended" and "k \<noteq> KindPointer"
  shows "no_panic (scalar h c k)"
  by (auto simp: scalar_eq [OF assms] scalarSlow_def Let_def intro!: safe)

text \<open>The contract between a read and the decoder of its payload.\<close>

locale scalar_read =
  fixes k :: Kind and decode :: "DataDecoder \<Rightarrow> uint \<Rightarrow> uint \<Rightarrow> ('v \<times> uint) res"
  assumes scalar_kind: "k \<notin> {KindExtended, KindPointer, KindMap, KindSlice}"
    and in_range: "small_range d o1 sz \<Longrightarrow> decode d sz o1 = Inr (v, e) \<Longrightarrow>
      unat o1 + token_len k sz \<le> unat (glen (buffer d))"
    and decode_safe: "small_range d o1 sz \<Longrightarrow> no_panic (decode d sz o1)"
begin

lemma kinds: "k \<noteq> KindExtended" "k \<noteq> KindPointer" "k \<noteq> KindMap" "k \<noteq> KindSlice"
  using scalar_kind by auto

lemma read_Skip:
  assumes "readScalar h c k decode = Inr (v, next)"
  shows "Skip h c = Inr next"
proof -
  obtain sz o1 n a e where sc: "scalar h c k = Inr (sz, o1, n)" and a: "c_decoder c = Some a"
    and d: "decode (h a) sz o1 = Inr (v, e)" and nx: "next = successor c n"
    using assms by (auto simp: readScalar_def bindE_eq_Inr)
  from scalar_Inr [OF sc kinds] a obtain r where "decodeCtrlData (h a) r = Inr (k, sz, o1)"
    and "unat o1 + token_len k sz \<le> unat (glen (buffer (h a))) \<Longrightarrow>
      nextValueOffset (h a) (c_offset c) 1 = Inr n" by auto
  with in_range [OF decodeCtrlData_small d] a nx show ?thesis by (simp add: Skip_def)
qed

lemma read_safe: "no_panic (readScalar h c k decode)"
proof -
  have "no_panic (decode (h a) sz o1)" if "scalar h c k = Inr (sz, o1, n)" "c_decoder c = Some a" for sz o1 n a
    using scalar_Inr [OF that(1) kinds] that(2) decode_safe decodeCtrlData_small by (metis option.inject)
  then show ?thesis
    using kinds by (auto simp: readScalar_def intro!: safe no_panic_cursor_scalar)
qed

end

lemma decodeFloat_spec:
  assumes "small_range d off sz"
  shows "decodeFloat64 d sz off =
      (if sz \<noteq> 8 then Inl (InvalidDatabaseError (BadDataSize KindFloat64 sz))
       else if unat off + unat sz \<le> unat (glen (buffer d)) then Inr (be_word (payload d off sz), off + sz)
       else Inl OffsetError)"
    and "decodeFloat32 d sz off =
      (if sz \<noteq> 4 then Inl (InvalidDatabaseError (BadDataSize KindFloat32 sz))
       else if unat off + unat sz \<le> unat (glen (buffer d)) then Inr (be_word (payload d off sz), off + sz)
       else Inl OffsetError)"
  using guard_iff [OF assms] slice_payload [of off sz d]
  by (auto simp: decodeFloat64_def decodeFloat32_def Let_def)

lemma small_range_offset: "small_range d off sz \<Longrightarrow> unat off \<le> unat (glen (buffer d))"
  by (simp add: small_range_def)

interpretation read_bool: scalar_read KindBool decodeBool
  by unfold_locales (auto simp: decodeBool_def token_len_def small_range_offset split: if_splits)

interpretation read_float64: scalar_read KindFloat64 decodeFloat64
  by unfold_locales (auto simp: decodeFloat_spec token_len_def split: if_splits)

interpretation read_float32: scalar_read KindFloat32 decodeFloat32
  by unfold_locales (auto simp: decodeFloat_spec token_len_def split: if_splits)

interpretation read_int32: scalar_read KindInt32 decodeInt32
  by unfold_locales (auto simp: uint_decoders_spec uint_spec_def token_len_def split: if_splits)

interpretation read_uint128: scalar_read KindUint128
    "\<lambda>d sz off. bindE (decodeUint128 d sz off) (\<lambda>(hi, lo, next). Inr ((hi, lo), next))"
  by unfold_locales (auto simp: decodeUint128_spec token_len_def case_prod_beta split: if_splits)

lemma ReadBytes_Skip:
  assumes "ReadBytes h c = Inr (v, next)"
  shows "Skip h c = Inr next"
proof -
  obtain sz o1 n a where sc: "scalar h c KindBytes = Inr (sz, o1, n)" and a: "c_decoder c = Some a"
    and r: "\<not> o1 > glen (buffer (h a))" "\<not> sz > glen (buffer (h a)) - o1" and nx: "next = successor c n"
    using assms by (auto simp: ReadBytes_def bindE_eq_Inr Let_def split: if_splits)
  have "unat o1 + unat sz \<le> unat (glen (buffer (h a)))"
    using r by (simp add: not_less word_le_nat_alt unat_sub)
  moreover from scalar_Inr [OF sc] a obtain r where
    "unat o1 + token_len KindBytes sz \<le> unat (glen (buffer (h a))) \<Longrightarrow>
      nextValueOffset (h a) (c_offset c) 1 = Inr n" by auto
  ultimately show ?thesis using a nx by (simp add: Skip_def token_len_def)
qed

lemma ReadBytes_safe: "no_panic (ReadBytes h c)"
proof -
  have "o1 \<le> o1 + sz" "o1 + sz \<le> glen buf"
    if "\<not> o1 > glen buf" "\<not> sz > glen buf - o1" for o1 sz :: uint and buf :: bytes
  proof -
    have u: "unat o1 + unat sz \<le> unat (glen buf)" using that by (simp add: not_less word_le_nat_alt unat_sub)
    then have "unat (o1 + sz) = unat o1 + unat sz"
      using unat_glen_bound [of buf] by (intro unat_add_small) simp
    with u show "o1 \<le> o1 + sz" "o1 + sz \<le> glen buf" by (simp_all add: word_le_nat_alt)
  qed
  then show ?thesis
    by (auto simp: ReadBytes_def malformedRangeError_def Let_def intro!: safe no_panic_cursor_scalar)
qed

section \<open>Strings with a limit\<close>

text \<open>\<open>ReadStringMaxSize\<close> without its inline cases.\<close>

definition readStringSlow :: "heap \<Rightarrow> Cursor \<Rightarrow> nat \<Rightarrow> uint \<Rightarrow> (gostring \<times> Cursor \<times> heap) res" where
  "readStringSlow h c a maximum =
     bindE (mapErr (c_wrapError c) (resolveCtrlData (h a) (c_offset c))) (\<lambda>(kind, sz, dataOffset, nextOffset).
       let nextOffset = (if nextOffset = 0 then dataOffset + sz else nextOffset) in
       if kind \<noteq> KindString then Inl (unexpectedKind h c KindString kind)
       else if sz > maximum then Inl (maxSizeError c KindString sz maximum)
       else bindE (mapErr (c_wrapError c) (decodeString (h a) sz dataOffset)) (\<lambda>(value, _, d').
         Inr (value, successor c nextOffset, h(a := d'))))"

lemma ReadStringMaxSize_eq:
  "ReadStringMaxSize h c maximum = bindE (validate c) (\<lambda>a. readStringSlow h c a maximum)"
proof (cases "c_decoder c")
  case None
  then show ?thesis by (simp add: ReadStringMaxSize_def validate_def)
next
  case (Some a)
  obtain compact where cs: "compactString (h a) (c_offset c) = Inr compact"
    and spec: "\<And>o1 n next. compact = Some (o1, n, next) \<Longrightarrow>
      \<exists>p m. o1 = p + 1 \<and> compact_at (h a) (c_offset c) p n m \<and> next = (if m = 0 then p + 1 + n else m)"
    using compactString_spec [of "h a" "c_offset c"] by blast
  show ?thesis
  proof (cases compact)
    case None
    then show ?thesis
      using Some cs by (simp add: ReadStringMaxSize_def readStringSlow_def Let_def)
  next
    case (Some r)
    then obtain p n m where r: "compact = Some (p + 1, n, if m = 0 then p + 1 + n else m)"
      and at: "compact_at (h a) (c_offset c) p n m" using spec by (cases r) blast
    obtain s d' where "copyString (h a) (p + 1) n = Inr (s, d')"
      "decodeString (h a) n (p + 1) = Inr (s, p + 1 + n, d')"
      using copyString_decodeString [of "h a" p n] at unfolding compact_at_def by blast
    then show ?thesis
      using \<open>c_decoder c = Some a\<close> cs r compact_at_resolve [OF at]
      by (simp add: ReadStringMaxSize_def readStringSlow_def Let_def)
  qed
qed

lemma decodeString_range:
  assumes "decodeString d sz p = Inr (v, e, d')" and "decodeCtrlData d r = Inr (k, sz, p)"
  shows "unat p + unat sz \<le> unat (glen (buffer d))"
  using assms(1) guard_iff [OF decodeCtrlData_small [OF assms(2)]]
  by (auto simp: decodeString_def not_less split: if_splits)

lemma ReadStringMaxSize_Skip:
  assumes "ReadStringMaxSize h c maximum = Inr (v, next, h')"
  shows "Skip h c = Inr next"
proof -
  obtain a sz o1 n e d' where a: "c_decoder c = Some a"
    and res: "resolveCtrlData (h a) (c_offset c) = Inr (KindString, sz, o1, n)"
    and dec: "decodeString (h a) sz o1 = Inr (v, e, d')"
    and nx: "next = successor c (if n = 0 then o1 + sz else n)"
    using assms by (auto simp: ReadStringMaxSize_eq readStringSlow_def bindE_eq_Inr Let_def split: if_splits)
  obtain r where "decodeCtrlData (h a) r = Inr (KindString, sz, o1)" using res by (rule resolveCtrlData_Inr)
  with resolved_next [OF res] decodeString_range [OF dec] a nx show ?thesis
    by (simp add: Skip_def token_len_def)
qed

lemma resolve_direct:
  assumes "index (buffer d) off = Inr c" and "Kind_of_byte (drop_bit 5 c) = k" and "k \<noteq> KindExtended"
    and "k \<noteq> KindPointer" and "(ucast (c AND 0x1f) :: uint) < 29"
  shows "resolveCtrlData d off = Inr (k, ucast (c AND 0x1f), off + 1, 0)"
  using decodeCtrlData_direct [OF assms(1-3)] assms(4,5) by (simp add: resolveCtrlData_def)

lemma CheckMaxSize_eq:
  assumes "expected \<noteq> 0" and "expected AND NOT supportedMaxSizeKinds = 0"
  shows "CheckMaxSize h c expected maximum =
    bindE (validate c) (\<lambda>a.
    bindE (mapErr (c_wrapError c) (resolveCtrlData (h a) (c_offset c))) (\<lambda>(actual, sz, _, _).
      if KindSet_Contains expected actual \<and> sz > maximum
      then Inl (maxSizeError c actual sz maximum) else Inr ()))"
proof (cases "c_decoder c")
  case None
  then show ?thesis by (simp add: CheckMaxSize_def validate_def)
next
  case (Some a)
  show ?thesis
  proof (cases "resolveCtrlData (h a) (c_offset c)")
    case (Inl e)
    show ?thesis
    proof (cases "c_offset c < glen (buffer (h a))")
      case False
      then show ?thesis using Some assms Inl by (simp add: CheckMaxSize_def Let_def)
    next
      case True
      then obtain b where b: "index (buffer (h a)) (c_offset c) = Inr b" by (simp add: index_ok)
      show ?thesis using Some assms True b Inl resolve_direct [OF b refl]
        by (auto simp: CheckMaxSize_def Let_def)
    qed
  next
    case (Inr r)
    then obtain k sz o1 n where res: "resolveCtrlData (h a) (c_offset c) = Inr (k, sz, o1, n)" by (cases r) auto
    show ?thesis
    proof (cases "c_offset c < glen (buffer (h a))")
      case False
      then show ?thesis using Some assms res by (simp add: CheckMaxSize_def Let_def)
    next
      case True
      then obtain b where b: "index (buffer (h a)) (c_offset c) = Inr b" by (simp add: index_ok)
      show ?thesis using Some assms True b res resolve_direct [OF b refl]
        by (auto simp: CheckMaxSize_def Let_def)
    qed
  qed
qed

lemma decodeCtrlData_maxValueSize:
  "decodeCtrlData d off = Inr (k, sz, o1) \<Longrightarrow> \<not> sz > maxValueSize"
  using decodeCtrlData_Inr(4) [of d off k sz o1] by (simp add: maxValueSize_def word_less_nat_alt)

text \<open>
  The two ways to limit a string agree: \<open>ReadStringMaxSize\<close> is \<open>CheckMaxSize\<close> for strings
  followed by the unlimited \<open>ReadString\<close>, with the same string, successor and cache, and the same
  error, on every cursor, encoding and limit (so \<open>maxValueSize\<close>, the limit of \<open>ReadString\<close>, rejects
  no string that the format can encode).
\<close>

theorem ReadStringMaxSize_CheckMaxSize:
  "ReadStringMaxSize h c maximum =
     bindE (CheckMaxSize h c (NewKindSet [KindString]) maximum) (\<lambda>_. ReadString h c)"
proof (cases "c_decoder c")
  case None
  then show ?thesis by (simp add: ReadStringMaxSize_eq CheckMaxSize_def validate_def)
next
  case (Some a)
  have ks: "NewKindSet [KindString] \<noteq> 0" "NewKindSet [KindString] AND NOT supportedMaxSizeKinds = 0"
    by code_simp+
  show ?thesis
  proof (cases "resolveCtrlData (h a) (c_offset c)")
    case (Inl e)
    then show ?thesis
      using Some by (simp add: ReadString_def ReadStringMaxSize_eq readStringSlow_def CheckMaxSize_eq [OF ks])
  next
    case (Inr r)
    then obtain k sz o1 n where res: "resolveCtrlData (h a) (c_offset c) = Inr (k, sz, o1, n)" by (cases r) auto
    then obtain r where "decodeCtrlData (h a) r = Inr (k, sz, o1)" by (rule resolveCtrlData_Inr)
    from decodeCtrlData_maxValueSize [OF this] show ?thesis
      using Some res KindSet_Contains_single [of KindString k]
      by (auto simp: ReadString_def ReadStringMaxSize_eq readStringSlow_def CheckMaxSize_eq [OF ks] Let_def)
  qed
qed

end
