(* ===== verification/CursorNumbers.thy ===== *)
theory CursorNumbers
  imports CursorReads
begin

text \<open>
  The reads that accept several kinds (\<open>ReadFloat\<close>, \<open>ReadUint\<close>, \<open>ReadInteger\<close>): each is a general
  form \<open>resolved_read\<close> of a table from kinds to decoders, whose successor is the cursor \<open>Skip\<close>
  returns. Then the properties that span all the reads of values.
\<close>

section \<open>Reads by resolved kind\<close>

text \<open>The general path: resolve, decode by kind, and continue after the pointer or the payload.\<close>

definition resolved_read ::
  "heap \<Rightarrow> Cursor \<Rightarrow> (DataDecoder \<Rightarrow> Kind \<Rightarrow> uint \<Rightarrow> uint \<Rightarrow> ('v \<times> uint) res) \<Rightarrow> ('v \<times> Cursor) res" where
  "resolved_read h c decode =
     bindE (validate c) (\<lambda>a.
     bindE (mapErr (c_wrapError c) (resolveCtrlData (h a) (c_offset c))) (\<lambda>(kind, sz, dataOffset, pointerEnd).
     bindE (decode (h a) kind sz dataOffset) (\<lambda>(v, stop).
       Inr (v, successor c (if pointerEnd \<noteq> 0 then pointerEnd else stop)))))"

definition float_by_kind :: "Cursor \<Rightarrow> heap \<Rightarrow> DataDecoder \<Rightarrow> Kind \<Rightarrow> uint \<Rightarrow> uint \<Rightarrow> (64 word \<times> uint) res" where
  "float_by_kind c h d kind sz off =
     (if kind = KindFloat32 then
        mapErr (c_wrapError c) (bindE (decodeFloat32 d sz off) (\<lambda>(v, stop). Inr (float64_of_float32 v, stop)))
      else if kind = KindFloat64 then mapErr (c_wrapError c) (decodeFloat64 d sz off)
      else Inl (unexpectedKinds h c (NewKindSet [KindFloat64, KindFloat32]) kind))"

definition uint_by_kind :: "Cursor \<Rightarrow> heap \<Rightarrow> DataDecoder \<Rightarrow> Kind \<Rightarrow> uint \<Rightarrow> uint \<Rightarrow> (64 word \<times> uint) res" where
  "uint_by_kind c h d kind sz off =
     (if kind = KindUint16 then
        mapErr (c_wrapError c) (bindE (decodeUint16 d sz off) (\<lambda>(v, stop). Inr (ucast v, stop)))
      else if kind = KindUint32 then
        mapErr (c_wrapError c) (bindE (decodeUint32 d sz off) (\<lambda>(v, stop). Inr (ucast v, stop)))
      else if kind = KindUint64 then mapErr (c_wrapError c) (decodeUint64 d sz off)
      else Inl (unexpectedKinds h c (NewKindSet [KindUint16, KindUint32, KindUint64]) kind))"

definition integer_by_kind ::
  "Cursor \<Rightarrow> heap \<Rightarrow> DataDecoder \<Rightarrow> Kind \<Rightarrow> uint \<Rightarrow> uint \<Rightarrow> ((64 word \<times> bool) \<times> uint) res" where
  "integer_by_kind c h d kind sz off =
     bindE
       (if kind = KindInt32 then
          mapErr (c_wrapError c) (bindE (decodeInt32 d sz off) (\<lambda>(v, stop). Inr (scast v, stop)))
        else if kind = KindUint16 then
          mapErr (c_wrapError c) (bindE (decodeUint16 d sz off) (\<lambda>(v, stop). Inr (ucast v, stop)))
        else if kind = KindUint32 then
          mapErr (c_wrapError c) (bindE (decodeUint32 d sz off) (\<lambda>(v, stop). Inr (ucast v, stop)))
        else if kind = KindUint64 then mapErr (c_wrapError c) (decodeUint64 d sz off)
        else Inl (unexpectedKinds h c (NewKindSet [KindUint16, KindUint32, KindInt32, KindUint64]) kind))
       (\<lambda>(v, stop). Inr ((v, kind = KindInt32), stop))"

lemma ReadUint_eq: "ReadUint h c = resolved_read h c (uint_by_kind c h)"
  by (simp add: ReadUint_def resolved_read_def uint_by_kind_def)

lemma resolve_two_byte:
  assumes "index (buffer d) off = Inr c" and "Kind_of_byte (drop_bit 5 c) = KindExtended"
    and "index (buffer d) (off + 1) = Inr b" and "Kind_of_byte (b + 7) \<noteq> KindPointer"
    and "(ucast (c AND 0x1f) :: uint) < 29"
  shows "resolveCtrlData d off = Inr (Kind_of_byte (b + 7), ucast (c AND 0x1f), off + 2, 0)"
proof -
  have "\<not> glen (buffer d) \<le> off" "\<not> glen (buffer d) \<le> off + 1"
    using assms(1,3) by (simp_all add: index_Inr not_le)
  moreover have "off + 1 + 1 = off + 2" by simp
  ultimately show ?thesis
    using assms by (simp add: resolveCtrlData_def decodeCtrlData_def decodeCtrlSize_def Let_def not_le)
qed

lemma floatFast_None_or:
  "floatFast d off = Inr None \<or>
   (\<exists>kind sz o1. resolveCtrlData d off = Inr (kind, sz, o1, 0) \<and>
      (kind = KindFloat64 \<and> floatFast d off = Inr (Some (decodeFloat64 d sz o1)) \<or>
       kind = KindFloat32 \<and> floatFast d off =
         Inr (Some (bindE (decodeFloat32 d sz o1) (\<lambda>(v, stop). Inr (float64_of_float32 v, stop))))))"
proof (cases "off < glen (buffer d)")
  case False
  then show ?thesis by (simp add: floatFast_def)
next
  case True
  then obtain c where c: "index (buffer d) off = Inr c" by (simp add: index_ok)
  show ?thesis
  proof (cases "(ucast (c AND 31) :: uint) < 29")
    case big: False
    then show ?thesis using True c by (simp add: floatFast_def Let_def)
  next
    case small: True
    show ?thesis
    proof (cases "Kind_of_byte (drop_bit 5 c) = KindFloat64")
      case True
      then show ?thesis using \<open>off < _\<close> c small resolve_direct [OF c True]
        by (simp add: floatFast_def Let_def)
    next
      case nf: False
      show ?thesis
      proof (cases "Kind_of_byte (drop_bit 5 c) = KindExtended \<and> off + 1 < glen (buffer d)")
        case False
        then show ?thesis using \<open>off < _\<close> c small nf by (auto simp: floatFast_def Let_def)
      next
        case True
        then obtain b where b: "index (buffer d) (off + 1) = Inr b" by (auto simp: index_ok)
        show ?thesis
          using \<open>off < _\<close> c small nf b True resolve_two_byte [OF c _ b]
          by (cases "Kind_of_byte (b + 7) = KindFloat32") (simp_all add: floatFast_def Let_def)
      qed
    qed
  qed
qed

lemma ReadFloat_eq: "ReadFloat h c = resolved_read h c (float_by_kind c h)"
proof (cases "c_decoder c")
  case None
  then show ?thesis by (simp add: ReadFloat_def resolved_read_def validate_def)
next
  case (Some a)
  from floatFast_None_or [of "h a" "c_offset c"] show ?thesis
  proof
    assume "floatFast (h a) (c_offset c) = Inr None"
    then show ?thesis using Some by (simp add: ReadFloat_def resolved_read_def float_by_kind_def)
  next
    assume "\<exists>kind sz o1. resolveCtrlData (h a) (c_offset c) = Inr (kind, sz, o1, 0) \<and>
      (kind = KindFloat64 \<and> floatFast (h a) (c_offset c) = Inr (Some (decodeFloat64 (h a) sz o1)) \<or>
       kind = KindFloat32 \<and> floatFast (h a) (c_offset c) =
         Inr (Some (bindE (decodeFloat32 (h a) sz o1) (\<lambda>(v, stop). Inr (float64_of_float32 v, stop)))))"
    then show ?thesis using Some by (auto simp: ReadFloat_def resolved_read_def float_by_kind_def)
  qed
qed

lemma integerFast_None_or:
  "integerFast d off = Inr None \<or>
   (\<exists>kind sz o1. resolveCtrlData d off = Inr (kind, sz, o1, 0) \<and>
      (kind = KindUint16 \<and> integerFast d off =
         Inr (Some (bindE (decodeUint16 d sz o1) (\<lambda>(v, stop). Inr (ucast v, stop)))) \<or>
       kind = KindUint32 \<and> integerFast d off =
         Inr (Some (bindE (decodeUint32 d sz o1) (\<lambda>(v, stop). Inr (ucast v, stop))))))"
proof (cases "off < glen (buffer d)")
  case False
  then show ?thesis by (simp add: integerFast_def)
next
  case True
  then obtain c where c: "index (buffer d) off = Inr c" by (simp add: index_ok)
  show ?thesis
    using True c resolve_direct [OF c refl]
    by (cases "Kind_of_byte (drop_bit 5 c) = KindUint16"; cases "Kind_of_byte (drop_bit 5 c) = KindUint32";
        cases "(ucast (c AND 31) :: uint) < 29") (simp_all add: integerFast_def Let_def)
qed

lemma ReadInteger_eq:
  "ReadInteger h c = bindE (resolved_read h c (integer_by_kind c h)) (\<lambda>((v, signed), next). Inr (v, signed, next))"
proof (cases "c_decoder c")
  case None
  then show ?thesis by (simp add: ReadInteger_def resolved_read_def validate_def)
next
  case (Some a)
  from integerFast_None_or [of "h a" "c_offset c"] show ?thesis
  proof
    assume "integerFast (h a) (c_offset c) = Inr None"
    then show ?thesis using Some
      by (simp add: ReadInteger_def resolved_read_def integer_by_kind_def)
        (simp add: bindE_def mapErr_def split: sum.split prod.split)
  next
    assume "\<exists>kind sz o1. resolveCtrlData (h a) (c_offset c) = Inr (kind, sz, o1, 0) \<and>
      (kind = KindUint16 \<and> integerFast (h a) (c_offset c) =
         Inr (Some (bindE (decodeUint16 (h a) sz o1) (\<lambda>(v, stop). Inr (ucast v, stop)))) \<or>
       kind = KindUint32 \<and> integerFast (h a) (c_offset c) =
         Inr (Some (bindE (decodeUint32 (h a) sz o1) (\<lambda>(v, stop). Inr (ucast v, stop)))))"
    then show ?thesis using Some
      by (auto simp: ReadInteger_def resolved_read_def integer_by_kind_def bindE_assoc split_def)
  qed
qed

text \<open>A table of decoders whose results end where their payload ends.\<close>

locale number_read =
  fixes decode :: "DataDecoder \<Rightarrow> Kind \<Rightarrow> uint \<Rightarrow> uint \<Rightarrow> ('v \<times> uint) res"
  assumes ends: "small_range d o1 sz \<Longrightarrow> decode d k sz o1 = Inr (v, e) \<Longrightarrow>
      k \<notin> {KindExtended, KindPointer, KindMap, KindSlice, KindBool} \<and> e = o1 + sz \<and>
      unat o1 + unat sz \<le> unat (glen (buffer d))"
begin

lemma read_Skip:
  assumes "resolved_read h c decode = Inr (v, next)"
  shows "Skip h c = Inr next"
proof -
  obtain a k sz o1 n e where a: "c_decoder c = Some a"
    and res: "resolveCtrlData (h a) (c_offset c) = Inr (k, sz, o1, n)"
    and d: "decode (h a) k sz o1 = Inr (v, e)" and nx: "next = successor c (if n \<noteq> 0 then n else e)"
    using assms by (auto simp: resolved_read_def bindE_eq_Inr)
  obtain r where "decodeCtrlData (h a) r = Inr (k, sz, o1)" using res by (rule resolveCtrlData_Inr)
  note s = ends [OF decodeCtrlData_small [OF this] d]
  then have len: "token_len k sz = unat sz" by (simp add: token_len_def)
  with resolved_next [OF res] s a nx show ?thesis by (simp add: Skip_def)
qed

end

interpretation float_read: number_read "float_by_kind c h" for c h
  by unfold_locales (auto simp: float_by_kind_def decodeFloat_spec bindE_eq_Inr split: if_splits)

interpretation uint_read: number_read "uint_by_kind c h" for c h
  by unfold_locales (auto simp: uint_by_kind_def uint_decoders_spec uint_spec_def bindE_eq_Inr split: if_splits)

interpretation integer_read: number_read "integer_by_kind c h" for c h
  by unfold_locales (auto simp: integer_by_kind_def uint_decoders_spec uint_spec_def bindE_eq_Inr split: if_splits)

section \<open>Properties of the reads of values\<close>

lemma no_panic_by_kind:
  assumes "small_range d off sz" and "c_decoder c = Some a"
  shows "no_panic (float_by_kind c h d kind sz off)"
    and "no_panic (uint_by_kind c h d kind sz off)"
    and "no_panic (integer_by_kind c h d kind sz off)"
  using assms
  by (auto simp: float_by_kind_def uint_by_kind_def integer_by_kind_def decodeFloat_spec uint_decoders_spec
      uint_spec_def no_panic_Inl intro!: safe)

lemma resolved_read_safe:
  assumes "\<And>d kind sz off a. small_range d off sz \<Longrightarrow> c_decoder c = Some a \<Longrightarrow> no_panic (decode d kind sz off)"
  shows "no_panic (resolved_read h c decode)"
proof -
  have "no_panic (decode (h a) kind sz off)"
    if "resolveCtrlData (h a) (c_offset c) = Inr (kind, sz, off, n)" "c_decoder c = Some a" for a kind sz off n
    using that assms decodeCtrlData_small by (metis resolveCtrlData_Inr)
  then show ?thesis by (auto simp: resolved_read_def intro!: safe)
qed

text \<open>The reads of a client, as one type: what each leaves is its successor and the heap.\<close>

datatype read_op =
    Reads_Bool | Reads_Float32 | Reads_Float64 | Reads_Float | Reads_Int32 | Reads_Uint | Reads_Integer
  | Reads_Uint128 | Reads_Bytes | Reads_String uint | Skips

fun read_next :: "read_op \<Rightarrow> heap \<Rightarrow> Cursor \<Rightarrow> (Cursor \<times> heap) res" where
  "read_next Reads_Bool h c = bindE (ReadBool h c) (\<lambda>(_, next). Inr (next, h))"
| "read_next Reads_Float32 h c = bindE (ReadFloat32 h c) (\<lambda>(_, next). Inr (next, h))"
| "read_next Reads_Float64 h c = bindE (ReadFloat64 h c) (\<lambda>(_, next). Inr (next, h))"
| "read_next Reads_Float h c = bindE (ReadFloat h c) (\<lambda>(_, next). Inr (next, h))"
| "read_next Reads_Int32 h c = bindE (ReadInt32 h c) (\<lambda>(_, next). Inr (next, h))"
| "read_next Reads_Uint h c = bindE (ReadUint h c) (\<lambda>(_, next). Inr (next, h))"
| "read_next Reads_Integer h c = bindE (ReadInteger h c) (\<lambda>(_, _, next). Inr (next, h))"
| "read_next Reads_Uint128 h c = bindE (ReadUint128 h c) (\<lambda>(_, next). Inr (next, h))"
| "read_next Reads_Bytes h c = bindE (ReadBytes h c) (\<lambda>(_, next). Inr (next, h))"
| "read_next (Reads_String maximum) h c = bindE (ReadStringMaxSize h c maximum) (\<lambda>(_, next, h'). Inr (next, h'))"
| "read_next Skips h c = bindE (Skip h c) (\<lambda>next. Inr (next, h))"

text \<open>A read changes string caches at most.\<close>

definition same_heap :: "heap \<Rightarrow> heap \<Rightarrow> bool" where
  "same_heap h h' \<longleftrightarrow> (\<forall>a. \<exists>sc. h' a = h a\<lparr>stringCache := sc\<rparr>)"

lemma skipStep_cache [simp]: "skipStep (stringCache_update f d) k sz off n = skipStep d k sz off n"
  by (simp add: skipStep_def Let_def cong: if_cong)

lemma nextValueOffset_cache [simp]: "nextValueOffset (stringCache_update f d) off n = nextValueOffset d off n"
proof (induction d off n rule: nextValueOffset.induct)
  case (1 d off n)
  then show ?case
    by (subst (1 2) nextValueOffset.simps) (auto intro!: bindE_cong split: prod.splits)
qed

lemma own_cache: "d = d\<lparr>stringCache := stringCache d\<rparr>"
  by simp

lemma same_heap_refl [simp]: "same_heap h h"
  unfolding same_heap_def using own_cache by blast

lemma same_heap_update: "same_heap h (h(a := h a\<lparr>stringCache := sc\<rparr>))"
  unfolding same_heap_def
proof
  fix b
  show "\<exists>sc'. (h(a := h a\<lparr>stringCache := sc\<rparr>)) b = h b\<lparr>stringCache := sc'\<rparr>"
  proof (cases "b = a")
    case True
    then show ?thesis by auto
  next
    case False
    then have "(h(a := h a\<lparr>stringCache := sc\<rparr>)) b = h b" by (rule fun_upd_other)
    then show ?thesis using own_cache [of "h b"] by (intro exI) (rule trans)
  qed
qed

lemma decodeString_state: "decodeString d sz p = Inr (v, e, d') \<Longrightarrow> \<exists>sc. d' = d\<lparr>stringCache := sc\<rparr>"
  by (cases "stringCache d")
    (auto simp: decodeString_def Let_def bindE_eq_Inr case_prod_beta split: if_splits intro: own_cache)

lemma ReadStringMaxSize_heap:
  "ReadStringMaxSize h c maximum = Inr (v, next, h') \<Longrightarrow> same_heap h h'"
  by (auto simp: ReadStringMaxSize_eq readStringSlow_def bindE_eq_Inr Let_def same_heap_update
      split: if_splits dest!: decodeString_state)

lemma read_next_successor:
  assumes "read_next op h c = Inr (next, h')"
  shows "Skip h c = Inr next" and "same_heap h h'"
  using assms
  by (cases op; auto simp: bindE_eq_Inr ReadBool_def ReadFloat32_def ReadFloat64_def ReadInt32_def
      ReadUint128_def ReadFloat_eq ReadUint_eq ReadInteger_eq
      dest: read_bool.read_Skip read_float32.read_Skip read_float64.read_Skip read_int32.read_Skip
        read_uint128.read_Skip float_read.read_Skip uint_read.read_Skip integer_read.read_Skip
        ReadBytes_Skip ReadStringMaxSize_Skip ReadStringMaxSize_heap)+

lemma Skip_successor: "Skip h c = Inr next \<Longrightarrow> \<exists>e. next = successor c e \<and> c_decoder c \<noteq> None"
  by (auto simp: Skip_def bindE_eq_Inr)

lemma no_panic_Skip [safe]: "no_panic (Skip h c)"
  by (auto simp: Skip_def intro!: safe)

lemma no_panic_readStringSlow [safe]: "c_decoder c = Some a \<Longrightarrow> no_panic (readStringSlow h c a maximum)"
  by (auto simp: readStringSlow_def maxSizeError_def Let_def intro!: safe
      elim!: resolveCtrlData_Inr dest: decodeCtrlData_Inr(3,4))

lemma no_panic_read_next [safe]: "no_panic (read_next op h c)"
proof (cases op)
  case Reads_Integer
  then show ?thesis
    by (auto simp: ReadInteger_eq intro!: safe resolved_read_safe no_panic_by_kind)
qed (auto simp: ReadBool_def ReadFloat32_def ReadFloat64_def ReadInt32_def ReadUint128_def ReadFloat_eq
    ReadUint_eq ReadStringMaxSize_eq intro!: safe resolved_read_safe no_panic_by_kind read_bool.read_safe
    read_float32.read_safe read_float64.read_safe read_int32.read_safe read_uint128.read_safe
    ReadBytes_safe)

text \<open>
  C22. Every successful read of a value, of whatever kind and encoding (direct or through a pointer,
  on the inline or the general path), leaves exactly the cursor that \<open>Skip\<close> returns: the reads and
  \<open>Skip\<close> agree on where the value ends in the containing stream. That cursor belongs to the same
  decoder and carries the token of the value, and the only state a read changes is a string cache.
\<close>

theorem read_successor:
  assumes "read_next op h c = Inr (next, h')"
  shows "Skip h c = Inr next \<and> c_decoder next = c_decoder c \<and> originToken next = c_offset c + 1 \<and>
    (\<forall>a. buffer (h' a) = buffer (h a))"
proof -
  have "buffer (h' a) = buffer (h a)" for a
  proof -
    obtain sc where "h' a = h a\<lparr>stringCache := sc\<rparr>"
      using read_next_successor(2) [OF assms] unfolding same_heap_def by blast
    then show ?thesis by simp
  qed
  with Skip_successor [OF read_next_successor(1) [OF assms]] read_next_successor(1) [OF assms]
  show ?thesis by (auto simp: successor_def)
qed

text \<open>A pointer to the string "hi", read at offset 3: the successor is after the pointer.\<close>

theorem read_successor_witness:
  "Skip (\<lambda>_. NewDataDecoderWithoutStringCache [0x42, 104, 105, 0x20, 0])
     \<lparr>c_decoder = Some 0, c_offset = 3, originToken = 0\<rparr> =
     Inr \<lparr>c_decoder = Some 0, c_offset = 5, originToken = 4\<rparr>"
proof -
  let ?h = "\<lambda>_ :: nat. NewDataDecoderWithoutStringCache [0x42, 104, 105, 0x20, 0]"
  let ?c = "\<lparr>c_decoder = Some 0, c_offset = 3, originToken = 0\<rparr>"
  have "bindE (read_next (Reads_String 9) ?h ?c) (\<lambda>(next, _). Inr next) =
      Inr \<lparr>c_decoder = Some 0, c_offset = 5, originToken = 4\<rparr>" by code_simp
  then obtain h' where
    "read_next (Reads_String 9) ?h ?c = Inr (\<lparr>c_decoder = Some 0, c_offset = 5, originToken = 4\<rparr>, h')"
    by (auto simp: bindE_eq_Inr)
  from read_successor [OF this] show ?thesis by blast
qed

text \<open>
  C27. The inline fast paths of the scalar and number reads change nothing: on every cursor, kind by
  kind, the value, the successor and the error (with its wrapping) are those of the general path
  through \<open>resolveCtrlData\<close>.
\<close>

theorem scalar_fast_paths:
  "scalar h c KindBool = bindE (validate c) (\<lambda>a. scalarSlow h c a KindBool) \<and>
   scalar h c KindFloat32 = bindE (validate c) (\<lambda>a. scalarSlow h c a KindFloat32) \<and>
   scalar h c KindFloat64 = bindE (validate c) (\<lambda>a. scalarSlow h c a KindFloat64) \<and>
   scalar h c KindInt32 = bindE (validate c) (\<lambda>a. scalarSlow h c a KindInt32) \<and>
   scalar h c KindUint128 = bindE (validate c) (\<lambda>a. scalarSlow h c a KindUint128) \<and>
   scalar h c KindBytes = bindE (validate c) (\<lambda>a. scalarSlow h c a KindBytes) \<and>
   ReadStringMaxSize h c maximum = bindE (validate c) (\<lambda>a. readStringSlow h c a maximum) \<and>
   ReadFloat h c = resolved_read h c (float_by_kind c h) \<and>
   ReadInteger h c = bindE (resolved_read h c (integer_by_kind c h)) (\<lambda>((v, signed), next). Inr (v, signed, next))"
  by (intro conjI scalar_eq ReadStringMaxSize_eq ReadFloat_eq ReadInteger_eq) simp_all

end
