(* ===== verification/CursorContainers.thy ===== *)
theory CursorContainers
  imports CursorNumbers
begin

text \<open>
  Properties of the container cursors: \<open>Map\<close>, \<open>MapReader\<close> and \<open>Slice\<close> agree with the general path,
  and a traversal that ends returns the cursor \<open>Skip\<close> returns, whatever a client does with the
  successors it is given. The locale \<open>traversal\<close> is the protocol that map and slice cursors share.
\<close>

section \<open>Headers\<close>

lemma compactMap_cases:
  "compactMap d off = Inr None \<or>
   (\<exists>sz. compactMap d off = Inr (Some sz) \<and> resolveCtrlData d off = Inr (KindMap, sz, off + 1, 0) \<and> sz < 29 \<and>
      \<not> off + 1 > glen (buffer d))"
proof (cases "off < glen (buffer d)")
  case False
  then show ?thesis by (simp add: compactMap_def)
next
  case True
  then obtain c where c: "index (buffer d) off = Inr c" by (simp add: index_ok)
  have "\<not> off + 1 > glen (buffer d)"
    using True by (simp add: not_less inc_le)
  then show ?thesis
    using True c resolve_direct [OF c refl]
    by (cases "Kind_of_byte (drop_bit 5 c) = KindMap"; cases "(ucast (c AND 31) :: uint) < 29")
      (simp_all add: compactMap_def Let_def)
qed

lemma compact_or_resolveMap:
  assumes "c_decoder c = Some a"
  shows "bindE (compactMap (h a) (c_offset c)) (\<lambda>compact.
      bindE (case compact of Some sz \<Rightarrow> Inr (sz, c_offset c + 1, 0) | None \<Rightarrow> resolveMap h c a) f) =
    bindE (resolveMap h c a) f"
  using compactMap_cases [of "h a" "c_offset c"]
proof
  assume "compactMap (h a) (c_offset c) = Inr None"
  then show ?thesis by simp
next
  assume "\<exists>sz. compactMap (h a) (c_offset c) = Inr (Some sz) \<and>
      resolveCtrlData (h a) (c_offset c) = Inr (KindMap, sz, c_offset c + 1, 0) \<and> sz < 29 \<and>
      \<not> c_offset c + 1 > glen (buffer (h a))"
  then obtain sz where s: "compactMap (h a) (c_offset c) = Inr (Some sz)"
    "resolveCtrlData (h a) (c_offset c) = Inr (KindMap, sz, c_offset c + 1, 0)" "sz < 29"
    "\<not> c_offset c + 1 > glen (buffer (h a))" by blast
  then have "\<not> sz \<ge> containerPreflightValueCount"
    by (simp add: containerPreflightValueCount_def word_le_nat_alt word_less_nat_alt)
  then have "resolveMap h c a = Inr (sz, c_offset c + 1, 0)"
    using s by (simp add: resolveMap_def Let_def)
  then show ?thesis using s by simp
qed

lemma compactSlice_cases:
  "compactSlice d off = Inr None \<or>
   (\<exists>sz. compactSlice d off = Inr (Some sz) \<and> resolveCtrlData d off = Inr (KindSlice, sz, off + 2, 0) \<and>
      \<not> off + 2 > glen (buffer d))"
proof (cases "off < glen (buffer d) \<and> off + 1 < glen (buffer d)")
  case False
  then show ?thesis by (auto simp: compactSlice_def Let_def)
next
  case True
  then obtain c b where c: "index (buffer d) off = Inr c" and b: "index (buffer d) (off + 1) = Inr b"
    by (auto simp: index_ok)
  have "(off + 1) + 1 \<le> glen (buffer d)" using True by (intro inc_le) simp
  moreover have "(off + 1) + 1 = off + 2" by simp
  ultimately have o: "\<not> off + 2 > glen (buffer d)" by (simp only: not_less)
  show ?thesis
  proof (cases "Kind_of_byte (drop_bit 5 c) = KindExtended \<and> unat b + 7 = kind_num KindSlice \<and>
      (ucast (c AND 31) :: uint) < 29")
    case False
    then show ?thesis using True c b by (auto simp: compactSlice_def Let_def)
  next
    case ext: True
    then have "unat b = 4" by simp
    then have "b = 4" by (simp add: word_unat_eq_iff)
    then have k: "Kind_of_byte (b + 7) = KindSlice" by (simp add: Kind_of_byte_iff)
    then show ?thesis
      using True c b ext o resolve_two_byte [OF c _ b] by (simp add: compactSlice_def Let_def)
  qed
qed

lemma compact_or_resolveSlice:
  assumes "c_decoder c = Some a"
  shows "bindE (compactSlice (h a) (c_offset c)) (\<lambda>compact.
      bindE (case compact of
          Some sz \<Rightarrow>
            let dataOffset = c_offset c + 2 in
            if sz > glen (buffer (h a)) - dataOffset then Inl (c_wrapError c OffsetError)
            else Inr (sz, dataOffset, 0)
        | None \<Rightarrow> resolveSlice h c a) f) =
    bindE (resolveSlice h c a) f"
  using compactSlice_cases [of "h a" "c_offset c"]
  by (auto simp: resolveSlice_def Let_def)

lemma Cursor_Map_eq:
  "Cursor_Map h c =
     bindE (validate c) (\<lambda>a. bindE (resolveMap h c a) (\<lambda>(sz, dataOffset, pointerEnd).
     bindE (mapErr (c_wrapError c) (validateCursorContainerSize (h a) KindMap sz dataOffset)) (\<lambda>_.
       Inr \<lparr>m_decoder = c_decoder c, m_err = None, m_valueOrigin = c_offset c, m_offset = dataOffset,
            m_outerEnd = pointerEnd, m_size = sz, m_remaining = sz, m_pending = False\<rparr>)))"
  using compact_or_resolveMap by (cases "c_decoder c") (simp_all add: Cursor_Map_def validate_def)

lemma Cursor_MapReader_eq:
  "Cursor_MapReader h c =
     bindE (validate c) (\<lambda>a. bindE (resolveMap h c a) (\<lambda>(sz, dataOffset, pointerEnd).
       Inr \<lparr>r_decoder = c_decoder c, r_valueOrigin = c_offset c, r_dataOffset = dataOffset,
            r_outerEnd = pointerEnd, r_size = sz\<rparr>))"
  using compact_or_resolveMap by (cases "c_decoder c") (simp_all add: Cursor_MapReader_def validate_def)

lemma Cursor_Slice_eq:
  "Cursor_Slice h c =
     bindE (validate c) (\<lambda>a. bindE (resolveSlice h c a) (\<lambda>(sz, dataOffset, pointerEnd).
       Inr \<lparr>s_decoder = c_decoder c, s_err = None, s_valueOrigin = c_offset c,
            s_dataOffset = dataOffset, s_offset = dataOffset, s_outerEnd = pointerEnd, s_size = sz,
            s_remaining = sz, s_index = 0, s_valueOffset = 0, s_pending = False\<rparr>))"
  using compact_or_resolveSlice by (cases "c_decoder c") (simp_all add: Cursor_Slice_def validate_def)

section \<open>Skipping past a container\<close>

lemma resolved_container:
  assumes "resolveCtrlData d off = Inr (k, sz, o1, n)" and "k = KindMap \<or> k = KindSlice"
    and "values_at d (token_children k sz) o1 e"
  shows "nextValueOffset d off 1 = Inr (if n \<noteq> 0 then n else e)"
proof -
  obtain r where r: "resolves d off r n" and c: "decodeCtrlData d r = Inr (k, sz, o1)"
    using assms(1) by (rule resolveCtrlData_Inr)
  from resolves_next [OF r c] show ?thesis
  proof
    assume n: "n = 0 \<and> r = off"
    have "unat o1 \<le> unat (glen (buffer d))" using decodeCtrlData_Inr(3) [OF c] .
    then have t: "token d off = Some (o1, token_children k sz)"
      using n c assms(2) by (auto simp: token_def token_len_def)
    then have "values_at d 1 off e" using assms(3) by (simp add: stream_Suc)
    moreover have "unat off \<le> unat (glen (buffer d))" using token_bounds [OF t] by simp
    ultimately show ?thesis using n nextValueOffset_complete [of d 1 off e] by simp
  next
    assume "n \<noteq> 0 \<and> token d off = Some (n, 0)"
    then show ?thesis using nextValueOffset_token by simp
  qed
qed

lemma decodeKey_token:
  assumes "decodeKey d off = Inr (key, next)"
  shows "token d off = Some (next, 0)"
proof -
  obtain sz o1 n where res: "resolveCtrlData d off = Inr (KindString, sz, o1, n)"
    and fits: "\<not> o1 + sz > glen (buffer d)" and nx: "next = (if n = 0 then o1 + sz else n)"
    using assms by (auto simp: decodeKey_def decodeKeyAt_eq keyAtSlow_def bindE_eq_Inr Let_def split: if_splits)
  obtain r where r: "resolves d off r n" and c: "decodeCtrlData d r = Inr (KindString, sz, o1)"
    using res by (rule resolveCtrlData_Inr)
  have "unat o1 + unat sz \<le> unat (glen (buffer d))"
    using fits guard_iff [OF decodeCtrlData_small [OF c]] by (simp add: not_less)
  then have "n = 0 \<Longrightarrow> r = off \<Longrightarrow> token d off = Some (o1 + sz, 0)"
    using c by (simp add: token_def token_len_def token_children_def)
  with resolves_next [OF r c] nx show ?thesis by auto
qed

lemma Skip_values:
  assumes "Skip h c = Inr next"
  shows "\<exists>a. c_decoder c = Some a \<and> values_at (h a) 1 (c_offset c) (c_offset next) \<and>
    c_decoder next = Some a \<and> originToken next = c_offset c + 1"
  using assms nextValueOffset_sound [where n = 1] by (auto simp: Skip_def bindE_eq_Inr successor_def)

section \<open>The traversal protocol\<close>

text \<open>
  What a traversal needs of the successors it is passed: a cursor with a token is the successor of the
  value that the token names. That the cursors a client can hold are such is proved below.
\<close>

definition proven :: "heap \<Rightarrow> Cursor \<Rightarrow> bool" where
  "proven h s \<longleftrightarrow>
     originToken s \<noteq> 0 \<longrightarrow>
     (\<forall>a. c_decoder s = Some a \<longrightarrow> nextValueOffset (h a) (originToken s - 1) 1 = Inr (c_offset s))"

lemma zero_proven [simp]: "proven h zeroCursor"
  by (simp add: proven_def zeroCursor_def)

lemma Skip_proven: "Skip h c = Inr next \<Longrightarrow> proven h next"
  by (auto simp: Skip_def proven_def successor_def bindE_eq_Inr)

lemma inc_nonzero:
  assumes "unat off \<le> unat (glen (xs :: bytes))"
  shows "off + 1 \<noteq> (0 :: uint)"
proof -
  have "unat (off + 1) = unat off + 1"
    using assms unat_glen_bound [of xs] unat_add_small [of off 1] by simp
  then show ?thesis by auto
qed

lemma proven_values:
  assumes "proven h s" and "c_decoder s = Some a" and "originToken s = off + 1"
    and "unat off \<le> unat (glen (buffer (h a)))"
  shows "values_at (h a) 1 off (c_offset s)"
proof -
  have "originToken s \<noteq> 0" using inc_nonzero [OF assms(4)] assms(3) by simp
  then have "nextValueOffset (h a) off 1 = Inr (c_offset s)"
    using assms(1-3) by (simp add: proven_def)
  then show ?thesis using nextValueOffset_sound by fastforce
qed

text \<open>A client's run: one call of \<open>Next\<close> for each successor it passes.\<close>

fun run :: "('s \<Rightarrow> Cursor \<Rightarrow> 's res) \<Rightarrow> 's \<Rightarrow> Cursor list \<Rightarrow> 's res" where
  "run step s [] = Inr s"
| "run step s (c # cs) = bindE (step s c) (\<lambda>s. run step s cs)"

locale traversal =
  fixes step :: "'s \<Rightarrow> Cursor \<Rightarrow> 's res" and good :: "'s \<Rightarrow> bool" and allowed :: "Cursor \<Rightarrow> bool"
    and failed :: "'s \<Rightarrow> bool"
  assumes preserves: "good s \<Longrightarrow> allowed c \<Longrightarrow> step s c = Inr s' \<Longrightarrow> good s'"
    and sticky: "failed s \<Longrightarrow> step s c = Inr s"
begin

lemma run_good: "good s \<Longrightarrow> \<forall>c\<in>set cs. allowed c \<Longrightarrow> run step s cs = Inr s' \<Longrightarrow> good s'"
proof (induction cs arbitrary: s)
  case Nil
  then show ?case by simp
next
  case (Cons c cs)
  then obtain s1 where "step s c = Inr s1" "run step s1 cs = Inr s'" by (auto simp: bindE_eq_Inr)
  with Cons preserves show ?case by (metis list.set_intros)
qed

lemma run_failed: "failed s \<Longrightarrow> run step s cs = Inr s"
  by (induction cs) (simp_all add: sticky)

end

section \<open>Maps\<close>

definition map_step :: "heap \<Rightarrow> MapCursor \<Rightarrow> Cursor \<Rightarrow> MapCursor res" where
  "map_step h m succ = bindE (MapCursor_Next h m succ) (\<lambda>(m, _). Inr m)"

text \<open>
  Where the cursor of the map at \<open>c\<close> stands: it has read the entries it does not have left (and the
  next key, when a value is pending), unless it has failed.
\<close>

definition map_at :: "heap \<Rightarrow> nat \<Rightarrow> uint \<Rightarrow> uint \<Rightarrow> uint \<Rightarrow> uint \<Rightarrow> MapCursor \<Rightarrow> bool" where
  "map_at h a origin dataOffset outerEnd sz m \<longleftrightarrow>
     m_decoder m = Some a \<and> m_valueOrigin m = origin \<and> m_outerEnd m = outerEnd \<and> m_size m = sz \<and>
     unat (m_remaining m) \<le> unat sz \<and>
     (m_err m \<noteq> None \<or>
      values_at (h a) (2 * (unat sz - unat (m_remaining m)) + (if m_pending m then 1 else 0)) dataOffset (m_offset m) \<and>
      (m_pending m \<longrightarrow> m_remaining m \<noteq> 0))"

lemma stream_snoc:
  "stream tok n off mid \<Longrightarrow> stream tok 1 mid e \<Longrightarrow> stream tok (Suc n) off e"
  using stream_append [of tok n 1 off e] by auto

lemma count_down: "r \<noteq> 0 \<Longrightarrow> r \<le> s \<Longrightarrow> 2 * (s - (r - 1)) = Suc (Suc (2 * (s - r)))" for r s :: nat
  by linarith

lemma map_at_consume:
  assumes "map_at h a origin data outer sz m" and "m_err m = None" and "proven h succ"
    and "unat data \<le> unat (glen (buffer (h a)))"
  shows "map_at h a origin data outer sz (MapCursor_consume m succ)"
    and "m_err (MapCursor_consume m succ) = None \<Longrightarrow> \<not> m_pending (MapCursor_consume m succ)"
proof -
  show "m_err (MapCursor_consume m succ) = None \<Longrightarrow> \<not> m_pending (MapCursor_consume m succ)"
    by (auto simp: MapCursor_consume_def split: if_splits)
  show "map_at h a origin data outer sz (MapCursor_consume m succ)"
  proof (cases "m_pending m \<and> c_decoder succ = m_decoder m \<and> originToken succ = m_offset m + 1")
    case False
    then show ?thesis using assms(1) by (auto simp: map_at_def MapCursor_consume_def)
  next
    case True
    then have v: "values_at (h a) (Suc (2 * (unat sz - unat (m_remaining m)))) data (m_offset m)"
      and r: "m_remaining m \<noteq> 0" and d: "c_decoder succ = Some a" and le: "unat (m_remaining m) \<le> unat sz"
      using assms(1,2) by (auto simp: map_at_def)
    have "unat (m_offset m) \<le> unat (glen (buffer (h a)))"
      using plain.stream_offset [OF v assms(4)] by simp
    with proven_values [OF assms(3) d] True have "values_at (h a) 1 (m_offset m) (c_offset succ)" by simp
    with v have "values_at (h a) (Suc (Suc (2 * (unat sz - unat (m_remaining m))))) data (c_offset succ)"
      by (rule stream_snoc)
    moreover have "unat (m_remaining m - 1) = unat (m_remaining m) - 1"
      using r by (simp add: unat_minus_one)
    moreover have "unat (m_remaining m) \<noteq> 0" using r by (simp add: unat_eq_zero)
    ultimately have "values_at (h a) (2 * (unat sz - unat (m_remaining m - 1))) data (c_offset succ)"
      and "unat (m_remaining m - 1) \<le> unat sz"
      using le count_down [of "unat (m_remaining m)" "unat sz"] by simp_all
    moreover have "MapCursor_consume m succ =
        m\<lparr>m_offset := c_offset succ, m_remaining := m_remaining m - 1, m_pending := False\<rparr>"
      using True by (simp add: MapCursor_consume_def)
    ultimately show ?thesis using assms(1) unfolding map_at_def by simp
  qed
qed

lemma map_step_at:
  assumes "map_at h a origin data outer sz m" and "proven h succ" and "map_step h m succ = Inr m'"
    and "unat data \<le> unat (glen (buffer (h a)))"
  shows "map_at h a origin data outer sz m'"
proof (cases "m_err m = None")
  case False
  then show ?thesis using assms(1,3) by (simp add: map_step_def MapCursor_Next_def)
next
  case True
  define m1 where "m1 = MapCursor_consume m succ"
  note c = map_at_consume [OF assms(1) True assms(2,4), folded m1_def]
  show ?thesis
  proof (cases "m_err m1 \<noteq> None \<or> m_remaining m1 = 0")
    case stop: True
    then show ?thesis
      using True assms(3) c(1) by (auto simp: map_step_def MapCursor_Next_def m1_def [symmetric] Let_def split: if_splits)
  next
    case False
    then have np: "\<not> m_pending m1" and d: "m_decoder m1 = Some a" using c by (auto simp: map_at_def)
    show ?thesis
    proof (cases "decodeKey (h a) (m_offset m1)")
      case (Inl e)
      then show ?thesis
        using True False d assms(3) c(1)
        by (auto simp: map_step_def MapCursor_Next_def m1_def [symmetric] Let_def map_at_def split: if_splits)
    next
      case (Inr r)
      then obtain key off where k: "decodeKey (h a) (m_offset m1) = Inr (key, off)" by (cases r) auto
      have "values_at (h a) 1 (m_offset m1) off" using decodeKey_token [OF k] by (simp add: stream_Suc)
      then have "values_at (h a) (Suc (2 * (unat sz - unat (m_remaining m1)))) data off"
        using c(1) False np by (auto simp: map_at_def intro: stream_snoc)
      then show ?thesis
        using True False d k assms(3) c(1)
        by (auto simp: map_step_def MapCursor_Next_def m1_def [symmetric] Let_def map_at_def)
    qed
  qed
qed

lemma map_step_failed: "m_err m \<noteq> None \<Longrightarrow> map_step h m succ = Inr m"
  by (simp add: map_step_def MapCursor_Next_def)

interpretation maps: traversal "map_step h" "\<lambda>m. map_at h a origin data outer sz m \<and>
    unat data \<le> unat (glen (buffer (h a)))" "proven h" "\<lambda>m. m_err m \<noteq> None" for h a origin data outer sz
  by unfold_locales (auto intro: map_step_at map_step_failed)

lemma resolveMap_Inr:
  assumes "resolveMap h c a = Inr (sz, o1, n)"
  shows "resolveCtrlData (h a) (c_offset c) = Inr (KindMap, sz, o1, n)"
    and "unat o1 \<le> unat (glen (buffer (h a)))"
  using assms
  by (auto simp: resolveMap_def bindE_eq_Inr Let_def not_less word_le_nat_alt split: if_splits)

lemma Cursor_Map_at:
  assumes "Cursor_Map h c = Inr m"
  obtains a o1 n where "c_decoder c = Some a"
    and "resolveCtrlData (h a) (c_offset c) = Inr (KindMap, m_size m, o1, n)"
    and "map_at h a (c_offset c) o1 n (m_size m) m" and "unat o1 \<le> unat (glen (buffer (h a)))"
proof -
  obtain a sz o1 n where "c_decoder c = Some a" "resolveMap h c a = Inr (sz, o1, n)"
    "m = \<lparr>m_decoder = c_decoder c, m_err = None, m_valueOrigin = c_offset c, m_offset = o1,
      m_outerEnd = n, m_size = sz, m_remaining = sz, m_pending = False\<rparr>"
    using assms by (auto simp: Cursor_Map_eq bindE_eq_Inr)
  with resolveMap_Inr show thesis by (intro that [of a o1 n]) (auto simp: map_at_def)
qed

text \<open>A map traversal ends where \<open>Skip\<close> does.\<close>

lemma map_run_ends:
  assumes "Cursor_Map h c = Inr m" and "\<forall>s\<in>set succs. proven h s"
    and "run (map_step h) m succs = Inr m'" and "MapCursor_End m' = Inr e"
  shows "Skip h c = Inr e"
proof -
  obtain a o1 n where a: "c_decoder c = Some a"
    and res: "resolveCtrlData (h a) (c_offset c) = Inr (KindMap, m_size m, o1, n)"
    and at: "map_at h a (c_offset c) o1 n (m_size m) m" and o1: "unat o1 \<le> unat (glen (buffer (h a)))"
    using assms(1) by (rule Cursor_Map_at)
  have at': "map_at h a (c_offset c) o1 n (m_size m) m'"
    using maps.run_good [of h a "c_offset c" o1 n "m_size m" m succs m'] at o1 assms(2,3) by blast
  have fin: "m_err m' = None" "\<not> m_pending m'" "m_remaining m' = 0"
    and e: "e = \<lparr>c_decoder = Some a, c_offset = (if n \<noteq> 0 then n else m_offset m'), originToken = c_offset c + 1\<rparr>"
    using assms(4) at' by (auto simp: MapCursor_End_def MapCursor_Err_def map_at_def split: if_splits)
  then have "values_at (h a) (token_children KindMap (m_size m)) o1 (m_offset m')"
    using at' by (simp add: map_at_def token_children_def)
  from resolved_container [OF res _ this] a e show ?thesis by (simp add: Skip_def successor_def)
qed

section \<open>Map readers\<close>

text \<open>The client of a \<open>MapReader\<close>: it reads \<open>n\<close> keys and skips their values.\<close>

fun read_entries :: "nat \<Rightarrow> heap \<Rightarrow> Cursor \<Rightarrow> Cursor res" where
  "read_entries 0 h c = Inr c"
| "read_entries (Suc n) h c = bindE (ReadMapKey h c) (\<lambda>(_, v). bindE (Skip h v) (read_entries n h))"

lemma two_Suc: "2 * Suc n = 1 + (1 + 2 * n)"
  by simp

lemma read_entries_values:
  assumes "read_entries n h c = Inr z" and "c_decoder c = Some a"
  shows "values_at (h a) (2 * n) (c_offset c) (c_offset z) \<and> c_decoder z = Some a \<and>
    (n \<noteq> 0 \<longrightarrow> proven h z \<and> originToken z \<noteq> 0) \<and> (n = 0 \<longrightarrow> z = c)"
  using assms
proof (induction n arbitrary: c)
  case 0
  then show ?case by simp
next
  case (Suc n)
  then obtain key v s where k: "ReadMapKey h c = Inr (key, v)" and sk: "Skip h v = Inr s"
    and rest: "read_entries n h s = Inr z" by (auto simp: bindE_eq_Inr)
  from k Suc.prems(2) have key: "values_at (h a) 1 (c_offset c) (c_offset v)" and v: "c_decoder v = Some a"
    by (auto simp: ReadMapKey_def bindE_eq_Inr stream_Suc dest!: decodeKey_token)
  from Skip_values [OF sk] v have val: "values_at (h a) 1 (c_offset v) (c_offset s)"
    and s: "c_decoder s = Some a" and tok: "originToken s = c_offset v + 1" by auto
  have "unat (c_offset v) < unat (glen (buffer (h a)))"
    using val plain.stream_start [of "h a" 0 "c_offset v" "c_offset s"] by simp
  then have nz: "originToken s \<noteq> 0"
    using tok unat_glen_bound [of "buffer (h a)"] inc_nonzero [of "c_offset v" "buffer (h a)"] by simp
  have "values_at (h a) (2 * n) (c_offset s) (c_offset z)" using Suc.IH [OF rest s] by simp
  then have "values_at (h a) (1 + (1 + 2 * n)) (c_offset c) (c_offset z)"
    using key val stream_append [of "token (h a)" 1] by blast
  then have "values_at (h a) (2 * Suc n) (c_offset c) (c_offset z)" by (simp only: two_Suc)
  with Suc.IH [OF rest s] nz Skip_proven [OF sk] show ?case by (cases "n = 0") (auto simp del: mult_Suc_right)
qed

text \<open>
  C24. A map read through a \<open>MapReader\<close> ends where \<open>Skip\<close> does: a client that reads all \<open>Len\<close>
  entries, from \<open>First\<close> on, gets from \<open>End\<close> exactly the cursor that \<open>Skip\<close> of the map returns,
  whether the map stood there or behind a pointer.
\<close>

theorem map_reader_ends:
  assumes "Cursor_MapReader h c = Inr m"
    and "read_entries (unat (MapReader_Len m)) h (MapReader_First m) = Inr z"
  shows "\<exists>e. MapReader_End m z = Inr e \<and> Skip h c = Inr e"
proof -
  obtain a sz o1 n where a: "c_decoder c = Some a" and rm: "resolveMap h c a = Inr (sz, o1, n)"
    and m: "m = \<lparr>r_decoder = c_decoder c, r_valueOrigin = c_offset c, r_dataOffset = o1, r_outerEnd = n,
      r_size = sz\<rparr>"
    using assms(1) by (auto simp: Cursor_MapReader_eq bindE_eq_Inr)
  have "read_entries (unat sz) h (MapReader_First m) = Inr z" and "c_decoder (MapReader_First m) = Some a"
    using assms(2) a m by (simp_all add: MapReader_Len_def MapReader_First_def)
  note r = read_entries_values [OF this]
  then have "values_at (h a) (token_children KindMap sz) o1 (c_offset z)"
    using m by (simp add: token_children_def MapReader_First_def)
  from resolved_container [OF resolveMap_Inr(1) [OF rm] _ this]
  have "Skip h c = Inr (successor c (if n \<noteq> 0 then n else c_offset z))"
    using a by (simp add: Skip_def)
  moreover have "MapReader_End m z = Inr (successor c (if n \<noteq> 0 then n else c_offset z))"
    using r a m by (cases "sz = 0") (auto simp: MapReader_End_def MapReader_First_def successor_def unat_eq_zero)
  ultimately show ?thesis by blast
qed

theorem map_reader_ends_witness:
  "\<exists>m z e. Cursor_MapReader (\<lambda>_. NewDataDecoderWithoutStringCache [0xE1, 0x41, 0x61, 1, 7])
       \<lparr>c_decoder = Some 0, c_offset = 0, originToken = 0\<rparr> = Inr m \<and> MapReader_End m z = Inr e \<and> c_offset e = 5"
proof -
  let ?h = "\<lambda>_ :: nat. NewDataDecoderWithoutStringCache [0xE1, 0x41, 0x61, 1, 7]"
  let ?c = "\<lparr>c_decoder = Some 0, c_offset = 0, originToken = 0\<rparr>"
  let ?s = "\<lparr>c_decoder = Some 0, c_offset = 5, originToken = 4\<rparr>"
  have "bindE (Cursor_MapReader ?h ?c) (\<lambda>m. read_entries (unat (MapReader_Len m)) ?h (MapReader_First m)) = Inr ?s"
    by code_simp
  then obtain m where m: "Cursor_MapReader ?h ?c = Inr m"
    and "read_entries (unat (MapReader_Len m)) ?h (MapReader_First m) = Inr ?s" by (auto simp only: bindE_eq_Inr)
  from map_reader_ends [OF this] obtain e where e: "MapReader_End m ?s = Inr e" "Skip ?h ?c = Inr e" by blast
  have "bindE (Skip ?h ?c) (\<lambda>e. Inr (c_offset e)) = Inr 5" by code_simp
  with e have "c_offset e = 5" by simp
  with m e show ?thesis by blast
qed

section \<open>Slices\<close>

definition slice_step :: "SliceCursor \<Rightarrow> Cursor \<Rightarrow> SliceCursor res" where
  "slice_step s succ = Inr (fst (SliceCursor_Next s succ))"

definition slice_at :: "heap \<Rightarrow> nat \<Rightarrow> uint \<Rightarrow> uint \<Rightarrow> uint \<Rightarrow> uint \<Rightarrow> SliceCursor \<Rightarrow> bool" where
  "slice_at h a origin dataOffset outerEnd sz s \<longleftrightarrow>
     s_decoder s = Some a \<and> s_valueOrigin s = origin \<and> s_outerEnd s = outerEnd \<and> s_size s = sz \<and>
     unat (s_remaining s) \<le> unat sz \<and>
     (s_err s \<noteq> None \<or>
      values_at (h a) (unat sz - unat (s_remaining s)) dataOffset (s_offset s) \<and>
      unat (s_index s) = unat sz - unat (s_remaining s) \<and>
      (s_pending s \<longrightarrow> s_remaining s \<noteq> 0 \<and> s_valueOffset s = s_offset s))"

lemma slice_at_consume:
  assumes "slice_at h a origin data outer sz s" and "s_err s = None" and "proven h succ"
    and "unat data \<le> unat (glen (buffer (h a)))"
  shows "slice_at h a origin data outer sz (SliceCursor_consume s succ)"
proof (cases "s_pending s \<and> c_decoder succ = s_decoder s \<and> originToken succ = s_valueOffset s + 1")
  case False
  then show ?thesis using assms(1) by (auto simp: slice_at_def SliceCursor_consume_def)
next
  case True
  then have v: "values_at (h a) (unat sz - unat (s_remaining s)) data (s_offset s)"
    and r: "s_remaining s \<noteq> 0" and o1: "s_valueOffset s = s_offset s" and d: "c_decoder succ = Some a"
    and le: "unat (s_remaining s) \<le> unat sz" and i: "unat (s_index s) = unat sz - unat (s_remaining s)"
    using assms(1,2) by (auto simp: slice_at_def)
  have "unat (s_offset s) \<le> unat (glen (buffer (h a)))"
    using plain.stream_offset [OF v assms(4)] by simp
  with proven_values [OF assms(3) d] True o1 have "values_at (h a) 1 (s_offset s) (c_offset succ)" by simp
  with v have v': "values_at (h a) (Suc (unat sz - unat (s_remaining s))) data (c_offset succ)"
    by (rule stream_snoc)
  have nz: "unat (s_remaining s) \<noteq> 0" using r by (simp add: unat_eq_zero)
  have m1: "unat (s_remaining s - 1) = unat (s_remaining s) - 1" using r by (simp add: unat_minus_one)
  have count: "unat sz - unat (s_remaining s - 1) = Suc (unat sz - unat (s_remaining s))"
    using nz le m1 by simp
  have "unat (s_index s) < 18446744073709551615" using i le nz unat_less_2_64 [of sz] by linarith
  then have "unat (s_index s + 1) = unat sz - unat (s_remaining s - 1)"
    using count i unat_add_small [of "s_index s" 1] by simp
  moreover have "values_at (h a) (unat sz - unat (s_remaining s - 1)) data (c_offset succ)"
    using v' by (simp only: count)
  moreover have "unat (s_remaining s - 1) \<le> unat sz" using m1 le by simp
  moreover have "SliceCursor_consume s succ = s\<lparr>s_offset := c_offset succ, s_remaining := s_remaining s - 1,
      s_index := s_index s + 1, s_pending := False\<rparr>"
    using True by (simp add: SliceCursor_consume_def)
  ultimately show ?thesis using assms(1) unfolding slice_at_def by simp
qed

lemma slice_step_at:
  assumes "slice_at h a origin data outer sz s" and "proven h succ" and "slice_step s succ = Inr s'"
    and "unat data \<le> unat (glen (buffer (h a)))"
  shows "slice_at h a origin data outer sz s'"
proof (cases "s_err s = None")
  case False
  then show ?thesis using assms(1,3) by (simp add: slice_step_def SliceCursor_Next_def)
next
  case True
  note c = slice_at_consume [OF assms(1) True assms(2,4)]
  show ?thesis
    using True c assms(3)
    by (auto simp: slice_step_def SliceCursor_Next_def Let_def slice_at_def split: if_splits)
qed

lemma slice_step_failed: "s_err s \<noteq> None \<Longrightarrow> slice_step s succ = Inr s"
  by (simp add: slice_step_def SliceCursor_Next_def)

interpretation slices: traversal slice_step "\<lambda>s. slice_at h a origin data outer sz s \<and>
    unat data \<le> unat (glen (buffer (h a)))" "proven h" "\<lambda>s. s_err s \<noteq> None" for h a origin data outer sz
  by unfold_locales (auto intro: slice_step_at slice_step_failed)

lemma resolveSlice_Inr:
  assumes "resolveSlice h c a = Inr (sz, o1, n)"
  shows "resolveCtrlData (h a) (c_offset c) = Inr (KindSlice, sz, o1, n)"
    and "unat o1 + unat sz \<le> unat (glen (buffer (h a)))"
  using assms
  by (auto simp: resolveSlice_def bindE_eq_Inr Let_def not_less word_le_nat_alt unat_sub split: if_splits)

lemma Cursor_Slice_at:
  assumes "Cursor_Slice h c = Inr s"
  obtains a o1 n where "c_decoder c = Some a"
    and "resolveCtrlData (h a) (c_offset c) = Inr (KindSlice, s_size s, o1, n)"
    and "slice_at h a (c_offset c) o1 n (s_size s) s"
    and "unat o1 + unat (s_size s) \<le> unat (glen (buffer (h a)))"
proof -
  obtain a sz o1 n where "c_decoder c = Some a" "resolveSlice h c a = Inr (sz, o1, n)"
    "s = \<lparr>s_decoder = c_decoder c, s_err = None, s_valueOrigin = c_offset c, s_dataOffset = o1,
      s_offset = o1, s_outerEnd = n, s_size = sz, s_remaining = sz, s_index = 0, s_valueOffset = 0,
      s_pending = False\<rparr>"
    using assms by (auto simp: Cursor_Slice_eq bindE_eq_Inr)
  with resolveSlice_Inr show thesis by (intro that [of a o1 n]) (auto simp: slice_at_def)
qed

text \<open>A slice traversal ends where \<open>Skip\<close> does, and has handed out every index.\<close>

lemma slice_run_ends:
  assumes "Cursor_Slice h c = Inr s" and "\<forall>x\<in>set succs. proven h x"
    and "run slice_step s succs = Inr s'" and "SliceCursor_End s' = Inr e"
  shows "Skip h c = Inr e \<and> s_index s' = s_size s"
proof -
  obtain a o1 n where a: "c_decoder c = Some a"
    and res: "resolveCtrlData (h a) (c_offset c) = Inr (KindSlice, s_size s, o1, n)"
    and at: "slice_at h a (c_offset c) o1 n (s_size s) s"
    and o1: "unat o1 + unat (s_size s) \<le> unat (glen (buffer (h a)))"
    using assms(1) by (rule Cursor_Slice_at)
  have at': "slice_at h a (c_offset c) o1 n (s_size s) s'"
    using slices.run_good [of h a "c_offset c" o1 n "s_size s" s succs s'] at o1 assms(2,3) by auto
  have fin: "s_err s' = None" "\<not> s_pending s'" "s_remaining s' = 0"
    and e: "e = \<lparr>c_decoder = Some a, c_offset = (if n \<noteq> 0 then n else s_offset s'), originToken = c_offset c + 1\<rparr>"
    using assms(4) at' by (auto simp: SliceCursor_End_def SliceCursor_Err_def slice_at_def split: if_splits)
  then have "values_at (h a) (token_children KindSlice (s_size s)) o1 (s_offset s')"
    and "unat (s_index s') = unat (s_size s)"
    using at' by (simp_all add: slice_at_def token_children_def)
  from resolved_container [OF res _ this(1)] this(2) a e show ?thesis
    by (simp add: Skip_def successor_def word_unat_eq_iff)
qed

section \<open>The cursors a client can hold\<close>

text \<open>
  The fields of a cursor are not exported, so a client holds the cursors it was handed. \<open>issued\<close> are
  those of a client that keeps the one contract that the code cannot check, that of \<open>MapReader.End\<close>: it is
  called with the cursor behind exactly \<open>Len\<close> entries, read from \<open>First\<close> on. Cursors without a token
  (the roots, \<open>First\<close>, the values \<open>ReadMapKey\<close> and \<open>Next\<close> hand out) stand anywhere; a successor comes
  from a read or a skip, or from the \<open>End\<close> of a traversal of which all that is known is that cursors of
  the client were passed to \<open>Next\<close>. Reads fill string caches meanwhile. The entries \<open>iterated\<close> need not be
  skipped: each is left by any cursor of the client that names its value.
\<close>

inductive issued :: "heap \<Rightarrow> Cursor \<Rightarrow> bool" and iterated :: "heap \<Rightarrow> nat \<Rightarrow> Cursor \<Rightarrow> Cursor \<Rightarrow> bool" where
  start: "originToken c = 0 \<Longrightarrow> issued h c"
| read: "read_next op h c = Inr (next, h') \<Longrightarrow> issued h' next"
| later: "issued h c \<Longrightarrow> same_heap h h' \<Longrightarrow> issued h' c"
| map_end: "Cursor_Map h c = Inr m \<Longrightarrow> \<forall>s\<in>set succs. issued h s \<Longrightarrow> run (map_step h) m succs = Inr m' \<Longrightarrow>
    MapCursor_End m' = Inr e \<Longrightarrow> issued h e"
| slice_end: "Cursor_Slice h c = Inr s \<Longrightarrow> \<forall>x\<in>set succs. issued h x \<Longrightarrow> run slice_step s succs = Inr s' \<Longrightarrow>
    SliceCursor_End s' = Inr e \<Longrightarrow> issued h e"
| reader_end: "Cursor_MapReader h c = Inr r \<Longrightarrow> iterated h (unat (MapReader_Len r)) (MapReader_First r) z \<Longrightarrow>
    MapReader_End r z = Inr e \<Longrightarrow> issued h e"
| none: "iterated h 0 c c"
| one: "ReadMapKey h c = Inr (key, v) \<Longrightarrow> issued h s \<Longrightarrow> c_decoder s = c_decoder v \<Longrightarrow>
    originToken s = c_offset v + 1 \<Longrightarrow> iterated h n s z \<Longrightarrow> iterated h (Suc n) c z"

lemma same_heap_skip:
  assumes "same_heap h h'"
  shows "nextValueOffset (h' a) off n = nextValueOffset (h a) off n"
proof -
  obtain sc where "h' a = h a\<lparr>stringCache := sc\<rparr>" using assms unfolding same_heap_def by blast
  then show ?thesis by simp
qed

lemma same_heap_proven: "proven h c \<Longrightarrow> same_heap h h' \<Longrightarrow> proven h' c"
  by (simp add: proven_def same_heap_skip)

text \<open>The entries a \<open>MapReader\<close>'s client has gone through are those of the map.\<close>

definition passes :: "heap \<Rightarrow> nat \<Rightarrow> Cursor \<Rightarrow> Cursor \<Rightarrow> bool" where
  "passes h n c z \<longleftrightarrow> (\<forall>a. c_decoder c = Some a \<longrightarrow>
     values_at (h a) (2 * n) (c_offset c) (c_offset z) \<and> c_decoder z = Some a \<and>
     (n \<noteq> 0 \<longrightarrow> originToken z \<noteq> 0) \<and> (n = 0 \<longrightarrow> z = c))"

lemma passes_entry:
  assumes k: "ReadMapKey h c = Inr (key, v)" and s: "proven h s" "c_decoder s = c_decoder v" "originToken s = c_offset v + 1"
    and rest: "passes h n s z"
  shows "passes h (Suc n) c z"
  unfolding passes_def
proof (intro allI impI)
  fix a assume c: "c_decoder c = Some a"
  with k have key: "token (h a) (c_offset c) = Some (c_offset v, 0)" and v: "c_decoder v = Some a"
    by (auto simp: ReadMapKey_def bindE_eq_Inr dest!: decodeKey_token)
  have in_data: "unat (c_offset v) \<le> unat (glen (buffer (h a)))" using token_bounds [OF key] by simp
  have nz: "originToken s \<noteq> 0" using s(3) inc_nonzero [OF in_data] by simp
  have "values_at (h a) 1 (c_offset v) (c_offset s)" using proven_values [OF s(1) _ s(3) in_data] s(2) v by simp
  moreover have "values_at (h a) 1 (c_offset c) (c_offset v)" using key by (simp add: stream_Suc)
  moreover have r: "values_at (h a) (2 * n) (c_offset s) (c_offset z)" "c_decoder z = Some a"
    "n \<noteq> 0 \<longrightarrow> originToken z \<noteq> 0" "n = 0 \<longrightarrow> z = s"
    using rest s(2) v by (simp_all add: passes_def)
  ultimately have "values_at (h a) (1 + (1 + 2 * n)) (c_offset c) (c_offset z)"
    using stream_append [of "token (h a)" 1] by blast
  then have "values_at (h a) (2 * Suc n) (c_offset c) (c_offset z)" by (simp only: two_Suc)
  with r nz show "values_at (h a) (2 * Suc n) (c_offset c) (c_offset z) \<and> c_decoder z = Some a \<and>
      (Suc n \<noteq> 0 \<longrightarrow> originToken z \<noteq> 0) \<and> (Suc n = 0 \<longrightarrow> z = c)"
    by (cases "n = 0") auto
qed

lemma reader_passed_ends:
  assumes r: "Cursor_MapReader h c = Inr m" and z: "passes h (unat (MapReader_Len m)) (MapReader_First m) z"
  shows "\<exists>e. MapReader_End m z = Inr e \<and> Skip h c = Inr e"
proof -
  obtain a sz o1 n where a: "c_decoder c = Some a" and rm: "resolveMap h c a = Inr (sz, o1, n)"
    and m: "m = \<lparr>r_decoder = c_decoder c, r_valueOrigin = c_offset c, r_dataOffset = o1, r_outerEnd = n,
      r_size = sz\<rparr>"
    using r by (auto simp: Cursor_MapReader_eq bindE_eq_Inr)
  have p: "values_at (h a) (2 * unat sz) o1 (c_offset z)" "c_decoder z = Some a"
    "unat sz \<noteq> 0 \<longrightarrow> originToken z \<noteq> 0" "unat sz = 0 \<longrightarrow> z = MapReader_First m"
    using z a m by (simp_all add: passes_def MapReader_Len_def MapReader_First_def)
  then have "values_at (h a) (token_children KindMap sz) o1 (c_offset z)" by (simp add: token_children_def)
  from resolved_container [OF resolveMap_Inr(1) [OF rm] _ this]
  have "Skip h c = Inr (successor c (if n \<noteq> 0 then n else c_offset z))"
    using a by (simp add: Skip_def)
  moreover have "MapReader_End m z = Inr (successor c (if n \<noteq> 0 then n else c_offset z))"
    using p a m by (cases "sz = 0") (auto simp: MapReader_End_def MapReader_First_def successor_def unat_eq_zero)
  ultimately show ?thesis by blast
qed

text \<open>Every cursor of the client is the successor its token says it is.\<close>

lemma issued_proven:
  "issued h c \<Longrightarrow> proven h c"
  "iterated h n c z \<Longrightarrow> passes h n c z"
proof (induction rule: issued_iterated.inducts)
  case (start c h)
  then show ?case by (simp add: proven_def)
next
  case (read op h c "next" h')
  then show ?case using read_next_successor same_heap_proven Skip_proven by blast
next
  case (later h c h')
  then show ?case using same_heap_proven by blast
next
  case (map_end h c m succs m' e)
  then show ?case using map_run_ends [of h c m succs m' e] Skip_proven by blast
next
  case (slice_end h c s succs s' e)
  then show ?case using slice_run_ends [of h c s succs s' e] Skip_proven by blast
next
  case (reader_end h c r z e)
  then show ?case using reader_passed_ends [of h c r z] Skip_proven by force
next
  case (none h c)
  then show ?case by (simp add: passes_def)
next
  case (one h c key v s n z)
  then show ?case by (intro passes_entry)
qed

lemma Skip_issued [intro]: "Skip h c = Inr next \<Longrightarrow> issued h next"
  by (rule issued_iterated.read [of Skips h c]) simp

lemma zero_issued [simp]: "issued h zeroCursor"
  by (rule issued_iterated.start) (simp add: zeroCursor_def)

text \<open>
  C20. A map traversal ends where \<open>Skip\<close> does. Whatever cursors a client passes to \<open>Next\<close>, in whatever
  number and order (right ones, stale ones, or those of other values and other decoders), a map cursor
  whose \<open>End\<close> then succeeds returns exactly the cursor that \<open>Skip\<close> of the map returns, whether the map
  stood there or behind a pointer. The cursors are those that the reads and traversals have issued; the
  client has kept the contract of \<open>MapReader.End\<close>, to pass it the cursor behind exactly \<open>Len\<close> entries.
\<close>

theorem map_traversal_ends:
  assumes "Cursor_Map h c = Inr m" and "\<forall>s\<in>set succs. issued h s"
    and "run (map_step h) m succs = Inr m'" and "MapCursor_End m' = Inr e"
  shows "Skip h c = Inr e"
  using map_run_ends [OF assms(1) _ assms(3,4)] assms(2) issued_proven(1) by blast

text \<open>A map with one entry, "a" to true: the value is skipped, and \<open>End\<close> is after it.\<close>

theorem map_traversal_ends_witness:
  "Skip (\<lambda>_. NewDataDecoderWithoutStringCache [0xE1, 0x41, 0x61, 1, 7])
     \<lparr>c_decoder = Some 0, c_offset = 0, originToken = 0\<rparr> =
     Inr \<lparr>c_decoder = Some 0, c_offset = 5, originToken = 1\<rparr>"
proof -
  let ?h = "\<lambda>_ :: nat. NewDataDecoderWithoutStringCache [0xE1, 0x41, 0x61, 1, 7]"
  let ?c = "\<lparr>c_decoder = Some 0, c_offset = 0, originToken = 0\<rparr>"
  let ?s = "\<lparr>c_decoder = Some 0, c_offset = 5, originToken = 4\<rparr>"
  have "Skip ?h \<lparr>c_decoder = Some 0, c_offset = 3, originToken = 0\<rparr> = Inr ?s" by code_simp
  then have "\<forall>s\<in>set [zeroCursor, ?s]. issued ?h s" by (auto intro: Skip_issued)
  moreover have "bindE (Cursor_Map ?h ?c) (\<lambda>m. bindE (run (map_step ?h) m [zeroCursor, ?s]) MapCursor_End) =
      Inr \<lparr>c_decoder = Some 0, c_offset = 5, originToken = 1\<rparr>" by code_simp
  then obtain m m' where "Cursor_Map ?h ?c = Inr m" "run (map_step ?h) m [zeroCursor, ?s] = Inr m'"
    "MapCursor_End m' = Inr \<lparr>c_decoder = Some 0, c_offset = 5, originToken = 1\<rparr>"
    by (auto simp only: bindE_eq_Inr)
  ultimately show ?thesis by (intro map_traversal_ends [of ?h ?c m "[zeroCursor, ?s]" m'])
qed

text \<open>The same of slices.\<close>

theorem slice_traversal_ends:
  assumes "Cursor_Slice h c = Inr s" and "\<forall>x\<in>set succs. issued h x"
    and "run slice_step s succs = Inr s'" and "SliceCursor_End s' = Inr e"
  shows "Skip h c = Inr e \<and> s_index s' = s_size s"
  using slice_run_ends [OF assms(1) _ assms(3,4)] assms(2) issued_proven(1) by blast

text \<open>The slice [true] behind a pointer at offset 4: \<open>End\<close> is after the pointer.\<close>

theorem slice_traversal_ends_witness:
  "Skip (\<lambda>_. NewDataDecoderWithoutStringCache [1, 4, 1, 7, 0x20, 0])
     \<lparr>c_decoder = Some 0, c_offset = 4, originToken = 0\<rparr> =
     Inr \<lparr>c_decoder = Some 0, c_offset = 6, originToken = 5\<rparr>"
proof -
  let ?h = "\<lambda>_ :: nat. NewDataDecoderWithoutStringCache [1, 4, 1, 7, 0x20, 0]"
  let ?c = "\<lparr>c_decoder = Some 0, c_offset = 4, originToken = 0\<rparr>"
  let ?s = "\<lparr>c_decoder = Some 0, c_offset = 4, originToken = 3\<rparr>"
  have "Skip ?h \<lparr>c_decoder = Some 0, c_offset = 2, originToken = 0\<rparr> = Inr ?s" by code_simp
  then have "\<forall>s\<in>set [zeroCursor, ?s]. issued ?h s" by (auto intro: Skip_issued)
  moreover have "bindE (Cursor_Slice ?h ?c) (\<lambda>m. bindE (run slice_step m [zeroCursor, ?s]) SliceCursor_End) =
      Inr \<lparr>c_decoder = Some 0, c_offset = 6, originToken = 5\<rparr>" by code_simp
  then obtain m m' where "Cursor_Slice ?h ?c = Inr m" "run slice_step m [zeroCursor, ?s] = Inr m'"
    "SliceCursor_End m' = Inr \<lparr>c_decoder = Some 0, c_offset = 6, originToken = 5\<rparr>"
    by (auto simp only: bindE_eq_Inr)
  ultimately show ?thesis using slice_traversal_ends [of ?h ?c m "[zeroCursor, ?s]" m'] by blast
qed

section \<open>Wrong successors\<close>

text \<open>
  C28. A cursor that is not the successor of the current value is refused for good: \<open>Next\<close> hands out
  nothing, every later call leaves the cursor as it is, and \<open>End\<close> reports the error. So a client
  cannot skip, repeat or leave an entry half read, or continue in another database.
\<close>

theorem wrong_successor_refused:
  assumes "m_err m = None" and "m_pending m"
    and "c_decoder succ \<noteq> m_decoder m \<or> originToken succ \<noteq> m_offset m + 1"
    and "s_err s = None" and "s_pending s"
    and "c_decoder succ' \<noteq> s_decoder s \<or> originToken succ' \<noteq> s_valueOffset s + 1"
  shows "\<exists>m' s'. MapCursor_Next h m succ = Inr (m', None) \<and> run (map_step h) m' later = Inr m' \<and>
     MapCursor_End m' = Inl (PlainError ''cursor is not the successor of the current map value'') \<and>
     SliceCursor_Next s succ' = (s', None) \<and> run slice_step s' later = Inr s' \<and>
     SliceCursor_End s' = Inl (PlainError ''cursor is not the successor of the current slice value'')"
proof -
  let ?m = "m\<lparr>m_err := Some (PlainError ''cursor is not the successor of the current map value'')\<rparr>"
  let ?s = "s\<lparr>s_err := Some (PlainError ''cursor is not the successor of the current slice value'')\<rparr>"
  have "MapCursor_consume m succ = ?m" "SliceCursor_consume s succ' = ?s"
    using assms by (simp_all add: MapCursor_consume_def SliceCursor_consume_def)
  then have "MapCursor_Next h m succ = Inr (?m, None)" "SliceCursor_Next s succ' = (?s, None)"
    using assms by (simp_all add: MapCursor_Next_def SliceCursor_Next_def)
  moreover have "run (map_step h) ?m later = Inr ?m" by (rule maps.run_failed) simp
  moreover have "run slice_step ?s later = Inr ?s" by (rule slices.run_failed) simp
  ultimately show ?thesis
    by (intro exI [of _ ?m] exI [of _ ?s])
      (simp add: MapCursor_End_def MapCursor_Err_def SliceCursor_End_def SliceCursor_Err_def)
qed

theorem wrong_successor_refused_witness:
  "\<exists>m'. MapCursor_Next (\<lambda>_. NewDataDecoderWithoutStringCache []) \<lparr>m_decoder = Some 0, m_err = None, m_valueOrigin = 0, m_offset = 3,
       m_outerEnd = 0, m_size = 1, m_remaining = 1, m_pending = True\<rparr> zeroCursor = Inr (m', None) \<and>
     MapCursor_End m' = Inl (PlainError ''cursor is not the successor of the current map value'')"
  using wrong_successor_refused [of "\<lparr>m_decoder = Some 0, m_err = None, m_valueOrigin = 0, m_offset = 3,
      m_outerEnd = 0, m_size = 1, m_remaining = 1, m_pending = True\<rparr>" zeroCursor
      "\<lparr>s_decoder = Some 0, s_err = None, s_valueOrigin = 0, s_dataOffset = 2, s_offset = 2, s_outerEnd = 0,
        s_size = 1, s_remaining = 1, s_index = 0, s_valueOffset = 2, s_pending = True\<rparr>" zeroCursor
      "\<lambda>_. NewDataDecoderWithoutStringCache []" "[]"]
  by (auto simp: zeroCursor_def)

section \<open>Announced sizes\<close>

lemma nat_half: "2 * s \<le> n" if "s \<le> n div 2" for s n :: nat
  using that by linarith

lemma validateContainerBounds_children:
  assumes "validateContainerBounds n k sz off = Inr ()" and "unat sz \<le> 16843036"
    and "k = KindMap \<or> k = KindSlice"
  shows "unat off + token_children k sz \<le> unat n"
proof -
  have u: "unat (sz * 2) = 2 * unat sz" using assms(2) by (subst unat_mult_lem [THEN iffD1]) simp_all
  from assms(1) have le: "off \<le> n" and v: "(if k = KindMap then sz * 2 else sz) \<le> n - off"
    by (auto simp: validateContainerBounds_def Let_def not_less split: if_splits)
  have "unat (if k = KindMap then sz * 2 else sz) = token_children k sz"
    using u assms(3) by (auto simp: token_children_def)
  with v le show ?thesis by (auto simp: word_le_nat_alt unat_sub split: if_splits)
qed

lemma validateCursorContainerSize_children:
  assumes "validateCursorContainerSize d k sz off = Inr ()" and "unat sz \<le> 16843036"
    and "k = KindMap \<or> k = KindSlice"
  shows "unat off + token_children k sz \<le> unat (glen (buffer d))"
    and "1024 \<le> token_children k sz \<Longrightarrow> \<exists>e. valid_at d (token_children k sz) off e"
proof -
  have u: "unat (sz * 2) = 2 * unat sz" using assms(2) by (subst unat_mult_lem [THEN iffD1]) simp_all
  then have vc: "unat (if k = KindMap then sz * 2 else sz) = token_children k sz"
    using assms(3) by (auto simp: token_children_def)
  show *: "unat off + token_children k sz \<le> unat (glen (buffer d))"
  proof (cases "cursorContainerSizeIsCheap k sz off (glen (buffer d))")
    case True
    then show ?thesis using vc
      by (auto simp: cursorContainerSizeIsCheap_def Let_def word_le_nat_alt unat_sub split: if_splits)
  next
    case False
    then have "validateContainerBounds (glen (buffer d)) k sz off = Inr ()"
      using assms(1) by (auto simp: validateCursorContainerSize_def validateContainerSize_def bindE_eq_Inr Let_def)
    then show ?thesis using assms(2,3) by (rule validateContainerBounds_children)
  qed
  assume big: "1024 \<le> token_children k sz"
  then have c: "\<not> cursorContainerSizeIsCheap k sz off (glen (buffer d))"
    and p: "containerPreflightValueCount \<le> (if k = KindMap then sz * 2 else sz)"
    using vc by (auto simp: cursorContainerSizeIsCheap_def Let_def containerPreflightValueCount_def
        word_le_nat_alt word_less_nat_alt split: if_splits)
  then obtain e r where "validateContainerContents d (newAllocationValidator k sz) k sz off 0 = Inr (e, r)"
    using assms(1) by (auto simp: validateCursorContainerSize_def validateContainerSize_def bindE_eq_Inr Let_def
        split: if_splits)
  moreover have "unat off \<le> unat (glen (buffer d))" using * by simp
  ultimately have "valid_at d (token_children k sz) off e"
    using validate_values(3) [of off d sz k "newAllocationValidator k sz" 0] assms(2,3)
    by (auto simp: walked_def)
  then show "\<exists>e. valid_at d (token_children k sz) off e" ..
qed

text \<open>What a caller may rely on when it sizes a container by what a cursor announces.\<close>

definition backed :: "heap \<Rightarrow> nat \<Rightarrow> Kind \<Rightarrow> uint \<Rightarrow> uint \<Rightarrow> bool" where
  "backed h a k sz off \<longleftrightarrow>
     unat off + token_children k sz \<le> unat (glen (buffer (h a))) \<and>
     (1024 \<le> token_children k sz \<longrightarrow> (\<exists>e. valid_at (h a) (token_children k sz) off e))"

text \<open>
  C29. The sizes that cursors announce for allocation are backed by the database: a map cursor's
  size, the size a \<open>MapReader\<close> and a slice cursor report count children that fit in the bytes behind
  the header, and from 1,024 children on all of them have been validated. A size field alone can
  therefore not make a caller allocate more than the database has bytes.
\<close>

theorem announced_sizes_backed:
  assumes "Cursor_Map h c = Inr m" and "Cursor_MapReader h c = Inr r" and "MapReader_Size h r = Inr n"
    and "Cursor_Slice h c' = Inr s" and "SliceCursor_Size h s = (Inr n', s')"
  shows "\<exists>a b. c_decoder c = Some a \<and> backed h a KindMap (m_size m) (m_offset m) \<and> n = m_size m \<and>
     c_decoder c' = Some b \<and> backed h b KindSlice n' (s_dataOffset s) \<and> s' = s"
proof -
  obtain a sz o1 p where a: "c_decoder c = Some a" and rm: "resolveMap h c a = Inr (sz, o1, p)"
    and m: "m_size m = sz" "m_offset m = o1" and v: "validateCursorContainerSize (h a) KindMap sz o1 = Inr ()"
    using assms(1) by (auto simp: Cursor_Map_eq bindE_eq_Inr)
  have r: "r_size r = sz" using assms(2) a rm by (auto simp: Cursor_MapReader_eq)
  have n: "n = sz"
    using assms(3) r by (auto simp: MapReader_Size_def SizeForAllocation_def bindE_eq_Inr split: option.splits if_splits)
  obtain k where "decodeCtrlData (h a) k = Inr (KindMap, sz, o1)"
    using resolveMap_Inr(1) [OF rm] by (rule resolveCtrlData_Inr)
  then have "unat sz \<le> 16843036" by (rule decodeCtrlData_Inr(4))
  with validateCursorContainerSize_children [OF v] have bm: "backed h a KindMap sz o1" by (simp add: backed_def)
  obtain b sz' o2 q where b: "c_decoder c' = Some b" and rs: "resolveSlice h c' b = Inr (sz', o2, q)"
    and s: "s_size s = sz'" "s_dataOffset s = o2" "s_decoder s = Some b" "s_err s = None"
    using assms(4) by (auto simp: Cursor_Slice_eq bindE_eq_Inr)
  have v': "validateCursorContainerSize (h b) KindSlice sz' o2 = Inr ()" and n': "n' = sz'" and s': "s' = s"
    using assms(5) s by (auto simp: SliceCursor_Size_def SliceCursor_Err_def Let_def split: sum.splits)
  obtain k' where "decodeCtrlData (h b) k' = Inr (KindSlice, sz', o2)"
    using resolveSlice_Inr(1) [OF rs] by (rule resolveCtrlData_Inr)
  then have "unat sz' \<le> 16843036" by (rule decodeCtrlData_Inr(4))
  with validateCursorContainerSize_children [OF v'] have "backed h b KindSlice sz' o2" by (simp add: backed_def)
  with a b bm m n n' s s' show ?thesis by blast
qed

theorem announced_sizes_backed_witness:
  "backed (\<lambda>_. NewDataDecoderWithoutStringCache [0xE1, 0x41, 0x61, 1, 7, 1, 4, 1, 7]) 0 KindMap 1 1"
proof -
  let ?h = "\<lambda>_ :: nat. NewDataDecoderWithoutStringCache [0xE1, 0x41, 0x61, 1, 7, 1, 4, 1, 7]"
  let ?c = "\<lparr>c_decoder = Some 0, c_offset = 0, originToken = 0\<rparr>"
  let ?c' = "\<lparr>c_decoder = Some 0, c_offset = 5, originToken = 0\<rparr>"
  have "bindE (Cursor_Map ?h ?c) (\<lambda>m. Inr (m_size m, m_offset m)) = Inr (1, 1)"
    "bindE (Cursor_MapReader ?h ?c) (MapReader_Size ?h) = Inr 1"
    "bindE (Cursor_Slice ?h ?c') (\<lambda>s. fst (SliceCursor_Size ?h s)) = Inr 1" by code_simp+
  then obtain m r s s' where "Cursor_Map ?h ?c = Inr m" "m_size m = 1" "m_offset m = 1"
    "Cursor_MapReader ?h ?c = Inr r" "MapReader_Size ?h r = Inr 1"
    "Cursor_Slice ?h ?c' = Inr s" "SliceCursor_Size ?h s = (Inr 1, s')"
    by (auto simp only: bindE_eq_Inr prod.collapse [symmetric] prod.inject Inr_inject split: prod.splits)
      (metis prod.collapse)
  from announced_sizes_backed [OF this(1,4,5,6,7)] this(2,3) show ?thesis by auto
qed

end
