(* ===== verification/Destinations.thy ===== *)
theory Destinations
  imports Errors "HOL-Library.AList"
begin

text \<open>
  The destinations of \<open>internal/decoder/reflection.go\<close>: Go types and the values they hold, what the
  \<open>reflect\<close> package says of a type, and access to the field of a struct by its index path.

  Modelled are \<open>any\<close>, the built-in scalar types except \<open>float32\<close>, \<open>complex\<close> and \<open>uintptr\<close>, slices,
  string-keyed maps, pointers, and structs of these, with embedded fields and tags. Types are
  finite trees: a struct that contains a pointer, slice or map of itself is not a type of the
  model. No type has methods, so no destination is a custom unmarshaler. An \<open>any\<close> never holds a
  pointer.
\<close>

section \<open>Types\<close>

text \<open>The parsed form of a \<open>maxminddb\<close> struct tag (\<open>internal/maxminddbtag\<close>).\<close>

record Options =
  opt_Name :: gostring
  opt_MaxSize :: uint
  opt_HasName :: bool
  opt_HasMaxSize :: bool
  opt_Ignored :: bool

definition zeroOptions :: Options where
  "zeroOptions = \<lparr>opt_Name = [], opt_MaxSize = 0, opt_HasName = False, opt_HasMaxSize = False, opt_Ignored = False\<rparr>"

text \<open>
  A struct type has a name, which tells apart types with the same fields. The tag of a field is
  \<open>None\<close> without a \<open>maxminddb\<close> tag, and otherwise the options or the error message it parses to.
\<close>

datatype Type =
    BoolT | StringT | UintT | Uint8T | Uint16T | Uint32T | Uint64T
  | IntT | Int8T | Int16T | Int32T | Int64T | Float64T | AnyT
  | SliceT Type | MapT Type | PtrT Type
  | StructT gostring "FieldDecl list"
and FieldDecl =
  FieldDecl (fd_Name: gostring) (fd_Exported: bool) (fd_Anonymous: bool) (fd_Tag: "(string + Options) option")
    (fd_Type: Type)

lemma field_size [termination_simp]:
  assumes "x \<in> set fs"
  shows "size (fd_Type x) < Suc (size_list size fs)" and "size (fd_Type x) \<le> Suc (size_list size fs)"
proof -
  have "size (fd_Type x) < size x" by (cases x) simp
  moreover have "size x \<le> size_list size fs" using assms by (rule size_list_estimation') simp
  ultimately show "size (fd_Type x) < Suc (size_list size fs)" and "size (fd_Type x) \<le> Suc (size_list size fs)" by simp_all
qed

fun unwrapPtrType :: "Type \<Rightarrow> Type" where
  "unwrapPtrType (PtrT t) = unwrapPtrType t"
| "unwrapPtrType t = t"

text \<open>Only interfaces and named types may hold an unmarshaler, and the named types of the model have no methods.\<close>

definition typeMayImplementUnmarshaler :: "Type \<Rightarrow> bool" where
  "typeMayImplementUnmarshaler t \<longleftrightarrow> unwrapPtrType t = AnyT"

fun isFastDecodeType :: "Type \<Rightarrow> bool" where
  "isFastDecodeType (SliceT t) \<longleftrightarrow> t = Uint8T"
| "isFastDecodeType (PtrT t) \<longleftrightarrow> isFastDecodeType t"
| "isFastDecodeType t \<longleftrightarrow> t \<in> {StringT, BoolT, Int32T, UintT, Uint16T, Uint32T, Uint64T, Float64T}"

text \<open>The widths of the integer types; \<open>Value.OverflowInt\<close> and \<open>Value.OverflowUint\<close>.\<close>

fun int_width :: "Type \<Rightarrow> nat option" where
  "int_width IntT = Some 64" | "int_width Int8T = Some 8" | "int_width Int16T = Some 16"
| "int_width Int32T = Some 32" | "int_width Int64T = Some 64" | "int_width _ = None"

fun uint_width :: "Type \<Rightarrow> nat option" where
  "uint_width UintT = Some 64" | "uint_width Uint8T = Some 8" | "uint_width Uint16T = Some 16"
| "uint_width Uint32T = Some 32" | "uint_width Uint64T = Some 64" | "uint_width _ = None"

definition OverflowInt :: "nat \<Rightarrow> int \<Rightarrow> bool" where
  "OverflowInt width n \<longleftrightarrow> \<not> (- (2 ^ (width - 1)) \<le> n \<and> n < 2 ^ (width - 1))"

definition OverflowUint :: "nat \<Rightarrow> uint \<Rightarrow> bool" where
  "OverflowUint width n \<longleftrightarrow> take_bit width n \<noteq> n"

section \<open>Values\<close>

text \<open>
  What a variable holds. \<open>NilV\<close> is a nil pointer, slice, map or interface. A slice has a capacity,
  and a \<open>[]byte\<close>, of type \<open>SliceT Uint8T\<close>, is \<open>BytesV\<close>. Integers of every width are \<open>UintV\<close> and
  \<open>IntV\<close>; in an \<open>any\<close> they stand for \<open>uint64\<close> and \<open>int32\<close>. Floats are their bit patterns. A map
  is the list of its entries. A struct is the list of its fields' values in declaration order.
\<close>

datatype Value =
    NilV
  | BoolV bool
  | StringV gostring
  | UintV uint
  | IntV int
  | Float32V "32 word"
  | Float64V "64 word"
  | BigIntV nat
  | BytesV nat bytes
  | ListV nat "Value list"
  | MapV "(gostring \<times> Value) list"
  | PtrV Value
  | StructV "Value list"

fun zero_of :: "Type \<Rightarrow> Value" where
  "zero_of BoolT = BoolV False"
| "zero_of StringT = StringV []"
| "zero_of Float64T = Float64V 0"
| "zero_of (StructT n fs) = StructV (map (\<lambda>f. zero_of (fd_Type f)) fs)"
| "zero_of t = (if uint_width t \<noteq> None then UintV 0 else if int_width t \<noteq> None then IntV 0 else NilV)"

text \<open>The capacity of a slice, 0 for a nil slice.\<close>

fun slice_cap :: "Value \<Rightarrow> nat" where
  "slice_cap (BytesV c bs) = c"
| "slice_cap (ListV c vs) = c"
| "slice_cap v = 0"

text \<open>
  The variable at the end of the pointers of a destination, which are allocated where they are nil,
  and the destination once that variable holds \<open>v\<close>.
\<close>

fun deref :: "Type \<Rightarrow> Value \<Rightarrow> Value" where
  "deref (PtrT t) cur = deref t (case cur of PtrV v \<Rightarrow> v | _ \<Rightarrow> zero_of t)"
| "deref t cur = cur"

fun allocated :: "Type \<Rightarrow> Value \<Rightarrow> Value" where
  "allocated (PtrT t) v = PtrV (allocated t v)"
| "allocated t v = v"

section \<open>Fields\<close>

fun struct_fields :: "Type \<Rightarrow> FieldDecl list" where
  "struct_fields (StructT n fs) = fs"
| "struct_fields t = []"

fun field_values :: "Value \<Rightarrow> Value list" where
  "field_values (StructV vs) = vs"
| "field_values v = []"

text \<open>\<open>getEmbeddedStructType\<close>: a struct or a pointer to a struct.\<close>

fun getEmbeddedStructType :: "Type \<Rightarrow> Type option" where
  "getEmbeddedStructType (StructT n fs) = Some (StructT n fs)"
| "getEmbeddedStructType (PtrT (StructT n fs)) = Some (StructT n fs)"
| "getEmbeddedStructType t = None"

text \<open>
  \<open>addressableValue.indirect\<close> of an embedded field, \<open>None\<close> where it is a nil pointer that must not be
  allocated, and the field once the struct it holds is \<open>v\<close>.
\<close>

definition indirect :: "Type \<Rightarrow> Value \<Rightarrow> bool \<Rightarrow> Value option" where
  "indirect t v mayAlloc =
     (case t of
        PtrT t' \<Rightarrow> (case v of PtrV w \<Rightarrow> Some w | _ \<Rightarrow> if mayAlloc then Some (zero_of t') else None)
      | _ \<Rightarrow> Some v)"

definition embedded :: "Type \<Rightarrow> Value \<Rightarrow> Value" where
  "embedded t v = (case t of PtrT t' \<Rightarrow> PtrV v | _ \<Rightarrow> v)"

definition embedded_type :: "Type \<Rightarrow> Type" where
  "embedded_type t = (case getEmbeddedStructType t of Some t' \<Rightarrow> t' | None \<Rightarrow> t)"

text \<open>\<open>fieldByIndex\<close> on a struct of the type: the field's value, and the struct with the field set.\<close>

fun fieldByIndex :: "Type \<Rightarrow> Value \<Rightarrow> nat list \<Rightarrow> bool \<Rightarrow> Value option" where
  "fieldByIndex t v [] mayAlloc = Some v"
| "fieldByIndex t v [i] mayAlloc = Some (field_values v ! i)"
| "fieldByIndex t v (i # j # js) mayAlloc =
     (let ft = fd_Type (struct_fields t ! i) in
      case indirect ft (field_values v ! i) mayAlloc of
        None \<Rightarrow> None
      | Some w \<Rightarrow> fieldByIndex (embedded_type ft) w (j # js) mayAlloc)"

fun setField :: "Type \<Rightarrow> Value \<Rightarrow> nat list \<Rightarrow> Value \<Rightarrow> Value" where
  "setField t v [] new = new"
| "setField t v [i] new = StructV ((field_values v)[i := new])"
| "setField t v (i # j # js) new =
     (let ft = fd_Type (struct_fields t ! i) in
      case indirect ft (field_values v ! i) True of
        None \<Rightarrow> v
      | Some w \<Rightarrow> StructV ((field_values v)[i := embedded ft (setField (embedded_type ft) w (j # js) new)]))"

section \<open>Typing\<close>

text \<open>The values of a type.\<close>

fun has_type :: "Value \<Rightarrow> Type \<Rightarrow> bool" where
  "has_type NilV t \<longleftrightarrow> (case t of AnyT \<Rightarrow> True | SliceT _ \<Rightarrow> True | MapT _ \<Rightarrow> True | PtrT _ \<Rightarrow> True | _ \<Rightarrow> False)"
| "has_type (BoolV b) t \<longleftrightarrow> t = BoolT \<or> t = AnyT"
| "has_type (StringV s) t \<longleftrightarrow> t = StringT \<or> t = AnyT"
| "has_type (UintV n) t \<longleftrightarrow> t = AnyT \<or> (\<exists>w. uint_width t = Some w \<and> unat n < 2 ^ w)"
| "has_type (IntV i) t \<longleftrightarrow> t = AnyT \<and> \<not> OverflowInt 32 i \<or> (\<exists>w. int_width t = Some w \<and> \<not> OverflowInt w i)"
| "has_type (Float32V f) t \<longleftrightarrow> t = AnyT"
| "has_type (Float64V f) t \<longleftrightarrow> t = Float64T \<or> t = AnyT"
| "has_type (BigIntV n) t \<longleftrightarrow> t = AnyT \<and> n < 2 ^ 128"
| "has_type (BytesV c bs) t \<longleftrightarrow> (t = SliceT Uint8T \<or> t = AnyT) \<and> length bs \<le> c"
| "has_type (ListV c vs) t \<longleftrightarrow> length vs \<le> c \<and>
     (case t of AnyT \<Rightarrow> \<forall>v \<in> set vs. has_type v AnyT | SliceT e \<Rightarrow> e \<noteq> Uint8T \<and> (\<forall>v \<in> set vs. has_type v e) | _ \<Rightarrow> False)"
| "has_type (MapV m) t \<longleftrightarrow> distinct (map fst m) \<and>
     (case t of AnyT \<Rightarrow> \<forall>x \<in> set m. has_type (snd x) AnyT | MapT e \<Rightarrow> \<forall>x \<in> set m. has_type (snd x) e | _ \<Rightarrow> False)"
| "has_type (PtrV v) t \<longleftrightarrow> (case t of PtrT e \<Rightarrow> has_type v e | _ \<Rightarrow> False)"
| "has_type (StructV vs) t \<longleftrightarrow> (case t of StructT n fs \<Rightarrow> list_all2 has_type vs (map fd_Type fs) | _ \<Rightarrow> False)"

lemma zero_has_type [simp]: "has_type (zero_of t) t"
proof (induction t rule: zero_of.induct)
  case (4 n fs)
  then show ?case by (auto simp: list_all2_conv_all_nth)
qed (auto simp: OverflowInt_def)

lemma zero_fields [simp]: "list_all2 has_type (map (\<lambda>f. zero_of (fd_Type f)) fs) (map fd_Type fs)"
  by (simp add: list_all2_conv_all_nth)

lemma deref_has_type: "has_type cur t \<Longrightarrow> has_type (deref t cur) (unwrapPtrType t)"
  by (induction t cur rule: deref.induct) (auto split: Value.splits)

lemma has_type_allocated: "has_type v (unwrapPtrType t) \<Longrightarrow> has_type (allocated t v) t"
  by (induction t) auto

lemma has_type_struct: "has_type v (StructT n fs) \<longleftrightarrow> (\<exists>vs. v = StructV vs \<and> list_all2 has_type vs (map fd_Type fs))"
  by (cases v) auto

text \<open>The type at an index path, through embedded structs and pointers to structs.\<close>

fun path_type :: "Type \<Rightarrow> nat list \<Rightarrow> Type option" where
  "path_type t [] = Some t"
| "path_type t (i # js) =
     (if i < length (struct_fields t) then
        if js = [] then Some (fd_Type (struct_fields t ! i))
        else Option.bind (getEmbeddedStructType (fd_Type (struct_fields t ! i))) (\<lambda>t'. path_type t' js)
      else None)"

lemma embedded_cases:
  assumes "getEmbeddedStructType ft = Some t'"
  obtains n fs where "t' = StructT n fs" and "ft = t' \<or> ft = PtrT t'"
  using assms by (induction ft rule: getEmbeddedStructType.induct) auto

lemma indirect_typed:
  assumes "getEmbeddedStructType ft = Some t'" and "has_type v ft"
  shows "indirect ft v True \<noteq> None" and "indirect ft v mayAlloc = Some w \<Longrightarrow> has_type w t'"
    and "has_type w t' \<Longrightarrow> has_type (embedded ft w) ft" and "embedded_type ft = t'"
  using assms by (auto simp: indirect_def embedded_def embedded_type_def elim!: embedded_cases split: Value.splits if_splits)

lemma field_typed:
  assumes "has_type v t" and "i < length (struct_fields t)"
  shows "has_type (field_values v ! i) (fd_Type (struct_fields t ! i))"
    and "has_type new (fd_Type (struct_fields t ! i)) \<Longrightarrow> has_type (StructV ((field_values v)[i := new])) t"
  using assms by (cases t; auto simp: has_type_struct list_all2_conv_all_nth nth_list_update)+

lemma fieldByIndex_typed:
  "has_type v t \<Longrightarrow> path_type t js = Some ft \<Longrightarrow> fieldByIndex t v js mayAlloc = Some w \<Longrightarrow> has_type w ft"
proof (induction t v js mayAlloc rule: fieldByIndex.induct)
  case (3 t v i j js mayAlloc)
  then obtain t' w' where t': "getEmbeddedStructType (fd_Type (struct_fields t ! i)) = Some t'"
    and w': "indirect (fd_Type (struct_fields t ! i)) (field_values v ! i) mayAlloc = Some w'" and i: "i < length (struct_fields t)"
    and rest: "path_type t' (j # js) = Some ft" "fieldByIndex t' w' (j # js) mayAlloc = Some w"
    by (auto simp: Let_def embedded_type_def bind_eq_Some_conv split: option.splits if_splits)
  note T = indirect_typed [OF t' field_typed(1) [OF 3(2) i]]
  show ?case using 3(1) [OF refl w'] T(2) [OF w'] T(4) rest by simp
qed (auto simp: field_typed split: if_splits)

lemma fieldByIndex_alloc:
  "has_type v t \<Longrightarrow> path_type t js = Some ft \<Longrightarrow> fieldByIndex t v js True \<noteq> None"
proof (induction t v js True rule: fieldByIndex.induct)
  case (3 t v i j js)
  then obtain t' where t': "getEmbeddedStructType (fd_Type (struct_fields t ! i)) = Some t'" and i: "i < length (struct_fields t)"
    and rest: "path_type t' (j # js) = Some ft"
    by (auto simp: bind_eq_Some_conv split: if_splits)
  note T = indirect_typed [OF t' field_typed(1) [OF 3(2) i]]
  obtain w' where w': "indirect (fd_Type (struct_fields t ! i)) (field_values v ! i) True = Some w'" using T(1) by blast
  show ?case using 3(1) [OF refl w'] T(2) [OF w'] T(4) rest by (simp add: Let_def w')
qed auto

lemma setField_typed:
  "has_type v t \<Longrightarrow> path_type t js = Some ft \<Longrightarrow> has_type new ft \<Longrightarrow> has_type (setField t v js new) t"
proof (induction t v js new rule: setField.induct)
  case (3 t v i j js new)
  then obtain t' where t': "getEmbeddedStructType (fd_Type (struct_fields t ! i)) = Some t'" and i: "i < length (struct_fields t)"
    and rest: "path_type t' (j # js) = Some ft"
    by (auto simp: bind_eq_Some_conv split: if_splits)
  note T = indirect_typed [OF t' field_typed(1) [OF 3(2) i]]
  obtain w' where w': "indirect (fd_Type (struct_fields t ! i)) (field_values v ! i) True = Some w'" using T(1) by blast
  have "has_type (setField t' w' (j # js) new) t'" using 3(1) [OF refl w'] T(2) [OF w'] T(4) rest 3(4) by simp
  then show ?case using field_typed(2) [OF 3(2) i] T(3,4) by (simp add: Let_def w')
qed (auto simp: field_typed simp del: has_type.simps split: if_splits)

end
