(* ===== verification/FieldTable.thy ===== *)
theory FieldTable
  imports Destinations "HOL-Library.Multiset"
begin

text \<open>
  The field tables of struct destinations (\<open>internal/decoder/reflection.go\<close>): the traversal that finds
  the fields of a struct and of the structs embedded in it, the precedence among fields of the same
  name, and the open-addressing table of key fingerprints that finds the field of a key.

  Tables are computed where the code caches them by type. A field's nested struct table
  (\<open>structFields\<close>) is the table of its type.
\<close>

section \<open>Collecting the infos\<close>

datatype fieldDispatch =
  dispatchFast | dispatchUnmarshaler | dispatchStruct | dispatchPointerStruct | dispatchMaxSize | dispatchPlain

text \<open>\<open>fi_index\<close> is the whole path path; \<open>reindex\<close> splits it in its first element and the rest.\<close>

record fieldInfo =
  fi_type :: Type
  fi_name :: gostring
  fi_index :: "nat list"
  fi_depth :: nat
  fi_maxSize :: uint
  fi_maxSizeKinds :: KindSet
  fi_dispatch :: fieldDispatch
  fi_hasTag :: bool

definition maxSizeKindsForType :: "Type \<Rightarrow> KindSet option" where
  "maxSizeKindsForType t =
     (case unwrapPtrType t of
        MapT _ \<Rightarrow> Some (NewKindSet [KindMap])
      | SliceT e \<Rightarrow> Some (if e = Uint8T then NewKindSet [KindBytes, KindSlice] else NewKindSet [KindSlice])
      | StringT \<Rightarrow> Some (NewKindSet [KindString])
      | _ \<Rightarrow> None)"

definition field_dispatch :: "Options \<Rightarrow> Type \<Rightarrow> fieldDispatch" where
  "field_dispatch opts t =
     (if opt_HasMaxSize opts \<and> maxSizeKindsForType t \<noteq> None then dispatchMaxSize
      else if unwrapPtrType t = AnyT then dispatchUnmarshaler
      else if isFastDecodeType t then dispatchFast
      else
        case unwrapPtrType t of
          StructT _ _ \<Rightarrow> (case t of PtrT _ \<Rightarrow> dispatchPointerStruct | _ \<Rightarrow> dispatchStruct)
        | _ \<Rightarrow> dispatchPlain)"

text \<open>The state of the breadth-first traversal: queue, types seen, fields found, first error.\<close>

record scan =
  sc_queue :: "(Type \<times> nat list \<times> nat) list"
  sc_seen :: "Type list"
  sc_fields :: "fieldInfo list"
  sc_error :: "gerr option"

text \<open>The options of a field's tag, and the first error once the field was looked at.\<close>

definition tagOptions :: "FieldDecl \<Rightarrow> Options" where
  "tagOptions f = (case fd_Tag f of Some (Inr opts) \<Rightarrow> opts | _ \<Rightarrow> zeroOptions)"

definition fieldError :: "FieldDecl \<Rightarrow> gerr option \<Rightarrow> gerr option" where
  "fieldError f err =
     (let err = (case err of None \<Rightarrow> (case fd_Tag f of Some (Inl msg) \<Rightarrow> Some (PlainError msg) | _ \<Rightarrow> None) | _ \<Rightarrow> err) in
      if \<not> opt_Ignored (tagOptions f) \<and> opt_HasMaxSize (tagOptions f) \<and> err = None \<and> maxSizeKindsForType (fd_Type f) = None
      then Some (PlainError ''maxsize is only supported for maps, slices, strings, and bytes'') else err)"

definition makeFieldInfo :: "FieldDecl \<Rightarrow> nat list \<Rightarrow> nat \<Rightarrow> fieldInfo" where
  "makeFieldInfo f fieldIndex depth =
     (let opts = tagOptions f in
      \<lparr>fi_type = fd_Type f, fi_name = (if opt_HasName opts then opt_Name opts else fd_Name f), fi_index = fieldIndex,
       fi_depth = depth, fi_maxSize = opt_MaxSize opts,
       fi_maxSizeKinds = (case maxSizeKindsForType (fd_Type f) of Some kinds \<Rightarrow> kinds | None \<Rightarrow> 0),
       fi_dispatch = field_dispatch opts (fd_Type f), fi_hasTag = opt_HasName opts\<rparr>)"

definition scanField :: "FieldDecl \<Rightarrow> nat list \<Rightarrow> nat \<Rightarrow> scan \<Rightarrow> scan" where
  "scanField f fieldIndex depth st =
     (if \<not> fd_Exported f \<and> (\<not> fd_Anonymous f \<or> (case fd_Type f of StructT _ _ \<Rightarrow> False | _ \<Rightarrow> True)) then st
      else
        let st = st\<lparr>sc_error := fieldError f (sc_error st)\<rparr>; info = makeFieldInfo f fieldIndex depth
        in if opt_Ignored (tagOptions f) then st
        else
          case (if fd_Anonymous f then getEmbeddedStructType (fd_Type f) else None) of
            None \<Rightarrow> st\<lparr>sc_fields := sc_fields st @ [info]\<rparr>
          | Some embeddedType \<Rightarrow>
              let st = (if embeddedType \<in> set (sc_seen st) then st
                        else st\<lparr>sc_queue := sc_queue st @ [(embeddedType, fieldIndex, depth + 1)],
                               sc_seen := embeddedType # sc_seen st\<rparr>)
              in if opt_HasName (tagOptions f) then st\<lparr>sc_fields := sc_fields st @ [info]\<rparr> else st)"

fun scanFields :: "nat \<Rightarrow> FieldDecl list \<Rightarrow> nat list \<Rightarrow> nat \<Rightarrow> scan \<Rightarrow> scan" where
  "scanFields i [] path depth st = st"
| "scanFields i (f # fs) path depth st = scanFields (i + 1) fs path depth (scanField f (path @ [i]) depth st)"

definition queue_size :: "scan \<Rightarrow> nat" where
  "queue_size st = sum_list (map (\<lambda>e. Suc (size (fst e))) (sc_queue st))"

lemma embedded_size: "getEmbeddedStructType t = Some e \<Longrightarrow> size e \<le> size t"
  by (induction t rule: getEmbeddedStructType.induct) auto

lemma scanField_size: "queue_size (scanField f path depth st) \<le> queue_size st + size f"
proof (cases f)
  case (FieldDecl name exported anonymous tag t)
  then show ?thesis
    using embedded_size [of t]
    by (cases "getEmbeddedStructType t") (auto simp: scanField_def Let_def queue_size_def split: if_splits option.splits)
qed

lemma scanFields_size: "queue_size (scanFields i fs path depth st) \<le> queue_size st + size_list size fs"
proof (induction i fs path depth st rule: scanFields.induct)
  case (2 i f fs path depth st)
  then show ?case using scanField_size [of f "path @ [i]" depth st] by simp
qed simp

function collectFields :: "scan \<Rightarrow> scan" where
  "collectFields st =
     (case sc_queue st of
        [] \<Rightarrow> st
      | (t, path, depth) # queue \<Rightarrow> collectFields (scanFields 0 (struct_fields t) path depth (st\<lparr>sc_queue := queue\<rparr>)))"
  by pat_completeness auto
termination
proof (relation "measure queue_size", simp, clarsimp)
  fix st :: scan and t path depth queue assume q: "sc_queue st = (t, path, depth) # queue"
  have "queue_size (scanFields 0 (struct_fields t) path depth (st\<lparr>sc_queue := queue\<rparr>)) \<le>
      sum_list (map (\<lambda>e. Suc (size (fst e))) queue) + size_list size (struct_fields t)"
    using scanFields_size [of 0 "struct_fields t" path depth "st\<lparr>sc_queue := queue\<rparr>"] by (simp add: queue_size_def)
  moreover have "size_list size (struct_fields t) < Suc (size t)" by (cases t) simp_all
  ultimately show "queue_size (scanFields 0 (struct_fields t) path depth (st\<lparr>sc_queue := queue\<rparr>)) < queue_size st"
    by (simp add: queue_size_def q)
qed

declare collectFields.simps [simp del]

section \<open>Precedence\<close>

text \<open>Whether a candidate displaces the dominant field found so far.\<close>

definition displaces :: "fieldInfo \<Rightarrow> fieldInfo \<Rightarrow> bool" where
  "displaces candidate dominant \<longleftrightarrow>
     fi_depth candidate < fi_depth dominant \<or>
     fi_depth candidate = fi_depth dominant \<and> fi_hasTag candidate \<and> \<not> fi_hasTag dominant"

definition dominantField :: "fieldInfo list \<Rightarrow> fieldInfo" where
  "dominantField infos = foldl (\<lambda>dominant candidate. if displaces candidate dominant then candidate else dominant) (hd infos) (tl infos)"

definition resolveNames :: "fieldInfo list \<Rightarrow> fieldInfo list" where
  "resolveNames allFields = map (\<lambda>name. dominantField (filter (\<lambda>f. fi_name f = name) allFields)) (remdups (map fi_name allFields))"

section \<open>The fingerprint table\<close>

definition fieldKeyFingerprint :: "bytes \<Rightarrow> uint" where
  "fieldKeyFingerprint key =
     (let n = length key;
          fp = push_bit 32 (word_of_nat (n + 1)) :: uint;
          fp = (if n > 0 then fp OR push_bit 24 (ucast (key ! 0)) OR push_bit 16 (ucast (key ! (n - 1))) else fp)
      in if n > 1 then fp OR push_bit 8 (ucast (key ! 1)) OR ucast (key ! (n - 2)) else fp)"

type_synonym table = "(uint \<times> fieldInfo option) list"

definition home :: "uint \<Rightarrow> uint \<Rightarrow> uint" where
  "home fingerprint msk = (fingerprint XOR drop_bit 16 fingerprint XOR drop_bit 32 fingerprint) AND msk"

definition tableMask :: "nat \<Rightarrow> uint" where
  "tableMask n = word_of_nat (n - 1)"

text \<open>
  The probe shared by insertion and lookup: the first entry from \<open>path\<close> on that is free or has the
  fingerprint. The code's loop has no bound; here \<open>None\<close> says that a whole round found no such entry.
\<close>

fun probe :: "nat \<Rightarrow> table \<Rightarrow> uint \<Rightarrow> uint \<Rightarrow> uint \<Rightarrow> nat option" where
  "probe 0 t msk fp path = None"
| "probe (Suc k) t msk fp path =
     (if fst (t ! unat path) = 0 \<or> fst (t ! unat path) = fp then Some (unat path)
      else probe k t msk fp ((path + 1) AND msk))"

fun tableSize :: "nat \<Rightarrow> nat \<Rightarrow> nat" where
  "tableSize 0 n = 1"
| "tableSize (Suc k) n = (let s = tableSize k n in if s < n * 2 then s * 2 else s)"

definition insertField :: "table \<Rightarrow> fieldInfo \<Rightarrow> table" where
  "insertField t f =
     (let fp = fieldKeyFingerprint (fi_name f); msk = tableMask (length t) in
      case probe (length t) t msk fp (home fp msk) of
        None \<Rightarrow> t
      | Some i \<Rightarrow> if fst (t ! i) \<noteq> 0 then t[i := (fst (t ! i), None)] else t[i := (fp, Some f)])"

definition makeFingerprintFields :: "fieldInfo list \<Rightarrow> table" where
  "makeFingerprintFields infos = foldl insertField (replicate (tableSize (length infos) (length infos)) (0, None)) infos"

record fieldsType =
  validationErr :: "gerr option"
  namedFields :: "fieldInfo list"
  fingerprintFields :: table

text \<open>\<open>fieldForFingerprint\<close>: \<open>None\<close> is \<open>ok = false\<close>.\<close>

definition fieldForFingerprint :: "fieldsType \<Rightarrow> uint \<Rightarrow> fieldInfo option option" where
  "fieldForFingerprint fs fp =
     (let t = fingerprintFields fs; msk = tableMask (length t) in
      case probe (length t) t msk fp (home fp msk) of
        None \<Rightarrow> None
      | Some i \<Rightarrow> if fst (t ! i) = 0 then None else Some (snd (t ! i)))"

definition named :: "fieldsType \<Rightarrow> gostring \<Rightarrow> fieldInfo option" where
  "named fs key = find (\<lambda>f. fi_name f = key) (namedFields fs)"

definition fieldForKey :: "fieldsType \<Rightarrow> bytes \<Rightarrow> fieldInfo option" where
  "fieldForKey fs key =
     (case fieldForFingerprint fs (fieldKeyFingerprint key) of
        None \<Rightarrow> None
      | Some field \<Rightarrow>
          (case field of
             None \<Rightarrow> named fs key
           | Some f \<Rightarrow> if fi_name f \<noteq> key then named fs key else Some f))"

text \<open>The hint for the offset of a key: a field stored there before, checked against the whole key.\<close>

definition fieldForOffset :: "fieldsType \<Rightarrow> fieldInfo option \<Rightarrow> bytes \<Rightarrow> fieldInfo option" where
  "fieldForOffset fs hint key =
     (case hint of
        Some f \<Rightarrow> if fi_name f = key then Some f else fieldForKey fs key
      | None \<Rightarrow> fieldForKey fs key)"

definition makeStructFields :: "Type \<Rightarrow> fieldsType" where
  "makeStructFields rootType =
     (let st = collectFields \<lparr>sc_queue = [(rootType, [], 0)], sc_seen = [rootType], sc_fields = [], sc_error = None\<rparr>;
          infos = resolveNames (sc_fields st)
      in \<lparr>validationErr = sc_error st, namedFields = infos, fingerprintFields = makeFingerprintFields infos\<rparr>)"

section \<open>Every index path leads to its field\<close>

definition path_struct :: "Type \<Rightarrow> nat list \<Rightarrow> Type option" where
  "path_struct t p = (if p = [] then Some t else Option.bind (path_type t p) getEmbeddedStructType)"

lemma path_type_snoc:
  "path_struct t p = Some t' \<Longrightarrow> i < length (struct_fields t') \<Longrightarrow> path_type t (p @ [i]) = Some (fd_Type (struct_fields t' ! i))"
proof (induction p arbitrary: t)
  case (Cons j p)
  then have j: "j < length (struct_fields t)" by (auto simp: path_struct_def bind_eq_Some_conv split: if_splits)
  obtain t1 where t1: "getEmbeddedStructType (fd_Type (struct_fields t ! j)) = Some t1" and "path_struct t1 p = Some t'"
    using Cons.prems(1) j by (cases "p = []") (auto simp: path_struct_def bind_eq_Some_conv)
  then show ?case using Cons.IH [of t1] Cons.prems(2) j by simp
qed (simp add: path_struct_def)

definition scan_ok :: "Type \<Rightarrow> scan \<Rightarrow> bool" where
  "scan_ok root st \<longleftrightarrow>
     (\<forall>e \<in> set (sc_queue st). path_struct root (fst (snd e)) = Some (fst e)) \<and>
     (\<forall>f \<in> set (sc_fields st). fi_index f \<noteq> [] \<and> path_type root (fi_index f) = Some (fi_type f) \<and>
        (\<exists>opts. fi_dispatch f = field_dispatch opts (fi_type f)) \<and>
        fi_maxSizeKinds f = (case maxSizeKindsForType (fi_type f) of Some kinds \<Rightarrow> kinds | None \<Rightarrow> 0)) \<and>
     (\<forall>e. sc_error st = Some e \<longrightarrow> root_error e \<noteq> Panic)"

lemma fieldError_plain:
  "fieldError f err = Some e \<Longrightarrow> \<forall>e. err = Some e \<longrightarrow> root_error e \<noteq> Panic \<Longrightarrow> root_error e \<noteq> Panic"
  by (auto simp: fieldError_def Let_def split: if_splits option.splits sum.splits)

lemma makeFieldInfo_simps [simp]: "fi_type (makeFieldInfo f path depth) = fd_Type f" "fi_index (makeFieldInfo f path depth) = path"
  "fi_dispatch (makeFieldInfo f path depth) = field_dispatch (tagOptions f) (fd_Type f)"
  "fi_maxSizeKinds (makeFieldInfo f path depth) = (case maxSizeKindsForType (fd_Type f) of Some kinds \<Rightarrow> kinds | None \<Rightarrow> 0)"
  by (simp_all add: makeFieldInfo_def Let_def)

lemma scanField_ok:
  assumes "scan_ok root st" and "path_type root (path @ [i]) = Some (fd_Type f)"
  shows "scan_ok root (scanField f (path @ [i]) depth st)"
proof -
  have err: "\<forall>e. fieldError f (sc_error st) = Some e \<longrightarrow> root_error e \<noteq> Panic"
    using assms(1) fieldError_plain [of f "sc_error st"] by (simp add: scan_ok_def)
  show ?thesis
    using assms err by (auto simp: scan_ok_def scanField_def Let_def path_struct_def split: if_splits option.splits)
qed

lemma scanFields_ok:
  assumes "path_struct root path = Some t"
  shows "scan_ok root st \<Longrightarrow> i + length fs = length (struct_fields t) \<Longrightarrow> fs = drop i (struct_fields t) \<Longrightarrow>
    scan_ok root (scanFields i fs path depth st)"
proof (induction fs arbitrary: i st)
  case (Cons f fs)
  have i: "i < length (struct_fields t)" using Cons.prems(2) by simp
  then have "f # fs = struct_fields t ! i # drop (i + 1) (struct_fields t)"
    using Cons.prems(3) Cons_nth_drop_Suc [OF i] by simp
  then have f: "f = struct_fields t ! i" and rest: "fs = drop (i + 1) (struct_fields t)" by blast+
  show ?case
    using Cons.IH [OF scanField_ok [OF Cons.prems(1), of path i f depth], of "i + 1"] Cons.prems(2) f rest path_type_snoc [OF assms i]
    by simp
qed simp

lemma collectFields_ok: "scan_ok root st \<Longrightarrow> scan_ok root (collectFields st)"
proof (induction st rule: collectFields.induct)
  case (1 st)
  show ?case
  proof (cases "sc_queue st")
    case Nil
    then show ?thesis using 1 by (simp add: collectFields.simps [of st])
  next
    case (Cons e queue)
    obtain t path depth where e: "e = (t, path, depth)" by (cases e) auto
    have "path_struct root path = Some t" and "scan_ok root (st\<lparr>sc_queue := queue\<rparr>)"
      using 1(2) Cons e by (auto simp: scan_ok_def)
    then have "scan_ok root (scanFields 0 (struct_fields t) path depth (st\<lparr>sc_queue := queue\<rparr>))"
      using scanFields_ok [of root path t _ 0 "struct_fields t"] by simp
    then show ?thesis using 1(1) [OF Cons e [symmetric] refl] Cons e by (simp add: collectFields.simps [of st])
  qed
qed

text \<open>
  The rank of a field among those of its name: by depth first, fields named by a tag before others.
  The dominant field is the first of those with the least rank.
\<close>

definition precedence :: "fieldInfo \<Rightarrow> nat" where
  "precedence f = 2 * fi_depth f + (if fi_hasTag f then 0 else 1)"

lemma displaces_precedence: "displaces c d \<longleftrightarrow> precedence c < precedence d"
  by (auto simp: displaces_def precedence_def)

definition first_least :: "fieldInfo list \<Rightarrow> fieldInfo \<Rightarrow> bool" where
  "first_least xs d \<longleftrightarrow>
     (\<exists>ys zs. xs = ys @ d # zs \<and> (\<forall>f \<in> set ys. precedence d < precedence f) \<and> (\<forall>f \<in> set zs. precedence d \<le> precedence f))"

lemma first_least_snoc:
  assumes "first_least xs d"
  shows "first_least (xs @ [y]) (if displaces y d then y else d)"
proof -
  from assms obtain ys zs where xs: "xs = ys @ d # zs" "\<forall>f \<in> set ys. precedence d < precedence f"
    "\<forall>f \<in> set zs. precedence d \<le> precedence f" by (auto simp: first_least_def)
  show ?thesis
  proof (cases "displaces y d")
    case True
    then have "\<forall>f \<in> set xs. precedence y < precedence f" using xs by (fastforce simp: displaces_precedence)
    then show ?thesis using True unfolding first_least_def by (intro exI [of _ xs] exI [of _ "[]"]) simp
  next
    case False
    then have "\<forall>f \<in> set (zs @ [y]). precedence d \<le> precedence f" using xs(3) by (auto simp: displaces_precedence)
    then show ?thesis using False xs(1,2) unfolding first_least_def
      by (intro exI [of _ ys] exI [of _ "zs @ [y]"]) simp
  qed
qed

lemma dominantField_first:
  assumes "xs \<noteq> []"
  shows "first_least xs (dominantField xs)"
proof -
  have "first_least (y # ys) (foldl (\<lambda>d c. if displaces c d then c else d) y ys)" for y ys
  proof (induction ys rule: rev_induct)
    case Nil
    show ?case by (auto simp: first_least_def intro!: exI [of _ "[]"])
  next
    case (snoc z ys)
    then show ?case using first_least_snoc by fastforce
  qed
  then show ?thesis using assms by (cases xs) (simp_all add: dominantField_def)
qed

lemma dominantField_in: "xs \<noteq> [] \<Longrightarrow> dominantField xs \<in> set xs"
  using dominantField_first [of xs] unfolding first_least_def by (metis in_set_conv_decomp)

lemma dominant_named:
  assumes "n \<in> fi_name ` set xs"
  shows "dominantField (filter (\<lambda>f. fi_name f = n) xs) \<in> set xs"
    and "fi_name (dominantField (filter (\<lambda>f. fi_name f = n) xs)) = n"
  using dominantField_in [of "filter (\<lambda>f. fi_name f = n) xs"] assms by (auto simp: filter_empty_conv)

lemma resolveNames_in: "f \<in> set (resolveNames xs) \<Longrightarrow> f \<in> set xs"
  using dominant_named(1) by (auto simp: resolveNames_def)

lemma resolveNames_names: "map fi_name (resolveNames xs) = remdups (map fi_name xs)"
  using dominant_named(2) by (auto simp: resolveNames_def intro!: map_idI)

lemma makeStructFields_scan:
  "scan_ok t (collectFields \<lparr>sc_queue = [(t, [], 0)], sc_seen = [t], sc_fields = [], sc_error = None\<rparr>)"
  by (rule collectFields_ok) (simp add: scan_ok_def path_struct_def)

lemma makeStructFields_error: "validationErr (makeStructFields t) = Some e \<Longrightarrow> root_error e \<noteq> Panic"
  using makeStructFields_scan [of t] by (simp add: scan_ok_def makeStructFields_def Let_def)

lemma makeStructFields_path:
  assumes "f \<in> set (namedFields (makeStructFields t))"
  shows "path_type t (fi_index f) = Some (fi_type f)" and "fi_index f \<noteq> []"
    and "\<exists>opts. fi_dispatch f = field_dispatch opts (fi_type f)"
    and "fi_maxSizeKinds f = (case maxSizeKindsForType (fi_type f) of Some kinds \<Rightarrow> kinds | None \<Rightarrow> 0)"
  using resolveNames_in [of f] makeStructFields_scan [of t] assms by (auto simp: scan_ok_def makeStructFields_def Let_def)

text \<open>A field with a size limit has kinds that limits are supported for.\<close>

lemma limited_kinds:
  assumes "f \<in> set (namedFields (makeStructFields t))" and "fi_dispatch f = dispatchMaxSize"
  shows "fi_maxSizeKinds f \<noteq> 0" and "fi_maxSizeKinds f AND NOT supportedMaxSizeKinds = 0"
proof -
  obtain opts where "fi_dispatch f = field_dispatch opts (fi_type f)" using makeStructFields_path(3) [OF assms(1)] by blast
  then obtain kinds where k: "maxSizeKindsForType (fi_type f) = Some kinds"
    using assms(2) by (auto simp: field_dispatch_def split: if_splits Type.splits)
  then have "kinds \<in> {NewKindSet [KindMap], NewKindSet [KindBytes, KindSlice], NewKindSet [KindSlice], NewKindSet [KindString]}"
    by (auto simp: maxSizeKindsForType_def split: Type.splits if_splits)
  moreover have "\<forall>s \<in> set [NewKindSet [KindMap], NewKindSet [KindBytes, KindSlice], NewKindSet [KindSlice], NewKindSet [KindString]].
      s \<noteq> 0 \<and> s AND NOT supportedMaxSizeKinds = 0" by code_simp
  ultimately have "kinds \<noteq> 0 \<and> kinds AND NOT supportedMaxSizeKinds = 0" by auto
  then show "fi_maxSizeKinds f \<noteq> 0" and "fi_maxSizeKinds f AND NOT supportedMaxSizeKinds = 0"
    using makeStructFields_path(4) [OF assms(1)] k by simp_all
qed

section \<open>Probing\<close>

lemma mask_and:
  assumes "j < 64"
  shows "unat (x AND tableMask (2 ^ j)) = unat x mod 2 ^ j"
proof -
  have "tableMask (2 ^ j) = mask j"
    by (simp add: tableMask_def mask_eq_exp_minus_1 of_nat_diff)
  then have "x AND tableMask (2 ^ j) = take_bit j x" by (simp add: take_bit_eq_mask)
  moreover have "unat (take_bit j x) = take_bit j (unat x)" by (rule unsigned_take_bit_eq)
  ultimately show ?thesis by (simp only: take_bit_eq_mod)
qed

definition next_index :: "nat \<Rightarrow> nat \<Rightarrow> nat" where
  "next_index j i = (i + 1) mod 2 ^ j"

lemma unat_next_index:
  assumes "j < 64"
  shows "unat ((w + 1) AND tableMask (2 ^ j)) = (unat w + 1) mod 2 ^ j"
proof -
  have "unat (w + 1) = (unat w + 1) mod 2 ^ 64" by (simp add: unat_word_ariths)
  moreover have "(2 :: nat) ^ j dvd 2 ^ 64" using assms by (intro le_imp_power_dvd) simp
  ultimately show ?thesis using mask_and [OF assms, of "w + 1"] by (simp add: mod_mod_cancel)
qed

text \<open>A round of probes that finds nothing has seen every entry taken.\<close>

lemma probe_None:
  assumes "j < 64"
  shows "unat w < 2 ^ j \<Longrightarrow> probe k t (tableMask (2 ^ j)) fp w = None \<Longrightarrow> m < k \<Longrightarrow> fst (t ! ((unat w + m) mod 2 ^ j)) \<noteq> 0"
proof (induction k arbitrary: w m)
  case (Suc k)
  have n: "unat ((w + 1) AND tableMask (2 ^ j)) = (unat w + 1) mod 2 ^ j" by (rule unat_next_index [OF assms])
  show ?case
  proof (cases m)
    case 0
    then show ?thesis using Suc.prems by (auto split: if_splits)
  next
    case (Suc m')
    have "fst (t ! (((unat w + 1) mod 2 ^ j + m') mod 2 ^ j)) \<noteq> 0"
      using Suc.IH [of "(w + 1) AND tableMask (2 ^ j)" m'] Suc.prems Suc n by (auto split: if_splits)
    then show ?thesis using Suc by (simp add: mod_add_left_eq)
  qed
qed simp

lemma probe_found:
  assumes "j < 64" and "length t = 2 ^ j" and "unat w < 2 ^ j" and "i < 2 ^ j" and "fst (t ! i) = 0"
  shows "probe (length t) t (tableMask (2 ^ j)) fp w \<noteq> None"
proof
  assume none: "probe (length t) t (tableMask (2 ^ j)) fp w = None"
  define m where "m = (if unat w \<le> i then i - unat w else i + 2 ^ j - unat w)"
  have "m < length t" and "(unat w + m) mod 2 ^ j = i" using assms(2-4) by (auto simp: m_def)
  with probe_None [OF assms(1,3) none] assms(5) show False by metis
qed

lemma probe_Some:
  "probe k t msk fp w = Some i \<Longrightarrow> fst (t ! i) = 0 \<or> fst (t ! i) = fp"
  by (induction k arbitrary: w) (auto split: if_splits)

lemma probe_less:
  assumes "j < 64" 
  shows "unat w < 2 ^ j \<Longrightarrow> probe k t (tableMask (2 ^ j)) fp w = Some i \<Longrightarrow> i < 2 ^ j"
proof (induction k arbitrary: w)
  case (Suc k)
  then show ?case
    using Suc.IH [of "(w + 1) AND tableMask (2 ^ j)"] unat_next_index [OF assms, of w] by (auto split: if_splits)
qed simp

text \<open>Filling a free entry leaves the probes of the fingerprints found before alone.\<close>

lemma probe_update:
  assumes "fst (t ! l) = 0" and "fst (t ! i) \<noteq> 0" and "l < length t"
  shows "probe k t msk fp w = Some i \<Longrightarrow> probe k (t[l := e]) msk fp w = Some i"
proof (induction k arbitrary: w)
  case (Suc k)
  then show ?case
    using assms by (cases "unat w = l") (auto split: if_splits)
qed simp

lemma probe_self:
  assumes "i < length t" and "fst (t ! i) = 0"
  shows "probe k t msk fp w = Some i \<Longrightarrow> probe k (t[i := (fp, x)]) msk fp w = Some i"
proof (induction k arbitrary: w)
  case (Suc k)
  then show ?case using assms by (cases "unat w = i") (auto split: if_splits)
qed simp

lemma probe_snd: "l < length t \<Longrightarrow> fst e = fst (t ! l) \<Longrightarrow> probe k (t[l := e]) msk fp w = probe k t msk fp w"
  by (induction k arbitrary: w) (auto simp: nth_list_update)

section \<open>The table finds every name\<close>

lemma fingerprint_nonzero:
  assumes "length key < 2 ^ 32 - 1"
  shows "fieldKeyFingerprint key \<noteq> 0"
proof -
  define n where "n = length key + 1"
  have n: "0 < n" "n < 2 ^ 32" using assms by (simp_all add: n_def)
  have "unat (word_of_nat n :: uint) = n" using n by (simp add: unat_of_nat take_bit_nat_eq_self)
  then have "unat (word_of_nat n * 2 ^ 32 :: uint) = n * 2 ^ 32"
    using n by (subst unat_mult_lem [THEN iffD1]) simp_all
  then have "(push_bit 32 (word_of_nat (length key + 1)) :: uint) \<noteq> 0"
    using n(1) unfolding n_def [symmetric] push_bit_eq_mult by auto
  then show ?thesis by (simp add: fieldKeyFingerprint_def Let_def or_eq_0_iff)
qed

text \<open>A table of size \<open>2 ^ j\<close> with the fields of \<open>S\<close>.\<close>

definition table_ok :: "nat \<Rightarrow> table \<Rightarrow> fieldInfo list \<Rightarrow> bool" where
  "table_ok j t S \<longleftrightarrow> length t = 2 ^ j \<and> length (filter (\<lambda>e. fst e \<noteq> 0) t) \<le> length S \<and>
     (\<forall>f. Some f \<in> snd ` set t \<longrightarrow> f \<in> set S) \<and>
     (\<forall>f \<in> set S. \<exists>i. probe (length t) t (tableMask (2 ^ j)) (fieldKeyFingerprint (fi_name f))
        (home (fieldKeyFingerprint (fi_name f)) (tableMask (2 ^ j))) = Some i \<and>
        fst (t ! i) = fieldKeyFingerprint (fi_name f))"

lemma home_less: "j < 64 \<Longrightarrow> unat (home fp (tableMask (2 ^ j))) < 2 ^ j"
  by (simp add: home_def mask_and)

lemma free_entry:
  assumes "length (filter (\<lambda>e. fst e \<noteq> (0 :: uint)) t) < length t"
  obtains i where "i < length t" and "fst (t ! i) = 0"
proof -
  have "\<exists>e \<in> set t. fst e = 0"
  proof (rule ccontr)
    assume "\<not> (\<exists>e \<in> set t. fst e = 0)"
    then have "filter (\<lambda>e. fst e \<noteq> 0) t = t" by (simp add: filter_id_conv)
    with assms show False by simp
  qed
  then show thesis using that by (auto simp: in_set_conv_nth)
qed

lemma filter_update_length:
  "i < length t \<Longrightarrow> length (filter P (t[i := e])) \<le> Suc (length (filter P t))"
  by (induction t arbitrary: i) (auto split: nat.splits)

lemma filter_update_same:
  "i < length t \<Longrightarrow> P e = P (t ! i) \<Longrightarrow> length (filter P (t[i := e])) = length (filter P t)"
  by (induction t arbitrary: i) (auto split: nat.splits)

lemma updated_stored: "y \<in> snd ` set (t[i := (fp, x)]) \<Longrightarrow> y \<in> snd ` set t \<or> y = x"
  using set_update_subset_insert [of t i "(fp, x)"] by auto

lemma insertField_ok:
  assumes t: "table_ok j t S" and j: "j < 64" and room: "length S < 2 ^ j" and fp: "fieldKeyFingerprint (fi_name f) \<noteq> 0"
    and S: "\<forall>g \<in> set S. fieldKeyFingerprint (fi_name g) \<noteq> 0"
  shows "table_ok j (insertField t f) (f # S)"
proof -
  let ?fp = "fieldKeyFingerprint (fi_name f)" and ?m = "tableMask (2 ^ j)"
  have len: "length t = 2 ^ j" using t by (simp add: table_ok_def)
  have free: "length (filter (\<lambda>e. fst e \<noteq> 0) t) < length t" using t room by (simp add: table_ok_def)
  obtain l where "l < length t" "fst (t ! l) = 0" by (rule free_entry [OF free])
  then obtain i where i: "probe (length t) t ?m ?fp (home ?fp ?m) = Some i"
    using probe_found [OF j len home_less [OF j]] len by (metis option.exhaust)
  have il: "i < length t" using probe_less [OF j home_less [OF j] i] len by simp
  show ?thesis
  proof (cases "fst (t ! i) = 0")
    case True
    have new: "insertField t f = t[i := (?fp, Some f)]" using i True len by (simp add: insertField_def Let_def)
    have "\<exists>l. probe (length t) (t[i := (?fp, Some f)]) ?m (fieldKeyFingerprint (fi_name g)) (home (fieldKeyFingerprint (fi_name g)) ?m) = Some l \<and>
        fst (t[i := (?fp, Some f)] ! l) = fieldKeyFingerprint (fi_name g)" if g: "g \<in> set S" for g
    proof -
      obtain l where l: "probe (length t) t ?m (fieldKeyFingerprint (fi_name g)) (home (fieldKeyFingerprint (fi_name g)) ?m) = Some l"
        "fst (t ! l) = fieldKeyFingerprint (fi_name g)" using t g by (auto simp: table_ok_def)
      have "fst (t ! l) \<noteq> 0" using l(2) S g by simp
      then show ?thesis using probe_update [OF True _ il l(1)] l(2) True by (cases "l = i") auto
    qed
    moreover have "probe (length t) (t[i := (?fp, Some f)]) ?m ?fp (home ?fp ?m) = Some i"
      by (rule probe_self [OF il True i])
    moreover have "length (filter (\<lambda>e. fst e \<noteq> 0) (t[i := (?fp, Some f)])) \<le> Suc (length S)"
      using filter_update_length [OF il, of "\<lambda>e. fst e \<noteq> 0" "(?fp, Some f)"] t by (simp add: table_ok_def)
    moreover have "\<forall>g. Some g \<in> snd ` set (t[i := (?fp, Some f)]) \<longrightarrow> g \<in> set (f # S)"
      using t updated_stored [of _ t i ?fp "Some f"] by (auto simp: table_ok_def)
    ultimately show ?thesis using len il by (auto simp: table_ok_def new)
  next
    case False
    then have fi: "fst (t ! i) = ?fp" using probe_Some [OF i] by simp
    have new: "insertField t f = t[i := (?fp, None)]" using i False len fi by (simp add: insertField_def Let_def)
    have p: "probe (length t) (t[i := (?fp, None)]) ?m x w = probe (length t) t ?m x w" for x w
      using probe_snd [OF il, of "(?fp, None)"] fi by simp
    have n: "fst (t[i := (?fp, None)] ! l) = fst (t ! l)" if "l < length t" for l
      using that fi by (cases "l = i") auto
    have "\<exists>l. probe (length t) (t[i := (?fp, None)]) ?m (fieldKeyFingerprint (fi_name g)) (home (fieldKeyFingerprint (fi_name g)) ?m) = Some l \<and>
        fst (t[i := (?fp, None)] ! l) = fieldKeyFingerprint (fi_name g)" if g: "g \<in> set S" for g
    proof -
      obtain l where l: "probe (length t) t ?m (fieldKeyFingerprint (fi_name g)) (home (fieldKeyFingerprint (fi_name g)) ?m) = Some l"
        "fst (t ! l) = fieldKeyFingerprint (fi_name g)" using t g by (auto simp: table_ok_def)
      have "l < length t" using probe_less [OF j home_less [OF j] l(1)] len by simp
      then show ?thesis using l by (intro exI [of _ l]) (simp only: p n)
    qed
    moreover have "length (filter (\<lambda>e. fst e \<noteq> 0) (t[i := (?fp, None)])) \<le> Suc (length S)"
      using filter_update_same [OF il, of "\<lambda>e. fst e \<noteq> 0" "(?fp, None)"] t fi by (simp add: table_ok_def)
    moreover have "\<forall>g. Some g \<in> snd ` set (t[i := (?fp, None)]) \<longrightarrow> g \<in> set (f # S)"
      using t updated_stored [of _ t i ?fp None] by (auto simp: table_ok_def)
    moreover have "\<exists>l. probe (length t) (t[i := (?fp, None)]) ?m ?fp (home ?fp ?m) = Some l \<and> fst (t[i := (?fp, None)] ! l) = ?fp"
      using i il by (intro exI [of _ i]) (simp add: p)
    ultimately show ?thesis using len by (simp add: table_ok_def new)
  qed
qed

lemma tableSize_bounds:
  "\<exists>j. tableSize k n = 2 ^ j" "min (2 * n) (2 ^ k) \<le> tableSize k n" "tableSize k n \<le> max 1 (4 * n)"
  by (induction k) (auto simp: Let_def intro: exI [of _ 0] exI [of _ "Suc j" for j])

lemma double_le_power: "0 < n \<Longrightarrow> 2 * n \<le> (2 :: nat) ^ n"
proof (induction n)
  case (Suc n)
  then show ?case by (cases "n = 0") auto
qed simp

lemma tableSize_fits:
  assumes "n < 2 ^ 61"
  obtains j where "tableSize n n = 2 ^ j" and "j < 64" and "n < 2 ^ j"
proof -
  obtain j where j: "tableSize n n = 2 ^ j" using tableSize_bounds(1) by blast
  have "(2 :: nat) ^ j \<le> max 1 (4 * n)" using tableSize_bounds(3) [of n n] by (simp add: j)
  also have "\<dots> < 2 ^ 64" using assms by simp
  finally have "j < 64" by (rule power_less_imp_less_exp [rotated]) simp
  moreover have "n < 2 ^ j"
  proof (cases "n = 0")
    case False
    then have "2 * n \<le> 2 ^ j" using tableSize_bounds(2) [of n n] double_le_power [of n] by (simp add: j)
    then show ?thesis using False by simp
  qed simp
  ultimately show thesis using that j by blast
qed

lemma insert_all_ok:
  "table_ok j t S \<Longrightarrow> j < 64 \<Longrightarrow> length S + length fs < 2 ^ j \<Longrightarrow>
     \<forall>f \<in> set (fs @ S). fieldKeyFingerprint (fi_name f) \<noteq> 0 \<Longrightarrow> table_ok j (foldl insertField t fs) (rev fs @ S)"
proof (induction fs arbitrary: t S)
  case (Cons f fs)
  then show ?case using Cons.IH [OF insertField_ok [OF Cons.prems(1,2)]] by simp
qed simp

lemma makeFingerprintFields_ok:
  assumes "length fs < 2 ^ 61" and "\<forall>f \<in> set fs. length (fi_name f) < 2 ^ 32 - 1"
  obtains j where "j < 64" and "table_ok j (makeFingerprintFields fs) (rev fs)"
proof -
  obtain j where j: "tableSize (length fs) (length fs) = 2 ^ j" "j < 64" "length fs < 2 ^ j"
    using tableSize_fits [OF assms(1)] .
  have "table_ok j (replicate (2 ^ j) (0, None)) []" by (simp add: table_ok_def)
  from insert_all_ok [OF this j(2), of fs] show thesis
    using that j fingerprint_nonzero assms(2) by (simp add: makeFingerprintFields_def)
qed

lemma find_distinct:
  "distinct (map g xs) \<Longrightarrow> find (\<lambda>f. g f = key) xs = Some f \<longleftrightarrow> f \<in> set xs \<and> g f = key"
  by (induction xs) auto

lemma named_iff:
  "distinct (map fi_name (namedFields fs)) \<Longrightarrow> named fs key = Some f \<longleftrightarrow> f \<in> set (namedFields fs) \<and> fi_name f = key"
  unfolding named_def by (rule find_distinct)

lemma named_in: "named fs key = Some f \<Longrightarrow> f \<in> set (namedFields fs)"
  by (auto simp: named_def find_Some_iff)

text \<open>What the table holds are fields that were inserted.\<close>

lemma insertField_stored:
  "Some g \<in> snd ` set (insertField t f) \<Longrightarrow> Some g \<in> snd ` set t \<or> g = f"
  using set_update_subset_insert by (fastforce simp: insertField_def Let_def split: option.splits if_splits)

lemma makeFingerprintFields_stored: "Some g \<in> snd ` set (makeFingerprintFields fs) \<Longrightarrow> g \<in> set fs"
proof -
  have "Some g \<in> snd ` set (foldl insertField t fs) \<Longrightarrow> Some g \<in> snd ` set t \<or> g \<in> set fs" for t
  proof (induction fs arbitrary: t)
    case (Cons f fs)
    then show ?case using insertField_stored [of g t f] by fastforce
  qed simp
  then show "Some g \<in> snd ` set (makeFingerprintFields fs) \<Longrightarrow> g \<in> set fs"
    by (fastforce simp: makeFingerprintFields_def)
qed

lemma insertField_length [simp]: "length (insertField t f) = length t"
  by (simp add: insertField_def Let_def split: option.split)

lemma makeFingerprintFields_nonempty: "0 < length (makeFingerprintFields fs)"
proof -
  have "length (foldl insertField t fs) = length t" for t by (induction fs arbitrary: t) simp_all
  moreover obtain j where "tableSize (length fs) (length fs) = 2 ^ j" using tableSize_bounds(1) by blast
  ultimately show ?thesis by (simp add: makeFingerprintFields_def)
qed

lemma probe_in_mask: "w \<le> msk \<Longrightarrow> probe k t msk fp w = Some i \<Longrightarrow> i \<le> unat msk"
proof (induction k arbitrary: w)
  case (Suc k)
  show ?case
  proof (cases "unat w = i")
    case True
    then show ?thesis using Suc.prems(1) by (simp add: word_le_nat_alt)
  next
    case False
    then have "probe k t msk fp ((w + 1) AND msk) = Some i" using Suc.prems(2) by (simp split: if_splits)
    then show ?thesis by (rule Suc.IH [OF word_and_le1])
  qed
qed simp

lemma probed_inside:
  assumes "0 < length t" and "probe k t (tableMask (length t)) fp (home fp (tableMask (length t))) = Some i"
  shows "i < length t"
proof -
  have "i \<le> unat (tableMask (length t))"
    using assms(2) by (rule probe_in_mask [rotated]) (simp add: home_def word_and_le1)
  also have "\<dots> \<le> length t - 1" by (simp add: tableMask_def unat_of_nat take_bit_nat_def)
  finally show ?thesis using assms(1) by linarith
qed

text \<open>
  The field table gives the field of the key, in whatever order the code's map iteration filled it.
\<close>

lemma fieldForKey_cases:
  assumes "fieldForKey fs key = Some f" and "fingerprintFields fs = makeFingerprintFields order"
  shows "named fs key = Some f \<or> f \<in> set order \<and> fi_name f = key"
proof (cases "named fs key = Some f")
  case False
  let ?t = "makeFingerprintFields order" and ?fp = "fieldKeyFingerprint key"
  obtain i where i: "probe (length ?t) ?t (tableMask (length ?t)) ?fp (home ?fp (tableMask (length ?t))) = Some i"
    "snd (?t ! i) = Some f" "fi_name f = key"
    using assms False by (auto simp: fieldForKey_def fieldForFingerprint_def Let_def split: option.splits if_splits)
  have "i < length ?t" by (rule probed_inside [OF makeFingerprintFields_nonempty i(1)])
  then have "Some f \<in> snd ` set ?t" using i(2) by (metis image_eqI nth_mem)
  then show ?thesis using makeFingerprintFields_stored i(3) by blast
qed simp

lemma fieldForKey_eq:
  assumes names: "distinct (map fi_name (namedFields fs))" and size: "length order < 2 ^ 61"
    and short: "\<forall>f \<in> set order. length (fi_name f) < 2 ^ 32 - 1"
    and table: "fingerprintFields fs = makeFingerprintFields order" and order: "set order = set (namedFields fs)"
  shows "fieldForKey fs key = named fs key"
proof (cases "named fs key")
  case None
  have "fieldForKey fs key \<noteq> Some f" for f
  proof
    assume "fieldForKey fs key = Some f"
    from fieldForKey_cases [OF this table] None have "f \<in> set (namedFields fs)" "fi_name f = key" by (simp_all add: order)
    then show False using named_iff [OF names, of key f] None by simp
  qed
  then show ?thesis using None by (cases "fieldForKey fs key") auto
next
  case (Some f)
  let ?t = "makeFingerprintFields order" and ?fp = "fieldKeyFingerprint key"
  have f: "f \<in> set order" "fi_name f = key" using Some named_iff [OF names] order by simp_all
  obtain j where j: "j < 64" and ok: "table_ok j ?t (rev order)" using makeFingerprintFields_ok [OF size short] .
  obtain i where i: "probe (length ?t) ?t (tableMask (length ?t)) ?fp (home ?fp (tableMask (length ?t))) = Some i"
    "fst (?t ! i) = ?fp" using ok f by (auto simp: table_ok_def)
  have found: "fieldForFingerprint fs ?fp = Some (snd (?t ! i))"
    using i fingerprint_nonzero [of key] short f by (auto simp: fieldForFingerprint_def table Let_def)
  have same: "g = f" if "fieldForKey fs key = Some g" for g
  proof -
    have "named fs key = Some g" using fieldForKey_cases [OF that table] named_iff [OF names, of key g] order by blast
    then show ?thesis using Some by simp
  qed
  show ?thesis
  proof (cases "snd (?t ! i)")
    case None
    then show ?thesis by (simp add: fieldForKey_def found)
  next
    case stored: (Some g)
    then have look: "fieldForKey fs key = (if fi_name g \<noteq> key then named fs key else Some g)"
      by (simp add: fieldForKey_def found)
    show ?thesis
    proof (cases "fi_name g = key")
      case True
      then have "fieldForKey fs key = Some g" using look by simp
      then show ?thesis using same Some by simp
    qed (simp add: look)
  qed
qed

lemma makeStructFields_names: "distinct (map fi_name (namedFields (makeStructFields t)))"
  by (simp add: makeStructFields_def Let_def resolveNames_names)

lemma makeStructFields_table: "fingerprintFields (makeStructFields t) = makeFingerprintFields (namedFields (makeStructFields t))"
  by (simp add: makeStructFields_def Let_def)

lemma fieldForKey_in: "fieldForKey (makeStructFields t) key = Some f \<Longrightarrow> f \<in> set (namedFields (makeStructFields t))"
  using fieldForKey_cases [OF _ makeStructFields_table] named_in by blast

text \<open>A hint is transparent, whichever field of the table it is.\<close>

lemma fieldForOffset_eq:
  assumes "fieldForKey fs key = named fs key" and "distinct (map fi_name (namedFields fs))"
    and "\<forall>f. hint = Some f \<longrightarrow> f \<in> set (namedFields fs)"
  shows "fieldForOffset fs hint key = named fs key"
proof (cases "\<exists>f. hint = Some f \<and> fi_name f = key")
  case True
  then obtain f where f: "hint = Some f" "fi_name f = key" by blast
  then have "named fs key = Some f" using named_iff [OF assms(2), of key f] assms(3) by simp
  then show ?thesis by (simp add: fieldForOffset_def f)
qed (use assms(1) in \<open>auto simp: fieldForOffset_def split: option.split\<close>)

section \<open>The properties\<close>

text \<open>The candidates a struct type has for its fields, in the order of the traversal.\<close>

definition allFields :: "Type \<Rightarrow> fieldInfo list" where
  "allFields t = sc_fields (collectFields \<lparr>sc_queue = [(t, [], 0)], sc_seen = [t], sc_fields = [], sc_error = None\<rparr>)"

lemma namedFields_eq: "namedFields (makeStructFields t) = resolveNames (allFields t)"
  by (simp add: makeStructFields_def allFields_def Let_def)

text \<open>
  C23. The field of a key is the one that takes precedence among all fields of that name: the first in
  the order of the traversal among those of least embedding depth, fields named by a tag first; a key
  without a field is the name of none.
\<close>

theorem struct_field_precedence:
  "case named (makeStructFields t) key of
     None \<Rightarrow> key \<notin> fi_name ` set (allFields t)
   | Some f \<Rightarrow> first_least (filter (\<lambda>g. fi_name g = key) (allFields t)) f"
proof (cases "named (makeStructFields t) key")
  case None
  have "f \<notin> set (namedFields (makeStructFields t)) \<or> fi_name f \<noteq> key" for f
    using named_iff [OF makeStructFields_names, of t key f] None by auto
  then have "key \<notin> set (map fi_name (namedFields (makeStructFields t)))" by auto
  then show ?thesis by (simp add: None namedFields_eq resolveNames_names)
next
  case (Some f)
  then have "f \<in> set (resolveNames (allFields t))" and key: "fi_name f = key"
    using named_iff [OF makeStructFields_names] by (simp_all add: namedFields_eq)
  then obtain n where n: "n \<in> fi_name ` set (allFields t)" "f = dominantField (filter (\<lambda>g. fi_name g = n) (allFields t))"
    by (auto simp: resolveNames_def)
  then have "n = key" using dominant_named(2) [OF n(1)] key by simp
  moreover have "filter (\<lambda>g. fi_name g = n) (allFields t) \<noteq> []" using n(1) by (auto simp: filter_empty_conv)
  ultimately show ?thesis using dominantField_first n(2) by (simp add: Some)
qed

text \<open>
  C24. The table of fingerprints finds the field of every key and no other: in whatever order the
  iteration over the map of names filled it, and whatever field of the struct the hint for the key's
  offset holds, the lookup gives the field that has the key as its name, if there is one.
\<close>

theorem struct_key_lookup:
  assumes "mset order = mset (namedFields (makeStructFields t))" and "length (namedFields (makeStructFields t)) < 2 ^ 61"
    and "\<forall>f \<in> set (namedFields (makeStructFields t)). length (fi_name f) < 2 ^ 32 - 1"
    and "\<forall>f. hint = Some f \<longrightarrow> f \<in> set (namedFields (makeStructFields t))"
  shows "fieldForOffset (makeStructFields t\<lparr>fingerprintFields := makeFingerprintFields order\<rparr>) hint key =
    named (makeStructFields t) key"
proof -
  let ?fs = "makeStructFields t\<lparr>fingerprintFields := makeFingerprintFields order\<rparr>"
  have same: "named ?fs key = named (makeStructFields t) key" for key by (simp add: named_def)
  have "set order = set (namedFields (makeStructFields t))" using assms(1) by (rule mset_eq_setD)
  moreover have "length order = length (namedFields (makeStructFields t))" using assms(1) by (rule mset_eq_length)
  ultimately have "fieldForKey ?fs key = named ?fs key"
    using assms(2,3) makeStructFields_names [of t] by (intro fieldForKey_eq [where order = order]) simp_all
  then show ?thesis
    using fieldForOffset_eq [of ?fs key hint] makeStructFields_names [of t] assms(4) by (simp add: same)
qed

text \<open>Two names of one fingerprint, whose table entry holds no field: the map of names decides.\<close>

theorem struct_key_lookup_witness:
  "map_option fi_type (fieldForOffset
      (makeStructFields (StructT [] [FieldDecl [97, 98, 99, 98, 99] True False None BoolT, FieldDecl [97, 98, 100, 98, 99] True False None StringT])
        \<lparr>fingerprintFields := makeFingerprintFields
          (rev (namedFields (makeStructFields (StructT [] [FieldDecl [97, 98, 99, 98, 99] True False None BoolT, FieldDecl [97, 98, 100, 98, 99] True False None StringT]))))\<rparr>)
      None [97, 98, 100, 98, 99]) = Some StringT"
proof -
  let ?t = "StructT [] [FieldDecl [97, 98, 99, 98, 99] True False None BoolT, FieldDecl [97, 98, 100, 98, 99] True False None StringT]"
  have infos: "length (namedFields (makeStructFields ?t)) = 2" "map fi_name (namedFields (makeStructFields ?t)) =
      [[97, 98, 99, 98, 99], [97, 98, 100, 98, 99]]" by code_simp+
  have "\<forall>f \<in> set (namedFields (makeStructFields ?t)). length (fi_name f) = 5"
  proof
    fix f assume "f \<in> set (namedFields (makeStructFields ?t))"
    then have "fi_name f \<in> set (map fi_name (namedFields (makeStructFields ?t)))" by simp
    then show "length (fi_name f) = 5" unfolding infos(2) by auto
  qed
  moreover have "map_option fi_type (named (makeStructFields ?t) [97, 98, 100, 98, 99]) = Some StringT" by code_simp
  ultimately show ?thesis
    using struct_key_lookup [of "rev (namedFields (makeStructFields ?t))" ?t None "[97, 98, 100, 98, 99]"] infos(1) by simp
qed

end
