(* ===== verification/Reflection.thy ===== *)
theory Reflection
  imports FieldTable Cursor
begin

text \<open>
  Decoding a record into a Go value (\<open>internal/decoder/reflection.go\<close>): the walk over the database
  that is steered by the type and the present value of the destination, with its depth limit and its
  budgets. The types and values of destinations are those of \<open>Destinations\<close>; the dispatch to custom
  unmarshalers never applies to them.

  \<open>decodeFields\<close> is the loop over the keys of a struct without the hints it keeps for the offsets of
  keys: \<open>ReflectionDispatch\<close> has the loop with them and proves that they do not show.

  An operation on a destination takes the value it holds and returns the value it is left with. What
  a failed operation leaves in the destination is not modelled.
\<close>

section \<open>Scalars\<close>

text \<open>
  Every operation returns the value, the offset behind it and the decoder. An \<open>UnmarshalTypeError\<close>
  carries the Go type of the database value only.
\<close>

type_synonym decoded = "(Value \<times> uint \<times> ReflectionDecoder) res"

definition unmarshalBool :: "ReflectionDecoder \<Rightarrow> uint \<Rightarrow> uint \<Rightarrow> Type \<Rightarrow> decoded" where
  "unmarshalBool d sz offset t =
     bindE (decodeBool (dataDecoder d) sz offset) (\<lambda>(val, newOffset).
       if t = BoolT \<or> t = AnyT then Inr (BoolV val, newOffset, d) else Inl (UnmarshalTypeError ''bool''))"

definition unmarshalBytes :: "ReflectionDecoder \<Rightarrow> uint \<Rightarrow> uint \<Rightarrow> Type \<Rightarrow> decoded" where
  "unmarshalBytes d sz offset t =
     bindE (if budgetRemaining d \<noteq> 0 \<and> hasBufferRange (glen (buffer (dataDecoder d))) offset sz
            then reserveExactPayload d sz else Inr d) (\<lambda>d.
     bindE (decodeBytes (dataDecoder d) sz offset) (\<lambda>(val, newOffset).
       if t = SliceT Uint8T \<or> t = AnyT then Inr (BytesV (length val) val, newOffset, d)
       else Inl (UnmarshalTypeError ''[]uint8'')))"

definition unmarshalFloat32 :: "ReflectionDecoder \<Rightarrow> uint \<Rightarrow> uint \<Rightarrow> Type \<Rightarrow> decoded" where
  "unmarshalFloat32 d sz offset t =
     bindE (decodeFloat32 (dataDecoder d) sz offset) (\<lambda>(val, newOffset).
       if t = Float64T then Inr (Float64V (float64_of_float32 val), newOffset, d)
       else if t = AnyT then Inr (Float32V val, newOffset, d)
       else Inl (UnmarshalTypeError ''float32''))"

definition unmarshalFloat64 :: "ReflectionDecoder \<Rightarrow> uint \<Rightarrow> uint \<Rightarrow> Type \<Rightarrow> decoded" where
  "unmarshalFloat64 d sz offset t =
     bindE (decodeFloat64 (dataDecoder d) sz offset) (\<lambda>(val, newOffset).
       if t = Float64T \<or> t = AnyT then Inr (Float64V val, newOffset, d)
       else Inl (UnmarshalTypeError ''float64''))"

definition unmarshalInt32 :: "ReflectionDecoder \<Rightarrow> uint \<Rightarrow> uint \<Rightarrow> Type \<Rightarrow> decoded" where
  "unmarshalInt32 d sz offset t =
     bindE (decodeInt32 (dataDecoder d) sz offset) (\<lambda>(val, newOffset).
       let fail = Inl (UnmarshalTypeError ''int32'') in
       case int_width t of
         Some w \<Rightarrow> if \<not> OverflowInt w (sint val) then Inr (IntV (sint val), newOffset, d) else fail
       | None \<Rightarrow>
           (case uint_width t of
              Some w \<Rightarrow>
                if sint val \<ge> 0 \<and> \<not> OverflowUint w (ucast val) then Inr (UintV (ucast val), newOffset, d) else fail
            | None \<Rightarrow> if t = AnyT then Inr (IntV (sint val), newOffset, d) else fail))"

definition unmarshalString :: "ReflectionDecoder \<Rightarrow> uint \<Rightarrow> uint \<Rightarrow> Type \<Rightarrow> decoded" where
  "unmarshalString d sz offset t =
     (let inRange = hasBufferRange (glen (buffer (dataDecoder d))) offset sz in
      bindE
        (if budgetRemaining d \<noteq> 0 \<and> sz < 29 \<and> offset > 0 \<and> inRange then
           bindE (reserveExactPayload d sz) (\<lambda>d.
           bindE (decodeCompactString (dataDecoder d) sz offset) (\<lambda>(val, dd).
             Inr (val, offset + sz, d\<lparr>dataDecoder := dd\<rparr>)))
         else
           bindE (if budgetRemaining d \<noteq> 0 \<and> inRange then reserveExactPayload d sz else Inr d) (\<lambda>d.
           bindE (decodeString (dataDecoder d) sz offset) (\<lambda>(val, newOffset, dd).
             Inr (val, newOffset, d\<lparr>dataDecoder := dd\<rparr>))))
        (\<lambda>(val, newOffset, d).
           if t = StringT \<or> t = AnyT then Inr (StringV val, newOffset, d)
           else Inl (UnmarshalTypeError ''string'')))"

text \<open>
  The conversion \<open>n := int64(value)\<close> of a \<open>uint64\<close> wraps, and the overflow test that follows looks at
  the wrapped number.
\<close>

definition unmarshalUint :: "ReflectionDecoder \<Rightarrow> uint \<Rightarrow> uint \<Rightarrow> Type \<Rightarrow> nat \<Rightarrow> decoded" where
  "unmarshalUint d sz offset t uintType =
     bindE (if uintType = 16 then bindE (decodeUint16 (dataDecoder d) sz offset) (\<lambda>(v, off). Inr (ucast v, off))
            else if uintType = 32 then bindE (decodeUint32 (dataDecoder d) sz offset) (\<lambda>(v, off). Inr (ucast v, off))
            else decodeUint64 (dataDecoder d) sz offset) (\<lambda>(val :: uint, newOffset).
       let fail = Inl (UnmarshalTypeError ''uint64'') in
       if t = Uint32T \<and> uintType = 32 \<and> val \<le> 0xFFFFFFFF \<or> t = Uint64T \<and> uintType = 64 \<or>
          t = Uint16T \<and> uintType = 16 \<and> val \<le> 0xFFFF \<or> t = Uint8T \<and> uintType = 16 \<and> val \<le> 0xFF
       then Inr (UintV val, newOffset, d)
       else
         case int_width t of
           Some w \<Rightarrow> if \<not> OverflowInt w (sint val) then Inr (IntV (sint val), newOffset, d) else fail
         | None \<Rightarrow>
             (case uint_width t of
                Some w \<Rightarrow> if \<not> OverflowUint w val then Inr (UintV val, newOffset, d) else fail
              | None \<Rightarrow> if t = AnyT then Inr (UintV val, newOffset, d) else fail))"

definition unmarshalUint128 :: "ReflectionDecoder \<Rightarrow> uint \<Rightarrow> uint \<Rightarrow> Type \<Rightarrow> decoded" where
  "unmarshalUint128 d sz offset t =
     bindE (decodeUint128 (dataDecoder d) sz offset) (\<lambda>(hi, lo, newOffset).
       let val = (if hi = 0 then unat lo else (unat hi * 2 ^ 64) OR unat lo) in
       if t = AnyT then Inr (BigIntV val, newOffset, d) else Inl (UnmarshalTypeError ''*big.Int''))"

section \<open>The fast path for scalar elements\<close>

text \<open>\<open>None\<close> is the fast path's \<open>false\<close>: the caller decodes again in general.\<close>

definition fast :: "('a \<times> uint) res \<Rightarrow> ('a \<Rightarrow> Value) \<Rightarrow> ReflectionDecoder \<Rightarrow> (Value \<times> uint \<times> ReflectionDecoder) option" where
  "fast r f d = (case r of Inl _ \<Rightarrow> None | Inr (val, finalOffset) \<Rightarrow> Some (f val, finalOffset, d))"

definition fastUint :: "ReflectionDecoder \<Rightarrow> Kind \<Rightarrow> uint \<Rightarrow> uint \<Rightarrow> Kind \<Rightarrow> (Value \<times> uint \<times> ReflectionDecoder) option" where
  "fastUint d typeNum sz newOffset wanted =
     (if typeNum \<noteq> wanted then None
      else if typeNum = KindUint16 then fast (decodeUint16 (dataDecoder d) sz newOffset) (\<lambda>v. UintV (ucast v)) d
      else if typeNum = KindUint32 then fast (decodeUint32 (dataDecoder d) sz newOffset) (\<lambda>v. UintV (ucast v)) d
      else if typeNum = KindUint64 then fast (decodeUint64 (dataDecoder d) sz newOffset) UintV d
      else None)"

fun tryFastDecodeTyped :: "ReflectionDecoder \<Rightarrow> uint \<Rightarrow> Type \<Rightarrow> (Value \<times> uint \<times> ReflectionDecoder) option" where
  "tryFastDecodeTyped d offset t =
     (case decodeCtrlData (dataDecoder d) offset of
        Inl _ \<Rightarrow> None
      | Inr (typeNum, sz, newOffset) \<Rightarrow>
          (case t of
             SliceT e \<Rightarrow>
               if e = Uint8T \<and> typeNum = KindBytes \<and> sz \<le> ucast (payloadRemaining d) then
                 fast (decodeBytes (dataDecoder d) sz newOffset) (\<lambda>bs. BytesV (length bs) bs)
                   (d\<lparr>payloadRemaining := payloadRemaining d - ucast sz\<rparr>)
               else None
           | StringT \<Rightarrow>
               if typeNum = KindString \<and> sz \<le> ucast (payloadRemaining d) then
                 (case decodeString (dataDecoder d) sz newOffset of
                    Inl _ \<Rightarrow> None
                  | Inr (val, finalOffset, dd) \<Rightarrow>
                      Some (StringV val, finalOffset,
                        d\<lparr>dataDecoder := dd, payloadRemaining := payloadRemaining d - ucast sz\<rparr>))
               else None
           | UintT \<Rightarrow> fastUint d typeNum sz newOffset typeNum
           | Uint32T \<Rightarrow> fastUint d typeNum sz newOffset KindUint32
           | Uint16T \<Rightarrow> fastUint d typeNum sz newOffset KindUint16
           | Uint64T \<Rightarrow> fastUint d typeNum sz newOffset KindUint64
           | BoolT \<Rightarrow> if typeNum = KindBool then fast (decodeBool (dataDecoder d) sz newOffset) BoolV d else None
           | Int32T \<Rightarrow>
               if typeNum = KindInt32 then fast (decodeInt32 (dataDecoder d) sz newOffset) (\<lambda>v. IntV (sint v)) d else None
           | Float64T \<Rightarrow>
               if typeNum = KindFloat64 then fast (decodeFloat64 (dataDecoder d) sz newOffset) Float64V d else None
           | PtrT e \<Rightarrow>
               (case tryFastDecodeTyped d offset e of
                  None \<Rightarrow> None
                | Some (val, finalOffset, d) \<Rightarrow> Some (PtrV val, finalOffset, d))
           | _ \<Rightarrow> None))"

section \<open>Values\<close>

definition decodeBudgetedStringKey :: "ReflectionDecoder \<Rightarrow> uint \<Rightarrow> (gostring \<times> uint \<times> ReflectionDecoder) res" where
  "decodeBudgetedStringKey d offset =
     bindE (decodeKeyAt (dataDecoder d) offset) (\<lambda>(key, cacheOffset, nextOffset).
     bindE (reserveExactPayload d (glen key)) (\<lambda>d.
       case stringCache (dataDecoder d) of
         None \<Rightarrow> Inr (key, nextOffset, d)
       | Some sc \<Rightarrow>
           let (s, sc') = internAt sc cacheOffset key in
           Inr (s, nextOffset, d\<lparr>dataDecoder := (dataDecoder d)\<lparr>stringCache := Some sc'\<rparr>\<rparr>)))"

text \<open>The key of a map entry, for a plain string key type.\<close>

definition mapKey :: "ReflectionDecoder \<Rightarrow> uint \<Rightarrow> (gostring \<times> uint \<times> ReflectionDecoder) res" where
  "mapKey d offset =
     (if budgetRemaining d = 0 then
        bindE (decodeStringKey (dataDecoder d) offset) (\<lambda>(key, offset, dd). Inr (key, offset, d\<lparr>dataDecoder := dd\<rparr>))
      else decodeBudgetedStringKey d offset)"

text \<open>The fast path for an element, where its type allows it.\<close>

definition fastElement :: "ReflectionDecoder \<Rightarrow> uint \<Rightarrow> Type \<Rightarrow> (Value \<times> uint \<times> ReflectionDecoder) option" where
  "fastElement d offset elemType =
     (if \<not> typeMayImplementUnmarshaler elemType \<and> isFastDecodeType elemType then tryFastDecodeTyped d offset elemType
      else None)"

definition element ::
  "(Value \<times> uint \<times> ReflectionDecoder) option \<Rightarrow> (gerr \<Rightarrow> gerr) \<Rightarrow> decoded \<Rightarrow> decoded" where
  "element quick wrap slow = (case quick of Some result \<Rightarrow> Inr result | None \<Rightarrow> mapErr wrap slow)"

text \<open>
  A limit that is inactive is activated for one container: the enclosing decoder keeps its own
  (inactive) limits and shares the string cache.
\<close>

definition activated :: "ReflectionDecoder \<Rightarrow> ReflectionDecoder" where
  "activated d = (if budgetRemaining d = 0 then newBudgetedDecoder d else d)"

definition deactivated :: "ReflectionDecoder \<Rightarrow> ReflectionDecoder \<Rightarrow> ReflectionDecoder" where
  "deactivated d d' = (if budgetRemaining d = 0 then d\<lparr>dataDecoder := dataDecoder d'\<rparr> else d')"

text \<open>
  The slice with its capacity. A slice of bytes decoded from an array is a \<open>[]byte\<close> too. The backing
  array of a slice destination is reused where it is large enough.
\<close>

definition sliceOf :: "Type \<Rightarrow> nat \<Rightarrow> Value list \<Rightarrow> Value" where
  "sliceOf elemType c vs =
     (if elemType = Uint8T then BytesV c (map (\<lambda>v. case v of UintV n \<Rightarrow> ucast n | _ \<Rightarrow> 0) vs) else ListV c vs)"

definition needsArray :: "Type \<Rightarrow> Value \<Rightarrow> nat \<Rightarrow> bool" where
  "needsArray t cur n \<longleftrightarrow> (case t of SliceT _ \<Rightarrow> cur = NilV \<or> slice_cap cur < n | _ \<Rightarrow> True)"

definition newCap :: "Type \<Rightarrow> Value \<Rightarrow> nat \<Rightarrow> nat" where
  "newCap t cur n = (if needsArray t cur n then n else slice_cap cur)"

text \<open>The entries a map destination holds: none for a nil map, which is made anew, and for an \<open>any\<close>.\<close>

definition entries_of :: "Type \<Rightarrow> Value \<Rightarrow> (gostring \<times> Value) list" where
  "entries_of t cur = (case t of MapT _ \<Rightarrow> (case cur of MapV m \<Rightarrow> m | _ \<Rightarrow> []) | _ \<Rightarrow> [])"

text \<open>The first byte of a pointer's target decides between an error and the compact string path.\<close>

definition pointedKind :: "ReflectionDecoder \<Rightarrow> uint \<Rightarrow> (byte \<times> Kind) res" where
  "pointedKind d pointer =
     bindE (index (buffer (dataDecoder d)) pointer) (\<lambda>controlByte.
       let kind = Kind_of_byte (drop_bit 5 controlByte) in
       if kind = KindExtended \<and> pointer + 1 < glen (buffer (dataDecoder d)) then
         bindE (index (buffer (dataDecoder d)) (pointer + 1)) (\<lambda>b. Inr (controlByte, Kind_of_byte (b + 7)))
       else Inr (controlByte, kind))"

section \<open>Structs\<close>

definition isStruct :: "Type \<Rightarrow> bool" where
  "isStruct t \<longleftrightarrow> (case t of StructT _ _ \<Rightarrow> True | _ \<Rightarrow> False)"

text \<open>A cursor on the decoder's own data at an offset.\<close>

definition ownHeap :: "ReflectionDecoder \<Rightarrow> heap" where
  "ownHeap d = (\<lambda>_. dataDecoder d)"

definition ownCursor :: "uint \<Rightarrow> Cursor" where
  "ownCursor offset = \<lparr>c_decoder = Some 0, c_offset = offset, originToken = 0\<rparr>"

text \<open>The value of a key that names no field is skipped, on the budget when it is a container.\<close>

definition skipField :: "ReflectionDecoder \<Rightarrow> uint \<Rightarrow> (uint \<times> ReflectionDecoder) res" where
  "skipField d offset =
     bindE (structFieldValueIsInlineContainer d offset) (\<lambda>container.
       if container then nextValueOffsetBudgetedSlow d offset 1
       else bindE (nextValueOffset (dataDecoder d) offset 1) (\<lambda>offset. Inr (offset, d)))"

fun skipStructFields :: "ReflectionDecoder \<Rightarrow> nat \<Rightarrow> uint \<Rightarrow> (uint \<times> ReflectionDecoder) res" where
  "skipStructFields d 0 offset = Inr (offset, d)"
| "skipStructFields d (Suc n) offset =
     bindE (decodeKey (dataDecoder d) offset) (\<lambda>(_, offset).
     bindE (skipField d offset) (\<lambda>(offset, d). skipStructFields d n offset))"

definition checkNestedDepth :: "nat \<Rightarrow> unit res" where
  "checkNestedDepth depth =
     (if depth < maximumDataStructureDepth then Inr () else Inl (InvalidDatabaseError MaximumDepthExceeded))"

text \<open>
  The map a nested struct is decoded from, directly or behind a pointer: its size, the offset of its
  entries, the offset behind the pointer (0 for a map that is not behind one) and the depth of its
  values. \<open>None\<close> is for values of other kinds, which are left to the general decoder.
\<close>

definition nestedMap :: "ReflectionDecoder \<Rightarrow> uint \<Rightarrow> nat \<Rightarrow> (uint \<times> uint \<times> uint \<times> nat) option res" where
  "nestedMap d offset depth =
     bindE (decodeCtrlData (dataDecoder d) offset) (\<lambda>(typeNum, sz, dataOffset).
       if typeNum = KindMap then
         bindE (checkNestedDepth depth) (\<lambda>_. Inr (Some (sz, dataOffset, 0, depth + 1)))
       else if typeNum = KindPointer then
         bindE (decodePointer (dataDecoder d) sz dataOffset) (\<lambda>(pointer, pointerEndOffset).
         bindE (checkNestedDepth depth) (\<lambda>_.
         bindE (decodeCtrlData (dataDecoder d) pointer) (\<lambda>(typeNum, sz, dataOffset).
           if typeNum = KindPointer then Inl (InvalidDatabaseError (InvalidPointerToPointer pointer))
           else if typeNum \<noteq> KindMap then Inr None
           else Inr (Some (sz, dataOffset, pointerEndOffset, depth + 2)))))
       else Inr None)"

text \<open>
  The guard of the short string destination: both limits are checked up front when the payload left
  is below the field's limit, so that the field's limit is the one reported.
\<close>

definition checkPayloadLimit :: "ReflectionDecoder \<Rightarrow> uint \<Rightarrow> KindSet \<Rightarrow> uint \<Rightarrow> unit res" where
  "checkPayloadLimit d offset expected maximum =
     (if budgetRemaining d \<noteq> 0 \<and> ucast (payloadRemaining d) < maximum then
        bindE (CheckMaxSize (ownHeap d) (ownCursor offset) expected maximum) (\<lambda>_.
          mapErr (\<lambda>_. errDecodedRecordTooLarge)
            (CheckMaxSize (ownHeap d) (ownCursor offset) expected (ucast (payloadRemaining d))))
      else Inr ())"

text \<open>
  The string of a field with a limit, \<open>None\<close> where the value is no string and is left to the general
  decoder for its error.
\<close>

definition readLimitedString :: "ReflectionDecoder \<Rightarrow> uint \<Rightarrow> uint \<Rightarrow> (Value \<times> uint \<times> ReflectionDecoder) option res" where
  "readLimitedString d offset maximum =
     (case ReadStringMaxSize (ownHeap d) (ownCursor offset) maximum of
        Inl err \<Rightarrow> (case root_error err of UnexpectedKindError _ _ \<Rightarrow> Inr None | _ \<Rightarrow> Inl err)
      | Inr (s, next, h) \<Rightarrow>
          let d' = d\<lparr>dataDecoder := h 0\<rparr> in
          if budgetRemaining d \<noteq> 0 then
            if glen s > ucast (payloadRemaining d) then Inl errDecodedRecordTooLarge
            else Inr (Some (StringV s, c_offset next, d'\<lparr>payloadRemaining := payloadRemaining d - ucast (glen s)\<rparr>))
          else Inr (Some (StringV s, c_offset next, d')))"

section \<open>The walk\<close>

text \<open>What termination rests on: the depth grows with every nested value.\<close>

lemma nestedMap_depth:
  "nestedMap d offset depth = Inr (Some (sz, dataOffset, e, depth')) \<Longrightarrow>
     depth < maximumDataStructureDepth \<and> depth < depth'"
  by (auto simp: nestedMap_def checkNestedDepth_def bindE_eq_Inr split: if_splits)

function decodeValue :: "ReflectionDecoder \<Rightarrow> uint \<Rightarrow> Type \<Rightarrow> Value \<Rightarrow> nat \<Rightarrow> decoded"
  and decodeFromType :: "ReflectionDecoder \<Rightarrow> Kind \<Rightarrow> uint \<Rightarrow> uint \<Rightarrow> Type \<Rightarrow> Value \<Rightarrow> nat \<Rightarrow> decoded"
  and unmarshalMap :: "ReflectionDecoder \<Rightarrow> uint \<Rightarrow> uint \<Rightarrow> Type \<Rightarrow> Value \<Rightarrow> nat \<Rightarrow> decoded"
  and unmarshalPointer :: "ReflectionDecoder \<Rightarrow> uint \<Rightarrow> uint \<Rightarrow> Type \<Rightarrow> Value \<Rightarrow> nat \<Rightarrow> decoded"
  and unmarshalSlice :: "ReflectionDecoder \<Rightarrow> uint \<Rightarrow> uint \<Rightarrow> Type \<Rightarrow> Value \<Rightarrow> nat \<Rightarrow> decoded"
  and decodeMap :: "ReflectionDecoder \<Rightarrow> nat \<Rightarrow> uint \<Rightarrow> Type \<Rightarrow> nat \<Rightarrow> (gostring \<times> Value) list \<Rightarrow>
    ((gostring \<times> Value) list \<times> uint \<times> ReflectionDecoder) res"
  and decodeSlice :: "ReflectionDecoder \<Rightarrow> nat \<Rightarrow> uint \<Rightarrow> Type \<Rightarrow> nat \<Rightarrow> Value list \<Rightarrow>
    (Value list \<times> uint \<times> ReflectionDecoder) res"
  and decodeStructWithFields :: "ReflectionDecoder \<Rightarrow> uint \<Rightarrow> uint \<Rightarrow> Type \<Rightarrow> Value \<Rightarrow> nat \<Rightarrow> fieldsType \<Rightarrow> decoded"
  and decodeFields :: "ReflectionDecoder \<Rightarrow> nat \<Rightarrow> uint \<Rightarrow> Type \<Rightarrow> Value \<Rightarrow> nat \<Rightarrow> fieldsType \<Rightarrow> decoded"
  and decodeField :: "ReflectionDecoder \<Rightarrow> uint \<Rightarrow> fieldInfo \<Rightarrow> Value \<Rightarrow> nat \<Rightarrow> decoded"
  and decodeValueMaxSize :: "ReflectionDecoder \<Rightarrow> uint \<Rightarrow> Type \<Rightarrow> Value \<Rightarrow> nat \<Rightarrow> KindSet \<Rightarrow> uint \<Rightarrow> decoded"
  where
  "decodeValue d offset t cur depth =
     (if depth > maximumDataStructureDepth then Inl (InvalidDatabaseError MaximumDepthExceeded)
      else
        bindE (decodeCtrlData (dataDecoder d) offset) (\<lambda>(typeNum, sz, newOffset).
        bindE (decodeFromType d typeNum sz newOffset (unwrapPtrType t) (deref t cur) (depth + 1)) (\<lambda>(v, newOffset, d).
          Inr (allocated t v, newOffset, d))))"
| "decodeFromType d dtype sz offset t cur depth =
     (if dtype = KindBool then unmarshalBool d sz offset t
      else if dtype = KindMap then unmarshalMap d sz offset t cur depth
      else if dtype = KindPointer then unmarshalPointer d sz offset t cur depth
      else if dtype = KindSlice then unmarshalSlice d sz offset t cur depth
      else if dtype = KindBytes then unmarshalBytes d sz offset t
      else if dtype = KindFloat32 then unmarshalFloat32 d sz offset t
      else if dtype = KindFloat64 then unmarshalFloat64 d sz offset t
      else if dtype = KindInt32 then unmarshalInt32 d sz offset t
      else if dtype = KindUint16 then unmarshalUint d sz offset t 16
      else if dtype = KindUint32 then unmarshalUint d sz offset t 32
      else if dtype = KindUint64 then unmarshalUint d sz offset t 64
      else if dtype = KindString then unmarshalString d sz offset t
      else if dtype = KindUint128 then unmarshalUint128 d sz offset t
      else Inl (InvalidDatabaseError (UnknownType dtype)))"
| "unmarshalMap d sz offset t cur depth =
     bindE (reserveActiveContainer (activated d) KindMap sz) (\<lambda>b.
       if isStruct t then
         bindE (decodeStructWithFields b sz offset t cur depth (makeStructFields t)) (\<lambda>(v, newOffset, b).
           Inr (v, newOffset, deactivated d b))
       else
         case (case t of MapT e \<Rightarrow> Some e | AnyT \<Rightarrow> Some AnyT | _ \<Rightarrow> None) of
           None \<Rightarrow> Inl (UnmarshalTypeError ''map'')
         | Some elemType \<Rightarrow>
             bindE (validateContainerSize b KindMap sz offset depth) (\<lambda>_.
             bindE (decodeMap b (unat sz) offset elemType depth (entries_of t cur)) (\<lambda>(m, newOffset, b).
               Inr (MapV m, newOffset, deactivated d b))))"
| "unmarshalPointer d sz offset t cur depth =
     bindE (decodePointer (dataDecoder d) sz offset) (\<lambda>(pointer, newOffset).
       if pointer \<ge> glen (buffer (dataDecoder d)) then
         bindE (decodeValue d pointer t cur depth) (\<lambda>(v, _, d). Inr (v, newOffset, d))
       else
         bindE (pointedKind d pointer) (\<lambda>(controlByte, kind).
           if kind = KindPointer then Inl (InvalidDatabaseError (InvalidPointerToPointer pointer))
           else
             let size' = ucast (controlByte AND 0x1f) :: uint; dataOffset = pointer + 1 in
             if Kind_of_byte (drop_bit 5 controlByte) = KindString \<and> t = StringT \<and>
                depth \<le> maximumDataStructureDepth \<and> size' < 29 \<and> size' \<le> glen (buffer (dataDecoder d)) - dataOffset
             then
               bindE (reserveExactPayload d size') (\<lambda>d.
               bindE (decodeCompactString (dataDecoder d) size' dataOffset) (\<lambda>(s, dd).
                 Inr (StringV s, newOffset, d\<lparr>dataDecoder := dd\<rparr>)))
             else bindE (decodeValue d pointer t cur depth) (\<lambda>(v, _, d). Inr (v, newOffset, d))))"
| "unmarshalSlice d sz offset t cur depth =
     bindE (reserveActiveContainer (activated d) KindSlice sz) (\<lambda>b.
     bindE (if needsArray t cur (unat sz) \<and> sz > 0 then validateContainerSize b KindSlice sz offset depth else Inr ()) (\<lambda>_.
       case (case t of SliceT e \<Rightarrow> Some e | AnyT \<Rightarrow> Some AnyT | _ \<Rightarrow> None) of
         None \<Rightarrow> Inl (UnmarshalTypeError ''array'')
       | Some elemType \<Rightarrow>
           bindE (decodeSlice b (unat sz) offset elemType depth []) (\<lambda>(vs, newOffset, b).
             Inr (sliceOf elemType (newCap t cur (unat sz)) vs, newOffset, deactivated d b))))"
| "decodeMap d 0 offset elemType depth m = Inr (m, offset, d)"
| "decodeMap d (Suc n) offset elemType depth m =
     bindE (mapKey d offset) (\<lambda>(key, offset, d).
     bindE (element (fastElement d offset elemType) (\<lambda>err. wrapErrorWithMapKey err key)
         (decodeValue d offset elemType (zero_of elemType) depth))
       (\<lambda>(v, offset, d). decodeMap d n offset elemType depth (AList.update key v m)))"
| "decodeSlice d 0 offset elemType depth vs = Inr (vs, offset, d)"
| "decodeSlice d (Suc n) offset elemType depth vs =
     bindE (element (fastElement d offset elemType) (\<lambda>err. wrapErrorWithSliceIndex err (length vs))
         (decodeValue d offset elemType (zero_of elemType) depth))
       (\<lambda>(v, offset, d). decodeSlice d n offset elemType depth (vs @ [v]))"
| "decodeStructWithFields d sz offset t cur depth fs =
     (case validationErr fs of
        Some err \<Rightarrow> Inl err
      | None \<Rightarrow>
          if namedFields fs = [] then
            bindE (skipStructFields d (unat sz) offset) (\<lambda>(offset, d). Inr (cur, offset, d))
          else decodeFields d (unat sz) offset t cur depth fs)"
| "decodeFields d 0 offset t cur depth fs = Inr (cur, offset, d)"
| "decodeFields d (Suc n) offset t cur depth fs =
     bindE (decodeKeyAt (dataDecoder d) offset) (\<lambda>(key, _, offset).
       case fieldForKey fs key of
         None \<Rightarrow> bindE (skipField d offset) (\<lambda>(offset, d). decodeFields d n offset t cur depth fs)
       | Some f \<Rightarrow>
           bindE
             (if fieldByIndex t cur (fi_index f) False = None \<and> fi_dispatch f = dispatchMaxSize then
                mapErr (\<lambda>err. wrapErrorWithMapKey err key)
                  (CheckMaxSize (ownHeap d) (ownCursor offset) (fi_maxSizeKinds f) (fi_maxSize f))
              else Inr ())
             (\<lambda>_.
               case fieldByIndex t cur (fi_index f) True of
                 None \<Rightarrow> bindE (skipField d offset) (\<lambda>(offset, d). decodeFields d n offset t cur depth fs)
               | Some v \<Rightarrow>
                   bindE (mapErr (\<lambda>err. wrapErrorWithMapKey err key) (decodeField d offset f v depth)) (\<lambda>(v, offset, d).
                     decodeFields d n offset t (setField t cur (fi_index f) v) depth fs)))"
| "decodeField d offset f cur depth =
     (let general = decodeValue d offset (fi_type f) cur depth;
          struct = bindE (nestedMap d offset depth) (\<lambda>nested.
            case nested of
              None \<Rightarrow> general
            | Some (sz, dataOffset, pointerEndOffset, decodeDepth) \<Rightarrow>
                bindE (reserveActiveContainer d KindMap sz) (\<lambda>d.
                bindE (decodeStructWithFields d sz dataOffset (unwrapPtrType (fi_type f)) (deref (fi_type f) cur) decodeDepth
                    (makeStructFields (unwrapPtrType (fi_type f)))) (\<lambda>(v, newOffset, d).
                  Inr (allocated (fi_type f) v, (if pointerEndOffset \<noteq> 0 then pointerEndOffset else newOffset), d))))
      in case fi_dispatch f of
           dispatchFast \<Rightarrow>
             (case (if length (fi_index f) = 1 then tryFastDecodeTyped d offset (fi_type f) else None) of
                Some result \<Rightarrow> Inr result
              | None \<Rightarrow> general)
         | dispatchUnmarshaler \<Rightarrow> general
         | dispatchStruct \<Rightarrow> struct
         | dispatchPointerStruct \<Rightarrow> struct
         | dispatchMaxSize \<Rightarrow> decodeValueMaxSize d offset (fi_type f) cur depth (fi_maxSizeKinds f) (fi_maxSize f)
         | dispatchPlain \<Rightarrow> general)"
| "decodeValueMaxSize d offset t cur depth expected maximum =
     (let checked = bindE (CheckMaxSize (ownHeap d) (ownCursor offset) expected maximum)
            (\<lambda>_. decodeValue d offset t cur depth)
      in if t \<noteq> unwrapPtrType t then checked
      else if depth > maximumDataStructureDepth then Inl (InvalidDatabaseError MaximumDepthExceeded)
      else if t = StringT \<and> expected = NewKindSet [KindString] then
        bindE (checkPayloadLimit d offset expected maximum) (\<lambda>_.
        bindE (readLimitedString d offset maximum) (\<lambda>read.
          case read of
            Some result \<Rightarrow> Inr result
          | None \<Rightarrow> decodeValue d offset t cur depth))
      else
        bindE (decodeCtrlData (dataDecoder d) offset) (\<lambda>(typeNum, sz, dataOffset).
          if typeNum = KindPointer then checked
          else if KindSet_Contains expected typeNum \<and> sz > maximum then
            Inl (wrapErrorAtOffset (InvalidDatabaseError (MaxSizeExceeded typeNum sz maximum)) offset)
          else decodeFromType d typeNum sz dataOffset t cur (depth + 1)))"
  by pat_completeness auto

termination
  by (relation "inv_image (less_than <*lex*> less_than <*lex*> less_than) (\<lambda>x. case x of
       Inl (Inl (Inl (d, offset, t, cur, depth))) \<Rightarrow> (514 - depth, 0 :: nat, 0 :: nat)
     | Inl (Inl (Inr (d, dtype, sz, offset, t, cur, depth))) \<Rightarrow> (514 - depth, 5, 0)
     | Inl (Inr (Inl (d, sz, offset, t, cur, depth))) \<Rightarrow> (514 - depth, 4, 0)
     | Inl (Inr (Inr (Inl (d, sz, offset, t, cur, depth)))) \<Rightarrow> (514 - depth, 4, 0)
     | Inl (Inr (Inr (Inr (d, sz, offset, t, cur, depth)))) \<Rightarrow> (514 - depth, 4, 0)
     | Inr (Inl (Inl (d, n, offset, t, depth, m))) \<Rightarrow> (514 - depth, 2, n)
     | Inr (Inl (Inr (Inl (d, n, offset, t, depth, vs)))) \<Rightarrow> (514 - depth, 2, n)
     | Inr (Inl (Inr (Inr (d, sz, offset, t, cur, depth, fs)))) \<Rightarrow> (514 - depth, 3, 0)
     | Inr (Inr (Inl (d, n, offset, t, cur, depth, fs))) \<Rightarrow> (514 - depth, 2, n)
     | Inr (Inr (Inr (Inl (d, offset, f, cur, depth)))) \<Rightarrow> (514 - depth, 1, 1)
     | Inr (Inr (Inr (Inr (d, offset, t, cur, depth, expected, maximum)))) \<Rightarrow> (514 - depth, 1, 0))")
    (auto simp: maximumDataStructureDepth_def dest!: nestedMap_depth)

declare decodeValue.simps [simp del] decodeFromType.simps [simp del] unmarshalMap.simps [simp del]
  unmarshalPointer.simps [simp del] unmarshalSlice.simps [simp del] decodeMap.simps(2) [simp del]
  decodeSlice.simps(2) [simp del] decodeStructWithFields.simps [simp del] decodeFields.simps(2) [simp del]
  decodeField.simps [simp del] decodeValueMaxSize.simps [simp del]

section \<open>Entry points\<close>

text \<open>Decoding into an \<open>any\<close> that holds no pointer, with shortcuts for unsigned numbers.\<close>

definition decodeAny :: "ReflectionDecoder \<Rightarrow> uint \<Rightarrow> Value \<Rightarrow> nat \<Rightarrow> (Value \<times> ReflectionDecoder) res" where
  "decodeAny d offset cur depth =
     bindE (decodeCtrlData (dataDecoder d) offset) (\<lambda>(kind, sz, dataOffset).
       if kind = KindUint16 then
         bindE (decodeUint16 (dataDecoder d) sz dataOffset) (\<lambda>(v, _). Inr (UintV (ucast v), d))
       else if kind = KindUint32 then
         bindE (decodeUint32 (dataDecoder d) sz dataOffset) (\<lambda>(v, _). Inr (UintV (ucast v), d))
       else if kind = KindUint64 then
         bindE (decodeUint64 (dataDecoder d) sz dataOffset) (\<lambda>(v, _). Inr (UintV v, d))
       else bindE (decodeFromType d kind sz dataOffset AnyT cur (depth + 1)) (\<lambda>(v, _, d). Inr (v, d)))"

definition decodeAnyWithBudget :: "ReflectionDecoder \<Rightarrow> uint \<Rightarrow> Value \<Rightarrow> nat \<Rightarrow> (Value \<times> ReflectionDecoder) res" where
  "decodeAnyWithBudget d offset cur depth =
     (if budgetRemaining d \<noteq> 0 then decodeAny d offset cur depth
      else bindE (decodeAny (newBudgetedDecoder d) offset cur depth) (\<lambda>(v, b).
        Inr (v, d\<lparr>dataDecoder := dataDecoder b\<rparr>)))"

definition tryFastDecodeUnbudgetedString :: "ReflectionDecoder \<Rightarrow> uint \<Rightarrow> (Value \<times> ReflectionDecoder) option res" where
  "tryFastDecodeUnbudgetedString d offset =
     (let bufferLen = glen (buffer (dataDecoder d));
          general =
            (case decodeCtrlData (dataDecoder d) offset of
               Inl _ \<Rightarrow> None
             | Inr (typeNum, sz, newOffset) \<Rightarrow>
                 if typeNum = KindString then
                   (case decodeString (dataDecoder d) sz newOffset of
                      Inl _ \<Rightarrow> None
                    | Inr (val, _, dd) \<Rightarrow> Some (StringV val, d\<lparr>dataDecoder := dd\<rparr>))
                 else None)
      in if offset < bufferLen then
           bindE (index (buffer (dataDecoder d)) offset) (\<lambda>ctrlByte.
             let sz = ucast (ctrlByte AND 0x1f) :: uint; dataOffset = offset + 1 in
             if Kind_of_byte (drop_bit 5 ctrlByte) = KindString \<and> sz < 29 \<and> hasBufferRange bufferLen dataOffset sz then
               bindE (decodeCompactString (dataDecoder d) sz dataOffset) (\<lambda>(s, dd).
                 Inr (Some (StringV s, d\<lparr>dataDecoder := dd\<rparr>)))
             else Inr general)
         else Inr general)"

definition tryFastDecodeUnbudgetedBytes :: "ReflectionDecoder \<Rightarrow> uint \<Rightarrow> (Value \<times> ReflectionDecoder) option" where
  "tryFastDecodeUnbudgetedBytes d offset =
     (case decodeCtrlData (dataDecoder d) offset of
        Inl _ \<Rightarrow> None
      | Inr (typeNum, sz, newOffset) \<Rightarrow>
          if typeNum \<noteq> KindBytes then None
          else
            (case decodeBytes (dataDecoder d) sz newOffset of
               Inl _ \<Rightarrow> None
             | Inr (val, _) \<Rightarrow> Some (BytesV (length val) val, d)))"

text \<open>
  \<open>Decode\<close> into a pointer to a variable of type \<open>t\<close> that holds \<open>cur\<close>. Its type switch lists the exact
  scalar types that have a fast path of their own.
\<close>

definition fastRoot :: "ReflectionDecoder \<Rightarrow> uint \<Rightarrow> Type \<Rightarrow> (Value \<times> ReflectionDecoder) option res" where
  "fastRoot d offset t =
     (if t = StringT then tryFastDecodeUnbudgetedString d offset
      else if t = SliceT Uint8T then Inr (tryFastDecodeUnbudgetedBytes d offset)
      else if t \<in> {BoolT, Int32T, UintT, Uint16T, Uint32T, Uint64T, Float64T} then
        Inr (map_option (\<lambda>(v, _, d). (v, d)) (tryFastDecodeTyped d offset t))
      else Inr None)"

definition Decode :: "ReflectionDecoder \<Rightarrow> uint \<Rightarrow> Type \<Rightarrow> Value \<Rightarrow> (Value \<times> ReflectionDecoder) res" where
  "Decode d offset t cur =
     (if t = AnyT then mapErr (\<lambda>err. wrapRootDecodeError err offset) (decodeAnyWithBudget d offset cur 0)
      else
        bindE (fastRoot d offset t) (\<lambda>quick.
          case quick of
            Some result \<Rightarrow> Inr result
          | None \<Rightarrow>
              bindE (mapErr (\<lambda>err. wrapRootDecodeError err offset) (decodeValue d offset t cur 0)) (\<lambda>(v, _, d).
                Inr (v, d))))"

definition DecodeWithBudget :: "ReflectionDecoder \<Rightarrow> uint \<Rightarrow> Type \<Rightarrow> Value \<Rightarrow> (Value \<times> ReflectionDecoder) res" where
  "DecodeWithBudget d offset t cur = Decode (newBudgetedDecoder d) offset t cur"

end
