(* ===== verification/ReflectionScalars.thy ===== *)
theory ReflectionScalars
  imports Reflection CursorContainers
begin

text \<open>
  Decoding scalars into Go values: the result has the destination's type, ends where the skip ends and
  is paid for out of the budgets, nothing panics, and the fast path for scalar elements changes nothing.
\<close>

section \<open>Outcomes\<close>

text \<open>An outcome that is no panic and whose result, if there is one, satisfies \<open>P\<close>.\<close>

definition returns :: "('a \<Rightarrow> bool) \<Rightarrow> 'a res \<Rightarrow> bool" where
  "returns P m \<longleftrightarrow> no_panic m \<and> (\<forall>x. m = Inr x \<longrightarrow> P x)"

lemma returns_Inr [simp]: "returns P (Inr x) \<longleftrightarrow> P x"
  by (simp add: returns_def)

lemma returns_Inl [simp]: "returns P (Inl e) \<longleftrightarrow> root_error e \<noteq> Panic"
  by (simp add: returns_def)

lemma returns_bindE:
  "returns Q m \<Longrightarrow> (\<And>x. m = Inr x \<Longrightarrow> Q x \<Longrightarrow> returns P (f x)) \<Longrightarrow> returns P (bindE m f)"
  by (cases m) (simp_all add: returns_def)

lemma returns_mapErr: "returns P m \<Longrightarrow> (\<And>e. root_error (w e) = root_error e) \<Longrightarrow> returns P (mapErr w m)"
  by (cases m) simp_all

lemma returns_weaken: "returns Q m \<Longrightarrow> (\<And>x. Q x \<Longrightarrow> P x) \<Longrightarrow> returns P m"
  by (simp add: returns_def)

lemma returns_safe: "no_panic m \<Longrightarrow> returns (\<lambda>x. m = Inr x) m"
  by (simp add: returns_def)

section \<open>What a decoded value is\<close>

text \<open>
  The size of a value: a unit for each element, key and entry of a container, and the bytes of
  strings, keys and byte slices. What a struct holds is given by its type and counts by its fields.
\<close>

fun weight_of :: "Value \<Rightarrow> nat" where
  "weight_of (StringV s) = length s"
| "weight_of (BytesV c bs) = length bs"
| "weight_of (ListV c vs) = length vs + sum_list (map weight_of vs)"
| "weight_of (MapV m) = 2 * length m + sum_list (map (\<lambda>x. length (fst x) + weight_of (snd x)) m)"
| "weight_of (PtrV v) = weight_of v"
| "weight_of (StructV vs) = sum_list (map weight_of vs)"
| "weight_of _ = 0"

definition entries_weight :: "(gostring \<times> Value) list \<Rightarrow> nat" where
  "entries_weight m = sum_list (map (\<lambda>x. length (fst x) + weight_of (snd x)) m)"

lemma weight_MapV [simp]: "weight_of (MapV m) = 2 * length m + entries_weight m"
  by (simp add: entries_weight_def)

text \<open>The decoder after a step: only its cache and its budgets have changed.\<close>

definition keeps :: "ReflectionDecoder \<Rightarrow> ReflectionDecoder \<Rightarrow> bool" where
  "keeps d d' \<longleftrightarrow> (\<exists>c. dataDecoder d' = (dataDecoder d)\<lparr>stringCache := c\<rparr>) \<and> cache_ok (dataDecoder d')"

definition costs :: "ReflectionDecoder \<Rightarrow> ReflectionDecoder \<Rightarrow> nat \<Rightarrow> bool" where
  "costs d d' w \<longleftrightarrow>
     (if budgetRemaining d = 0 then budgetRemaining d' = 0
      else budgetRemaining d' \<noteq> 0 \<and>
        unat (budgetRemaining d') + unat (payloadRemaining d') + w \<le> unat (budgetRemaining d) + unat (payloadRemaining d))"

lemma keeps_refl: "cache_ok (dataDecoder d) \<Longrightarrow> keeps d d"
  by (auto simp: keeps_def intro: exI [of _ "stringCache (dataDecoder d)"])

lemma keeps_same: "dataDecoder d' = dataDecoder d \<Longrightarrow> cache_ok (dataDecoder d) \<Longrightarrow> keeps d d'"
  by (auto simp: keeps_def intro: exI [of _ "stringCache (dataDecoder d)"])

lemma keeps_trans: "keeps d d' \<Longrightarrow> keeps d' d'' \<Longrightarrow> keeps d d''"
  by (auto simp: keeps_def)

lemma costs_refl [simp]: "costs d d 0"
  by (simp add: costs_def)

lemma costs_trans: "costs d d' w \<Longrightarrow> costs d' d'' w' \<Longrightarrow> costs d d'' (w + w')"
  by (auto simp: costs_def split: if_splits)

lemma costs_less: "costs d d' w \<Longrightarrow> w' \<le> w \<Longrightarrow> costs d d' w'"
  by (auto simp: costs_def)

lemma token_cache [simp]: "token (stringCache_update f d) = token d"
proof (rule ext)
  fix off show "token (stringCache_update f d) off = token d off"
    by (cases "decodeCtrlData d off") (auto simp: token_def)
qed

lemma keeps_reads:
  assumes "keeps d d'"
  shows "buffer (dataDecoder d') = buffer (dataDecoder d)" and "token (dataDecoder d') = token (dataDecoder d)"
    and "cache_ok (dataDecoder d')"
  using assms by (auto simp: keeps_def)

lemma keeps_cache [simp]:
  "cache_ok ((dataDecoder d)\<lparr>stringCache := c\<rparr>) \<Longrightarrow> keeps d (d\<lparr>dataDecoder := (dataDecoder d)\<lparr>stringCache := c\<rparr>\<rparr>)"
  unfolding keeps_def by (intro conjI exI [of _ c]) simp_all

definition good :: "ReflectionDecoder \<Rightarrow> Type \<Rightarrow> Value \<Rightarrow> ReflectionDecoder \<Rightarrow> bool" where
  "good d t v d' \<longleftrightarrow> keeps d d' \<and> has_type v t \<and> costs d d' (weight_of v)"

lemma good_same: "cache_ok (dataDecoder d) \<Longrightarrow> has_type v t \<Longrightarrow> weight_of v = 0 \<Longrightarrow> good d t v d"
  by (simp add: good_def keeps_refl)

section \<open>Scalars\<close>

lemma reserveExactPayload_post:
  assumes "unat sz < 2 ^ 32"
  shows "returns (\<lambda>d'. dataDecoder d' = dataDecoder d \<and> costs d d' (unat sz)) (reserveExactPayload d sz)"
proof -
  have "unat (ucast sz :: 32 word) = unat sz" using assms by (simp add: unat_ucast_small)
  moreover have "\<not> sz > ucast (payloadRemaining d) \<longleftrightarrow> unat sz \<le> unat (payloadRemaining d)"
    by (simp add: not_less word_le_nat_alt)
  ultimately show ?thesis
    by (auto simp: reserveExactPayload_def costs_def unat_sub word_le_nat_alt)
qed

lemma token_scalar:
  assumes "decodeCtrlData d h = Inr (k, sz, off)" and "k \<notin> {KindMap, KindSlice, KindPointer, KindBool}"
    and "unat off + unat sz \<le> unat (glen (buffer d))"
  shows "token d h = Some (off + sz, 0)"
  using assms by (auto simp: token_def token_len_def token_children_def)

text \<open>Reading the scalar whose header stands at \<open>h\<close>.\<close>

definition reads_scalar :: "ReflectionDecoder \<Rightarrow> uint \<Rightarrow> Type \<Rightarrow> decoded \<Rightarrow> bool" where
  "reads_scalar d h t r \<longleftrightarrow> returns (\<lambda>(v, e, d'). good d t v d' \<and> token (dataDecoder d) h = Some (e, 0)) r"

lemma header_small: "decodeCtrlData dd h = Inr (k, sz, off) \<Longrightarrow> unat sz < 2 ^ 32"
  using decodeCtrlData_Inr(4) by fastforce

lemma uint_spec_cases:
  assumes "uint_spec w k dd sz off = r"
  obtains e where "r = Inl e" and "root_error e \<noteq> Panic"
    | (value_read) v where "r = Inr (v :: 'w::len word, off + sz)"
      and "v = be_word (payload dd off sz)" and "unat sz \<le> w" and "unat off + unat sz \<le> unat (glen (buffer dd))"
  using assms by (auto simp: uint_spec_def split: if_splits)

lemma be_word_bound:
  assumes "v = be_word (payload dd off sz)" and "8 * unat sz \<le> LENGTH('w)" and "8 \<le> LENGTH('w)"
    and "unat off + unat sz \<le> unat (glen (buffer dd))"
  shows "unat (v :: 'w::len word) < 256 ^ unat sz"
  using assms be_nat_less [of "payload dd off sz"] by (simp add: unat_be_word length_payload)

lemma unmarshalBool_reads:
  assumes "decodeCtrlData (dataDecoder d) h = Inr (KindBool, sz, off)" and "cache_ok (dataDecoder d)"
  shows "reads_scalar d h t (unmarshalBool d sz off t)"
  using assms decodeCtrlData_Inr [OF assms(1)]
  by (auto simp: reads_scalar_def unmarshalBool_def decodeBool_def token_def token_len_def token_children_def good_same)

lemma unmarshalFloat_reads:
  assumes "cache_ok (dataDecoder d)"
  shows "decodeCtrlData (dataDecoder d) h = Inr (KindFloat32, sz, off) \<Longrightarrow> reads_scalar d h t (unmarshalFloat32 d sz off t)"
    and "decodeCtrlData (dataDecoder d) h = Inr (KindFloat64, sz, off) \<Longrightarrow> reads_scalar d h t (unmarshalFloat64 d sz off t)"
  using assms guard_iff [OF decodeCtrlData_small, of "dataDecoder d" h _ sz off] slice_payload [of off sz "dataDecoder d"]
    token_scalar [of "dataDecoder d" h _ sz off]
  by (auto simp: reads_scalar_def unmarshalFloat32_def unmarshalFloat64_def decodeFloat32_def decodeFloat64_def
      good_same Let_def not_less split: if_splits)

lemma unmarshalBytes_reads:
  assumes h: "decodeCtrlData (dataDecoder d) h = Inr (KindBytes, sz, off)" and ok: "cache_ok (dataDecoder d)"
  shows "reads_scalar d h t (unmarshalBytes d sz off t)"
proof -
  let ?fits = "unat off + unat sz \<le> unat (glen (buffer (dataDecoder d)))"
  have charge: "returns (\<lambda>d'. dataDecoder d' = dataDecoder d \<and> (?fits \<longrightarrow> costs d d' (unat sz)))
      (if budgetRemaining d \<noteq> 0 \<and> hasBufferRange (glen (buffer (dataDecoder d))) off sz
       then reserveExactPayload d sz else Inr d)"
    using reserveExactPayload_post [OF header_small [OF h], of d]
    by (auto simp: hasBufferRange_iff costs_def elim: returns_weaken)
  show ?thesis
    unfolding reads_scalar_def unmarshalBytes_def
  proof (rule returns_bindE [OF charge], goal_cases)
    case (1 d')
    then show ?case
      using h decodeBytes_spec [OF decodeCtrlData_small [OF h]] token_scalar [OF h] length_payload [of off sz "dataDecoder d"] ok
      by (auto simp: good_def keeps_same)
  qed
qed

lemma compact_record:
  assumes "cache_ok d" and "decodeCtrlData d h = Inr (KindString, sz, p)" and "sz < 29"
    and "unat p + unat sz \<le> unat (glen (buffer d))"
  shows "\<exists>c. decodeCompactString d sz p = Inr (payload d p sz, d\<lparr>stringCache := c\<rparr>) \<and> cache_ok (d\<lparr>stringCache := c\<rparr>)"
proof -
  have "string_headerSize sz = 1" using assms(3) by (simp add: string_headerSize_def word_le_nat_alt word_less_nat_alt)
  moreover obtain s c where i: "internOpt (stringCache d) (p - 1) (payload d p sz) = (s, c)" by fastforce
  ultimately show ?thesis
    using internOpt_record [OF assms(1,2)] slice_payload [OF assms(4)]
    by (auto simp: decodeCompactString_def decodeStringBytes_def)
qed

text \<open>The decoder after \<open>n\<close> bytes of payload were charged and a string interned.\<close>

definition charged :: "ReflectionDecoder \<Rightarrow> nat \<Rightarrow> ReflectionDecoder \<Rightarrow> bool" where
  "charged d n d' \<longleftrightarrow> (\<exists>c d1. d' = d1\<lparr>dataDecoder := (dataDecoder d)\<lparr>stringCache := c\<rparr>\<rparr> \<and>
     dataDecoder d1 = dataDecoder d \<and> costs d d1 n \<and> cache_ok ((dataDecoder d)\<lparr>stringCache := c\<rparr>))"

lemma chargedI:
  "dataDecoder d1 = dataDecoder d \<Longrightarrow> costs d d1 n \<Longrightarrow> cache_ok ((dataDecoder d)\<lparr>stringCache := c\<rparr>) \<Longrightarrow>
     charged d n (d1\<lparr>dataDecoder := (dataDecoder d)\<lparr>stringCache := c\<rparr>\<rparr>)"
  by (auto simp: charged_def)

lemma charged_keeps: "charged d n d' \<Longrightarrow> keeps d d' \<and> costs d d' n"
  by (auto simp: charged_def keeps_def costs_def)

lemma unmarshalString_reads:
  assumes h: "decodeCtrlData (dataDecoder d) h = Inr (KindString, sz, off)" and ok: "cache_ok (dataDecoder d)"
  shows "reads_scalar d h t (unmarshalString d sz off t)"
proof -
  let ?dd = "dataDecoder d"
  let ?fits = "unat off + unat sz \<le> unat (glen (buffer ?dd))"
  let ?Q = "\<lambda>(val, e, d'). ?fits \<and> val = payload ?dd off sz \<and> e = off + sz \<and> charged d (unat sz) d'"
  note reserve = reserveExactPayload_post [OF header_small [OF h], of d]
  have compact: "returns ?Q (bindE (reserveExactPayload d sz) (\<lambda>d.
      bindE (decodeCompactString (dataDecoder d) sz off) (\<lambda>(val, dd). Inr (val, off + sz, d\<lparr>dataDecoder := dd\<rparr>))))"
    if "sz < 29" ?fits
    by (rule returns_bindE [OF reserve]) (use compact_record [OF ok h that] that(2) in \<open>auto intro: chargedI\<close>)
  have general: "returns ?Q (bindE (if budgetRemaining d \<noteq> 0 \<and> hasBufferRange (glen (buffer ?dd)) off sz
        then reserveExactPayload d sz else Inr d) (\<lambda>d.
      bindE (decodeString (dataDecoder d) sz off) (\<lambda>(val, newOffset, dd). Inr (val, newOffset, d\<lparr>dataDecoder := dd\<rparr>))))"
  proof (rule returns_bindE [where Q = "\<lambda>d'. dataDecoder d' = ?dd \<and> (?fits \<longrightarrow> costs d d' (unat sz))"], goal_cases)
    case 1
    show ?case using reserve by (auto simp: hasBufferRange_iff costs_def elim: returns_weaken)
  next
    case (2 d')
    then show ?case using decodeString_record [OF ok h] by (cases ?fits) (auto intro: chargedI)
  qed
  have "returns ?Q (if budgetRemaining d \<noteq> 0 \<and> sz < 29 \<and> off > 0 \<and> hasBufferRange (glen (buffer ?dd)) off sz then
        bindE (reserveExactPayload d sz) (\<lambda>d. bindE (decodeCompactString (dataDecoder d) sz off) (\<lambda>(val, dd).
          Inr (val, off + sz, d\<lparr>dataDecoder := dd\<rparr>)))
      else bindE (if budgetRemaining d \<noteq> 0 \<and> hasBufferRange (glen (buffer ?dd)) off sz
          then reserveExactPayload d sz else Inr d) (\<lambda>d.
        bindE (decodeString (dataDecoder d) sz off) (\<lambda>(val, newOffset, dd). Inr (val, newOffset, d\<lparr>dataDecoder := dd\<rparr>))))"
    using compact general by (simp add: hasBufferRange_iff)
  then show ?thesis
    unfolding reads_scalar_def unmarshalString_def Let_def
    by (rule returns_bindE) (use token_scalar [OF h] length_payload [of off sz ?dd] charged_keeps [of d "unat sz"] in \<open>auto simp: good_def\<close>)
qed

lemma big_or: "unat (lo :: 64 word) < 2 ^ 64 \<Longrightarrow> (unat (hi :: 64 word) * 2 ^ 64) OR unat lo = hi_lo hi lo"
proof -
  have "push_bit 64 (unat hi) OR unat lo = push_bit 64 (unat hi) + unat lo"
    by (rule disjunctive_add [symmetric]) (auto simp: bit_simps dest: bit_imp_le_length)
  then show ?thesis by (simp add: push_bit_eq_mult hi_lo_def)
qed

lemma unmarshalUint128_reads:
  assumes h: "decodeCtrlData (dataDecoder d) h = Inr (KindUint128, sz, off)" and ok: "cache_ok (dataDecoder d)"
  shows "reads_scalar d h t (unmarshalUint128 d sz off t)"
proof -
  have "(if hi = 0 then unat lo else (unat hi * 2 ^ 64) OR unat lo) < 2 ^ 128" for hi lo :: "64 word"
  proof -
    have "hi_lo hi lo < 2 ^ 128" using unat_less_2_64 [of hi] unat_less_2_64 [of lo] by (simp add: hi_lo_def)
    moreover have "(if hi = 0 then unat lo else (unat hi * 2 ^ 64) OR unat lo) = hi_lo hi lo"
      using big_or [of lo hi] unat_less_2_64 [of lo] by (simp add: hi_lo_def)
    ultimately show ?thesis by simp
  qed
  note bound = this
  show ?thesis
    using decodeUint128_spec [OF decodeCtrlData_small [OF h]] token_scalar [OF h] ok bound
    by (auto simp: reads_scalar_def unmarshalUint128_def good_same Let_def split: prod.splits)
qed

lemma OverflowUint_iff: "OverflowUint w n \<longleftrightarrow> \<not> unat n < 2 ^ w"
proof -
  have "take_bit w n = n \<longleftrightarrow> take_bit w (unat n) = unat n"
    by (metis unsigned_take_bit_eq word_unat_eq_iff)
  then show ?thesis by (simp add: OverflowUint_def take_bit_nat_eq_self_iff)
qed

lemma sint_range_32: "\<not> OverflowInt 32 (sint (v :: 32 word))"
  using sint_less [of v] sint_greater_eq [of v] by (simp add: OverflowInt_def)

lemma unmarshalInt32_reads:
  assumes h: "decodeCtrlData (dataDecoder d) h = Inr (KindInt32, sz, off)" and ok: "cache_ok (dataDecoder d)"
  shows "reads_scalar d h t (unmarshalInt32 d sz off t)"
proof -
  obtain r where r: "uint_spec 4 KindInt32 (dataDecoder d) sz off = (r :: (32 word \<times> uint) res)" by simp
  from r show ?thesis
  proof (cases rule: uint_spec_cases)
    case (1 e)
    then show ?thesis
      using r by (simp add: reads_scalar_def unmarshalInt32_def uint_decoders_spec [OF decodeCtrlData_small [OF h]])
  next
    case (value_read v)
    then show ?thesis
      using r token_scalar [OF h] ok sint_range_32 [of v]
      by (auto simp: reads_scalar_def unmarshalInt32_def uint_decoders_spec [OF decodeCtrlData_small [OF h]]
          good_same OverflowUint_iff Let_def split: option.splits)
  qed
qed

lemma unmarshalUint_reads:
  assumes ok: "cache_ok (dataDecoder d)"
  shows "decodeCtrlData (dataDecoder d) h = Inr (KindUint16, sz, off) \<Longrightarrow> reads_scalar d h t (unmarshalUint d sz off t 16)"
    and "decodeCtrlData (dataDecoder d) h = Inr (KindUint32, sz, off) \<Longrightarrow> reads_scalar d h t (unmarshalUint d sz off t 32)"
    and "decodeCtrlData (dataDecoder d) h = Inr (KindUint64, sz, off) \<Longrightarrow> reads_scalar d h t (unmarshalUint d sz off t 64)"
proof -
  have any: "reads_scalar d h t (bindE m (\<lambda>(val :: uint, newOffset).
       let fail = Inl (UnmarshalTypeError ''uint64'') in
       if t = Uint32T \<and> w = 32 \<and> val \<le> 0xFFFFFFFF \<or> t = Uint64T \<and> w = 64 \<or>
          t = Uint16T \<and> w = 16 \<and> val \<le> 0xFFFF \<or> t = Uint8T \<and> w = 16 \<and> val \<le> 0xFF
       then Inr (UintV val, newOffset, d)
       else
         case int_width t of
           Some w \<Rightarrow> if \<not> OverflowInt w (sint val) then Inr (IntV (sint val), newOffset, d) else fail
         | None \<Rightarrow>
             (case uint_width t of
                Some w \<Rightarrow> if \<not> OverflowUint w val then Inr (UintV val, newOffset, d) else fail
              | None \<Rightarrow> if t = AnyT then Inr (UintV val, newOffset, d) else fail)))"
    if "returns (\<lambda>(v, e). token (dataDecoder d) h = Some (e, 0)) m" for m and w :: nat
    unfolding reads_scalar_def
    by (rule returns_bindE [OF that])
      (use ok in \<open>auto simp: good_same OverflowUint_iff Let_def word_le_nat_alt unat_less_2_64 split: option.splits\<close>)
  have read: "returns (\<lambda>(v, e). token (dataDecoder d) h = Some (e, 0)) (uint_spec n k (dataDecoder d) sz off :: ('w::len word \<times> uint) res)"
    if "decodeCtrlData (dataDecoder d) h = Inr (k, sz, off)" "k \<notin> {KindMap, KindSlice, KindPointer, KindBool}" for n k
    using token_scalar [OF that] by (auto simp: uint_spec_def)
  show "reads_scalar d h t (unmarshalUint d sz off t 16)" if h: "decodeCtrlData (dataDecoder d) h = Inr (KindUint16, sz, off)"
    using any [of "bindE (decodeUint16 (dataDecoder d) sz off) (\<lambda>(v, off). Inr (ucast v, off))" 16]
      read [OF h, of 2] uint_decoders_spec(1) [OF decodeCtrlData_small [OF h]]
    by (force simp: unmarshalUint_def intro: returns_bindE)
  show "reads_scalar d h t (unmarshalUint d sz off t 32)" if h: "decodeCtrlData (dataDecoder d) h = Inr (KindUint32, sz, off)"
    using any [of "bindE (decodeUint32 (dataDecoder d) sz off) (\<lambda>(v, off). Inr (ucast v, off))" 32]
      read [OF h, of 4] uint_decoders_spec(2) [OF decodeCtrlData_small [OF h]]
    by (force simp: unmarshalUint_def intro: returns_bindE)
  show "reads_scalar d h t (unmarshalUint d sz off t 64)" if h: "decodeCtrlData (dataDecoder d) h = Inr (KindUint64, sz, off)"
    using any [of "decodeUint64 (dataDecoder d) sz off" 64] read [OF h, of 8] uint_decoders_spec(3) [OF decodeCtrlData_small [OF h]]
    by (force simp: unmarshalUint_def)
qed

section \<open>The fast path\<close>

lemma compact_eq:
  assumes "sz < 29" and "off > 0" and "unat off + unat sz \<le> unat (glen (buffer dd))"
  shows "decodeString dd sz off = bindE (decodeCompactString dd sz off) (\<lambda>(s, dd). Inr (s, off + sz, dd))"
proof -
  have hs: "string_headerSize sz = 1" using assms(1) by (simp add: string_headerSize_def word_le_nat_alt word_less_nat_alt)
  have "\<not> off < 1" using assms(2) by (simp add: word_less_nat_alt)
  moreover have "\<not> off + sz > glen (buffer dd)"
    using assms(3) unat_glen_bound [of "buffer dd"] by (simp add: word_less_nat_alt unat_add_small not_less)
  ultimately show ?thesis
    using slice_payload [OF assms(3)] hs
    by (cases "stringCache dd")
      (auto simp: decodeString_def decodeCompactString_def decodeStringBytes_def internOpt_def Let_def split: prod.splits)
qed

lemma decodeString_fits: "decodeString dd sz off = Inr (s, e, dd') \<Longrightarrow> small_range dd off sz \<Longrightarrow>
  unat off + unat sz \<le> unat (glen (buffer dd)) \<and> e = off + sz"
  using guard_iff [of dd off sz] by (auto simp: decodeString_def bindE_eq_Inr Let_def split_def split: if_splits option.splits)

lemma fast_string:
  assumes h: "decodeCtrlData (dataDecoder d) h = Inr (KindString, sz, off)" and b: "budgetRemaining d \<noteq> 0"
    and p: "sz \<le> ucast (payloadRemaining d)" and s: "decodeString (dataDecoder d) sz off = Inr (val, e, dd)"
  shows "unmarshalString d sz off StringT =
    Inr (StringV val, e, d\<lparr>dataDecoder := dd, payloadRemaining := payloadRemaining d - ucast sz\<rparr>)"
proof -
  note fits = decodeString_fits [OF s decodeCtrlData_small [OF h]]
  have r: "reserveExactPayload d sz = Inr (d\<lparr>payloadRemaining := payloadRemaining d - ucast sz\<rparr>)"
    using b p by (simp add: reserveExactPayload_def)
  show ?thesis
  proof (cases "sz < 29 \<and> off > 0")
    case True
    have "decodeCompactString (dataDecoder d) sz off = Inr (val, dd)"
      using compact_eq [of sz off "dataDecoder d"] True fits s
      by (cases "decodeCompactString (dataDecoder d) sz off") auto
    then show ?thesis using True r fits b by (simp add: unmarshalString_def hasBufferRange_iff)
  next
    case False
    then show ?thesis using r fits b s by (auto simp: unmarshalString_def hasBufferRange_iff)
  qed
qed

lemma fast_bytes:
  assumes h: "decodeCtrlData (dataDecoder d) h = Inr (KindBytes, sz, off)" and b: "budgetRemaining d \<noteq> 0"
    and p: "sz \<le> ucast (payloadRemaining d)" and s: "decodeBytes (dataDecoder d) sz off = Inr (val, e)"
  shows "unmarshalBytes d sz off (SliceT Uint8T) =
    Inr (BytesV (length val) val, e, d\<lparr>payloadRemaining := payloadRemaining d - ucast sz\<rparr>)"
  using s b p decodeBytes_spec [OF decodeCtrlData_small [OF h]]
  by (auto simp: unmarshalBytes_def hasBufferRange_iff reserveExactPayload_def split: if_splits)

lemma fast_eq_Some: "fast r f d = Some x \<longleftrightarrow> (\<exists>v e. r = Inr (v, e) \<and> x = (f v, e, d))"
  by (auto simp: fast_def split: sum.splits)

lemma unat_ucast_le:
  fixes v :: "'w::len word"
  assumes "LENGTH('w) \<le> 64"
  shows "unat (ucast v :: uint) = unat v"
proof -
  have "(2 :: nat) ^ LENGTH('w) \<le> 2 ^ 64" using assms by (intro power_increasing) simp_all
  then have "unat v < 2 ^ 64" using unsigned_less [of v, where 'a = nat] by linarith
  then show ?thesis by (simp add: unsigned_ucast_eq take_bit_nat_eq_self)
qed

lemma decodeValue_header:
  assumes "decodeCtrlData (dataDecoder d) off = Inr (k, sz, o1)" and "depth \<le> maximumDataStructureDepth"
  shows "decodeValue d off t cur depth = bindE (decodeFromType d k sz o1 (unwrapPtrType t) (deref t cur) (depth + 1))
    (\<lambda>(v, newOffset, d). Inr (allocated t v, newOffset, d))"
  using assms by (simp add: decodeValue.simps)

lemma fastUint_general:
  assumes "decodeCtrlData (dataDecoder d) off = Inr (k, sz, o1)" and "fastUint d k sz o1 w = Some (v, e, d')"
    and "t = UintT \<and> w = k \<or> t = Uint16T \<and> w = KindUint16 \<or> t = Uint32T \<and> w = KindUint32 \<or> t = Uint64T \<and> w = KindUint64"
  shows "decodeFromType d k sz o1 t cur depth = Inr (v, e, d')"
proof -
  note simps = decodeFromType.simps fastUint_def fast_eq_Some unmarshalUint_def OverflowUint_iff
  have small: "unat (ucast (a :: 16 word) :: uint) < 65536" "unat (ucast (b :: 32 word) :: uint) < 4294967296" for a b
    using unsigned_less [of a, where 'a = nat] unsigned_less [of b, where 'a = nat] by (simp_all add: unat_ucast_le)
  consider "k = KindUint16" | "k = KindUint32" | "k = KindUint64"
    using assms(2) by (auto simp: fastUint_def split: if_splits)
  then show ?thesis
  proof cases
    case 1
    then show ?thesis using assms(2,3) small(1) unat_less_2_64 by (auto simp: simps word_le_nat_alt less_Suc_eq_le [symmetric])
  next
    case 2
    then show ?thesis using assms(2,3) small(2) unat_less_2_64 by (auto simp: simps word_le_nat_alt less_Suc_eq_le [symmetric])
  next
    case 3
    then show ?thesis using assms(2,3) by (auto simp: simps unat_less_2_64)
  qed
qed

lemma fast_header:
  assumes "tryFastDecodeTyped d offset t = Some r"
  obtains k sz o1 where "decodeCtrlData (dataDecoder d) offset = Inr (k, sz, o1)"
  using assms by (cases "decodeCtrlData (dataDecoder d) offset") (auto simp: tryFastDecodeTyped.simps [of d offset t])

lemma fast_leaf:
  assumes h: "decodeCtrlData (dataDecoder d) offset = Inr (k, sz, o1)" and f: "tryFastDecodeTyped d offset t = Some (v, e, d')"
    and b: "budgetRemaining d \<noteq> 0" and t: "\<forall>e. t \<noteq> PtrT e"
  shows "decodeFromType d k sz o1 t cur depth = Inr (v, e, d')"
proof -
  note f' = f [unfolded tryFastDecodeTyped.simps [of d offset t], simplified h sum.case prod.case]
  note general = fastUint_general [OF h, of _ v e d' t cur depth]
  show ?thesis
  proof (cases t)
    case BoolT
    then show ?thesis using f' by (auto simp: decodeFromType.simps fast_eq_Some unmarshalBool_def split: if_splits)
  next
    case StringT
    then show ?thesis using f' fast_string [OF _ b, of offset sz o1] h
      by (auto simp: decodeFromType.simps split: if_splits sum.splits)
  next
    case Int32T
    then show ?thesis using f' sint_range_32
      by (auto simp: decodeFromType.simps fast_eq_Some unmarshalInt32_def split: if_splits)
  next
    case Float64T
    then show ?thesis using f' by (auto simp: decodeFromType.simps fast_eq_Some unmarshalFloat64_def split: if_splits)
  next
    case (SliceT e')
    then show ?thesis using f' fast_bytes [OF _ b, of offset sz o1] h
      by (auto simp: decodeFromType.simps fast_eq_Some split: if_splits)
  qed (use f' t general in auto)
qed

lemma decodeValue_PtrT:
  "decodeValue d offset t (case cur of PtrV v \<Rightarrow> v | _ \<Rightarrow> zero_of t) depth = Inr (v, e, d') \<Longrightarrow>
     decodeValue d offset (PtrT t) cur depth = Inr (PtrV v, e, d')"
  by (auto simp: decodeValue.simps bindE_eq_Inr split: if_splits)

lemma unwrapped_id: "\<forall>e. t \<noteq> PtrT e \<Longrightarrow> unwrapPtrType t = t \<and> allocated t v = v"
  by (cases t) simp_all

lemma fast_nonpointer:
  assumes "\<forall>e. t \<noteq> PtrT e" and "tryFastDecodeTyped d offset t = Some r" and "budgetRemaining d \<noteq> 0"
    and "depth \<le> maximumDataStructureDepth"
  shows "decodeValue d offset t cur depth = Inr r"
proof -
  obtain k sz o1 where h: "decodeCtrlData (dataDecoder d) offset = Inr (k, sz, o1)" by (rule fast_header [OF assms(2)])
  obtain v e d' where r: "r = (v, e, d')" by (cases r) auto
  show ?thesis
    using fast_leaf [OF h assms(2) [unfolded r] assms(3,1)] unwrapped_id [OF assms(1)]
    by (simp add: decodeValue_header [OF h assms(4)] r)
qed

lemma fast_general:
  "tryFastDecodeTyped d offset t = Some r \<Longrightarrow> budgetRemaining d \<noteq> 0 \<Longrightarrow> depth \<le> maximumDataStructureDepth \<Longrightarrow>
     decodeValue d offset t cur depth = Inr r"
proof (induction t arbitrary: r cur rule: unwrapPtrType.induct)
  case (1 t)
  from 1(2) obtain v e d' where "tryFastDecodeTyped d offset t = Some (v, e, d')" and r: "r = (PtrV v, e, d')"
    by (auto simp: tryFastDecodeTyped.simps [of d offset "PtrT t"] split: sum.splits option.splits)
  then show ?case using 1 decodeValue_PtrT by simp
qed (rule fast_nonpointer; simp)+

text \<open>
  The fast path for scalar elements changes nothing: what it returns is what decoding the element
  in general returns, with the same offset, budgets and cache.
\<close>

theorem fast_path_general:
  assumes "tryFastDecodeTyped d offset t = Some r" and "budgetRemaining d \<noteq> 0" and "depth \<le> maximumDataStructureDepth"
  shows "decodeValue d offset t cur depth = Inr r"
  using assms by (rule fast_general)

text \<open>The element behind a key, a \<open>uint16\<close> read through a pointer type.\<close>

theorem fast_path_general_witness:
  "decodeValue (newBudgetedDecoder (NewWithoutStringCache [0xA1, 7])) 0 (PtrT Uint16T) NilV 3 =
     Inr (PtrV (UintV 7), 2, newBudgetedDecoder (NewWithoutStringCache [0xA1, 7]))"
proof -
  let ?d = "newBudgetedDecoder (NewWithoutStringCache [0xA1, 7])"
  have "tryFastDecodeTyped ?d 0 (PtrT Uint16T) = Some (PtrV (UintV 7), 2, ?d)" by code_simp
  moreover have "budgetRemaining ?d \<noteq> 0" by code_simp
  ultimately show ?thesis
    using fast_path_general [of ?d 0 "PtrT Uint16T" "(PtrV (UintV 7), 2, ?d)" 3 NilV] by (simp add: maximumDataStructureDepth_def)
qed


end
