(* ===== verification/ReflectionWalk.thy ===== *)
theory ReflectionWalk
  imports ReflectionScalars
begin

text \<open>
  Decoding containers, pointers and structs into Go values: by induction over the walk, results have
  the destination's type, end where the skip ends and are paid for out of the budgets, and nothing
  panics.
\<close>

section \<open>Elements and keys\<close>

lemma scalar_reads:
  assumes h: "decodeCtrlData (dataDecoder d) h = Inr (k, sz, off)" and ok: "cache_ok (dataDecoder d)"
    and k: "k \<notin> {KindMap, KindSlice, KindPointer}"
  shows "reads_scalar d h t (decodeFromType d k sz off t cur depth)"
  using k h unmarshalBool_reads [of d h sz off t] unmarshalBytes_reads [of d h sz off t] unmarshalFloat_reads [OF ok, of h sz off t]
    unmarshalInt32_reads [of d h sz off t] unmarshalUint_reads [OF ok, of h sz off t] unmarshalString_reads [of d h sz off t]
    unmarshalUint128_reads [of d h sz off t] ok
  by (simp add: decodeFromType.simps reads_scalar_def)

text \<open>
  Values that stand in for a destination of weight \<open>w0\<close>: what the value weighs more than the destination
  did was paid for. Without a weight to stand in for the whole value was.
\<close>

definition gives :: "ReflectionDecoder \<Rightarrow> Type \<Rightarrow> nat \<Rightarrow> Value \<Rightarrow> ReflectionDecoder \<Rightarrow> bool" where
  "gives d t w0 v d' \<longleftrightarrow> keeps d d' \<and> has_type v t \<and> (\<exists>w. costs d d' w \<and> weight_of v \<le> w0 + w)"

lemma good_gives: "good d t v d' \<Longrightarrow> gives d t w0 v d'"
  by (auto simp: good_def gives_def)

lemma gives_0 [simp]: "gives d t 0 v d' \<longleftrightarrow> good d t v d'"
  by (auto simp: good_def gives_def elim: costs_less)

lemma gives_less: "gives d t w0 v d' \<Longrightarrow> w0 \<le> w1 \<Longrightarrow> gives d t w1 v d'"
  by (auto simp: gives_def intro: order.trans)

lemma weight_zero [simp]: "weight_of (zero_of t) = 0"
proof (induction t rule: zero_of.induct)
  case (4 n fs)
  then have "map weight_of (map (\<lambda>f. zero_of (fd_Type f)) fs) = map (\<lambda>_. 0) fs" by simp
  then show ?case by (simp del: map_map)
qed simp_all

lemma weight_deref: "weight_of (deref t cur) \<le> weight_of cur"
proof (induction t cur rule: deref.induct)
  case (1 t cur)
  then show ?case by (cases cur) simp_all
qed simp_all

definition reads_value :: "ReflectionDecoder \<Rightarrow> uint \<Rightarrow> Type \<Rightarrow> nat \<Rightarrow> decoded \<Rightarrow> bool" where
  "reads_value d off t w0 r \<longleftrightarrow> returns (\<lambda>(v, e, d'). gives d t w0 v d' \<and> values_at (dataDecoder d) 1 off e) r"

lemma reads_scalar_value: "reads_scalar d h t r \<Longrightarrow> reads_value d h t w0 r"
  unfolding reads_scalar_def reads_value_def by (erule returns_weaken) (auto simp: stream_Suc good_gives)

lemma weight_allocated [simp]: "weight_of (allocated t v) = weight_of v"
  by (induction t rule: unwrapPtrType.induct) auto

lemma fast_scalar:
  assumes "tryFastDecodeTyped d off t = Some r" and "decodeCtrlData (dataDecoder d) off = Inr (k, sz, o1)"
  shows "k \<notin> {KindMap, KindSlice, KindPointer}"
  using assms(1)
proof (induction t arbitrary: r rule: unwrapPtrType.induct)
  case (1 t)
  then show ?case by (auto simp: assms(2) tryFastDecodeTyped.simps [of d off "PtrT t"] split: option.splits)
qed (use assms(2) in \<open>auto simp: tryFastDecodeTyped.simps fastUint_def split: if_splits\<close>)

lemma fast_good:
  assumes "tryFastDecodeTyped d off t = Some (v, e, d')" and "budgetRemaining d \<noteq> 0" and "cache_ok (dataDecoder d)"
  shows "good d t v d' \<and> values_at (dataDecoder d) 1 off e"
proof -
  obtain k sz o1 where h: "decodeCtrlData (dataDecoder d) off = Inr (k, sz, o1)" by (rule fast_header [OF assms(1)])
  have "reads_value d off (unwrapPtrType t) 0 (decodeFromType d k sz o1 (unwrapPtrType t) (deref t NilV) 1)"
    using reads_scalar_value [OF scalar_reads [OF h assms(3) fast_scalar [OF assms(1) h]]] .
  moreover have "decodeValue d off t NilV 0 = Inr (v, e, d')" using fast_general [OF assms(1,2)] by simp
  ultimately show ?thesis
    by (auto simp: decodeValue_header [OF h] reads_value_def good_def bindE_eq_Inr dest: has_type_allocated)
qed

lemma key_interned:
  assumes ok: "cache_ok dd" and k: "decodeKeyAt dd off = Inr (key, co, n)"
  obtains c where "internOpt (stringCache dd) co key = (key, c)" and "cache_ok (dd\<lparr>stringCache := c\<rparr>)"
    and "length key \<le> 16843036"
proof -
  from k obtain sz p m where res: "resolveCtrlData dd off = Inr (KindString, sz, p, m)"
    and fit: "\<not> p + sz > glen (buffer dd)" and sl: "slice (buffer dd) p (p + sz) = Inr key"
    and co: "co = p - string_headerSize sz"
    by (auto simp: decodeKeyAt_eq keyAtSlow_def bindE_eq_Inr Let_def split: if_splits)
  obtain r where rec: "decodeCtrlData dd r = Inr (KindString, sz, p)" using res by (blast elim: resolveCtrlData_Inr)
  have f: "unat p + unat sz \<le> unat (glen (buffer dd))" using fit guard_iff [OF decodeCtrlData_small [OF rec]] by simp
  then have key: "key = payload dd p sz" using sl slice_payload [OF f] by simp
  obtain s c where i: "internOpt (stringCache dd) co key = (s, c)" by fastforce
  then have "s = key" "cache_ok (dd\<lparr>stringCache := c\<rparr>)" using internOpt_record [OF ok rec] co key by simp_all
  moreover have "length key \<le> 16843036" using decodeCtrlData_Inr(4) [OF rec] length_payload [OF f] key by simp
  ultimately show thesis using i that by blast
qed

lemma mapKey_post:
  assumes ok: "cache_ok (dataDecoder d)" and b: "budgetRemaining d \<noteq> 0"
  shows "returns (\<lambda>(key, e, d'). keeps d d' \<and> costs d d' (length key) \<and> values_at (dataDecoder d) 1 off e) (mapKey d off)"
proof -
  have key: "returns (\<lambda>(key, co, n). decodeKeyAt (dataDecoder d) off = Inr (key, co, n)) (decodeKeyAt (dataDecoder d) off)"
    using returns_safe [OF no_panic_decodeKeyAt, of "dataDecoder d" off] by (auto elim: returns_weaken)
  have "mapKey d off = decodeBudgetedStringKey d off" using b by (simp add: mapKey_def)
  then show ?thesis
    unfolding decodeBudgetedStringKey_def
  proof (simp only:, intro returns_bindE [OF key], clarify, goal_cases)
    case (1 key co n)
    obtain c where c: "internOpt (stringCache (dataDecoder d)) co key = (key, c)"
      "cache_ok ((dataDecoder d)\<lparr>stringCache := c\<rparr>)" "length key \<le> 16843036"
      by (rule key_interned [OF ok 1(3)])
    have v: "values_at (dataDecoder d) 1 off n"
      using decodeKey_token [of "dataDecoder d" off key n] 1(3) by (simp add: decodeKey_def stream_Suc)
    have "unat (glen key) = length key" using c(3) by (simp add: unat_glen max_int_def)
    then have r: "returns (\<lambda>d'. dataDecoder d' = dataDecoder d \<and> costs d d' (length key)) (reserveExactPayload d (glen key))"
      using reserveExactPayload_post [of "glen key" d] c(3) by simp
    show ?case
    proof (rule returns_bindE [OF r], goal_cases)
      case (1 d')
      have "charged d (length key) (d'\<lparr>dataDecoder := (dataDecoder d)\<lparr>stringCache := c\<rparr>\<rparr>)"
        using chargedI 1 c(2) by blast
      then show ?case
        using 1 c(1) v by (cases "stringCache (dataDecoder d)")
          (auto simp: internOpt_def keeps_same ok dest: charged_keeps split: prod.splits)
    qed
  qed
qed

section \<open>Containers and pointers\<close>

lemma container_values:
  assumes "decodeCtrlData dd h = Inr (k, sz, off)" and "k = KindMap \<or> k = KindSlice"
    and "values_at dd (token_children k sz) off e"
  shows "values_at dd 1 h e"
proof -
  have "token dd h = Some (off, token_children k sz)"
    using assms(1,2) decodeCtrlData_Inr(3) [OF assms(1)] by (auto simp: token_def token_len_def)
  then show ?thesis using assms(3) by (simp add: stream_Suc)
qed

lemma pointer_values:
  assumes "decodeCtrlData dd h = Inr (KindPointer, sz, off)" and "decodePointer dd sz off = Inr (p, n)"
  shows "values_at dd 1 h n"
proof -
  have "token dd h = Some (n, 0)"
    using assms decodeCtrlData_Inr(3) [OF assms(1)]
    by (auto simp: token_def token_len_def token_children_def decodePointer_spec Let_def split: if_splits)
  then show ?thesis by (simp add: stream_Suc)
qed

lemma activated_simps [simp]:
  "dataDecoder (activated d) = dataDecoder d" "budgetRemaining (activated d) \<noteq> 0"
  by (simp_all add: activated_def newBudgetedDecoder_def budget_size [unfolded newBudgetedDecoder_def, simplified])

lemma deactivated_post:
  assumes "keeps (activated d) d'" and "costs (activated d) d' w"
  shows "keeps d (deactivated d d')" and "costs d (deactivated d d') w"
  using assms by (auto simp: keeps_def costs_def deactivated_def activated_def newBudgetedDecoder_def)

lemma reserved_post:
  assumes "reserveActiveContainer d k sz = Inr d'" and "k = KindMap \<or> k = KindSlice" and "budgetRemaining d \<noteq> 0"
  shows "dataDecoder d' = dataDecoder d" and "budgetRemaining d' \<noteq> 0" and "costs d d' (token_children k sz)"
  using reserveActiveContainer_Inr [OF assms(1,2)] assms(3) by (auto simp: costs_def)

lemma no_panic_reserve [safe]: "no_panic (reserveActiveContainer d k sz)"
  by (auto simp: reserveActiveContainer_def intro!: safe)

lemma no_panic_validateContainerSize [safe]:
  "unat off \<le> unat (glen (buffer (dataDecoder d))) \<Longrightarrow> no_panic (validateContainerSize d k sz off depth)"
  by (auto simp: validateContainerSize_def Let_def intro!: safe)

text \<open>The entries of a map and the elements of a slice, added to those decoded before.\<close>

definition reads_entries ::
  "ReflectionDecoder \<Rightarrow> nat \<Rightarrow> uint \<Rightarrow> Type \<Rightarrow> (gostring \<times> Value) list \<Rightarrow>
    ((gostring \<times> Value) list \<times> uint \<times> ReflectionDecoder) res \<Rightarrow> bool" where
  "reads_entries d n off t m r \<longleftrightarrow>
     returns (\<lambda>(m', e, d'). keeps d d' \<and> distinct (map fst m') \<and> (\<forall>x \<in> set m'. has_type (snd x) t) \<and>
       length m' \<le> length m + n \<and> values_at (dataDecoder d) (2 * n) off e \<and>
       (\<exists>w. costs d d' w \<and> entries_weight m' \<le> entries_weight m + w)) r"

definition reads_elements ::
  "ReflectionDecoder \<Rightarrow> nat \<Rightarrow> uint \<Rightarrow> Type \<Rightarrow> Value list \<Rightarrow> (Value list \<times> uint \<times> ReflectionDecoder) res \<Rightarrow> bool" where
  "reads_elements d n off t vs r \<longleftrightarrow>
     returns (\<lambda>(vs', e, d'). keeps d d' \<and> (\<forall>v \<in> set vs'. has_type v t) \<and> length vs' = length vs + n \<and>
       values_at (dataDecoder d) n off e \<and>
       (\<exists>w. costs d d' w \<and> sum_list (map weight_of vs') \<le> sum_list (map weight_of vs) + w)) r"

lemma update_entries:
  shows "length (AList.update k v m) \<le> Suc (length m)"
    and "entries_weight (AList.update k v m) \<le> entries_weight m + length k + weight_of v"
    and "set (AList.update k v m) \<subseteq> insert (k, v) (set m)"
  by (induction m) (auto simp: entries_weight_def)

lemma element_reads:
  assumes "reads_value d off t 0 (decodeValue d off t (zero_of t) depth)" and "cache_ok (dataDecoder d)" and "budgetRemaining d \<noteq> 0"
    and "\<And>e. root_error (wrap e) = root_error e"
  shows "reads_value d off t 0 (element (fastElement d off t) wrap (decodeValue d off t (zero_of t) depth))"
proof (cases "fastElement d off t")
  case None
  then show ?thesis using assms(1,4) by (simp add: element_def reads_value_def returns_mapErr)
next
  case (Some r)
  obtain v e d' where r: "r = (v, e, d')" by (cases r) auto
  with Some have "tryFastDecodeTyped d off t = Some (v, e, d')" by (simp add: fastElement_def split: if_splits)
  then show ?thesis using fast_good assms(2,3) by (simp add: Some r element_def reads_value_def)
qed

lemma stream_element: "stream tok 1 off mid \<Longrightarrow> stream tok n mid e \<Longrightarrow> stream tok (Suc n) off e"
  using stream_append [of tok 1 n off e] by auto

lemma stream_entry:
  "stream tok 1 off o1 \<Longrightarrow> stream tok 1 o1 o2 \<Longrightarrow> stream tok (2 * n) o2 e \<Longrightarrow> stream tok (2 * Suc n) off e"
  using stream_append [of tok 1 "1 + 2 * n" off e] stream_append [of tok 1 "2 * n" o1 e] two_Suc [of n] by metis

lemma decodeMap_step:
  assumes ok: "cache_ok (dataDecoder d)" and b: "budgetRemaining d \<noteq> 0" and m: "distinct (map fst m)" "\<forall>x \<in> set m. has_type (snd x) t"
    and val: "\<And>key o1 d1. mapKey d off = Inr (key, o1, d1) \<Longrightarrow> cache_ok (dataDecoder d1) \<Longrightarrow>
      reads_value d1 o1 t 0 (decodeValue d1 o1 t (zero_of t) depth)"
    and rest: "\<And>key o1 d1 v o2 d2. mapKey d off = Inr (key, o1, d1) \<Longrightarrow>
      element (fastElement d1 o1 t) (\<lambda>err. wrapErrorWithMapKey err key) (decodeValue d1 o1 t (zero_of t) depth) = Inr (v, o2, d2) \<Longrightarrow>
      cache_ok (dataDecoder d2) \<Longrightarrow> budgetRemaining d2 \<noteq> 0 \<Longrightarrow> has_type v t \<Longrightarrow>
      reads_entries d2 n o2 t (AList.update key v m) (decodeMap d2 n o2 t depth (AList.update key v m))"
  shows "reads_entries d (Suc n) off t m (decodeMap d (Suc n) off t depth m)"
  unfolding reads_entries_def decodeMap.simps(2)
proof (intro returns_bindE [OF mapKey_post [OF ok b]], clarify, goal_cases)
  case (1 key o1 d1)
  have k1: "cache_ok (dataDecoder d1)" "token (dataDecoder d1) = token (dataDecoder d)" "budgetRemaining d1 \<noteq> 0"
    using keeps_reads [OF 1(2)] 1(3) b by (auto simp: costs_def)
  have el: "reads_value d1 o1 t 0 (element (fastElement d1 o1 t) (\<lambda>err. wrapErrorWithMapKey err key) (decodeValue d1 o1 t (zero_of t) depth))"
    using k1 val [OF 1(1) k1(1)] by (intro element_reads) (simp_all add: wrapErrorWithMapKey_def)
  show ?case
  proof (intro returns_bindE [OF el [unfolded reads_value_def gives_0]], clarify, goal_cases)
    case (1 v o2 d2)
    note k2 = keeps_reads [OF 1(2) [unfolded good_def, THEN conjunct1]]
    have b2: "budgetRemaining d2 \<noteq> 0" using 1(2) k1(3) by (auto simp: good_def costs_def)
    have ty: "has_type v t" using 1(2) by (simp add: good_def)
    note R = rest [OF \<open>mapKey d off = Inr (key, o1, d1)\<close> 1(1) k2(3) b2 ty, unfolded reads_entries_def]
    show ?case
    proof (rule returns_weaken [OF R], clarify, goal_cases)
      case (1 m' e d' w)
      have "keeps d d'" using \<open>keeps d d1\<close> \<open>good d1 t v d2\<close> 1(1) by (auto simp: good_def intro: keeps_trans)
      moreover have "length m' \<le> length m + Suc n" using 1(4) update_entries(1) [of key v m] by linarith
      moreover have "values_at (dataDecoder d) (2 * Suc n) off e"
        using stream_entry \<open>values_at (dataDecoder d) 1 off o1\<close> \<open>values_at (dataDecoder d1) 1 o1 o2\<close> 1(5) k1(2) k2(2)
        by metis
      moreover have "costs d d' (length key + weight_of v + w)"
        using \<open>costs d d1 (length key)\<close> \<open>good d1 t v d2\<close> 1(6) by (auto simp: good_def intro: costs_trans)
      moreover have "entries_weight m' \<le> entries_weight m + (length key + weight_of v + w)"
        using 1(7) update_entries(2) [of key v m] by linarith
      ultimately show ?case using 1(2,3) by blast
    qed
  qed
qed

lemma decodeSlice_step:
  assumes ok: "cache_ok (dataDecoder d)" and b: "budgetRemaining d \<noteq> 0" and vs: "\<forall>v \<in> set vs. has_type v t"
    and val: "reads_value d off t 0 (decodeValue d off t (zero_of t) depth)"
    and rest: "\<And>v o2 d2. element (fastElement d off t) (\<lambda>err. wrapErrorWithSliceIndex err (length vs)) (decodeValue d off t (zero_of t) depth) =
        Inr (v, o2, d2) \<Longrightarrow>
      cache_ok (dataDecoder d2) \<Longrightarrow> budgetRemaining d2 \<noteq> 0 \<Longrightarrow> has_type v t \<Longrightarrow>
      reads_elements d2 n o2 t (vs @ [v]) (decodeSlice d2 n o2 t depth (vs @ [v]))"
  shows "reads_elements d (Suc n) off t vs (decodeSlice d (Suc n) off t depth vs)"
proof -
  have el: "reads_value d off t 0 (element (fastElement d off t) (\<lambda>err. wrapErrorWithSliceIndex err (length vs)) (decodeValue d off t (zero_of t) depth))"
    by (rule element_reads) (simp_all add: val ok b wrapErrorWithSliceIndex_def)
  show ?thesis
    unfolding reads_elements_def decodeSlice.simps(2)
  proof (intro returns_bindE [OF el [unfolded reads_value_def gives_0]], clarify, goal_cases)
    case (1 v o2 d2)
    note k2 = keeps_reads [OF 1(2) [unfolded good_def, THEN conjunct1]]
    have b2: "budgetRemaining d2 \<noteq> 0" using 1(2) b by (auto simp: good_def costs_def)
    have ty: "has_type v t" using 1(2) by (simp add: good_def)
    note R = rest [OF 1(1) k2(3) b2 ty, unfolded reads_elements_def]
    show ?case
    proof (rule returns_weaken [OF R], clarify, goal_cases)
      case (1 vs' e d' w)
      have "keeps d d'" using \<open>good d t v d2\<close> 1(1) by (auto simp: good_def intro: keeps_trans)
      moreover have "values_at (dataDecoder d) (Suc n) off e"
        using stream_element \<open>values_at (dataDecoder d) 1 off o2\<close> 1(4) k2(2) by metis
      moreover have "costs d d' (weight_of v + w)"
        using \<open>good d t v d2\<close> 1(5) by (auto simp: good_def intro: costs_trans)
      ultimately show ?case using 1(2,3,6) by (auto intro!: exI [of _ "weight_of v + w"])
    qed
  qed
qed

lemma entries_destination:
  assumes "has_type cur t" and "(case t of MapT e \<Rightarrow> Some e | AnyT \<Rightarrow> Some AnyT | _ \<Rightarrow> None) = Some elem"
  shows "distinct (map fst (entries_of t cur))" and "\<forall>x \<in> set (entries_of t cur). has_type (snd x) elem"
    and "2 * length (entries_of t cur) + entries_weight (entries_of t cur) \<le> weight_of cur"
  using assms by (cases t; cases cur; simp add: entries_of_def entries_weight_def)+

lemma map_result:
  assumes h: "decodeCtrlData (dataDecoder d) h = Inr (KindMap, sz, off)"
    and b: "reserveActiveContainer (activated d) KindMap sz = Inr b" and cur: "has_type cur t"
    and t: "(case t of MapT e \<Rightarrow> Some e | AnyT \<Rightarrow> Some AnyT | _ \<Rightarrow> None) = Some elem"
    and m: "keeps b b'" "distinct (map fst m)" "\<forall>x \<in> set m. has_type (snd x) elem" "length m \<le> length (entries_of t cur) + unat sz"
      "values_at (dataDecoder b) (2 * unat sz) off e" "costs b b' w" "entries_weight m \<le> entries_weight (entries_of t cur) + w"
  shows "gives d t (weight_of cur) (MapV m) (deactivated d b') \<and> values_at (dataDecoder d) 1 h e"
proof -
  note r = reserved_post [OF b, simplified]
  have "costs (activated d) b' (token_children KindMap sz + w)" using r(3) m(6) by (rule costs_trans)
  moreover have "keeps (activated d) b'" using m(1) r(1) by (simp add: keeps_def)
  ultimately have "keeps d (deactivated d b')" "costs d (deactivated d b') (token_children KindMap sz + w)"
    using deactivated_post by blast+
  moreover have "weight_of (MapV m) \<le> weight_of cur + (token_children KindMap sz + w)"
    using m(4,7) entries_destination(3) [OF cur t] by (simp add: token_children_def del: weight_of.simps)
  moreover have "has_type (MapV m) t" using t m(2,3) by (auto split: Type.splits)
  moreover have "values_at (dataDecoder d) 1 h e"
    using container_values [OF h] m(5) r(1) by (simp add: token_children_def)
  ultimately show ?thesis unfolding gives_def by blast
qed

text \<open>The fields of a struct, decoded into a struct of weight \<open>w0\<close>.\<close>

definition reads_struct :: "ReflectionDecoder \<Rightarrow> nat \<Rightarrow> uint \<Rightarrow> Type \<Rightarrow> nat \<Rightarrow> decoded \<Rightarrow> bool" where
  "reads_struct d n off t w0 r \<longleftrightarrow>
     returns (\<lambda>(v, e, d'). gives d t w0 v d' \<and> values_at (dataDecoder d) (2 * n) off e) r"

lemma struct_result:
  assumes h: "decodeCtrlData (dataDecoder d) h = Inr (KindMap, sz, off)"
    and b: "reserveActiveContainer (activated d) KindMap sz = Inr b"
    and v: "gives b t w0 v b'" "values_at (dataDecoder b) (2 * unat sz) off e"
  shows "gives d t w0 v (deactivated d b') \<and> values_at (dataDecoder d) 1 h e"
proof -
  note r = reserved_post [OF b, simplified]
  obtain w where w: "costs b b' w" "weight_of v \<le> w0 + w" using v(1) by (auto simp: gives_def)
  have "costs (activated d) b' (token_children KindMap sz + w)" using r(3) w(1) by (rule costs_trans)
  then have "costs (activated d) b' w" by (rule costs_less) simp
  moreover have "keeps (activated d) b'" using v(1) r(1) by (simp add: gives_def keeps_def)
  ultimately have "keeps d (deactivated d b')" "costs d (deactivated d b') w" using deactivated_post by blast+
  moreover have "values_at (dataDecoder d) 1 h e"
    using container_values [OF h] v(2) r(1) by (simp add: token_children_def)
  ultimately show ?thesis using v(1) w(2) by (auto simp: gives_def)
qed

lemma unmarshalMap_step:
  assumes h: "decodeCtrlData (dataDecoder d) h = Inr (KindMap, sz, off)" and ok: "cache_ok (dataDecoder d)"
    and cur: "has_type cur t"
    and struct: "\<And>b. reserveActiveContainer (activated d) KindMap sz = Inr b \<Longrightarrow> isStruct t \<Longrightarrow>
      cache_ok (dataDecoder b) \<Longrightarrow> budgetRemaining b \<noteq> 0 \<Longrightarrow>
      reads_struct b (unat sz) off t (weight_of cur) (decodeStructWithFields b sz off t cur depth (makeStructFields t))"
    and entries: "\<And>b e. reserveActiveContainer (activated d) KindMap sz = Inr b \<Longrightarrow> \<not> isStruct t \<Longrightarrow>
      (case t of MapT e \<Rightarrow> Some e | AnyT \<Rightarrow> Some AnyT | _ \<Rightarrow> None) = Some e \<Longrightarrow>
      validateContainerSize b KindMap sz off depth = Inr () \<Longrightarrow> cache_ok (dataDecoder b) \<Longrightarrow> budgetRemaining b \<noteq> 0 \<Longrightarrow>
      reads_entries b (unat sz) off e (entries_of t cur) (decodeMap b (unat sz) off e depth (entries_of t cur))"
  shows "reads_value d h t (weight_of cur) (unmarshalMap d sz off t cur depth)"
  unfolding reads_value_def unmarshalMap.simps
proof (intro returns_bindE [OF returns_safe [OF no_panic_reserve]], goal_cases)
  case (1 b)
  let ?P = "\<lambda>(v, e, d'). gives d t (weight_of cur) v d' \<and> values_at (dataDecoder d) 1 h e"
  note r = reserved_post [OF 1(1), simplified]
  have b: "cache_ok (dataDecoder b)" "budgetRemaining b \<noteq> 0" using r(1,2) ok by simp_all
  have safe: "no_panic (validateContainerSize b KindMap sz off depth)"
    using decodeCtrlData_Inr(3) [OF h] r(1) by (intro no_panic_validateContainerSize) simp
  show ?case
  proof (cases "isStruct t")
    case True
    have "returns ?P (bindE (decodeStructWithFields b sz off t cur depth (makeStructFields t)) (\<lambda>(v, newOffset, b).
        Inr (v, newOffset, deactivated d b)))"
      by (rule returns_bindE [OF struct [OF 1(1) True b, unfolded reads_struct_def]])
        (use struct_result [OF h 1(1)] in \<open>auto simp del: One_nat_def\<close>)
    with True show ?thesis by simp
  next
    case False
    have map: "returns ?P (case (case t of MapT e \<Rightarrow> Some e | AnyT \<Rightarrow> Some AnyT | _ \<Rightarrow> None) of
        None \<Rightarrow> Inl (UnmarshalTypeError ''map'')
      | Some elemType \<Rightarrow> bindE (validateContainerSize b KindMap sz off depth) (\<lambda>_.
          bindE (decodeMap b (unat sz) off elemType depth (entries_of t cur)) (\<lambda>(m, newOffset, b).
            Inr (MapV m, newOffset, deactivated d b))))"
    proof (cases "case t of MapT e \<Rightarrow> Some e | AnyT \<Rightarrow> Some AnyT | _ \<Rightarrow> None")
      case (Some elem)
      have "returns (\<lambda>(m, e, b'). gives d t (weight_of cur) (MapV m) (deactivated d b') \<and> values_at (dataDecoder d) 1 h e)
          (decodeMap b (unat sz) off elem depth (entries_of t cur))" if v: "validateContainerSize b KindMap sz off depth = Inr ()"
        by (rule returns_weaken [OF entries [OF 1(1) False Some v b, unfolded reads_entries_def]])
          (use map_result [OF h 1(1) cur Some] in \<open>auto simp del: One_nat_def\<close>)
      then show ?thesis
        by (auto simp: Some intro!: returns_bindE [OF returns_safe [OF safe]] intro: returns_bindE)
    qed simp
    then show ?thesis using False by simp
  qed
qed

lemma slice_weight:
  "elem = Uint8T \<Longrightarrow> \<forall>v \<in> set vs. has_type v elem \<Longrightarrow> weight_of (sliceOf elem c vs) = length vs"
  "elem \<noteq> Uint8T \<Longrightarrow> weight_of (sliceOf elem c vs) = length vs + sum_list (map weight_of vs)"
  by (simp_all add: sliceOf_def)

lemma slice_result:
  assumes h: "decodeCtrlData (dataDecoder d) h = Inr (KindSlice, sz, off)" 
    and b: "reserveActiveContainer (activated d) KindSlice sz = Inr b"
    and t: "(case t of SliceT e \<Rightarrow> Some e | AnyT \<Rightarrow> Some AnyT | _ \<Rightarrow> None) = Some elem"
    and vs: "keeps b b'" "\<forall>v \<in> set vs. has_type v elem" "length vs = unat sz"
      "values_at (dataDecoder b) (unat sz) off e" "costs b b' w" "sum_list (map weight_of vs) \<le> w" and c: "unat sz \<le> c"
  shows "good d t (sliceOf elem c vs) (deactivated d b') \<and> values_at (dataDecoder d) 1 h e"
proof -
  note r = reserved_post [OF b, simplified]
  have "costs (activated d) b' (token_children KindSlice sz + w)" using r(3) vs(5) by (rule costs_trans)
  then have "costs (activated d) b' (weight_of (sliceOf elem c vs))"
    by (rule costs_less) (use vs(2,3,6) slice_weight(1) [of elem vs c] slice_weight(2) [of elem c vs] in \<open>cases "elem = Uint8T"; simp add: token_children_def\<close>)
  moreover have "keeps (activated d) b'" using vs(1) r(1) by (simp add: keeps_def)
  ultimately have "keeps d (deactivated d b')" "costs d (deactivated d b') (weight_of (sliceOf elem c vs))"
    using deactivated_post by blast+
  moreover have "has_type (sliceOf elem c vs) t" using t vs(2,3) c by (auto simp: sliceOf_def split: Type.splits)
  moreover have "values_at (dataDecoder d) 1 h e"
    using container_values [OF h] vs(4) r(1) by (simp add: token_children_def)
  ultimately show ?thesis by (simp add: good_def)
qed

lemma newCap_le: "n \<le> newCap t cur n"
  by (auto simp: newCap_def needsArray_def split: Type.splits)

lemma unmarshalSlice_step:
  assumes h: "decodeCtrlData (dataDecoder d) h = Inr (KindSlice, sz, off)" and ok: "cache_ok (dataDecoder d)"
    and elements: "\<And>b e. reserveActiveContainer (activated d) KindSlice sz = Inr b \<Longrightarrow>
      (if needsArray t cur (unat sz) \<and> sz > 0 then validateContainerSize b KindSlice sz off depth else Inr ()) = Inr () \<Longrightarrow>
      (case t of SliceT e \<Rightarrow> Some e | AnyT \<Rightarrow> Some AnyT | _ \<Rightarrow> None) = Some e \<Longrightarrow>
      cache_ok (dataDecoder b) \<Longrightarrow> budgetRemaining b \<noteq> 0 \<Longrightarrow>
      reads_elements b (unat sz) off e [] (decodeSlice b (unat sz) off e depth [])"
  shows "reads_value d h t w0 (unmarshalSlice d sz off t cur depth)"
  unfolding reads_value_def unmarshalSlice.simps
proof (intro returns_bindE [OF returns_safe [OF no_panic_reserve]], goal_cases)
  case (1 b)
  note b = 1(1) and r = reserved_post [OF 1(1), simplified]
  let ?check = "if needsArray t cur (unat sz) \<and> sz > 0 then validateContainerSize b KindSlice sz off depth else Inr ()"
  have safe: "no_panic ?check"
    using decodeCtrlData_Inr(3) [OF h] r(1) by (auto intro: no_panic_validateContainerSize)
  show ?case
  proof (intro returns_bindE [OF returns_safe [OF safe]], goal_cases)
    case (1 u)
    then have v: "?check = Inr ()" by simp
    show ?case
    proof (cases "case t of SliceT e \<Rightarrow> Some e | AnyT \<Rightarrow> Some AnyT | _ \<Rightarrow> None")
      case (Some elem)
      have "returns (\<lambda>(vs, e, b'). gives d t w0 (sliceOf elem (newCap t cur (unat sz)) vs) (deactivated d b') \<and> values_at (dataDecoder d) 1 h e)
          (decodeSlice b (unat sz) off elem depth [])"
      proof (rule returns_weaken [OF elements [OF b v Some, unfolded reads_elements_def]], goal_cases)
        case (3 x)
        then show ?case using slice_result [OF h b Some _ _ _ _ _ _ newCap_le] by (auto simp: good_gives simp del: One_nat_def)
      qed (use r(1,2) ok in simp_all)
      then show ?thesis by (auto simp: Some intro: returns_bindE)
    qed simp
  qed
qed

lemma short_string_header:
  assumes c: "index (buffer dd) p = Inr c" and k: "Kind_of_byte (drop_bit 5 c) = KindString"
    and sz: "sz = ucast (c AND 0x1f)" "sz < 29" and fits: "sz \<le> glen (buffer dd) - (p + 1)"
  shows "decodeCtrlData dd p = Inr (KindString, sz, p + 1)"
    and "unat (p + 1) + unat sz \<le> unat (glen (buffer dd))"
proof -
  have p: "p < glen (buffer dd)" using c by (simp add: index_Inr)
  show h: "decodeCtrlData dd p = Inr (KindString, sz, p + 1)"
    using decodeCtrlData_direct [OF c refl] k sz by simp
  show "unat (p + 1) + unat sz \<le> unat (glen (buffer dd))"
    using fits decodeCtrlData_Inr(3) [OF h] by (simp add: word_le_nat_alt unat_sub)
qed

lemma pointed_string:
  assumes ok: "cache_ok (dataDecoder d)" and h: "decodeCtrlData (dataDecoder d) p = Inr (KindString, sz, o1)"
    and sz: "sz < 29" and fits: "unat o1 + unat sz \<le> unat (glen (buffer (dataDecoder d)))"
  shows "returns (\<lambda>(v, e, d'). e = n \<and> good d StringT v d') (bindE (reserveExactPayload d sz) (\<lambda>d.
      bindE (decodeCompactString (dataDecoder d) sz o1) (\<lambda>(s, dd). Inr (StringV s, n, d\<lparr>dataDecoder := dd\<rparr>))))"
proof (rule returns_bindE [OF reserveExactPayload_post [OF header_small [OF h], of d]], goal_cases)
  case (1 d1)
  obtain c where c: "decodeCompactString (dataDecoder d) sz o1 = Inr (payload (dataDecoder d) o1 sz, (dataDecoder d)\<lparr>stringCache := c\<rparr>)"
    "cache_ok ((dataDecoder d)\<lparr>stringCache := c\<rparr>)"
    using compact_record [OF ok h sz fits] by blast
  have "charged d (unat sz) (d1\<lparr>dataDecoder := (dataDecoder d)\<lparr>stringCache := c\<rparr>\<rparr>)"
    using chargedI 1 c(2) by blast
  then show ?case
    using 1 c(1) length_payload [OF fits] by (auto simp: good_def dest: charged_keeps)
qed

definition shortcut :: "ReflectionDecoder \<Rightarrow> Type \<Rightarrow> nat \<Rightarrow> uint \<Rightarrow> byte \<Rightarrow> bool" where
  "shortcut d t depth p c \<longleftrightarrow> Kind_of_byte (drop_bit 5 c) = KindString \<and> t = StringT \<and> depth \<le> maximumDataStructureDepth \<and>
     (ucast (c AND 0x1f) :: uint) < 29 \<and> ucast (c AND 0x1f) \<le> glen (buffer (dataDecoder d)) - (p + 1)"

lemma unmarshalPointer_step:
  assumes h: "decodeCtrlData (dataDecoder d) h = Inr (KindPointer, sz, off)" and ok: "cache_ok (dataDecoder d)"
    and val: "\<And>p n. decodePointer (dataDecoder d) sz off = Inr (p, n) \<Longrightarrow> 
      p \<ge> glen (buffer (dataDecoder d)) \<or> (\<exists>c kind. pointedKind d p = Inr (c, kind) \<and> kind \<noteq> KindPointer \<and> \<not> shortcut d t depth p c) \<Longrightarrow>
      reads_value d p t w0 (decodeValue d p t cur depth)"
  shows "reads_value d h t w0 (unmarshalPointer d sz off t cur depth)"
  unfolding reads_value_def unmarshalPointer.simps
proof (intro returns_bindE [OF returns_safe [OF no_panic_decodePointer [OF decodeCtrlData_Inr(3) [OF h]]]], clarify, goal_cases)
  case (1 p n)
  let ?P = "\<lambda>(v, e, d'). gives d t w0 v d' \<and> values_at (dataDecoder d) 1 h e"
  have v1: "values_at (dataDecoder d) 1 h n" using pointer_values [OF h] 1 by blast
  have slow: "returns ?P (bindE (decodeValue d p t cur depth) (\<lambda>(v, _, d). Inr (v, n, d)))"
    if "p \<ge> glen (buffer (dataDecoder d)) \<or> (\<exists>c kind. pointedKind d p = Inr (c, kind) \<and> kind \<noteq> KindPointer \<and> \<not> shortcut d t depth p c)"
    by (rule returns_bindE [OF val [OF _ that, unfolded reads_value_def]]) (use v1 1 in auto)
  show ?case
  proof (cases "p \<ge> glen (buffer (dataDecoder d))")
    case False
    then obtain c where c: "index (buffer (dataDecoder d)) p = Inr c" by (simp add: index_ok not_le)
    then obtain k where k: "pointedKind d p = Inr (c, k)"
      by (cases "Kind_of_byte (drop_bit 5 c) = KindExtended \<and> p + 1 < glen (buffer (dataDecoder d))")
        (auto simp: pointedKind_def Let_def index_ok)
    let ?sz = "ucast (c AND 0x1f) :: uint"
    have quick: "returns ?P (bindE (reserveExactPayload d ?sz) (\<lambda>d.
        bindE (decodeCompactString (dataDecoder d) ?sz (p + 1)) (\<lambda>(s, dd). Inr (StringV s, n, d\<lparr>dataDecoder := dd\<rparr>))))"
      if s: "shortcut d t depth p c"
    proof -
      have s': "Kind_of_byte (drop_bit 5 c) = KindString" "?sz < 29" "?sz \<le> glen (buffer (dataDecoder d)) - (p + 1)" "t = StringT"
        using s by (simp_all add: shortcut_def)
      note header = short_string_header [OF c s'(1) refl s'(2,3)]
      show ?thesis
        using pointed_string [OF ok header(1) s'(2) header(2), of n]
        by (rule returns_weaken) (use s'(4) v1 in \<open>auto simp: good_gives\<close>)
    qed
    show ?thesis
    proof (cases "k = KindPointer")
      case False
      then show ?thesis
        using quick slow \<open>\<not> p \<ge> _\<close> k by (cases "shortcut d t depth p c") (simp_all add: k Let_def shortcut_def)
    qed (use \<open>\<not> p \<ge> _\<close> in \<open>simp add: k\<close>)
  qed (use slow in simp)
qed


end
