(* ===== verification/ReflectionStructs.thy ===== *)
theory ReflectionStructs
  imports ReflectionWalk
begin

text \<open>
  Decoding structs: the fields set are those of the destination, values of unknown keys are skipped, and
  the dispatch chosen for a field in advance decodes what the general decoder does. The last section
  proves what a decoded value is for every operation of the walk at once.
\<close>

section \<open>Skipped values\<close>

lemma no_panic_structFieldValue [safe]: "no_panic (structFieldValueIsInlineContainer d offset)"
  by (auto simp: structFieldValueIsInlineContainer_def Let_def intro!: safe)

lemma no_panic_skipRange [safe]: "no_panic (skipRange d off sz)"
  by (simp add: skipRange_def)

lemma no_panic_budgetStep [safe]: "no_panic (budgetStep d k sz off n)"
  by (cases k; auto simp: budgetStep_def Let_def intro!: safe)

lemma no_panic_budgetHeader [safe]: "off < glen (buffer d) \<Longrightarrow> no_panic (budgetHeader d off)"
  by (auto simp: budgetHeader_def Let_def intro!: safe)

lemma no_panic_budgeted [safe]: "no_panic (nextValueOffsetBudgetedSlow d off n)"
proof (induction d off n rule: nextValueOffsetBudgetedSlow.induct)
  case (1 d off n)
  then show ?case
    by (subst nextValueOffsetBudgetedSlow.simps) (auto simp: not_le intro!: safe)
qed

text \<open>Keeping the decoder's data and paying nothing.\<close>

lemma budgeted_skip_post:
  assumes "nextValueOffsetBudgetedSlow d off 1 = Inr (e, d')" and "cache_ok (dataDecoder d)" and "budgetRemaining d \<noteq> 0"
    and "unat off \<le> unat (glen (buffer (dataDecoder d)))"
  shows "keeps d d' \<and> costs d d' 0 \<and> values_at (dataDecoder d) 1 off e"
proof -
  obtain t b where w: "walk (strict_token (dataDecoder d)) 1 off e t"
    and t: "t + unat (budgetRemaining d') = 1 + unat (budgetRemaining d)"
    and b: "d' = d\<lparr>budgetRemaining := b\<rparr>" and nz: "budgetRemaining d' \<noteq> 0"
    using budget_sound [OF assms(1)] assms(3) by auto
  have "1 \<le> t" using strict_tokens.walk_offset [OF w assms(4)] by simp
  then have "costs d d' 0" using t b nz assms(3) by (simp add: costs_def)
  moreover have "values_at (dataDecoder d) 1 off e"
    unfolding stream_def using strict.strict_walk [OF w] by blast
  ultimately show ?thesis using b assms(2) by (simp add: keeps_same)
qed

lemma skipField_post:
  assumes ok: "cache_ok (dataDecoder d)" and b: "budgetRemaining d \<noteq> 0" and off: "unat off \<le> unat (glen (buffer (dataDecoder d)))"
  shows "returns (\<lambda>(e, d'). keeps d d' \<and> costs d d' 0 \<and> values_at (dataDecoder d) 1 off e) (skipField d off)"
proof -
  have plain: "values_at (dataDecoder d) 1 off e" if "nextValueOffset (dataDecoder d) off 1 = Inr e" for e
    using nextValueOffset_sound [OF that] by simp
  show ?thesis
    unfolding skipField_def
  proof (rule returns_bindE [OF returns_safe [OF no_panic_structFieldValue]], goal_cases)
    case (1 container)
    show ?case
    proof (cases container)
      case True
      then show ?thesis
        using budgeted_skip_post [OF _ ok b off] returns_safe [OF no_panic_budgeted, of d off 1]
        by (auto elim: returns_weaken)
    next
      case False
      have "returns (\<lambda>(e, d'). keeps d d' \<and> costs d d' 0 \<and> values_at (dataDecoder d) 1 off e)
          (bindE (nextValueOffset (dataDecoder d) off 1) (\<lambda>offset. Inr (offset, d)))"
        by (rule returns_bindE [OF returns_safe [OF no_panic_nextValueOffset]]) (use plain keeps_refl [OF ok] in simp)
      with False show ?thesis by simp
    qed
  qed
qed

section \<open>Setting a field\<close>

text \<open>The weight of a struct with one field replaced.\<close>

lemma sum_update:
  fixes xs :: "nat list"
  shows "i < length xs \<Longrightarrow> sum_list (xs[i := x]) + xs ! i = sum_list xs + x"
  by (induction xs arbitrary: i) (auto split: nat.split)

lemma field_count: "has_type v t \<Longrightarrow> i < length (struct_fields t) \<Longrightarrow> i < length (field_values v)"
  by (cases t) (auto simp: has_type_struct list_all2_conv_all_nth)

lemma field_weight:
  assumes "has_type v t" and "i < length (struct_fields t)"
  shows "weight_of (StructV ((field_values v)[i := new])) + weight_of (field_values v ! i) = weight_of v + weight_of new"
proof -
  have i: "i < length (field_values v)" by (rule field_count [OF assms])
  have "weight_of v = sum_list (map weight_of (field_values v))"
    using assms by (cases t) (auto simp: has_type_struct)
  moreover have "map weight_of ((field_values v)[i := new]) = (map weight_of (field_values v))[i := weight_of new]"
    by (rule map_update)
  ultimately show ?thesis using sum_update [of i "map weight_of (field_values v)" "weight_of new"] i by simp
qed

lemma indirect_weight:
  assumes "indirect ft v True = Some w"
  shows "weight_of w \<le> weight_of v" and "weight_of (embedded ft u) = weight_of u"
  using assms by (auto simp: indirect_def embedded_def split: Type.splits Value.splits)

lemma setField_weight:
  "has_type v t \<Longrightarrow> path_type t js = Some ft \<Longrightarrow> fieldByIndex t v js True = Some w \<Longrightarrow>
     weight_of (setField t v js new) + weight_of w \<le> weight_of v + weight_of new"
proof (induction t v js new arbitrary: rule: setField.induct)
  case (2 t v i new)
  then have "i < length (struct_fields t)" by (simp split: if_splits)
  then show ?case using field_weight [OF 2(1), of i new] 2(3) by (simp del: weight_of.simps)
next
  case (3 t v i j js new)
  then obtain t' where t': "getEmbeddedStructType (fd_Type (struct_fields t ! i)) = Some t'" and i: "i < length (struct_fields t)"
    and rest: "path_type t' (j # js) = Some ft"
    by (auto simp: bind_eq_Some_conv split: if_splits)
  note T = indirect_typed [OF t' field_typed(1) [OF 3(2) i]]
  obtain w' where w': "indirect (fd_Type (struct_fields t ! i)) (field_values v ! i) True = Some w'" using T(1) by blast
  have f: "fieldByIndex t' w' (j # js) True = Some w" using 3(4) by (simp add: Let_def w' T(4))
  have "weight_of (setField t' w' (j # js) new) + weight_of w \<le> weight_of w' + weight_of new"
    using 3(1) [OF refl w'] T(2) [OF w'] rest f by (simp add: T(4))
  moreover have "weight_of (setField t v (i # j # js) new) + weight_of (field_values v ! i) =
      weight_of v + weight_of (setField t' w' (j # js) new)"
    using field_weight [OF 3(2) i] indirect_weight(2) [OF w'] by (simp add: Let_def w' T(4) del: weight_of.simps)
  ultimately show ?case using indirect_weight(1) [OF w'] by linarith
qed simp

section \<open>The loop over the keys of a struct\<close>

lemma struct_entry:
  assumes "keeps d d2" and "costs d d2 w" and "weight_of cur' \<le> weight_of cur + w"
    and "values_at (dataDecoder d) 1 off o1" and "values_at (dataDecoder d) 1 o1 o2"
    and "reads_struct d2 n o2 t (weight_of cur') r"
  shows "reads_struct d (Suc n) off t (weight_of cur) r"
  unfolding reads_struct_def
proof (rule returns_weaken [OF assms(6) [unfolded reads_struct_def]], clarify, goal_cases)
  case (1 v e d')
  then obtain w' where w': "costs d2 d' w'" "weight_of v \<le> weight_of cur' + w'" "keeps d2 d'" "has_type v t"
    by (auto simp: gives_def)
  have "costs d d' (w + w')" using assms(2) w'(1) by (rule costs_trans)
  moreover have "weight_of v \<le> weight_of cur + (w + w')" using w'(2) assms(3) by linarith
  moreover have "keeps d d'" using assms(1) w'(3) by (rule keeps_trans)
  moreover have "values_at (dataDecoder d) (2 * Suc n) off e"
    using stream_entry assms(4,5) 1(2) keeps_reads(2) [OF assms(1)] by metis
  ultimately show ?case using w'(4) unfolding gives_def by blast
qed

lemma key_post:
  assumes "decodeKeyAt d off = Inr (key, co, o1)"
  shows "values_at d 1 off o1" and "unat o1 \<le> unat (glen (buffer d))"
proof -
  have "token d off = Some (o1, 0)" using decodeKey_token [of d off key o1] assms by (simp add: decodeKey_def)
  then show "values_at d 1 off o1" and "unat o1 \<le> unat (glen (buffer d))"
    using token_bounds by (simp_all add: stream_Suc)
qed

lemma no_panic_CheckMaxSize [safe]: "c_decoder c = Some a \<Longrightarrow> no_panic (CheckMaxSize h c expected maximum)"
  by (auto simp: CheckMaxSize_def maxSizeError_def Let_def intro!: safe split: option.split)

lemma own_decoder [simp]: "c_decoder (ownCursor off) = Some 0" "c_offset (ownCursor off) = off" "ownHeap d a = dataDecoder d"
  by (simp_all add: ownCursor_def ownHeap_def)

lemma skip_entry:
  assumes ok: "cache_ok (dataDecoder d)" and b: "budgetRemaining d \<noteq> 0" and k: "decodeKeyAt (dataDecoder d) off = Inr (key, co, o1)"
    and rest: "\<And>o2 d2. skipField d o1 = Inr (o2, d2) \<Longrightarrow> cache_ok (dataDecoder d2) \<Longrightarrow> budgetRemaining d2 \<noteq> 0 \<Longrightarrow>
      reads_struct d2 n o2 t (weight_of cur) (f o2 d2)"
  shows "reads_struct d (Suc n) off t (weight_of cur) (bindE (skipField d o1) (\<lambda>(o2, d2). f o2 d2))"
  unfolding reads_struct_def
proof (intro returns_bindE [OF skipField_post [OF ok b key_post(2) [OF k]]], clarify, goal_cases)
  case (1 o2 d2)
  have "cache_ok (dataDecoder d2)" "budgetRemaining d2 \<noteq> 0"
    using keeps_reads(3) [OF 1(2)] 1(3) b by (simp_all add: costs_def)
  from struct_entry [OF 1(2,3) _ key_post(1) [OF k] 1(4) rest [OF 1(1) this]]
  show ?case unfolding reads_struct_def by simp
qed

lemma field_entry:
  assumes ok: "cache_ok (dataDecoder d)" and b: "budgetRemaining d \<noteq> 0" and cur: "has_type cur t"
    and k: "decodeKeyAt (dataDecoder d) off = Inr (key, co, o1)"
    and p: "path_type t (fi_index f) = Some (fi_type f)" and v: "fieldByIndex t cur (fi_index f) True = Some v"
    and val: "reads_value d o1 (fi_type f) (weight_of v) r"
    and rest: "\<And>x o2 d2. r = Inr (x, o2, d2) \<Longrightarrow> cache_ok (dataDecoder d2) \<Longrightarrow> budgetRemaining d2 \<noteq> 0 \<Longrightarrow>
      has_type (setField t cur (fi_index f) x) t \<Longrightarrow>
      reads_struct d2 n o2 t (weight_of (setField t cur (fi_index f) x)) (g x o2 d2)"
  shows "reads_struct d (Suc n) off t (weight_of cur)
    (bindE (mapErr (\<lambda>err. wrapErrorWithMapKey err key) r) (\<lambda>(x, o2, d2). g x o2 d2))"
proof -
  have m: "returns (\<lambda>(x, e, d'). gives d (fi_type f) (weight_of v) x d' \<and> values_at (dataDecoder d) 1 o1 e)
      (mapErr (\<lambda>err. wrapErrorWithMapKey err key) r)"
    using val unfolding reads_value_def by (rule returns_mapErr) (simp add: wrapErrorWithMapKey_def)
  show ?thesis
    unfolding reads_struct_def
  proof (intro returns_bindE [OF m], clarify, goal_cases)
    case (1 x o2 d2)
    then obtain w where w: "keeps d d2" "costs d d2 w" "has_type x (fi_type f)" "weight_of x \<le> weight_of v + w"
      by (auto simp: gives_def)
    have b2: "cache_ok (dataDecoder d2)" "budgetRemaining d2 \<noteq> 0"
      using keeps_reads(3) [OF w(1)] w(2) b by (simp_all add: costs_def)
    have "weight_of (setField t cur (fi_index f) x) \<le> weight_of cur + w"
      using setField_weight [OF cur p v, of x] w(4) by linarith
    from struct_entry [OF w(1,2) this key_post(1) [OF k] 1(3) rest [OF _ b2 setField_typed [OF cur p w(3)]]] 1(1)
    show ?case unfolding reads_struct_def by simp
  qed
qed

lemma decodeFields_step:
  assumes ok: "cache_ok (dataDecoder d)" and b: "budgetRemaining d \<noteq> 0" and cur: "has_type cur t" and fs: "fs = makeStructFields t"
    and skip: "\<And>key co o1 o2 d2. decodeKeyAt (dataDecoder d) off = Inr (key, co, o1) \<Longrightarrow>
      fieldForKey fs key = None \<Longrightarrow> skipField d o1 = Inr (o2, d2) \<Longrightarrow>
      cache_ok (dataDecoder d2) \<Longrightarrow> budgetRemaining d2 \<noteq> 0 \<Longrightarrow>
      reads_struct d2 n o2 t (weight_of cur) (decodeFields d2 n o2 t cur depth fs)"
    and val: "\<And>key co o1 f v. decodeKeyAt (dataDecoder d) off = Inr (key, co, o1) \<Longrightarrow> fieldForKey fs key = Some f \<Longrightarrow>
      (if fieldByIndex t cur (fi_index f) False = None \<and> fi_dispatch f = dispatchMaxSize then
         mapErr (\<lambda>err. wrapErrorWithMapKey err key)
           (CheckMaxSize (ownHeap d) (ownCursor o1) (fi_maxSizeKinds f) (fi_maxSize f))
       else Inr ()) = Inr () \<Longrightarrow>
      fieldByIndex t cur (fi_index f) True = Some v \<Longrightarrow> has_type v (fi_type f) \<Longrightarrow>
      reads_value d o1 (fi_type f) (weight_of v) (decodeField d o1 f v depth)"
    and rest: "\<And>key co o1 f v x o2 d2. decodeKeyAt (dataDecoder d) off = Inr (key, co, o1) \<Longrightarrow> fieldForKey fs key = Some f \<Longrightarrow>
      (if fieldByIndex t cur (fi_index f) False = None \<and> fi_dispatch f = dispatchMaxSize then
         mapErr (\<lambda>err. wrapErrorWithMapKey err key)
           (CheckMaxSize (ownHeap d) (ownCursor o1) (fi_maxSizeKinds f) (fi_maxSize f))
       else Inr ()) = Inr () \<Longrightarrow>
      fieldByIndex t cur (fi_index f) True = Some v \<Longrightarrow> decodeField d o1 f v depth = Inr (x, o2, d2) \<Longrightarrow>
      cache_ok (dataDecoder d2) \<Longrightarrow> budgetRemaining d2 \<noteq> 0 \<Longrightarrow> has_type (setField t cur (fi_index f) x) t \<Longrightarrow>
      reads_struct d2 n o2 t (weight_of (setField t cur (fi_index f) x))
        (decodeFields d2 n o2 t (setField t cur (fi_index f) x) depth fs)"
  shows "reads_struct d (Suc n) off t (weight_of cur) (decodeFields d (Suc n) off t cur depth fs)"
proof (cases "decodeKeyAt (dataDecoder d) off")
  case (Inl e)
  then have "root_error e \<noteq> Panic" using no_panic_decodeKeyAt [of "dataDecoder d" off] by simp
  then show ?thesis by (simp add: decodeFields.simps Inl reads_struct_def)
next
  case (Inr r)
  obtain key co o1 where k: "decodeKeyAt (dataDecoder d) off = Inr (key, co, o1)" using Inr by (cases r) auto
  show ?thesis
  proof (cases "fieldForKey fs key")
    case None
    then show ?thesis
      using skip_entry [OF ok b k, of n t cur "\<lambda>o2 d2. decodeFields d2 n o2 t cur depth fs"] skip [OF k None]
      by (simp add: decodeFields.simps k)
  next
    case (Some f)
    let ?check = "if fieldByIndex t cur (fi_index f) False = None \<and> fi_dispatch f = dispatchMaxSize then
        mapErr (\<lambda>err. wrapErrorWithMapKey err key)
          (CheckMaxSize (ownHeap d) (ownCursor o1) (fi_maxSizeKinds f) (fi_maxSize f))
      else Inr ()"
    have "f \<in> set (namedFields (makeStructFields t))" using fieldForKey_in Some fs by blast
    then have p: "path_type t (fi_index f) = Some (fi_type f)" by (rule makeStructFields_path)
    obtain v where v: "fieldByIndex t cur (fi_index f) True = Some v" using fieldByIndex_alloc [OF cur p] by blast
    have vt: "has_type v (fi_type f)" by (rule fieldByIndex_typed [OF cur p v])
    have step: "decodeFields d (Suc n) off t cur depth fs = bindE ?check (\<lambda>_.
        bindE (mapErr (\<lambda>err. wrapErrorWithMapKey err key) (decodeField d o1 f v depth)) (\<lambda>(x, o2, d2).
          decodeFields d2 n o2 t (setField t cur (fi_index f) x) depth fs))"
      by (simp add: decodeFields.simps k Some v)
    show ?thesis
    proof (cases ?check)
      case (Inl e)
      moreover have "no_panic ?check" by (auto simp: wrapErrorWithMapKey_def intro!: safe)
      ultimately show ?thesis unfolding step by (simp add: reads_struct_def)
    next
      case (Inr u)
      then have c: "?check = Inr ()" by simp
      show ?thesis
        unfolding step c bindE_Inr
        by (rule field_entry [OF ok b cur k p v val [OF k Some c v vt] rest [OF k Some c v]])
    qed
  qed
qed

section \<open>The dispatch of a field\<close>

text \<open>The map a nested struct is decoded from stands at the offset, or behind the pointer there.\<close>

lemma nestedMap_Some:
  assumes "nestedMap d off depth = Inr (Some (sz, o1, pe, depth'))"
  obtains (direct) "decodeCtrlData (dataDecoder d) off = Inr (KindMap, sz, o1)" and "pe = 0" and "depth' = depth + 1"
  | (pointed) p sz' o0 where "decodeCtrlData (dataDecoder d) off = Inr (KindPointer, sz', o0)"
      and "decodePointer (dataDecoder d) sz' o0 = Inr (p, pe)" and "decodeCtrlData (dataDecoder d) p = Inr (KindMap, sz, o1)"
      and "pe \<noteq> 0" and "depth' = depth + 2"
proof -
  obtain k sz' o0 where h: "decodeCtrlData (dataDecoder d) off = Inr (k, sz', o0)"
    using assms by (cases "decodeCtrlData (dataDecoder d) off") (auto simp: nestedMap_def)
  show thesis
  proof (cases "k = KindMap")
    case True
    then show thesis using assms h direct by (auto simp: nestedMap_def bindE_eq_Inr)
  next
    case False
    then obtain p where p: "k = KindPointer" "decodePointer (dataDecoder d) sz' o0 = Inr (p, pe)"
      "decodeCtrlData (dataDecoder d) p = Inr (KindMap, sz, o1)" "depth' = depth + 2"
      using assms h by (auto simp: nestedMap_def bindE_eq_Inr split: if_splits)
    have "token (dataDecoder d) off = Some (pe, 0)"
      using h p(1,2) decodeCtrlData_Inr(3) [OF h]
      by (auto simp: token_def token_len_def token_children_def decodePointer_spec Let_def split: if_splits)
    then have "unat off < unat pe" by (rule token_bounds(1))
    then have "pe \<noteq> 0" by auto
    then show thesis using h p pointed by blast
  qed
qed

lemma no_panic_nestedMap [safe]: "no_panic (nestedMap d off depth)"
  by (auto simp: nestedMap_def checkNestedDepth_def intro!: safe dest: decodeCtrlData_Inr(3))

text \<open>Decoding a nested struct from its map.\<close>

lemma nested_struct:
  assumes b: "budgetRemaining d \<noteq> 0" and n: "nestedMap d off depth = Inr (Some (sz, o1, pe, depth'))"
    and r: "reserveActiveContainer d KindMap sz = Inr d1"
    and s: "reads_struct d1 (unat sz) o1 (unwrapPtrType t) (weight_of (deref t cur)) r"
  shows "reads_value d off t (weight_of cur)
    (bindE r (\<lambda>(v, e, d). Inr (allocated t v, (if pe \<noteq> 0 then pe else e), d)))"
  unfolding reads_value_def
proof (intro returns_bindE [OF s [unfolded reads_struct_def]], clarify, goal_cases)
  case (1 v e d')
  note R = reserved_post [OF r _ b, simplified]
  obtain w where w: "keeps d1 d'" "has_type v (unwrapPtrType t)" "costs d1 d' w" "weight_of v \<le> weight_of (deref t cur) + w"
    using 1(2) by (auto simp: gives_def)
  have "costs d d' (token_children KindMap sz + w)" using R(3) w(3) by (rule costs_trans)
  then have "costs d d' w" by (rule costs_less) simp
  moreover have "keeps d d'" using w(1) R(1) by (simp add: keeps_def)
  moreover have "weight_of (allocated t v) \<le> weight_of cur + w" using w(4) weight_deref [of t cur] by simp
  ultimately have g: "gives d t (weight_of cur) (allocated t v) d'"
    using has_type_allocated [OF w(2)] unfolding gives_def by blast
  from n show ?case
  proof (cases rule: nestedMap_Some)
    case direct
    then show ?thesis using g container_values [OF direct(1)] 1(3) R(1) by (simp add: token_children_def)
  next
    case (pointed p sz' o0)
    then show ?thesis using g pointer_values [OF pointed(1,2)] by simp
  qed
qed

lemma struct_dispatch:
  assumes b: "budgetRemaining d \<noteq> 0" and gen: "nestedMap d off depth = Inr None \<Longrightarrow> reads_value d off t (weight_of cur) general"
    and s: "\<And>sz o1 pe depth' d1. nestedMap d off depth = Inr (Some (sz, o1, pe, depth')) \<Longrightarrow>
      reserveActiveContainer d KindMap sz = Inr d1 \<Longrightarrow>
      reads_struct d1 (unat sz) o1 (unwrapPtrType t) (weight_of (deref t cur)) (dec d1 sz o1 depth')"
  shows "reads_value d off t (weight_of cur) (bindE (nestedMap d off depth) (\<lambda>nested.
    case nested of
      None \<Rightarrow> general
    | Some (sz, dataOffset, pointerEndOffset, decodeDepth) \<Rightarrow>
        bindE (reserveActiveContainer d KindMap sz) (\<lambda>d.
        bindE (dec d sz dataOffset decodeDepth) (\<lambda>(v, newOffset, d).
          Inr (allocated t v, (if pointerEndOffset \<noteq> 0 then pointerEndOffset else newOffset), d)))))"
proof (cases "nestedMap d off depth")
  case (Inl e)
  then show ?thesis using no_panic_nestedMap [of d off depth] by (simp add: reads_value_def)
next
  case (Inr nested)
  show ?thesis
  proof (cases nested)
    case None
    then show ?thesis using gen by (simp add: Inr)
  next
    case (Some x)
    obtain sz o1 pe depth' where x: "nestedMap d off depth = Inr (Some (sz, o1, pe, depth'))" using Some Inr by (cases x) auto
    show ?thesis
    proof (cases "reserveActiveContainer d KindMap sz")
      case (Inl e)
      then show ?thesis using no_panic_reserve [of d KindMap sz] by (simp add: x reads_value_def)
    next
      case (Inr d1)
      then show ?thesis using nested_struct [OF b x Inr s [OF x Inr]] by (simp add: x)
    qed
  qed
qed

section \<open>Fields with a size limit\<close>

lemma no_panic_checkPayloadLimit [safe]: "no_panic (checkPayloadLimit d off expected maximum)"
proof -
  have "no_panic (mapErr (\<lambda>_. errDecodedRecordTooLarge) m)" for m :: "unit res" by (cases m) simp_all
  then show ?thesis
    unfolding checkPayloadLimit_def
    by (intro no_panic_if no_panic_bindE no_panic_CheckMaxSize [OF own_decoder(1)] no_panic_Inr)
qed

lemma limited_string:
  assumes ok: "cache_ok (dataDecoder d)"
    and r: "ReadStringMaxSize (ownHeap d) (ownCursor off) maximum = Inr (s, next, h)"
  shows "\<exists>c. h 0 = (dataDecoder d)\<lparr>stringCache := c\<rparr> \<and> cache_ok ((dataDecoder d)\<lparr>stringCache := c\<rparr>)"
    and "values_at (dataDecoder d) 1 off (c_offset next)" and "length s < 2 ^ 32"
proof -
  let ?dd = "dataDecoder d"
  obtain sz o1 n e d' where res: "resolveCtrlData ?dd off = Inr (KindString, sz, o1, n)"
    and dec: "decodeString ?dd sz o1 = Inr (s, e, d')" and h: "h 0 = d'"
    using r by (auto simp: ReadStringMaxSize_eq readStringSlow_def bindE_eq_Inr Let_def split: if_splits)
  obtain r' where rec: "decodeCtrlData ?dd r' = Inr (KindString, sz, o1)" using res by (rule resolveCtrlData_Inr)
  have fits: "unat o1 + unat sz \<le> unat (glen (buffer ?dd))" by (rule decodeString_range [OF dec rec])
  obtain c where c: "decodeString ?dd sz o1 = Inr (payload ?dd o1 sz, o1 + sz, ?dd\<lparr>stringCache := c\<rparr>)"
    "cache_ok (?dd\<lparr>stringCache := c\<rparr>)"
    using decodeString_record [OF ok rec] fits by auto
  then show "\<exists>c. h 0 = ?dd\<lparr>stringCache := c\<rparr> \<and> cache_ok (?dd\<lparr>stringCache := c\<rparr>)"
    using dec h by (intro exI [of _ c]) simp
  show "length s < 2 ^ 32" using c(1) dec length_payload [OF fits] header_small [OF rec] by simp
  have "nextValueOffset ?dd off 1 = Inr (c_offset next)"
    using ReadStringMaxSize_Skip [OF r] by (auto simp: Skip_def bindE_eq_Inr successor_def)
  then show "values_at ?dd 1 off (c_offset next)" using nextValueOffset_sound by fastforce
qed

lemma readLimitedString_post:
  assumes ok: "cache_ok (dataDecoder d)"
  shows "returns (\<lambda>q. \<forall>v e d'. q = Some (v, e, d') \<longrightarrow> good d StringT v d' \<and> values_at (dataDecoder d) 1 off e)
    (readLimitedString d off maximum)"
proof (cases "ReadStringMaxSize (ownHeap d) (ownCursor off) maximum")
  case (Inl e)
  have "no_panic (ReadStringMaxSize (ownHeap d) (ownCursor off) maximum)"
    by (auto simp: ReadStringMaxSize_eq intro!: safe)
  then show ?thesis using Inl by (auto simp: readLimitedString_def split: gerr.split)
next
  case (Inr x)
  obtain s n h where r: "ReadStringMaxSize (ownHeap d) (ownCursor off) maximum = Inr (s, n, h)"
    using Inr by (cases x) auto
  note L = limited_string [OF ok r]
  obtain c where c: "h 0 = (dataDecoder d)\<lparr>stringCache := c\<rparr>" "cache_ok ((dataDecoder d)\<lparr>stringCache := c\<rparr>)"
    using L(1) by blast
  have g: "unat (glen s) = length s" using L(3) by (simp add: unat_glen max_int_def)
  then have u: "unat (ucast (glen s) :: 32 word) = length s" using L(3) by (simp add: unat_ucast_small)
  have k: "keeps d (d\<lparr>dataDecoder := h 0\<rparr>)" using c by simp
  show ?thesis
  proof (cases "budgetRemaining d = 0")
    case True
    then show ?thesis using r L(2) k by (simp add: readLimitedString_def good_def costs_def)
  next
    case False
    show ?thesis
    proof (cases "glen s > ucast (payloadRemaining d)")
      case True
      then show ?thesis using r False by (simp add: readLimitedString_def Let_def)
    next
      case fits: False
      let ?d = "d\<lparr>dataDecoder := h 0, payloadRemaining := payloadRemaining d - ucast (glen s)\<rparr>"
      have le: "length s \<le> unat (payloadRemaining d)" using fits g by (simp add: not_less word_le_nat_alt)
      have "unat (payloadRemaining d - ucast (glen s)) = unat (payloadRemaining d) - length s"
        using le u by (simp add: unat_sub word_le_nat_alt)
      then have "costs d ?d (length s)" using le False by (simp add: costs_def)
      moreover have "keeps d ?d" using k by (simp add: keeps_def)
      ultimately show ?thesis using r L(2) False fits by (simp add: readLimitedString_def Let_def good_def)
    qed
  qed
qed

lemma decodeValueMaxSize_step:
  assumes ok: "cache_ok (dataDecoder d)"
    and checked: "CheckMaxSize (ownHeap d) (ownCursor off) expected maximum = Inr () \<Longrightarrow>
      reads_value d off t w0 (decodeValue d off t cur depth)"
    and kind: "t = StringT \<Longrightarrow> depth \<le> maximumDataStructureDepth \<Longrightarrow>
      checkPayloadLimit d off expected maximum = Inr () \<Longrightarrow> readLimitedString d off maximum = Inr None \<Longrightarrow>
      expected = NewKindSet [KindString] \<Longrightarrow> reads_value d off t w0 (decodeValue d off t cur depth)"
    and plain: "\<And>k sz o1. t = unwrapPtrType t \<Longrightarrow> depth \<le> maximumDataStructureDepth \<Longrightarrow>
      \<not> (t = StringT \<and> expected = NewKindSet [KindString]) \<Longrightarrow>
      decodeCtrlData (dataDecoder d) off = Inr (k, sz, o1) \<Longrightarrow> k \<noteq> KindPointer \<Longrightarrow>
      \<not> (KindSet_Contains expected k \<and> sz > maximum) \<Longrightarrow>
      reads_value d off t w0 (decodeFromType d k sz o1 t cur (depth + 1))"
  shows "reads_value d off t w0 (decodeValueMaxSize d off t cur depth expected maximum)"
proof -
  have check: "reads_value d off t w0 (bindE (CheckMaxSize (ownHeap d) (ownCursor off) expected maximum)
      (\<lambda>_. decodeValue d off t cur depth))"
    unfolding reads_value_def
    by (rule returns_bindE [OF returns_safe [OF no_panic_CheckMaxSize]]) (use checked in \<open>auto simp: reads_value_def\<close>)
  have limited: "reads_value d off t w0 (bindE (checkPayloadLimit d off expected maximum) (\<lambda>_.
      bindE (readLimitedString d off maximum) (\<lambda>read.
        case read of Some result \<Rightarrow> Inr result | None \<Rightarrow> decodeValue d off t cur depth)))"
    if t: "t = StringT" "depth \<le> maximumDataStructureDepth" "expected = NewKindSet [KindString]"
    unfolding reads_value_def
  proof (rule returns_bindE [OF returns_safe [OF no_panic_checkPayloadLimit]], goal_cases)
    case (1 u)
    then have c: "checkPayloadLimit d off expected maximum = Inr ()" by simp
    show ?case
    proof (rule returns_bindE [OF readLimitedString_post [OF ok]], goal_cases)
      case (1 q)
      then show ?case
        using kind [OF t(1,2) c _ t(3)] t(1) by (cases q) (auto simp: reads_value_def good_gives)
    qed
  qed
  have direct: "reads_value d off t w0 (bindE (decodeCtrlData (dataDecoder d) off) (\<lambda>(k, sz, o1).
      if k = KindPointer then
        bindE (CheckMaxSize (ownHeap d) (ownCursor off) expected maximum) (\<lambda>_. decodeValue d off t cur depth)
      else if KindSet_Contains expected k \<and> sz > maximum then
        Inl (wrapErrorAtOffset (InvalidDatabaseError (MaxSizeExceeded k sz maximum)) off)
      else decodeFromType d k sz o1 t cur (depth + 1)))"
    if t: "t = unwrapPtrType t" "depth \<le> maximumDataStructureDepth" "\<not> (t = StringT \<and> expected = NewKindSet [KindString])"
    unfolding reads_value_def
  proof (intro returns_bindE [OF returns_safe [OF no_panic_decodeCtrlData]], clarify, goal_cases)
    case (1 k sz o1)
    then show ?case using check plain [OF t 1(1)] by (auto simp: reads_value_def)
  qed
  show ?thesis
    using check limited direct
    by (auto simp: decodeValueMaxSize.simps Let_def not_less reads_value_def [of d off t w0 "Inl _"])
qed

section \<open>Every value\<close>

lemma reads_value_allocated:
  assumes "reads_value d h (unwrapPtrType t) (weight_of (deref t cur)) r"
  shows "reads_value d h t (weight_of cur) (bindE r (\<lambda>(v, newOffset, d). Inr (allocated t v, newOffset, d)))"
  unfolding reads_value_def
proof (intro returns_bindE [OF assms [unfolded reads_value_def]], clarify, goal_cases)
  case (1 v e d')
  then have "gives d (unwrapPtrType t) (weight_of cur) v d'" using weight_deref gives_less by blast
  then show ?case using 1(3) by (auto simp: gives_def has_type_allocated)
qed

lemma decodeField_step:
  assumes b: "budgetRemaining d \<noteq> 0" and ok: "cache_ok (dataDecoder d)"
    and general: "reads_value d off (fi_type f) (weight_of cur) (decodeValue d off (fi_type f) cur depth)"
    and struct: "\<And>sz o1 pe depth' d1. nestedMap d off depth = Inr (Some (sz, o1, pe, depth')) \<Longrightarrow>
      reserveActiveContainer d KindMap sz = Inr d1 \<Longrightarrow>
      reads_struct d1 (unat sz) o1 (unwrapPtrType (fi_type f)) (weight_of (deref (fi_type f) cur))
        (decodeStructWithFields d1 sz o1 (unwrapPtrType (fi_type f)) (deref (fi_type f) cur) depth'
          (makeStructFields (unwrapPtrType (fi_type f))))"
    and limited: "fi_dispatch f = dispatchMaxSize \<Longrightarrow> reads_value d off (fi_type f) (weight_of cur)
      (decodeValueMaxSize d off (fi_type f) cur depth (fi_maxSizeKinds f) (fi_maxSize f))"
  shows "reads_value d off (fi_type f) (weight_of cur) (decodeField d off f cur depth)"
proof -
  note dispatch = struct_dispatch [OF b general struct]
  have quick: "reads_value d off (fi_type f) (weight_of cur)
      (case (if length (fi_index f) = 1 then tryFastDecodeTyped d off (fi_type f) else None) of
         Some result \<Rightarrow> Inr result | None \<Rightarrow> decodeValue d off (fi_type f) cur depth)"
  proof (cases "if length (fi_index f) = 1 then tryFastDecodeTyped d off (fi_type f) else None")
    case None
    then show ?thesis using general by simp
  next
    case (Some r)
    obtain v e d' where r: "r = (v, e, d')" by (cases r) auto
    have "tryFastDecodeTyped d off (fi_type f) = Some (v, e, d')" using Some r by (simp split: if_splits)
    from fast_good [OF this b ok] show ?thesis unfolding Some by (simp add: r reads_value_def good_gives)
  qed
  show ?thesis
    using quick general dispatch limited by (cases "fi_dispatch f") (simp_all add: decodeField.simps Let_def)
qed

lemma skipStructFields_post:
  "cache_ok (dataDecoder d) \<Longrightarrow> budgetRemaining d \<noteq> 0 \<Longrightarrow>
     returns (\<lambda>(e, d'). keeps d d' \<and> costs d d' 0 \<and> values_at (dataDecoder d) (2 * n) off e) (skipStructFields d n off)"
proof (induction d n off rule: skipStructFields.induct)
  case (1 d off)
  then show ?case by (simp add: keeps_refl)
next
  case (2 d n off)
  have key: "returns (\<lambda>(key, o1). decodeKey (dataDecoder d) off = Inr (key, o1)) (decodeKey (dataDecoder d) off)"
    using returns_safe [OF no_panic_keys(1), of "dataDecoder d" off] by (auto elim: returns_weaken)
  show ?case
    unfolding skipStructFields.simps
  proof (intro returns_bindE [OF key], clarify, goal_cases)
    case (1 key o1)
    then have tok: "token (dataDecoder d) off = Some (o1, 0)" by (intro decodeKey_token)
    show ?case
    proof (intro returns_bindE [OF skipField_post [OF 2(2,3) token_bounds(2) [OF tok]]], clarify, goal_cases)
      case (1 o2 d2)
      have b2: "cache_ok (dataDecoder d2)" "budgetRemaining d2 \<noteq> 0"
        using keeps_reads(3) [OF 1(2)] 1(3) 2(3) by (simp_all add: costs_def)
      show ?case
      proof (rule returns_weaken [OF 2(1) [OF \<open>decodeKey (dataDecoder d) off = Inr (key, o1)\<close> refl 1(1) refl b2]], clarify, goal_cases)
        case (1 e d')
        have "values_at (dataDecoder d) 1 off o1" using tok by (simp add: stream_Suc)
        then have "values_at (dataDecoder d) (2 * Suc n) off e"
          using stream_entry \<open>values_at (dataDecoder d) 1 o1 o2\<close> 1(3) keeps_reads(2) [OF \<open>keeps d d2\<close>] by metis
        then show ?case using costs_trans [OF \<open>costs d d2 0\<close> 1(2)] keeps_trans [OF \<open>keeps d d2\<close> 1(1)] by simp
      qed
    qed
  qed
qed

lemma decodeStructWithFields_step:
  assumes ok: "cache_ok (dataDecoder d)" "budgetRemaining d \<noteq> 0" and cur: "has_type cur t" and fs: "fs = makeStructFields t"
    and entries: "validationErr fs = None \<Longrightarrow> namedFields fs \<noteq> [] \<Longrightarrow>
      reads_struct d (unat sz) off t (weight_of cur) (decodeFields d (unat sz) off t cur depth fs)"
  shows "reads_struct d (unat sz) off t (weight_of cur) (decodeStructWithFields d sz off t cur depth fs)"
proof -
  have "reads_struct d (unat sz) off t (weight_of cur)
      (bindE (skipStructFields d (unat sz) off) (\<lambda>(offset, d). Inr (cur, offset, d)))"
    unfolding reads_struct_def
    by (rule returns_bindE [OF skipStructFields_post [OF ok]]) (use cur in \<open>auto simp: gives_def intro: exI [of _ 0]\<close>)
  then show ?thesis
    using entries makeStructFields_error [of t]
    by (auto simp: decodeStructWithFields.simps fs reads_struct_def split: option.split)
qed

lemma decode_reads:
  "cache_ok (dataDecoder d) \<Longrightarrow> has_type cur t \<Longrightarrow> reads_value d off t (weight_of cur) (decodeValue d off t cur depth)"
  "cache_ok (dataDecoder d) \<Longrightarrow> has_type cur t \<Longrightarrow> decodeCtrlData (dataDecoder d) h = Inr (k, sz, off) \<Longrightarrow>
     reads_value d h t (weight_of cur) (decodeFromType d k sz off t cur depth)"
  "cache_ok (dataDecoder d) \<Longrightarrow> has_type cur t \<Longrightarrow> decodeCtrlData (dataDecoder d) h = Inr (KindMap, sz, off) \<Longrightarrow>
     reads_value d h t (weight_of cur) (unmarshalMap d sz off t cur depth)"
  "cache_ok (dataDecoder d) \<Longrightarrow> has_type cur t \<Longrightarrow> decodeCtrlData (dataDecoder d) h = Inr (KindPointer, sz, off) \<Longrightarrow>
     reads_value d h t (weight_of cur) (unmarshalPointer d sz off t cur depth)"
  "cache_ok (dataDecoder d) \<Longrightarrow> has_type cur t \<Longrightarrow> decodeCtrlData (dataDecoder d) h = Inr (KindSlice, sz, off) \<Longrightarrow>
     reads_value d h t (weight_of cur) (unmarshalSlice d sz off t cur depth)"
  "cache_ok (dataDecoder d) \<Longrightarrow> budgetRemaining d \<noteq> 0 \<Longrightarrow> distinct (map fst m) \<Longrightarrow> \<forall>x \<in> set m. has_type (snd x) t \<Longrightarrow>
     reads_entries d n off t m (decodeMap d n off t depth m)"
  "cache_ok (dataDecoder d) \<Longrightarrow> budgetRemaining d \<noteq> 0 \<Longrightarrow> \<forall>v \<in> set vs. has_type v t \<Longrightarrow>
     reads_elements d n off t vs (decodeSlice d n off t depth vs)"
  "cache_ok (dataDecoder d) \<Longrightarrow> budgetRemaining d \<noteq> 0 \<Longrightarrow> has_type cur t \<Longrightarrow> fs = makeStructFields t \<Longrightarrow>
     reads_struct d (unat sz) off t (weight_of cur) (decodeStructWithFields d sz off t cur depth fs)"
  "cache_ok (dataDecoder d) \<Longrightarrow> budgetRemaining d \<noteq> 0 \<Longrightarrow> has_type cur t \<Longrightarrow> fs = makeStructFields t \<Longrightarrow>
     reads_struct d n off t (weight_of cur) (decodeFields d n off t cur depth fs)"
  "cache_ok (dataDecoder d) \<Longrightarrow> budgetRemaining d \<noteq> 0 \<Longrightarrow> has_type cur (fi_type f) \<Longrightarrow>
     reads_value d off (fi_type f) (weight_of cur) (decodeField d off f cur depth)"
  "cache_ok (dataDecoder d) \<Longrightarrow> has_type cur t \<Longrightarrow>
     reads_value d off t (weight_of cur) (decodeValueMaxSize d off t cur depth expected maximum)"
proof (induction d off t cur depth and d k sz off t cur depth and d sz off t cur depth and d sz off t cur depth
    and d sz off t cur depth and d n off t depth m and d n off t depth vs and d sz off t cur depth fs
    and d n off t cur depth fs and d off f cur depth and d off t cur depth expected maximum arbitrary: and h and h and h and h
    rule: decodeValue_decodeFromType_unmarshalMap_unmarshalPointer_unmarshalSlice_decodeMap_decodeSlice_decodeStructWithFields_decodeFields_decodeField_decodeValueMaxSize.induct)
  case (1 d off t cur depth)
  show ?case
  proof (cases "depth > maximumDataStructureDepth")
    case False
    show ?thesis
    proof (cases "decodeCtrlData (dataDecoder d) off")
      case (Inr x)
      obtain k sz o1 where x: "x = (k, sz, o1)" by (cases x) auto
      have "decodeValue d off t cur depth = bindE (decodeFromType d k sz o1 (unwrapPtrType t) (deref t cur) (depth + 1))
          (\<lambda>(v, newOffset, d). Inr (allocated t v, newOffset, d))"
        using False Inr x decodeValue_header by simp
      then show ?thesis
        using reads_value_allocated [OF 1(1) [OF False Inr x [symmetric] refl 1(2) deref_has_type [OF 1(3)] Inr [unfolded x]]] by simp
    next
      case (Inl e)
      then show ?thesis
        using False no_panic_decodeCtrlData [of "dataDecoder d" off] by (simp add: decodeValue.simps reads_value_def)
    qed
  qed (simp add: decodeValue.simps reads_value_def)
next
  case (2 d k sz off t cur depth)
  show ?case
  proof (cases "k \<in> {KindMap, KindSlice, KindPointer}")
    case True
    then show ?thesis using 2(1) [OF _ _ 2(4,5)] 2(2) [OF _ _ _ 2(4,5)] 2(3) [OF _ _ _ _ 2(4,5)] 2(6)
      by (auto simp: decodeFromType.simps [of d k])
  next
    case False
    then show ?thesis using reads_scalar_value scalar_reads 2(4,6) by blast
  qed
next
  case (3 d sz off t cur depth)
  show ?case
  proof (rule unmarshalMap_step [OF 3(5,3,4)])
    fix b assume b: "reserveActiveContainer (activated d) KindMap sz = Inr b"
    show "isStruct t \<Longrightarrow> cache_ok (dataDecoder b) \<Longrightarrow> budgetRemaining b \<noteq> 0 \<Longrightarrow>
        reads_struct b (unat sz) off t (weight_of cur) (decodeStructWithFields b sz off t cur depth (makeStructFields t))"
      using 3(1) [OF b _ _ _ 3(4) refl] by simp
    fix e assume e: "\<not> isStruct t" "(case t of MapT e \<Rightarrow> Some e | AnyT \<Rightarrow> Some AnyT | _ \<Rightarrow> None) = Some e"
      "validateContainerSize b KindMap sz off depth = Inr ()" "cache_ok (dataDecoder b)" "budgetRemaining b \<noteq> 0"
    show "reads_entries b (unat sz) off e (entries_of t cur) (decodeMap b (unat sz) off e depth (entries_of t cur))"
      by (rule 3(2) [OF b e entries_destination(1,2) [OF 3(4) e(2)]])
  qed
next
  case (4 d sz off t cur depth)
  show ?case 
  proof (rule unmarshalPointer_step [OF 4(5,3)])
    fix p n assume p: "decodePointer (dataDecoder d) sz off = Inr (p, n)"
      and slow: "p \<ge> glen (buffer (dataDecoder d)) \<or>
        (\<exists>c kind. pointedKind d p = Inr (c, kind) \<and> kind \<noteq> KindPointer \<and> \<not> shortcut d t depth p c)"
    show "reads_value d p t (weight_of cur) (decodeValue d p t cur depth)"
    proof (cases "p \<ge> glen (buffer (dataDecoder d))")
      case True
      then show ?thesis using 4(1) [OF p refl _ 4(3,4)] by simp
    next
      case False
      then obtain c kind where "pointedKind d p = Inr (c, kind)" "kind \<noteq> KindPointer" "\<not> shortcut d t depth p c"
        using slow by blast
      then show ?thesis using 4(2) [OF p refl False _ refl _ refl refl _ 4(3,4)] by (simp add: shortcut_def)
    qed
  qed
next
  case (5 d sz off t cur depth)
  show ?case by (rule unmarshalSlice_step [OF 5(4,2)]) (use 5(1) in simp)
next
  case (6 d off t depth m)
  then show ?case by (auto simp: reads_entries_def keeps_refl intro: exI [of _ 0])
next
  case (7 d n off t depth m)
  show ?case
  proof (rule decodeMap_step [OF 7(3-6)])
    fix key o1 d1 assume k: "mapKey d off = Inr (key, o1, d1)"
    show "cache_ok (dataDecoder d1) \<Longrightarrow> reads_value d1 o1 t 0 (decodeValue d1 o1 t (zero_of t) depth)"
      using 7(1) [OF k refl refl _ zero_has_type] by simp
    fix v o2 d2
    assume v: "element (fastElement d1 o1 t) (\<lambda>err. wrapErrorWithMapKey err key) (decodeValue d1 o1 t (zero_of t) depth) = Inr (v, o2, d2)"
      and ok: "cache_ok (dataDecoder d2)" "budgetRemaining d2 \<noteq> 0" and ty: "has_type v t"
    have "\<forall>x \<in> set (AList.update key v m). has_type (snd x) t"
      using ty 7(6) update_entries(3) [of key v m] by auto
    then show "reads_entries d2 n o2 t (AList.update key v m) (decodeMap d2 n o2 t depth (AList.update key v m))"
      using 7(2) [OF k refl refl v refl refl ok] 7(5) by (simp add: distinct_update)
  qed
next
  case (8 d off t depth vs)
  then show ?case by (auto simp: reads_elements_def keeps_refl intro: exI [of _ 0])
next
  case (9 d n off t depth vs)
  have "reads_value d off t 0 (decodeValue d off t (zero_of t) depth)"
    using 9(1) [OF 9(3) zero_has_type] by simp
  then show ?case
    by (rule decodeSlice_step [OF 9(3-5)]) (use 9(2,3,5) in auto)
next
  case (10 d sz off t cur depth fs)
  show ?case by (rule decodeStructWithFields_step [OF 10(2-5) 10(1) [OF _ _ 10(2-5)]])
next
  case (11 d off t cur depth fs)
  then show ?case by (auto simp: reads_struct_def gives_def keeps_refl intro: exI [of _ 0])
next
  case (12 d n off t cur depth fs)
  show ?case
  proof (rule decodeFields_step [OF 12(5-8)], goal_cases)
    case (1 key co o1 o2 d2)
    then show ?case using 12(1) [OF 1(1) refl refl 1(2,3) refl 1(4,5) 12(7,8)] by simp
  next
    case (2 key co o1 f v)
    then show ?case using 12(3) [OF 2(1) refl refl 2(2,3,4) 12(5,6) 2(5)] by simp
  next
    case (3 key co o1 f v x o2 d2)
    then show ?case using 12(4) [OF 3(1) refl refl 3(2,3,4) _ refl refl 3(6,7,8) 12(8)] by simp
  qed
next
  case (13 d off f cur depth)
  show ?case
  proof (rule decodeField_step [OF 13(5,4) 13(1) [OF 13(4,6)]], goal_cases)
    case (1 sz o1 pe depth' d1)
    note r = reserved_post [OF 1(2) _ 13(5), simplified]
    show ?case
      using 13(2) [OF refl 1(1) refl refl refl refl 1(2) _ r(2) deref_has_type [OF 13(6)] refl] r(1) 13(4) by simp
  next
    case 2
    then show ?case using 13(3) [OF refl refl 2 13(4,6)] by simp
  qed
next
  case (14 d off t cur depth expected maximum)
  show ?case
  proof (rule decodeValueMaxSize_step [OF 14(4)], goal_cases)
    case 1
    then show ?case using 14(1) [OF 1 14(4,5)] by simp
  next
    case 2
    then show ?case using 14(2) [OF refl _ _ _ 2(3,4) refl 14(4,5)] by simp
  next
    case (3 k sz o1)
    then show ?case using 14(3) [OF refl _ _ 3(3,4) refl refl 3(5,6) 14(4,5) 3(4)] by simp
  qed
qed

end
