(* ===== verification/ReflectionDispatch.thy ===== *)
theory ReflectionDispatch
  imports ReflectionStructs
begin

text \<open>
  The dispatch of struct fields chosen in advance decodes what the general decoder does, size limits
  are checked on every path, and the lookup hints of the loop over a struct's keys, shared with other
  goroutines, change nothing.
\<close>

section \<open>Nested structs\<close>

lemma struct_type: "isStruct t \<Longrightarrow> unwrapPtrType t = t \<and> deref t v = v \<and> allocated t v = v \<and> t \<noteq> StringT"
  by (cases t) (simp_all add: isStruct_def)

lemma field_dispatch_struct:
  "field_dispatch opts t \<in> {dispatchStruct, dispatchPointerStruct} \<Longrightarrow> isStruct (unwrapPtrType t)"
  by (auto simp: field_dispatch_def isStruct_def split: if_splits Type.splits)

lemma struct_from_type:
  assumes "isStruct t" and "budgetRemaining d \<noteq> 0"
  shows "decodeFromType d KindMap sz off t cur depth =
    bindE (reserveActiveContainer d KindMap sz) (\<lambda>b. decodeStructWithFields b sz off t cur depth (makeStructFields t))"
proof -
  have "deactivated d b = b" for b using assms(2) by (simp add: deactivated_def)
  then have "bindE r (\<lambda>(v, newOffset, b). Inr (v, newOffset, deactivated d b)) = r" for r :: decoded
    by (cases r) auto
  then show ?thesis
    using assms by (simp add: decodeFromType.simps unmarshalMap.simps activated_def)
qed

lemma pointedKind_ctrl:
  assumes "pointedKind d p = Inr (c, kind)" and "decodeCtrlData (dataDecoder d) p = Inr (k, sz, o1)"
  shows "kind = k"
proof -
  have c: "index (buffer (dataDecoder d)) p = Inr c" using assms(1) by (auto simp: pointedKind_def bindE_eq_Inr Let_def split: if_splits)
  show ?thesis
  proof (cases "Kind_of_byte (drop_bit 5 c) = KindExtended")
    case False
    then have "kind = Kind_of_byte (drop_bit 5 c)" using assms(1) c by (simp add: pointedKind_def Let_def)
    then show ?thesis using decodeCtrlData_kind [OF c refl False assms(2)] by simp
  next
    case True
    then show ?thesis
      using assms c by (auto simp: pointedKind_def decodeCtrlData_def decodeCtrlSize_def bindE_eq_Inr Let_def not_le split: if_splits)
  qed
qed

text \<open>Behind a pointer, a struct is decoded from the map the pointer leads to.\<close>

lemma pointed_struct:
  assumes t: "isStruct t" and b: "budgetRemaining d \<noteq> 0" and depth: "depth \<le> maximumDataStructureDepth"
    and p: "decodePointer (dataDecoder d) sz' o0 = Inr (p, pe)" and h: "decodeCtrlData (dataDecoder d) p = Inr (KindMap, sz, o1)"
  shows "decodeFromType d KindPointer sz' o0 t cur depth =
    bindE (reserveActiveContainer d KindMap sz) (\<lambda>b. bindE (decodeStructWithFields b sz o1 t cur (depth + 1) (makeStructFields t))
      (\<lambda>(v, _, d). Inr (v, pe, d)))"
proof -
  have inside: "\<not> glen (buffer (dataDecoder d)) \<le> p"
    using decodeCtrlData_Inr(1,3) [OF h] by (auto simp: not_le word_less_nat_alt)
  have "decodeValue d p t cur depth = decodeFromType d KindMap sz o1 t cur (depth + 1)"
  proof -
    have "bindE r (\<lambda>(v, e, d). Inr (v, e, d)) = r" for r :: decoded by (cases r) auto
    then show ?thesis using decodeValue_header [OF h depth, of t cur] struct_type [OF t] by simp
  qed
  moreover obtain c kind where k: "pointedKind d p = Inr (c, kind)"
  proof -
    obtain c where c: "index (buffer (dataDecoder d)) p = Inr c" using inside by (auto simp: index_ok not_le)
    then show thesis
      using that by (cases "Kind_of_byte (drop_bit 5 c) = KindExtended \<and> p + 1 < glen (buffer (dataDecoder d))")
        (auto simp: pointedKind_def Let_def index_ok)
  qed
  moreover have "kind = KindMap" by (rule pointedKind_ctrl [OF k h])
  ultimately show ?thesis
    using struct_type [OF t] inside p
    by (simp add: decodeFromType.simps [of d KindPointer] unmarshalPointer.simps struct_from_type [OF t b] Let_def bindE_assoc)
qed

lemma pointed_no_map:
  assumes "isStruct t" and "decodePointer (dataDecoder d) sz' o0 = Inr (p, pe)" 
    and "decodeCtrlData (dataDecoder d) p = Inl e \<or> decodeCtrlData (dataDecoder d) p = Inr (KindPointer, sz, o1)"
  shows "decodeFromType d KindPointer sz' o0 t cur depth \<noteq> Inr r"
proof -
  have v: "decodeValue d p t cur depth \<noteq> Inr r'" if "decodeCtrlData (dataDecoder d) p = Inl e" for r'
    using that by (simp add: decodeValue.simps)
  have k: "kind = KindPointer" if "decodeCtrlData (dataDecoder d) p = Inr (KindPointer, sz, o1)" "pointedKind d p = Inr (c, kind)" for c kind
    by (rule pointedKind_ctrl [OF that(2,1)])
  have inside: "\<not> glen (buffer (dataDecoder d)) \<le> p" if "decodeCtrlData (dataDecoder d) p = Inr (KindPointer, sz, o1)"
    using decodeCtrlData_Inr(1,3) [OF that] by (auto simp: not_le word_less_nat_alt)
  show ?thesis
    using assms struct_type [OF assms(1)] v k inside
    by (auto simp: decodeFromType.simps [of d KindPointer] unmarshalPointer.simps bindE_eq_Inr Let_def split: if_splits)
qed

text \<open>The struct case of a field against the general decoder.\<close>

lemma nested_general:
  assumes t: "isStruct (unwrapPtrType t)" and b: "budgetRemaining d \<noteq> 0" and depth: "depth < maximumDataStructureDepth"
  shows "bindE (nestedMap d off depth) (\<lambda>nested.
      case nested of
        None \<Rightarrow> decodeValue d off t cur depth
      | Some (sz, dataOffset, pointerEndOffset, decodeDepth) \<Rightarrow>
          bindE (reserveActiveContainer d KindMap sz) (\<lambda>d.
          bindE (decodeStructWithFields d sz dataOffset (unwrapPtrType t) (deref t cur) decodeDepth (makeStructFields (unwrapPtrType t)))
            (\<lambda>(v, newOffset, d).
              Inr (allocated t v, (if pointerEndOffset \<noteq> 0 then pointerEndOffset else newOffset), d)))) = Inr r \<longleftrightarrow>
    decodeValue d off t cur depth = Inr r" (is "?nested = Inr r \<longleftrightarrow> ?general = Inr r")
proof (cases "decodeCtrlData (dataDecoder d) off")
  case (Inl e)
  then show ?thesis by (simp add: nestedMap_def decodeValue.simps)
next
  case (Inr x)
  obtain k sz o1 where h: "decodeCtrlData (dataDecoder d) off = Inr (k, sz, o1)" using Inr by (cases x) auto
  note general = decodeValue_header [OF h less_imp_le [OF depth], of t cur]
  consider "k = KindMap" | "k = KindPointer" | "k \<noteq> KindMap" "k \<noteq> KindPointer" by blast
  then show ?thesis
  proof cases
    case 1
    then have "nestedMap d off depth = Inr (Some (sz, o1, 0, depth + 1))"
      using h depth by (simp add: nestedMap_def checkNestedDepth_def)
    then have "?nested = ?general" by (simp add: general 1 struct_from_type [OF t b] bindE_assoc)
    then show ?thesis by simp
  next
    case 2
    show ?thesis
    proof (cases "decodePointer (dataDecoder d) sz o1")
      case (Inl e)
      then show ?thesis
        using h 2 by (simp add: nestedMap_def general decodeFromType.simps [of d KindPointer] unmarshalPointer.simps)
    next
      case (Inr y)
      obtain p pe where p: "decodePointer (dataDecoder d) sz o1 = Inr (p, pe)" using Inr by (cases y) auto
      have depth': "depth + 1 \<le> maximumDataStructureDepth" using depth by simp
      show ?thesis
      proof (cases "decodeCtrlData (dataDecoder d) p")
        case (Inl e)
        then have "?nested = Inl e" using h 2 p depth by (simp add: nestedMap_def checkNestedDepth_def)
        moreover have "?general \<noteq> Inr r"
          using pointed_no_map [OF t p] Inl by (auto simp: general 2 bindE_eq_Inr)
        ultimately show ?thesis by simp
      next
        case (Inr z)
        obtain k' sz' o1' where h': "decodeCtrlData (dataDecoder d) p = Inr (k', sz', o1')" using Inr by (cases z) auto
        consider "k' = KindPointer" | "k' = KindMap" | "k' \<noteq> KindMap" "k' \<noteq> KindPointer" by blast
        then show ?thesis
        proof cases
          case 1
          then have "?nested = Inl (InvalidDatabaseError (InvalidPointerToPointer p))"
            using h 2 p h' depth by (simp add: nestedMap_def checkNestedDepth_def)
          moreover have "?general \<noteq> Inr r"
            using pointed_no_map [OF t p] h' 1 by (auto simp: general 2 bindE_eq_Inr)
          ultimately show ?thesis by simp
        next
          case 3
          then have "nestedMap d off depth = Inr None"
            using h 2 p h' depth by (simp add: nestedMap_def checkNestedDepth_def)
          then show ?thesis by simp
        next
          case map: 2
          then have n: "nestedMap d off depth = Inr (Some (sz', o1', pe, depth + 2))"
            using h 2 p h' depth by (simp add: nestedMap_def checkNestedDepth_def)
          then have "pe \<noteq> 0" by (rule nestedMap_Some) (use h 2 in auto)
          then have "?nested = ?general"
            using pointed_struct [OF t b depth' p h' [unfolded map]] by (simp add: n general 2 bindE_assoc split_def)
          then show ?thesis by simp
        qed
      qed
    qed
  next
    case 3
    then have "nestedMap d off depth = Inr None" using h by (simp add: nestedMap_def)
    then show ?thesis by simp
  qed
qed

section \<open>Fields with a size limit\<close>

lemma string_only: "decodeFromType d k sz off StringT cur depth = Inr r \<Longrightarrow> k = KindString \<or> k = KindPointer"
  by (auto simp: decodeFromType.simps unmarshalBool_def unmarshalMap.simps unmarshalSlice.simps unmarshalBytes_def
      unmarshalFloat32_def unmarshalFloat64_def unmarshalInt32_def unmarshalUint_def unmarshalUint128_def isStruct_def
      Let_def bindE_eq_Inr split: if_splits prod.splits)

text \<open>A string as the record behind its header gives it: charged for, and interned.\<close>

definition string_read :: "ReflectionDecoder \<Rightarrow> uint \<Rightarrow> uint \<Rightarrow> uint \<Rightarrow> Value \<times> uint \<times> ReflectionDecoder \<Rightarrow> bool" where
  "string_read d sz o1 e r \<longleftrightarrow> sz \<le> ucast (payloadRemaining d) \<and>
     (\<exists>s dd. decodeString (dataDecoder d) sz o1 = Inr (s, o1 + sz, dd) \<and>
       r = (StringV s, e, d\<lparr>dataDecoder := dd, payloadRemaining := payloadRemaining d - ucast sz\<rparr>))"

lemma reserved_iff:
  "budgetRemaining d \<noteq> 0 \<Longrightarrow> reserveExactPayload d sz = Inr d' \<longleftrightarrow>
     sz \<le> ucast (payloadRemaining d) \<and> d' = d\<lparr>payloadRemaining := payloadRemaining d - ucast sz\<rparr>"
  by (auto simp: reserveExactPayload_def not_less not_le)

lemma unmarshalString_read:
  assumes h: "decodeCtrlData (dataDecoder d) h = Inr (KindString, sz, o1)" and b: "budgetRemaining d \<noteq> 0"
  shows "unmarshalString d sz o1 StringT = Inr r \<longleftrightarrow> string_read d sz o1 (o1 + sz) r"
proof
  assume "string_read d sz o1 (o1 + sz) r"
  then show "unmarshalString d sz o1 StringT = Inr r"
    using fast_string [OF h b] by (auto simp: string_read_def)
next
  assume r: "unmarshalString d sz o1 StringT = Inr r"
  show "string_read d sz o1 (o1 + sz) r"
  proof (cases "unat o1 + unat sz \<le> unat (glen (buffer (dataDecoder d)))")
    case False
    then have "decodeString (dataDecoder d) sz o1 = Inr x \<Longrightarrow> False" for x
      using decodeString_fits [OF _ decodeCtrlData_small [OF h]] by (cases x) blast
    then show ?thesis using r False by (auto simp: unmarshalString_def hasBufferRange_iff Let_def bindE_eq_Inr)
  next
    case True
    have "bindE (reserveExactPayload d sz) (\<lambda>d. bindE (decodeString (dataDecoder d) sz o1) (\<lambda>(val, e, dd).
        Inr (StringV val, e, d\<lparr>dataDecoder := dd\<rparr>))) = Inr r"
    proof (cases "sz < 29 \<and> o1 > 0")
      case small: True
      have same: "bindE (reserveExactPayload d sz) (\<lambda>d. bindE (decodeCompactString (dataDecoder d) sz o1) (\<lambda>(val, dd).
          Inr (StringV val, o1 + sz, d\<lparr>dataDecoder := dd\<rparr>))) = Inr r"
        using r True b small by (simp add: unmarshalString_def hasBufferRange_iff Let_def bindE_assoc split_def)
      have "decodeString (dataDecoder d') sz o1 =
          bindE (decodeCompactString (dataDecoder d') sz o1) (\<lambda>(s, dd). Inr (s, o1 + sz, dd))"
        if "reserveExactPayload d sz = Inr d'" for d'
        using compact_eq [of sz o1 "dataDecoder d"] small True that b by (simp add: reserved_iff)
      with same show ?thesis by (cases "reserveExactPayload d sz") (simp_all add: bindE_assoc split_def)
    next
      case False
      then show ?thesis
        using r True b by (auto simp: unmarshalString_def hasBufferRange_iff Let_def bindE_assoc split_def)
    qed
    then obtain s e dd where "decodeString (dataDecoder d) sz o1 = Inr (s, e, dd)" "sz \<le> ucast (payloadRemaining d)"
      "r = (StringV s, e, d\<lparr>dataDecoder := dd, payloadRemaining := payloadRemaining d - ucast sz\<rparr>)"
      using b by (auto simp: bindE_eq_Inr reserved_iff)
    moreover from this have "e = o1 + sz" using decodeString_fits [OF _ decodeCtrlData_small [OF h]] by blast
    ultimately show ?thesis by (simp add: string_read_def)
  qed
qed

lemma compact_read:
  assumes h: "decodeCtrlData (dataDecoder d) p = Inr (KindString, sz, o1)" and b: "budgetRemaining d \<noteq> 0"
    and sz: "sz < 29" "o1 > 0" and fits: "unat o1 + unat sz \<le> unat (glen (buffer (dataDecoder d)))"
  shows "bindE (reserveExactPayload d sz) (\<lambda>d. bindE (decodeCompactString (dataDecoder d) sz o1) (\<lambda>(s, dd).
      Inr (StringV s, n, d\<lparr>dataDecoder := dd\<rparr>))) = Inr r \<longleftrightarrow> string_read d sz o1 n r"
  using b compact_eq [OF sz fits]
  by (cases "decodeCompactString (dataDecoder d) sz o1") (auto simp: bindE_eq_Inr reserved_iff string_read_def)

lemma decodeValue_string:
  assumes "decodeCtrlData (dataDecoder d) off = Inr (k, sz, o1)" and "depth \<le> maximumDataStructureDepth"
  shows "decodeValue d off StringT cur depth = decodeFromType d k sz o1 StringT cur (depth + 1)"
proof -
  have "bindE m Inr = m" for m :: decoded by (cases m) simp_all
  then show ?thesis using decodeValue_header [OF assms, of StringT cur] by simp
qed

text \<open>A pointer's target, decoded in general: its offset is replaced by the end of the pointer.\<close>

lemma pointer_slow:
  assumes b: "budgetRemaining d \<noteq> 0" and depth: "depth \<le> maximumDataStructureDepth"
    and no_pointer: "\<And>sz' o1'. decodeCtrlData (dataDecoder d) p \<noteq> Inr (KindPointer, sz', o1')"
  shows "bindE (decodeValue d p StringT cur depth) (\<lambda>(v, _, d). Inr (v, n, d)) = Inr r \<longleftrightarrow>
    (\<exists>sz' o1'. decodeCtrlData (dataDecoder d) p = Inr (KindString, sz', o1') \<and> string_read d sz' o1' n r)"
    (is "?slow = Inr r \<longleftrightarrow> _")
proof (cases "decodeCtrlData (dataDecoder d) p")
  case (Inl e)
  then show ?thesis by (simp add: decodeValue.simps)
next
  case (Inr x)
  obtain k sz' o1' where h: "decodeCtrlData (dataDecoder d) p = Inr (k, sz', o1')" using Inr by (cases x) auto
  note v = decodeValue_string [OF h depth, of cur]
  show ?thesis
  proof (cases "k = KindString")
    case True
    have "?slow = Inr r \<longleftrightarrow> (\<exists>v e d'. string_read d sz' o1' (o1' + sz') (v, e, d') \<and> r = (v, n, d'))"
      using unmarshalString_read [OF h [unfolded True] b] by (auto simp: v True decodeFromType.simps bindE_eq_Inr)
    also have "\<dots> \<longleftrightarrow> string_read d sz' o1' n r" by (auto simp: string_read_def)
    finally show ?thesis by (simp add: h True)
  next
    case False
    moreover have "k \<noteq> KindPointer" using no_pointer [of sz' o1'] h by auto
    ultimately show ?thesis using string_only [of d k sz' o1' cur "depth + 1"] by (auto simp: h v bindE_eq_Inr)
  qed
qed

text \<open>Behind a pointer, on the compact path or in general.\<close>

lemma pointer_string:
  assumes b: "budgetRemaining d \<noteq> 0" and depth: "depth \<le> maximumDataStructureDepth"
    and p: "decodePointer (dataDecoder d) sz o1 = Inr (p, n)"
  shows "unmarshalPointer d sz o1 StringT cur depth = Inr r \<longleftrightarrow>
    (\<exists>sz' o1'. decodeCtrlData (dataDecoder d) p = Inr (KindString, sz', o1') \<and> string_read d sz' o1' n r)"
proof -
  let ?dd = "dataDecoder d"
  let ?slow = "bindE (decodeValue d p StringT cur depth) (\<lambda>(v, _, d). Inr (v, n, d))"
  note slow = pointer_slow [OF b depth, of p cur n r]
  show ?thesis
  proof (cases "p \<ge> glen (buffer ?dd)")
    case True
    then have "decodeCtrlData ?dd p \<noteq> Inr x" for x
      using decodeCtrlData_Inr(1,3) [of ?dd p] by (cases x) (fastforce simp: word_le_nat_alt)
    with True p slow show ?thesis by (simp add: unmarshalPointer.simps)
  next
    case False
    then obtain c where c: "index (buffer ?dd) p = Inr c" by (auto simp: index_ok not_le)
    obtain kind where k: "pointedKind d p = Inr (c, kind)"
      using c by (cases "Kind_of_byte (drop_bit 5 c) = KindExtended \<and> p + 1 < glen (buffer ?dd)")
        (auto simp: pointedKind_def Let_def index_ok)
    let ?sz = "ucast (c AND 0x1f) :: uint"
    show ?thesis
    proof (cases "kind = KindPointer")
      case True
      then have "decodeCtrlData ?dd p \<noteq> Inr (KindString, sz', o1')" for sz' o1'
        using pointedKind_ctrl [OF k] by (auto dest: pointedKind_ctrl [OF k])
      with True False p k show ?thesis by (simp add: unmarshalPointer.simps)
    next
      case nk: False
      then have np: "decodeCtrlData ?dd p \<noteq> Inr (KindPointer, sz', o1')" for sz' o1'
        by (auto dest: pointedKind_ctrl [OF k])
      show ?thesis
      proof (cases "shortcut d StringT depth p c")
        case True
        then have s: "Kind_of_byte (drop_bit 5 c) = KindString" "?sz < 29" "?sz \<le> glen (buffer ?dd) - (p + 1)"
          by (simp_all add: shortcut_def)
        note header = short_string_header [OF c s(1) refl s(2,3)]
        have "p + 1 > 0" using header(1) decodeCtrlData_Inr(1) [OF header(1)] by (simp add: word_less_nat_alt)
        from compact_read [OF header(1) b s(2) this header(2), of n r]
        have "unmarshalPointer d sz o1 StringT cur depth = Inr r \<longleftrightarrow> string_read d ?sz (p + 1) n r"
          using p k False nk True by (simp add: unmarshalPointer.simps Let_def shortcut_def)
        then show ?thesis by (simp add: header(1))
      next
        case plain: False
        then have "unmarshalPointer d sz o1 StringT cur depth = ?slow"
          using p k False nk by (auto simp: unmarshalPointer.simps Let_def shortcut_def)
        then show ?thesis using slow np by simp
      qed
    qed
  qed
qed

text \<open>Decoding into a string reads the string record that the value resolves to.\<close>

lemma string_value:
  assumes b: "budgetRemaining d \<noteq> 0" and depth: "depth < maximumDataStructureDepth"
  shows "decodeValue d off StringT cur depth = Inr r \<longleftrightarrow>
    (\<exists>sz o1 n. resolveCtrlData (dataDecoder d) off = Inr (KindString, sz, o1, n) \<and>
       string_read d sz o1 (if n = 0 then o1 + sz else n) r)"
proof (cases "decodeCtrlData (dataDecoder d) off")
  case (Inl e)
  then show ?thesis by (simp add: decodeValue.simps resolveCtrlData_def)
next
  case (Inr x)
  obtain k sz o1 where h: "decodeCtrlData (dataDecoder d) off = Inr (k, sz, o1)" using Inr by (cases x) auto
  note here = decodeValue_string [OF h less_imp_le [OF depth], of cur]
  consider "k = KindString" | "k = KindPointer" | "k \<noteq> KindString" "k \<noteq> KindPointer" by blast
  then show ?thesis
  proof cases
    case 1
    then have "resolveCtrlData (dataDecoder d) off = Inr (KindString, sz, o1, 0)" using h by (simp add: resolveCtrlData_def)
    then show ?thesis using unmarshalString_read [OF h [unfolded 1] b] here 1 by (simp add: decodeFromType.simps)
  next
    case 3
    then have "resolveCtrlData (dataDecoder d) off = Inr (k, sz, o1, 0)" using h by (simp add: resolveCtrlData_def)
    then show ?thesis using string_only [of d k sz o1 cur "depth + 1" r] here 3 by auto
  next
    case 2
    then have u: "decodeValue d off StringT cur depth = unmarshalPointer d sz o1 StringT cur (depth + 1)"
      by (simp add: here decodeFromType.simps)
    show ?thesis
    proof (cases "decodePointer (dataDecoder d) sz o1")
      case (Inl e)
      then show ?thesis using h 2 by (simp add: u unmarshalPointer.simps resolveCtrlData_def)
    next
      case (Inr y)
      obtain p n where p: "decodePointer (dataDecoder d) sz o1 = Inr (p, n)" using Inr by (cases y) auto
      have res: "resolveCtrlData (dataDecoder d) off = Inr (KindString, sz', o1', m) \<longleftrightarrow>
          decodeCtrlData (dataDecoder d) p = Inr (KindString, sz', o1') \<and> m = n" for sz' o1' m
        using h 2 p by (auto simp: resolveCtrlData_def bindE_eq_Inr Let_def)
      have nz: "n \<noteq> 0" if "decodeCtrlData (dataDecoder d) p = Inr (KindString, sz', o1')" for sz' o1'
      proof -
        have "p \<noteq> off" using that h 2 by auto
        then show ?thesis using resolves_next [OF _ that, of off n] h 2 p by (auto simp: resolves_def)
      qed
      have "unmarshalPointer d sz o1 StringT cur (depth + 1) = Inr r \<longleftrightarrow>
          (\<exists>sz' o1'. decodeCtrlData (dataDecoder d) p = Inr (KindString, sz', o1') \<and> string_read d sz' o1' n r)"
        by (rule pointer_string [OF b _ p]) (use depth in simp)
      also have "\<dots> \<longleftrightarrow> (\<exists>sz o1 m. resolveCtrlData (dataDecoder d) off = Inr (KindString, sz, o1, m) \<and>
          string_read d sz o1 (if m = 0 then o1 + sz else m) r)"
        unfolding res using nz by (intro iff_exI) auto
      finally show ?thesis by (simp only: u)
    qed
  qed
qed


text \<open>A limited string: the two limits are checked against one record.\<close>

lemma string_limit:
  "CheckMaxSize (ownHeap d) (ownCursor off) (NewKindSet [KindString]) maximum = Inr () \<longleftrightarrow>
    (\<exists>k sz o1 n. resolveCtrlData (dataDecoder d) off = Inr (k, sz, o1, n) \<and> (k = KindString \<longrightarrow> sz \<le> maximum))"
proof -
  have ks: "NewKindSet [KindString] \<noteq> 0" "NewKindSet [KindString] AND NOT supportedMaxSizeKinds = 0"
    by code_simp+
  show ?thesis
    by (cases "resolveCtrlData (dataDecoder d) off") (auto simp: CheckMaxSize_eq [OF ks] validate_def not_less split: if_splits)
qed

lemma read_limited:
  "ReadStringMaxSize (ownHeap d) (ownCursor off) maximum = Inr (s, next, h) \<longleftrightarrow>
    (\<exists>sz o1 n e dd. resolveCtrlData (dataDecoder d) off = Inr (KindString, sz, o1, n) \<and> sz \<le> maximum \<and>
      decodeString (dataDecoder d) sz o1 = Inr (s, e, dd) \<and> next = successor (ownCursor off) (if n = 0 then o1 + sz else n) \<and>
      h = (ownHeap d)(0 := dd))"
proof (cases "resolveCtrlData (dataDecoder d) off")
  case (Inl e)
  then show ?thesis by (simp add: ReadStringMaxSize_eq readStringSlow_def validate_def)
next
  case (Inr x)
  obtain k sz o1 n where res: "resolveCtrlData (dataDecoder d) off = Inr (k, sz, o1, n)" using Inr by (cases x) auto
  show ?thesis
  proof (cases "k = KindString \<and> sz \<le> maximum")
    case True
    then show ?thesis
      by (cases "decodeString (dataDecoder d) sz o1")
        (auto simp: ReadStringMaxSize_eq readStringSlow_def validate_def res not_less)
  qed (auto simp: ReadStringMaxSize_eq readStringSlow_def validate_def res not_less)
qed

text \<open>A string within its limit: what is left to check is the payload.\<close>

lemma limited_string_read:
  assumes ok: "cache_ok (dataDecoder d)" and b: "budgetRemaining d \<noteq> 0" and depth: "depth < maximumDataStructureDepth"
    and rd: "ReadStringMaxSize (ownHeap d) (ownCursor off) maximum = Inr (s, next, h)"
  shows "bindE (checkPayloadLimit d off (NewKindSet [KindString]) maximum) (\<lambda>_. bindE (readLimitedString d off maximum) (\<lambda>read.
      case read of Some result \<Rightarrow> Inr result | None \<Rightarrow> decodeValue d off StringT cur depth)) = Inr r \<longleftrightarrow>
    CheckMaxSize (ownHeap d) (ownCursor off) (NewKindSet [KindString]) maximum = Inr () \<and> decodeValue d off StringT cur depth = Inr r"
    (is "?limited = Inr r \<longleftrightarrow> ?checked")
proof -
  from rd obtain sz o1 n e dd where res: "resolveCtrlData (dataDecoder d) off = Inr (KindString, sz, o1, n)" and max: "sz \<le> maximum"
    and s: "decodeString (dataDecoder d) sz o1 = Inr (s, e, dd)" and nx: "c_offset next = (if n = 0 then o1 + sz else n)"
    and h: "h 0 = dd" unfolding read_limited by (auto simp: successor_def)
  obtain r' where rec: "decodeCtrlData (dataDecoder d) r' = Inr (KindString, sz, o1)" using res by (rule resolveCtrlData_Inr)
  note fits = decodeString_fits [OF s decodeCtrlData_small [OF rec]]
  have "length s = unat sz"
    using decodeString_record [OF ok rec] fits s length_payload [of o1 sz "dataDecoder d"] by auto
  then have g: "glen s = sz" using header_small [OF rec] by (simp add: glen_def max_int_def)
  have val: "decodeValue d off StringT cur depth = Inr r \<longleftrightarrow> string_read d sz o1 (c_offset next) r"
    unfolding string_value [OF b depth] by (simp add: res nx)
  have limit: "CheckMaxSize (ownHeap d) (ownCursor off) (NewKindSet [KindString]) m = Inr () \<longleftrightarrow> sz \<le> m" for m
    by (simp add: string_limit res)
  have "?checked \<longleftrightarrow> sz \<le> ucast (payloadRemaining d) \<and>
      r = (StringV s, c_offset next, d\<lparr>dataDecoder := dd, payloadRemaining := payloadRemaining d - ucast sz\<rparr>)"
    using max s fits by (auto simp: val limit string_read_def)
  moreover have "?limited = Inr r \<longleftrightarrow> sz \<le> ucast (payloadRemaining d) \<and>
      r = (StringV s, c_offset next, d\<lparr>dataDecoder := dd, payloadRemaining := payloadRemaining d - ucast sz\<rparr>)"
  proof (cases "sz \<le> ucast (payloadRemaining d)")
    case True
    then have "checkPayloadLimit d off (NewKindSet [KindString]) maximum = Inr ()"
      using True max by (simp add: checkPayloadLimit_def bindE_eq_Inr limit)
    moreover have "readLimitedString d off maximum =
        Inr (Some (StringV s, c_offset next, d\<lparr>dataDecoder := dd, payloadRemaining := payloadRemaining d - ucast sz\<rparr>))"
      using rd b True g h by (simp add: readLimitedString_def Let_def)
    ultimately show ?thesis using True by auto
  next
    case False
    then have "readLimitedString d off maximum = Inl errDecodedRecordTooLarge"
      using rd b g by (simp add: readLimitedString_def Let_def not_le)
    then show ?thesis using False by (auto simp: bindE_eq_Inr)
  qed
  ultimately show ?thesis by blast
qed

lemma limited_string_value:
  assumes ok: "cache_ok (dataDecoder d)" and b: "budgetRemaining d \<noteq> 0" and depth: "depth < maximumDataStructureDepth"
  shows "bindE (checkPayloadLimit d off (NewKindSet [KindString]) maximum) (\<lambda>_. bindE (readLimitedString d off maximum) (\<lambda>read.
      case read of Some result \<Rightarrow> Inr result | None \<Rightarrow> decodeValue d off StringT cur depth)) = Inr r \<longleftrightarrow>
    CheckMaxSize (ownHeap d) (ownCursor off) (NewKindSet [KindString]) maximum = Inr () \<and> decodeValue d off StringT cur depth = Inr r"
    (is "?limited = Inr r \<longleftrightarrow> ?checked")
proof (cases "\<exists>s next h. ReadStringMaxSize (ownHeap d) (ownCursor off) maximum = Inr (s, next, h)")
  case True
  then show ?thesis using limited_string_read [OF ok b depth] by blast
next
  case False
  then obtain err where rd: "ReadStringMaxSize (ownHeap d) (ownCursor off) maximum = Inl err"
    by (cases "ReadStringMaxSize (ownHeap d) (ownCursor off) maximum") auto
  have unread: "\<not> ?checked"
  proof
    assume c: ?checked
    then obtain sz o1 n where res: "resolveCtrlData (dataDecoder d) off = Inr (KindString, sz, o1, n)"
      and "string_read d sz o1 (if n = 0 then o1 + sz else n) r" unfolding string_value [OF b depth] by blast
    then obtain s dd where s: "decodeString (dataDecoder d) sz o1 = Inr (s, o1 + sz, dd)" by (auto simp: string_read_def)
    have "sz \<le> maximum" using c res by (auto simp: string_limit)
    with res s False show False unfolding read_limited by blast
  qed
  have "?limited = Inr r \<Longrightarrow> ?checked"
  proof -
    assume l: "?limited = Inr r"
    then have q: "readLimitedString d off maximum = Inr None" and v: "decodeValue d off StringT cur depth = Inr r"
      using rd by (auto simp: readLimitedString_def bindE_eq_Inr split: gerr.splits)
    from v obtain sz o1 n where res: "resolveCtrlData (dataDecoder d) off = Inr (KindString, sz, o1, n)"
      and "string_read d sz o1 (if n = 0 then o1 + sz else n) r" unfolding string_value [OF b depth] by blast
    then obtain s dd where s: "decodeString (dataDecoder d) sz o1 = Inr (s, o1 + sz, dd)" by (auto simp: string_read_def)
    have "sz \<le> maximum"
    proof (rule ccontr)
      assume "\<not> sz \<le> maximum"
      then have "err = maxSizeError (ownCursor off) KindString sz maximum"
        using rd res by (simp add: ReadStringMaxSize_eq readStringSlow_def validate_def not_le)
      with q rd show False by (simp add: readLimitedString_def maxSizeError_def)
    qed
    with res v show ?checked by (auto simp: string_limit)
  qed
  with unread show ?thesis by blast
qed

lemma unwrapped_no_pointer: "unwrapPtrType t \<noteq> PtrT e"
  by (induction t rule: unwrapPtrType.induct) simp_all

lemma unwrapped_self: "unwrapPtrType t = t \<Longrightarrow> allocated t v = v \<and> deref t v = v"
  using unwrapped_no_pointer [of t] by (cases t) auto

text \<open>
  Decoding a field with a limit is checking the limit and then decoding in general, on whichever of
  the code's paths.
\<close>

lemma limited_eq:
  assumes ok: "cache_ok (dataDecoder d)" and b: "budgetRemaining d \<noteq> 0" and depth: "depth < maximumDataStructureDepth"
    and ks: "expected \<noteq> 0" "expected AND NOT supportedMaxSizeKinds = 0"
  shows "decodeValueMaxSize d off t cur depth expected maximum = Inr r \<longleftrightarrow>
    CheckMaxSize (ownHeap d) (ownCursor off) expected maximum = Inr () \<and> decodeValue d off t cur depth = Inr r"
proof -
  consider "unwrapPtrType t \<noteq> t" | "t = StringT" "expected = NewKindSet [KindString]"
    | (direct) "unwrapPtrType t = t" "\<not> (t = StringT \<and> expected = NewKindSet [KindString])" by blast
  then show ?thesis
  proof cases
    case 1
    then show ?thesis by (auto simp: decodeValueMaxSize.simps bindE_eq_Inr)
  next
    case 2
    then show ?thesis
      using limited_string_value [OF ok b depth, of off maximum cur r] depth by (simp add: decodeValueMaxSize.simps)
  next
    case direct
    then have id: "allocated t v = v" "deref t v = v" for v using unwrapped_self by blast+
    have nd: "(t = StringT \<and> expected = NewKindSet [KindString]) = False"
      and d: "(depth > maximumDataStructureDepth) = False" using direct(2) depth by auto
    have step: "decodeValueMaxSize d off t cur depth expected maximum =
        bindE (decodeCtrlData (dataDecoder d) off) (\<lambda>(typeNum, sz, dataOffset).
          if typeNum = KindPointer then
            bindE (CheckMaxSize (ownHeap d) (ownCursor off) expected maximum) (\<lambda>_. decodeValue d off t cur depth)
          else if KindSet_Contains expected typeNum \<and> sz > maximum then
            Inl (wrapErrorAtOffset (InvalidDatabaseError (MaxSizeExceeded typeNum sz maximum)) off)
          else decodeFromType d typeNum sz dataOffset t cur (depth + 1))"
      by (simp only: decodeValueMaxSize.simps [of d off t] Let_def nd d direct(1) if_False simp_thms)
    show ?thesis
    proof (cases "decodeCtrlData (dataDecoder d) off")
      case (Inl e)
      then show ?thesis by (simp add: step decodeValue.simps)
    next
      case (Inr x)
      obtain k sz o1 where h: "decodeCtrlData (dataDecoder d) off = Inr (k, sz, o1)" using Inr by (cases x) auto
      show ?thesis
      proof (cases "k = KindPointer")
        case True
        then show ?thesis using h by (auto simp: step bindE_eq_Inr)
      next
        case False
        then have "resolveCtrlData (dataDecoder d) off = Inr (k, sz, o1, 0)" using h by (simp add: resolveCtrlData_def)
        then have "CheckMaxSize (ownHeap d) (ownCursor off) expected maximum = Inr () \<longleftrightarrow>
            \<not> (KindSet_Contains expected k \<and> sz > maximum)"
          by (simp add: CheckMaxSize_eq [OF ks] validate_def)
        moreover have "decodeValue d off t cur depth = decodeFromType d k sz o1 t cur (depth + 1)"
        proof -
          have "bindE m Inr = m" for m :: decoded by (cases m) simp_all
          then show ?thesis using decodeValue_header [OF h less_imp_le [OF depth], of t cur] direct(1) id by simp
        qed
        ultimately show ?thesis using h False by (simp add: step)
      qed
    qed
  qed
qed

section \<open>The dispatch of a field\<close>

lemma dispatch_eq:
  assumes f: "f \<in> set (namedFields (makeStructFields t))" and b: "budgetRemaining d \<noteq> 0"
    and depth: "depth < maximumDataStructureDepth" and ok: "fi_dispatch f = dispatchMaxSize \<longrightarrow> cache_ok (dataDecoder d)"
  shows "decodeField d off f cur depth = Inr r \<longleftrightarrow>
    (fi_dispatch f = dispatchMaxSize \<longrightarrow>
       CheckMaxSize (ownHeap d) (ownCursor off) (fi_maxSizeKinds f) (fi_maxSize f) = Inr ()) \<and>
    decodeValue d off (fi_type f) cur depth = Inr r"
proof (cases "fi_dispatch f = dispatchMaxSize")
  case True
  then show ?thesis
    using limited_eq [OF _ b depth limited_kinds [OF f True], of off "fi_type f" cur "fi_maxSize f" r] ok
    by (simp add: decodeField.simps Let_def)
next
  case m: False
  obtain opts where opts: "fi_dispatch f = field_dispatch opts (fi_type f)" using makeStructFields_path(3) [OF f] by blast
  have st: "isStruct (unwrapPtrType (fi_type f))" if "fi_dispatch f \<in> {dispatchStruct, dispatchPointerStruct}"
    using that field_dispatch_struct [of opts "fi_type f"] by (simp add: opts)
  have quick: "(case (if length (fi_index f) = 1 then tryFastDecodeTyped d off (fi_type f) else None) of
      Some result \<Rightarrow> Inr result | None \<Rightarrow> decodeValue d off (fi_type f) cur depth) = decodeValue d off (fi_type f) cur depth"
    using fast_general [of d off "fi_type f" _ depth cur] b depth
    by (cases "if length (fi_index f) = 1 then tryFastDecodeTyped d off (fi_type f) else None")
      (simp_all del: tryFastDecodeTyped.simps split: if_splits)
  show ?thesis
    using quick nested_general [OF st b depth, of off cur r] m
    by (cases "fi_dispatch f") (simp_all add: decodeField.simps Let_def del: tryFastDecodeTyped.simps)
qed

text \<open>
  C25. The dispatch of a struct field chosen when the field table is built changes nothing: below the
  nesting depth 512 and with active limits, decoding by the dispatch (the scalar fast path, the direct
  decoding of a nested struct, possibly behind pointers of the data or of the type, and the paths that
  check a size limit on the way) succeeds exactly when the general decoder does and, for a field with a
  size limit, \<open>CheckMaxSize\<close> accepts the value; with the same value, offset, budgets and cache.
\<close>

theorem field_dispatch_general:
  assumes "f \<in> set (namedFields (makeStructFields t))" and "budgetRemaining d \<noteq> 0" and "depth < maximumDataStructureDepth"
    and "fi_dispatch f = dispatchMaxSize \<longrightarrow> cache_ok (dataDecoder d)"
  shows "decodeField d off f cur depth = Inr r \<longleftrightarrow>
    (fi_dispatch f = dispatchMaxSize \<longrightarrow>
       CheckMaxSize (ownHeap d) (ownCursor off) (fi_maxSizeKinds f) (fi_maxSize f) = Inr ()) \<and>
    decodeValue d off (fi_type f) cur depth = Inr r"
  using assms by (rule dispatch_eq)

text \<open>A struct in a struct, whose map is read by the dispatch of its field.\<close>

theorem field_dispatch_general_witness:
  "decodeValue (newBudgetedDecoder (NewWithoutStringCache [0xE1, 0x41, 98, 0xA1, 7])) 0
     (StructT [1] [FieldDecl [98] True False None Uint16T]) (StructV [UintV 0]) 3 =
   Inr (StructV [UintV 7], 5, newBudgetedDecoder (NewWithoutStringCache [0xE1, 0x41, 98, 0xA1, 7])\<lparr>budgetRemaining := 32767\<rparr>)"
proof -
  let ?d = "newBudgetedDecoder (NewWithoutStringCache [0xE1, 0x41, 98, 0xA1, 7])"
  let ?s = "StructT [1] [FieldDecl [98] True False None Uint16T]"
  let ?t = "StructT [] [FieldDecl [97] True False None ?s]"
  let ?f = "makeFieldInfo (FieldDecl [97] True False None ?s) [0] 0"
  have "namedFields (makeStructFields ?t) = [?f]" by code_simp
  then have f: "?f \<in> set (namedFields (makeStructFields ?t))" by simp
  have b: "budgetRemaining ?d \<noteq> 0" by code_simp
  have m: "fi_dispatch ?f = dispatchMaxSize \<longrightarrow> cache_ok (dataDecoder ?d)"
    by (simp add: newBudgetedDecoder_def NewWithoutStringCache_def)
  have depth: "3 < maximumDataStructureDepth" by (simp add: maximumDataStructureDepth_def)
  have r: "decodeField ?d 0 ?f (StructV [UintV 0]) 3 =
      Inr (StructV [UintV 7], 5, ?d\<lparr>budgetRemaining := 32767\<rparr>)" by code_simp
  show ?thesis
    using r field_dispatch_general [OF f b depth m, of 0 "StructV [UintV 0]"] by simp
qed

text \<open>
  At the depth 512 itself the two differ: the general decoder still takes a map without entries, the
  direct decoding of a nested struct does not.
\<close>

lemma nested_depth_differs:
  "decodeField (newBudgetedDecoder (NewWithoutStringCache [0xE0])) 0
     (makeFieldInfo (FieldDecl [97] True False None (StructT [1] [])) [0] 0) (StructV []) 512 =
     Inl (InvalidDatabaseError MaximumDepthExceeded)"
  "decodeValue (newBudgetedDecoder (NewWithoutStringCache [0xE0])) 0 (StructT [1] []) (StructV []) 512 =
     Inr (StructV [], 1, newBudgetedDecoder (NewWithoutStringCache [0xE0]))"
  by code_simp+

section \<open>The loop with its hints\<close>

text \<open>
  The loop of \<open>decodeStructWithFields\<close> with the hints it keeps in \<open>offsetFields\<close>: for the offset of a key,
  the field found there before. The table is shared by all goroutines; \<open>others\<close> says what the others have
  made of it before each of the loop's two accesses, the load, and the load with the \<open>CompareAndSwap\<close> that
  fills an empty slot. The hint is used only if its name is the whole key.
\<close>

type_synonym hints = "fieldInfo option list"

definition fieldOffsetCacheSlots :: nat where
  "fieldOffsetCacheSlots = 64"

definition hintSlot :: "uint \<Rightarrow> nat" where
  "hintSlot keyOffset = unat (keyOffset AND (word_of_nat fieldOffsetCacheSlots - 1))"

definition storeHint :: "hints \<Rightarrow> nat \<Rightarrow> fieldInfo option \<Rightarrow> hints" where
  "storeHint hints slot field = (if field \<noteq> None \<and> hints ! slot = None then hints[slot := field] else hints)"

definition hintedField ::
  "(nat \<Rightarrow> hints \<Rightarrow> hints) \<Rightarrow> nat \<Rightarrow> hints \<Rightarrow> fieldsType \<Rightarrow> uint \<Rightarrow> bytes \<Rightarrow> fieldInfo option \<times> hints" where
  "hintedField others n hints fs keyOffset key =
     (let hints = others (2 * n + 1) hints; slot = hintSlot keyOffset; hint = hints ! slot in
      if hint \<noteq> None \<and> fi_name (the hint) = key then (hint, hints)
      else
        let field = fieldForKey fs key
        in (field, storeHint (others (2 * n) hints) slot field))"

fun hintedFields :: "(nat \<Rightarrow> hints \<Rightarrow> hints) \<Rightarrow> hints \<Rightarrow> ReflectionDecoder \<Rightarrow> nat \<Rightarrow> uint \<Rightarrow> Type \<Rightarrow> Value \<Rightarrow> nat \<Rightarrow>
    fieldsType \<Rightarrow> ((Value \<times> uint \<times> ReflectionDecoder) \<times> hints) res" where
  "hintedFields others hints d 0 offset t cur depth fs = Inr ((cur, offset, d), hints)"
| "hintedFields others hints d (Suc n) offset t cur depth fs =
     bindE (decodeKeyAt (dataDecoder d) offset) (\<lambda>(key, keyOffset, offset).
       case hintedField others n hints fs keyOffset key of
         (None, hints) \<Rightarrow>
           bindE (skipField d offset) (\<lambda>(offset, d). hintedFields others hints d n offset t cur depth fs)
       | (Some f, hints) \<Rightarrow>
           bindE
             (if fieldByIndex t cur (fi_index f) False = None \<and> fi_dispatch f = dispatchMaxSize then
                mapErr (\<lambda>err. wrapErrorWithMapKey err key)
                  (CheckMaxSize (ownHeap d) (ownCursor offset) (fi_maxSizeKinds f) (fi_maxSize f))
              else Inr ())
             (\<lambda>_.
               case fieldByIndex t cur (fi_index f) True of
                 None \<Rightarrow> bindE (skipField d offset) (\<lambda>(offset, d). hintedFields others hints d n offset t cur depth fs)
               | Some v \<Rightarrow>
                   bindE (mapErr (\<lambda>err. wrapErrorWithMapKey err key) (decodeField d offset f v depth)) (\<lambda>(v, offset, d).
                     hintedFields others hints d n offset t (setField t cur (fi_index f) v) depth fs)))"

text \<open>What every goroutine keeps: the slots hold fields of the table.\<close>

definition hints_ok :: "fieldsType \<Rightarrow> hints \<Rightarrow> bool" where
  "hints_ok fs hints \<longleftrightarrow> length hints = fieldOffsetCacheSlots \<and> (\<forall>f. Some f \<in> set hints \<longrightarrow> f \<in> set (namedFields fs))"

lemma hintSlot_less: "hintSlot keyOffset < fieldOffsetCacheSlots"
proof -
  have "keyOffset AND 63 \<le> (63 :: uint)" by (rule word_and_le1)
  then have "unat (keyOffset AND 63) \<le> 63" by (simp add: word_le_nat_alt)
  then show ?thesis by (simp add: hintSlot_def fieldOffsetCacheSlots_def)
qed

lemma hintedField_eq:
  assumes key: "\<And>key. fieldForKey fs key = named fs key" and names: "distinct (map fi_name (namedFields fs))"
    and ok: "hints_ok fs hints" and others: "\<And>n h. hints_ok fs h \<Longrightarrow> hints_ok fs (others n h)"
  shows "\<exists>hints'. hintedField others n hints fs keyOffset key = (fieldForKey fs key, hints') \<and> hints_ok fs hints'"
proof -
  let ?h = "others (2 * n + 1) hints" and ?slot = "hintSlot keyOffset"
  have h: "hints_ok fs ?h" by (rule others [OF ok])
  show ?thesis
  proof (cases "?h ! ?slot \<noteq> None \<and> fi_name (the (?h ! ?slot)) = key")
    case True
    then obtain f where f: "?h ! ?slot = Some f" "fi_name f = key" by auto
    have "Some f \<in> set ?h" using f(1) hintSlot_less [of keyOffset] h by (metis hints_ok_def nth_mem)
    then have "named fs key = Some f" using h f(2) named_iff [OF names] by (simp add: hints_ok_def)
    then show ?thesis using True f h key by (simp add: hintedField_def Let_def)
  next
    case False
    have "hints_ok fs (storeHint (others (2 * n) ?h) ?slot (fieldForKey fs key))"
      using others [OF h, of "2 * n"] key named_in [of fs key]
      by (auto simp: storeHint_def hints_ok_def dest!: set_update_subset_insert [THEN subsetD])
    then show ?thesis using False by (auto simp: hintedField_def Let_def)
  qed
qed

lemma hintedFields_eq:
  assumes key: "\<And>key. fieldForKey fs key = named fs key" and names: "distinct (map fi_name (namedFields fs))"
    and others: "\<And>n h. hints_ok fs h \<Longrightarrow> hints_ok fs (others n h)"
  shows "hints_ok fs hints \<Longrightarrow>
    (\<exists>hints'. hintedFields others hints d n off t cur depth fs = Inr (r, hints') \<and> hints_ok fs hints') \<longleftrightarrow>
    decodeFields d n off t cur depth fs = Inr r"
proof (induction n arbitrary: hints d off cur)
  case (Suc n)
  show ?case
  proof (cases "decodeKeyAt (dataDecoder d) off")
    case (Inr x)
    obtain key co o1 where k: "decodeKeyAt (dataDecoder d) off = Inr (key, co, o1)" using Inr by (cases x) auto
    obtain h where h: "hintedField others n hints fs co key = (fieldForKey fs key, h)" "hints_ok fs h"
      using hintedField_eq [where others = others, OF key names Suc.prems others] by blast
    note IH = Suc.IH [OF h(2)]
    have skip: "(\<exists>hints'. bindE (skipField d o1) (\<lambda>(o2, d). hintedFields others h d n o2 t cur depth fs) = Inr (r, hints') \<and>
        hints_ok fs hints') \<longleftrightarrow> bindE (skipField d o1) (\<lambda>(o2, d). decodeFields d n o2 t cur depth fs) = Inr r"
      using IH by (cases "skipField d o1") auto
    show ?thesis
    proof (cases "fieldForKey fs key")
      case None
      then show ?thesis using skip by (simp add: decodeFields.simps k h(1))
    next
      case (Some f)
      let ?check = "if fieldByIndex t cur (fi_index f) False = None \<and> fi_dispatch f = dispatchMaxSize then
          mapErr (\<lambda>err. wrapErrorWithMapKey err key)
            (CheckMaxSize (ownHeap d) (ownCursor o1) (fi_maxSizeKinds f) (fi_maxSize f))
        else Inr ()"
      show ?thesis
      proof (cases ?check)
        case (Inl e)
        then show ?thesis by (simp add: decodeFields.simps k h(1) Some del: mapErr_eq_Inr)
      next
        case (Inr u)
        show ?thesis
        proof (cases "fieldByIndex t cur (fi_index f) True")
          case None
          then show ?thesis using skip Inr by (simp add: decodeFields.simps k h(1) Some)
        next
          case v: (Some v)
          then show ?thesis
            using IH Inr by (cases "decodeField d o1 f v depth") (auto simp: decodeFields.simps k h(1) Some)
        qed
      qed
    qed
  qed (simp add: decodeFields.simps)
qed auto

section \<open>Structs by name\<close>

text \<open>
  The reference for a struct destination: every key looked up by its name alone and its value decoded
  by the general decoder once its limit, if the field has one, is checked; without table, hint or
  dispatch.
\<close>

fun setFields :: "ReflectionDecoder \<Rightarrow> nat \<Rightarrow> uint \<Rightarrow> Type \<Rightarrow> Value \<Rightarrow> nat \<Rightarrow> decoded" where
  "setFields d 0 offset t cur depth = Inr (cur, offset, d)"
| "setFields d (Suc n) offset t cur depth =
     bindE (decodeKeyAt (dataDecoder d) offset) (\<lambda>(key, _, offset).
       case named (makeStructFields t) key of
         None \<Rightarrow> bindE (skipField d offset) (\<lambda>(offset, d). setFields d n offset t cur depth)
       | Some f \<Rightarrow>
           bindE (if fi_dispatch f = dispatchMaxSize then
                    CheckMaxSize (ownHeap d) (ownCursor offset) (fi_maxSizeKinds f) (fi_maxSize f)
                  else Inr ()) (\<lambda>_.
           bindE (decodeValue d offset (fi_type f) (the (fieldByIndex t cur (fi_index f) True)) depth) (\<lambda>(v, offset, d).
             setFields d n offset t (setField t cur (fi_index f) v) depth)))"

lemma decodeFields_by_name:
  assumes depth: "depth < maximumDataStructureDepth"
    and key: "\<And>key. fieldForKey (makeStructFields t) key = named (makeStructFields t) key"
  shows "cache_ok (dataDecoder d) \<Longrightarrow> budgetRemaining d \<noteq> 0 \<Longrightarrow> has_type cur t \<Longrightarrow>
    decodeFields d n off t cur depth (makeStructFields t) = Inr r \<longleftrightarrow> setFields d n off t cur depth = Inr r"
proof (induction n arbitrary: d off cur)
  case (Suc n)
  show ?case
  proof (cases "decodeKeyAt (dataDecoder d) off")
    case (Inr x)
    obtain key co o1 where k: "decodeKeyAt (dataDecoder d) off = Inr (key, co, o1)" using Inr by (cases x) auto
    show ?thesis
    proof (cases "named (makeStructFields t) key")
      case None
      have "decodeFields d2 n o2 t cur depth (makeStructFields t) = Inr r \<longleftrightarrow> setFields d2 n o2 t cur depth = Inr r"
        if "skipField d o1 = Inr (o2, d2)" for o2 d2
      proof -
        have "keeps d d2" "costs d d2 0"
          using skipField_post [OF Suc.prems(1,2) key_post(2) [OF k]] that by simp_all
        then show ?thesis using Suc.IH [of d2 cur o2] Suc.prems keeps_reads(3) by (simp add: costs_def)
      qed
      then show ?thesis by (auto simp: decodeFields.simps k None key bindE_eq_Inr)
    next
      case (Some f)
      then have f: "f \<in> set (namedFields (makeStructFields t))" by (rule named_in)
      note p = makeStructFields_path(1) [OF f]
      obtain v where v: "fieldByIndex t cur (fi_index f) True = Some v" using fieldByIndex_alloc [OF Suc.prems(3) p] by blast
      have vt: "has_type v (fi_type f)" by (rule fieldByIndex_typed [OF Suc.prems(3) p v])
      have same: "decodeField d o1 f v depth = Inr y \<longleftrightarrow>
          (fi_dispatch f = dispatchMaxSize \<longrightarrow>
             CheckMaxSize (ownHeap d) (ownCursor o1) (fi_maxSizeKinds f) (fi_maxSize f) = Inr ()) \<and>
          decodeValue d o1 (fi_type f) v depth = Inr y" for y
        using dispatch_eq [OF f Suc.prems(2) depth] Suc.prems(1) by blast
      have "decodeFields d2 n o2 t (setField t cur (fi_index f) x) depth (makeStructFields t) = Inr r \<longleftrightarrow>
          setFields d2 n o2 t (setField t cur (fi_index f) x) depth = Inr r"
        if "decodeValue d o1 (fi_type f) v depth = Inr (x, o2, d2)" for x o2 d2
      proof -
        have "gives d (fi_type f) (weight_of v) x d2"
          using decode_reads(1) [OF Suc.prems(1) vt, of o1 depth] that by (simp add: reads_value_def)
        then obtain w where "keeps d d2" "has_type x (fi_type f)" "costs d d2 w" by (auto simp: gives_def)
        then show ?thesis
          using Suc.IH [of d2 "setField t cur (fi_index f) x" o2] Suc.prems keeps_reads(3) setField_typed [OF Suc.prems(3) p]
          by (simp add: costs_def)
      qed
      then show ?thesis
        by (auto simp: decodeFields.simps k Some key v bindE_eq_Inr same split: if_splits)
    qed
  qed (simp add: decodeFields.simps)
qed simp

text \<open>
  C5. Decoding the entries of a map into a struct refines the plain description: it succeeds exactly
  when taking the keys one after the other does, each value decoded by the general decoder into the
  field of that name (through embedded structs, which are allocated as needed) once \<open>CheckMaxSize\<close>
  accepts it if the field has a size limit, or skipped when no field has the name; and it leaves the same
  struct, offset, budgets and cache. So neither the fingerprint table nor the dispatch shows, nor do the
  hints in the loop as the code has it, whatever fields other goroutines store among them meanwhile. The
  nesting depth is below 512, the limits are active, and the names and the number of fields are below
  what the fingerprints are computed for.
\<close>

theorem struct_by_name:
  assumes "cache_ok (dataDecoder d)" and "budgetRemaining d \<noteq> 0" and "has_type cur t" and "depth < maximumDataStructureDepth"
    and "\<forall>f \<in> set (namedFields (makeStructFields t)). length (fi_name f) < 2 ^ 32 - 1"
    and "length (namedFields (makeStructFields t)) < 2 ^ 61"
    and "hints_ok (makeStructFields t) hints"
    and "\<forall>n h. hints_ok (makeStructFields t) h \<longrightarrow> hints_ok (makeStructFields t) (others n h)"
  shows "(decodeFields d n off t cur depth (makeStructFields t) = Inr r \<longleftrightarrow> setFields d n off t cur depth = Inr r) \<and>
    ((\<exists>hints'. hintedFields others hints d n off t cur depth (makeStructFields t) = Inr (r, hints') \<and>
        hints_ok (makeStructFields t) hints') \<longleftrightarrow>
      setFields d n off t cur depth = Inr r)"
proof -
  have key: "fieldForKey (makeStructFields t) key = named (makeStructFields t) key" for key
    by (rule fieldForKey_eq [OF makeStructFields_names assms(6) _ makeStructFields_table]) (use assms(5) in auto)
  note plain = decodeFields_by_name [OF assms(4) key assms(1-3), of n off r]
  have "(\<exists>hints'. hintedFields others hints d n off t cur depth (makeStructFields t) = Inr (r, hints') \<and>
      hints_ok (makeStructFields t) hints') \<longleftrightarrow> decodeFields d n off t cur depth (makeStructFields t) = Inr r"
    by (rule hintedFields_eq [OF key makeStructFields_names _ assms(7)]) (use assms(8) in blast)
  with plain show ?thesis by blast
qed

text \<open>A key of no field and a field behind an embedded pointer that was nil.\<close>

theorem struct_by_name_witness:
  "setFields (newBudgetedDecoder (NewWithoutStringCache [0x41, 99, 0xA0, 0x41, 98, 0xA1, 7])) 2 0
     (StructT [] [FieldDecl [69] True True None (PtrT (StructT [1] [FieldDecl [98] True False None Uint16T]))]) (StructV [NilV]) 3 =
   Inr (StructV [PtrV (StructV [UintV 7])], 7, newBudgetedDecoder (NewWithoutStringCache [0x41, 99, 0xA0, 0x41, 98, 0xA1, 7]))"
proof -
  let ?d = "newBudgetedDecoder (NewWithoutStringCache [0x41, 99, 0xA0, 0x41, 98, 0xA1, 7])"
  let ?t = "StructT [] [FieldDecl [69] True True None (PtrT (StructT [1] [FieldDecl [98] True False None Uint16T]))]"
  let ?f = "makeFieldInfo (FieldDecl [98] True False None Uint16T) [0, 0] 1"
  have infos: "namedFields (makeStructFields ?t) = [?f]" by code_simp
  have ok: "cache_ok (dataDecoder ?d)" by (simp add: newBudgetedDecoder_def NewWithoutStringCache_def)
  have ty: "has_type (StructV [NilV]) ?t" by simp
  have b: "budgetRemaining ?d \<noteq> 0" and m: "length (fi_name ?f) = 1" by code_simp+
  have r: "decodeFields ?d 2 0 ?t (StructV [NilV]) 3 (makeStructFields ?t) = Inr (StructV [PtrV (StructV [UintV 7])], 7, ?d)"
    by code_simp
  have depth: "3 < maximumDataStructureDepth" by (simp add: maximumDataStructureDepth_def)
  have short: "\<forall>f \<in> set (namedFields (makeStructFields ?t)). length (fi_name f) < 2 ^ 32 - 1"
    using m by (auto simp: infos)
  have few: "length (namedFields (makeStructFields ?t)) < 2 ^ 61" by (simp add: infos)
  have hints: "hints_ok (makeStructFields ?t) (replicate fieldOffsetCacheSlots None)" by (simp add: hints_ok_def)
  have alone: "\<forall>n h. hints_ok (makeStructFields ?t) h \<longrightarrow> hints_ok (makeStructFields ?t) h" by blast
  show ?thesis using r struct_by_name [OF ok b ty depth short few hints alone] by blast
qed

end
