(* ===== verification/ReflectionLimits.thy ===== *)
theory ReflectionLimits
  imports ReflectionStructs
begin

text \<open>
  What a value decoded into an \<open>any\<close> costs, child slots and payload bytes apart: the two limits of a
  decode (\<open>internal/decoder/reflection.go\<close>, \<open>newBudgetedDecoder\<close>) bound the children and the payload of
  the result separately.
\<close>

section \<open>Children and payload\<close>

text \<open>
  The children of a value: a unit for each element of a list and two for each entry of a map. Its
  payload: the bytes of its strings, keys and byte slices.
\<close>

fun children_of :: "Value \<Rightarrow> nat" where
  "children_of (ListV c vs) = length vs + sum_list (map children_of vs)"
| "children_of (MapV m) = 2 * length m + sum_list (map (\<lambda>x. children_of (snd x)) m)"
| "children_of (PtrV v) = children_of v"
| "children_of (StructV vs) = sum_list (map children_of vs)"
| "children_of _ = 0"

fun payload_of :: "Value \<Rightarrow> nat" where
  "payload_of (StringV s) = length s"
| "payload_of (BytesV c bs) = length bs"
| "payload_of (ListV c vs) = sum_list (map payload_of vs)"
| "payload_of (MapV m) = sum_list (map (\<lambda>x. length (fst x) + payload_of (snd x)) m)"
| "payload_of (PtrV v) = payload_of v"
| "payload_of (StructV vs) = sum_list (map payload_of vs)"
| "payload_of _ = 0"

lemma sum_list_split: "(\<And>x. x \<in> set xs \<Longrightarrow> f x = g x + h x) \<Longrightarrow> sum_list (map f xs) = sum_list (map g xs) + sum_list (map h xs)"
  for f g h :: "'a \<Rightarrow> nat"
  by (induction xs) auto

text \<open>Together they are the weight of the value.\<close>

lemma weight_of_parts: "weight_of v = children_of v + payload_of v"
proof (induction v rule: weight_of.induct)
  case (3 c vs)
  then show ?case by (simp add: sum_list_split [of vs weight_of children_of payload_of])
next
  case (4 m)
  have "sum_list (map (\<lambda>x. length (fst x) + weight_of (snd x)) m) =
      sum_list (map (\<lambda>x. children_of (snd x)) m) + sum_list (map (\<lambda>x. length (fst x) + payload_of (snd x)) m)"
    by (rule sum_list_split) (use 4 in force)
  then show ?case by (simp del: weight_MapV)
next
  case (6 vs)
  then show ?case by (simp add: sum_list_split [of vs weight_of children_of payload_of])
qed simp_all

definition entries_children :: "(gostring \<times> Value) list \<Rightarrow> nat" where
  "entries_children m = 2 * length m + sum_list (map (\<lambda>x. children_of (snd x)) m)"

definition entries_payload :: "(gostring \<times> Value) list \<Rightarrow> nat" where
  "entries_payload m = sum_list (map (\<lambda>x. length (fst x) + payload_of (snd x)) m)"

lemma update_costs:
  "entries_children (AList.update k v m) \<le> entries_children m + 2 + children_of v"
  "entries_payload (AList.update k v m) \<le> entries_payload m + length k + payload_of v"
  by (induction m) (auto simp: entries_children_def entries_payload_def)

section \<open>What each step spends\<close>

text \<open>The decoder keeps its data, its limits stay active, and \<open>c\<close> slots and \<open>p\<close> bytes are charged.\<close>

definition spends :: "ReflectionDecoder \<Rightarrow> ReflectionDecoder \<Rightarrow> nat \<Rightarrow> nat \<Rightarrow> bool" where
  "spends d d' c p \<longleftrightarrow> cache_ok (dataDecoder d') \<and> budgetRemaining d' \<noteq> 0 \<and>
     unat (budgetRemaining d') + c \<le> unat (budgetRemaining d) \<and>
     unat (payloadRemaining d') + p \<le> unat (payloadRemaining d)"

lemma spends_trans: "spends d d1 c p \<Longrightarrow> spends d1 d2 c' p' \<Longrightarrow> spends d d2 (c + c') (p + p')"
  by (auto simp: spends_def)

lemma spends_less: "spends d d' c p \<Longrightarrow> c' \<le> c \<Longrightarrow> p' \<le> p \<Longrightarrow> spends d d' c' p'"
  by (auto simp: spends_def)

lemma spends_refl: "cache_ok (dataDecoder d) \<Longrightarrow> budgetRemaining d \<noteq> 0 \<Longrightarrow> spends d d 0 0"
  by (simp add: spends_def)

text \<open>A step that leaves the slots alone charges bytes for all it costs.\<close>

lemma costs_payload:
  assumes "costs d d' p" and "budgetRemaining d' = budgetRemaining d" and "budgetRemaining d \<noteq> 0" and "cache_ok (dataDecoder d')"
  shows "spends d d' 0 p"
  using assms by (simp add: costs_def spends_def)

lemma reserveExactPayload_slots: "reserveExactPayload d sz = Inr d' \<Longrightarrow> budgetRemaining d' = budgetRemaining d"
  by (auto simp: reserveExactPayload_def split: if_splits)

lemma scalar_slots:
  assumes "decodeFromType d k sz off AnyT cur depth = Inr (v, e, d')" and "k \<notin> {KindMap, KindSlice, KindPointer}"
  shows "budgetRemaining d' = budgetRemaining d" and "children_of v = 0"
  using assms
  by (auto simp: decodeFromType.simps unmarshalBool_def unmarshalBytes_def unmarshalFloat32_def unmarshalFloat64_def
      unmarshalInt32_def unmarshalUint_def unmarshalString_def unmarshalUint128_def Let_def bindE_eq_Inr
      dest!: reserveExactPayload_slots split: if_splits prod.splits)

lemma scalar_spends:
  assumes r: "decodeFromType d k sz o1 AnyT cur depth = Inr (v, e, d')" and k: "k \<notin> {KindMap, KindSlice, KindPointer}"
    and h: "decodeCtrlData (dataDecoder d) off = Inr (k, sz, o1)" and ok: "cache_ok (dataDecoder d)" and b: "budgetRemaining d \<noteq> 0"
  shows "spends d d' (children_of v) (payload_of v)"
proof -
  have "good d AnyT v d'" using scalar_reads [OF h ok k, of AnyT cur depth] r by (simp add: reads_scalar_def)
  then have "costs d d' (payload_of v)" and "cache_ok (dataDecoder d')"
    using scalar_slots(2) [OF r k] keeps_reads(3) by (auto simp: good_def weight_of_parts)
  then show ?thesis using scalar_slots [OF r k] b by (simp add: costs_payload)
qed

lemma mapKey_spends:
  assumes r: "mapKey d off = Inr (key, e, d')" and ok: "cache_ok (dataDecoder d)" and b: "budgetRemaining d \<noteq> 0"
  shows "spends d d' 0 (length key)"
proof -
  have "budgetRemaining d' = budgetRemaining d"
    using r b by (auto simp: mapKey_def decodeBudgetedStringKey_def bindE_eq_Inr split_def Let_def
        dest!: reserveExactPayload_slots split: option.splits)
  moreover have "costs d d' (length key)" "cache_ok (dataDecoder d')"
    using mapKey_post [OF ok b, of off] keeps_reads(3) r by auto
  ultimately show ?thesis using b by (simp add: costs_payload)
qed

lemma reserved_spends:
  assumes "reserveActiveContainer d k sz = Inr d'" and "k = KindMap \<or> k = KindSlice" and "cache_ok (dataDecoder d)"
  shows "spends d d' (token_children k sz) 0"
  using reserveActiveContainer_Inr [OF assms(1,2)] assms(3) by (simp add: spends_def)

section \<open>The walk into an \<open>any\<close>\<close>

text \<open>What the values at a given depth cost.\<close>

definition any_spends :: "nat \<Rightarrow> bool" where
  "any_spends depth \<longleftrightarrow> (\<forall>d off v e d'. cache_ok (dataDecoder d) \<longrightarrow> budgetRemaining d \<noteq> 0 \<longrightarrow>
     decodeValue d off AnyT NilV depth = Inr (v, e, d') \<longrightarrow> spends d d' (children_of v) (payload_of v))"

lemma any_element:
  assumes "any_spends depth" and "element (fastElement d off AnyT) wrap (decodeValue d off AnyT NilV depth) = Inr (v, e, d')"
    and "cache_ok (dataDecoder d)" and "budgetRemaining d \<noteq> 0"
  shows "spends d d' (children_of v) (payload_of v)"
proof -
  have "decodeValue d off AnyT NilV depth = Inr (v, e, d')"
    using assms(2) by (auto simp: element_def fastElement_def split: option.splits if_splits sum.splits)
  then show ?thesis using assms(1,3,4) by (simp add: any_spends_def)
qed

lemma any_entries:
  assumes "any_spends depth"
  shows "decodeMap d n off AnyT depth m = Inr (m', e, d') \<Longrightarrow> cache_ok (dataDecoder d) \<Longrightarrow> budgetRemaining d \<noteq> 0 \<Longrightarrow>
    \<exists>c p. spends d d' c p \<and> entries_children m' \<le> entries_children m + 2 * n + c \<and> entries_payload m' \<le> entries_payload m + p"
proof (induction n arbitrary: d off m)
  case 0
  then show ?case using spends_refl by fastforce
next
  case (Suc n)
  obtain key o1 d1 v o2 d2 where k: "mapKey d off = Inr (key, o1, d1)"
    and v: "element (fastElement d1 o1 AnyT) (\<lambda>err. wrapErrorWithMapKey err key) (decodeValue d1 o1 AnyT NilV depth) = Inr (v, o2, d2)"
    and rest: "decodeMap d2 n o2 AnyT depth (AList.update key v m) = Inr (m', e, d')"
    using Suc.prems(1) by (auto simp: decodeMap.simps bindE_eq_Inr)
  have s1: "spends d d1 0 (length key)" by (rule mapKey_spends [OF k Suc.prems(2,3)])
  then have s2: "spends d1 d2 (children_of v) (payload_of v)"
    using any_element [OF assms v] by (simp add: spends_def)
  then obtain c p where "spends d2 d' c p" "entries_children m' \<le> entries_children (AList.update key v m) + 2 * n + c"
    "entries_payload m' \<le> entries_payload (AList.update key v m) + p"
    using Suc.IH [OF rest] by (auto simp: spends_def)
  moreover from this s1 s2 have "spends d d' (children_of v + c) (length key + payload_of v + p)"
    using spends_trans [OF s1 spends_trans [OF s2]] by (simp add: add.assoc)
  ultimately show ?case
    using update_costs [of key v m]
    by (intro exI [of _ "children_of v + c"] exI [of _ "length key + payload_of v + p"]) auto
qed

lemma any_elements:
  assumes "any_spends depth"
  shows "decodeSlice d n off AnyT depth vs = Inr (vs', e, d') \<Longrightarrow> cache_ok (dataDecoder d) \<Longrightarrow> budgetRemaining d \<noteq> 0 \<Longrightarrow>
    \<exists>c p. spends d d' c p \<and> length vs' = length vs + n \<and>
      sum_list (map children_of vs') = sum_list (map children_of vs) + c \<and>
      sum_list (map payload_of vs') = sum_list (map payload_of vs) + p"
proof (induction n arbitrary: d off vs)
  case 0
  then show ?case using spends_refl by fastforce
next
  case (Suc n)
  obtain v o2 d2 where v: "element (fastElement d off AnyT) (\<lambda>err. wrapErrorWithSliceIndex err (length vs))
      (decodeValue d off AnyT NilV depth) = Inr (v, o2, d2)"
    and rest: "decodeSlice d2 n o2 AnyT depth (vs @ [v]) = Inr (vs', e, d')"
    using Suc.prems(1) by (auto simp: decodeSlice.simps bindE_eq_Inr)
  have s: "spends d d2 (children_of v) (payload_of v)" by (rule any_element [OF assms v Suc.prems(2,3)])
  then obtain c p where "spends d2 d' c p" "length vs' = length (vs @ [v]) + n"
    "sum_list (map children_of vs') = sum_list (map children_of (vs @ [v])) + c"
    "sum_list (map payload_of vs') = sum_list (map payload_of (vs @ [v])) + p"
    using Suc.IH [OF rest] by (auto simp: spends_def)
  with spends_trans [OF s] show ?case
    by (intro exI [of _ "children_of v + c"] exI [of _ "payload_of v + p"]) simp
qed

lemma any_from_type:
  assumes any: "any_spends depth" and r: "decodeFromType d k sz o1 AnyT NilV depth = Inr (v, e, d')"
    and h: "decodeCtrlData (dataDecoder d) off = Inr (k, sz, o1)" and ok: "cache_ok (dataDecoder d)" and b: "budgetRemaining d \<noteq> 0"
  shows "spends d d' (children_of v) (payload_of v)"
proof -
  have active: "activated d = d" "deactivated d d2 = d2" for d2 using b by (simp_all add: activated_def deactivated_def)
  have start: "entries_of AnyT NilV = []" by (simp add: entries_of_def)
  consider "k = KindMap" | "k = KindSlice" | "k = KindPointer" | "k \<notin> {KindMap, KindSlice, KindPointer}" by blast
  then show ?thesis
  proof cases
    case 1
    then obtain d1 m where d1: "reserveActiveContainer d KindMap sz = Inr d1"
      and m: "decodeMap d1 (unat sz) o1 AnyT depth [] = Inr (m, e, d')" and v: "v = MapV m"
      using r by (auto simp: decodeFromType.simps unmarshalMap.simps active isStruct_def start bindE_eq_Inr)
    have s1: "spends d d1 (2 * unat sz) 0" using reserved_spends [OF d1 _ ok] by (simp add: token_children_def)
    then obtain c p where "spends d1 d' c p" "entries_children m \<le> 2 * unat sz + c" "entries_payload m \<le> p"
      using any_entries [OF any m] by (auto simp: spends_def entries_children_def entries_payload_def)
    with spends_trans [OF s1] have "spends d d' (entries_children m) (entries_payload m)"
      by (metis spends_less add_0)
    then show ?thesis by (simp add: v entries_children_def entries_payload_def)
  next
    case 2
    then obtain d1 vs c0 where d1: "reserveActiveContainer d KindSlice sz = Inr d1"
      and vs: "decodeSlice d1 (unat sz) o1 AnyT depth [] = Inr (vs, e, d')" and v: "v = ListV c0 vs"
      using r by (auto simp: decodeFromType.simps unmarshalSlice.simps active sliceOf_def bindE_eq_Inr)
    have s1: "spends d d1 (unat sz) 0" using reserved_spends [OF d1 _ ok] by (simp add: token_children_def)
    then obtain c p where "spends d1 d' c p" "length vs = unat sz" "sum_list (map children_of vs) = c"
      "sum_list (map payload_of vs) = p"
      using any_elements [OF any vs] by (auto simp: spends_def)
    with spends_trans [OF s1] show ?thesis by (simp add: v)
  next
    case 3
    then obtain p n where "decodeValue d p AnyT NilV depth = Inr (v, n, d')"
      using r by (auto simp: decodeFromType.simps unmarshalPointer.simps Let_def bindE_eq_Inr split: if_splits)
    then show ?thesis using any ok b by (simp add: any_spends_def)
  next
    case 4
    then show ?thesis using scalar_spends [OF r 4 h ok b] by simp
  qed
qed

lemma any_spends: "any_spends depth"
proof (induction "513 - depth" arbitrary: depth rule: less_induct)
  case less
  show ?case
    unfolding any_spends_def
  proof (intro allI impI)
    fix d off v e d'
    assume ok: "cache_ok (dataDecoder d)" "budgetRemaining d \<noteq> 0" and r: "decodeValue d off AnyT NilV depth = Inr (v, e, d')"
    from r obtain k sz o1 where "depth \<le> maximumDataStructureDepth"
      and h: "decodeCtrlData (dataDecoder d) off = Inr (k, sz, o1)"
      and v: "decodeFromType d k sz o1 AnyT NilV (depth + 1) = Inr (v, e, d')"
      by (auto simp: decodeValue.simps bindE_eq_Inr split: if_splits)
    then have "any_spends (depth + 1)" by (intro less) (simp add: maximumDataStructureDepth_def)
    from any_from_type [OF this v h ok] show "spends d d' (children_of v) (payload_of v)" .
  qed
qed

end
