(* ===== verification/ReflectionProofs.thy ===== *)
theory ReflectionProofs
  imports ReflectionDispatch ReflectionLimits
begin

text \<open>
  The entry points of decoding into Go values, and its main properties: results have the destination's
  type, end where the skip ends, are paid for out of the budgets, and nothing panics.
\<close>

section \<open>Entry points\<close>

lemma decodeAny_eq:
  "decodeAny d off cur depth = bindE (decodeCtrlData (dataDecoder d) off) (\<lambda>(k, sz, o1).
     bindE (decodeFromType d k sz o1 AnyT cur (depth + 1)) (\<lambda>(v, _, d). Inr (v, d)))"
  by (auto simp: decodeAny_def decodeFromType.simps unmarshalUint_def split_def bindE_assoc intro!: arg_cong [of _ _ "bindE _"] ext)

text \<open>The value an \<open>any\<close> holds does not matter: the one decoded replaces it.\<close>

lemma from_any:
  assumes "\<And>off. decodeValue d off AnyT cur depth = decodeValue d off AnyT NilV depth"
  shows "decodeFromType d k sz off AnyT cur depth = decodeFromType d k sz off AnyT NilV depth"
proof -
  have "needsArray AnyT cur n = needsArray AnyT NilV n" "newCap AnyT cur n = newCap AnyT NilV n"
    "entries_of AnyT cur = entries_of AnyT NilV" for n
    by (simp_all add: needsArray_def newCap_def entries_of_def)
  then show ?thesis
    using assms by (simp add: decodeFromType.simps unmarshalMap.simps unmarshalSlice.simps unmarshalPointer.simps isStruct_def cong: if_cong)
qed

lemma any_replaced: "decodeValue d off AnyT cur depth = decodeValue d off AnyT NilV depth"
proof (induction "513 - depth" arbitrary: off depth rule: less_induct)
  case less
  show ?case
  proof (cases "depth > maximumDataStructureDepth")
    case False
    then have "decodeValue d off AnyT cur (depth + 1) = decodeValue d off AnyT NilV (depth + 1)" for off
      by (intro less) (simp add: maximumDataStructureDepth_def)
    from from_any [OF this] show ?thesis by (simp add: decodeValue.simps [of d off AnyT])
  qed (simp add: decodeValue.simps)
qed

lemma decodeAny_reads:
  assumes ok: "cache_ok (dataDecoder d)"
  shows "returns (\<lambda>(v, d'). good d AnyT v d') (decodeAny d off cur depth)"
proof -
  have head: "no_panic (decodeCtrlData (dataDecoder d) off)" by (intro safe)
  show ?thesis
    unfolding decodeAny_eq
  proof (intro returns_bindE [OF returns_safe [OF head]], clarify, goal_cases)
    case (1 k sz o1)
    have same: "decodeFromType d k sz o1 AnyT cur (depth + 1) = decodeFromType d k sz o1 AnyT NilV (depth + 1)"
      by (rule from_any [OF any_replaced])
    show ?case
      unfolding same
      by (rule returns_bindE [OF decode_reads(2) [where t = AnyT and cur = NilV, unfolded reads_value_def, OF ok _ 1(1)]]) auto
  qed
qed

text \<open>Decoding into an empty \<open>any\<close> runs on a fresh budget when no limits are active.\<close>

lemma fresh_costs:
  assumes "costs (newBudgetedDecoder d) d' w"
  shows "w \<le> 32768 + 2097152"
proof -
  have "unat (payloadRemaining (newBudgetedDecoder d)) = 2097152"
    by (simp add: newBudgetedDecoder_def decodePayloadBudgetBytes_def)
  moreover have "unat (budgetRemaining d') > 0" and
    "unat (budgetRemaining d') + unat (payloadRemaining d') + w \<le> 32769 + unat (payloadRemaining (newBudgetedDecoder d))"
    using assms by (simp_all add: costs_def budget_size unat_gt_0)
  ultimately show ?thesis by linarith
qed

lemma decodeAnyWithBudget_reads:
  assumes ok: "cache_ok (dataDecoder d)"
  shows "returns (\<lambda>(v, d'). keeps d d' \<and> has_type v AnyT \<and> (budgetRemaining d = 0 \<longrightarrow> weight_of v \<le> 32768 + 2097152))
    (decodeAnyWithBudget d off cur depth)"
proof (cases "budgetRemaining d = 0")
  case True
  have same: "dataDecoder (newBudgetedDecoder d) = dataDecoder d" by (simp add: newBudgetedDecoder_def)
  have "returns (\<lambda>(v, b). good (newBudgetedDecoder d) AnyT v b) (decodeAny (newBudgetedDecoder d) off cur depth)"
    using decodeAny_reads [of "newBudgetedDecoder d"] ok by (simp add: same)
  then show ?thesis
    using True unfolding decodeAnyWithBudget_def
    by (auto simp: good_def keeps_def [of "newBudgetedDecoder d"] same dest!: fresh_costs elim!: returns_bindE)
next
  case False
  then show ?thesis
    using decodeAny_reads [OF ok, of off cur depth]
    by (auto simp: decodeAnyWithBudget_def good_def elim!: returns_weaken)
qed

text \<open>The two limits apart.\<close>

lemma decodeAnyWithBudget_limits:
  assumes "cache_ok (dataDecoder d)" and "budgetRemaining d = 0" and r: "decodeAnyWithBudget d off cur depth = Inr (v, d')"
  shows "children_of v \<le> 32768 \<and> payload_of v \<le> 2097152"
proof -
  let ?b = "newBudgetedDecoder d"
  have ok: "cache_ok (dataDecoder ?b)" and p: "unat (payloadRemaining ?b) = 2097152"
    using assms(1) by (simp_all add: newBudgetedDecoder_def decodePayloadBudgetBytes_def)
  from r obtain k sz o1 e b where h: "decodeCtrlData (dataDecoder ?b) off = Inr (k, sz, o1)"
    and v: "decodeFromType ?b k sz o1 AnyT cur (depth + 1) = Inr (v, e, b)"
    using assms(2) by (auto simp: decodeAnyWithBudget_def decodeAny_eq bindE_eq_Inr)
  have v': "decodeFromType ?b k sz o1 AnyT NilV (depth + 1) = Inr (v, e, b)"
    using v from_any [OF any_replaced, of ?b k sz o1 cur "depth + 1"] by simp
  have "spends ?b b (children_of v) (payload_of v)"
    by (rule any_from_type [OF any_spends v' h ok]) (simp add: budget_size)
  moreover from this have "unat (budgetRemaining b) > 0" by (simp add: spends_def unat_gt_0)
  ultimately show ?thesis by (simp add: spends_def budget_size p)
qed

lemma fast_root_scalar:
  assumes "tryFastDecodeTyped d off t = Some (v, e, d')" and "t \<in> {BoolT, Int32T, UintT, Uint16T, Uint32T, Uint64T, Float64T}"
  shows "has_type v t" and "d' = d"
proof -
  have s: "unat (ucast (a :: 16 word) :: uint) < 65536" "unat (ucast (b :: 32 word) :: uint) < 4294967296"
    "unat (ucast (a :: 16 word) :: uint) < 18446744073709551616" "unat (ucast (b :: 32 word) :: uint) < 18446744073709551616" for a b
    using unsigned_less [of a, where 'a = nat] unsigned_less [of b, where 'a = nat] by (simp_all add: unat_ucast_le)
  obtain k sz o1 where h: "decodeCtrlData (dataDecoder d) off = Inr (k, sz, o1)" by (rule fast_header [OF assms(1)])
  show "has_type v t" and "d' = d"
    using assms s unat_less_2_64 sint_range_32
    by (auto simp: tryFastDecodeTyped.simps [of d off t] h fastUint_def fast_eq_Some split: if_splits)
qed

lemma unbudgeted_string:
  assumes ok: "cache_ok (dataDecoder d)"
  shows "returns (\<lambda>q. \<forall>v d'. q = Some (v, d') \<longrightarrow> keeps d d' \<and> has_type v StringT) (tryFastDecodeUnbudgetedString d off)"
proof -
  let ?dd = "dataDecoder d"
  have rest: "decodeString ?dd sz o1 = Inr (val, e, dd') \<Longrightarrow> keeps d (d\<lparr>dataDecoder := dd'\<rparr>)"
    if "decodeCtrlData ?dd off = Inr (KindString, sz, o1)" for sz o1 val e dd'
    using decodeString_record [OF ok that] by (auto simp: keeps_def split: if_splits)
  have quick: "\<exists>s c. decodeCompactString ?dd (ucast (b AND 0x1f)) (off + 1) = Inr (s, ?dd\<lparr>stringCache := c\<rparr>) \<and>
      cache_ok (?dd\<lparr>stringCache := c\<rparr>)"
    if b: "index (buffer ?dd) off = Inr b" and k: "Kind_of_byte (drop_bit 5 b) = KindString"
      and sz: "(ucast (b AND 0x1f) :: uint) < 29" and fit: "hasBufferRange (glen (buffer ?dd)) (off + 1) (ucast (b AND 0x1f))" for b
  proof -
    have "decodeCtrlData ?dd off = Inr (KindString, ucast (b AND 0x1f), off + 1)"
      using decodeCtrlData_direct [OF b refl] k sz by simp
    then show ?thesis using compact_record [OF ok _ sz] fit unfolding hasBufferRange_iff by blast
  qed
  have slow: "\<forall>v d'. (case decodeCtrlData ?dd off of Inl _ \<Rightarrow> None
      | Inr (typeNum, sz, newOffset) \<Rightarrow>
          if typeNum = KindString then
            (case decodeString ?dd sz newOffset of Inl _ \<Rightarrow> None | Inr (val, _, dd) \<Rightarrow> Some (StringV val, d\<lparr>dataDecoder := dd\<rparr>))
          else None) = Some (v, d') \<longrightarrow> keeps d d' \<and> has_type v StringT"
    using rest by (auto split: sum.splits if_splits)
  show ?thesis
  proof (cases "off < glen (buffer ?dd)")
    case True
    then obtain b where b: "index (buffer ?dd) off = Inr b" by (simp add: index_ok)
    show ?thesis
      using slow quick [OF b] True
      by (auto simp: tryFastDecodeUnbudgetedString_def Let_def b)
  qed (use slow in \<open>simp add: tryFastDecodeUnbudgetedString_def Let_def\<close>)
qed

lemma unbudgeted_bytes:
  "tryFastDecodeUnbudgetedBytes d off = Some (v, d') \<Longrightarrow> d' = d \<and> has_type v (SliceT Uint8T)"
  by (auto simp: tryFastDecodeUnbudgetedBytes_def split: sum.splits if_splits)

lemma fastRoot_reads:
  assumes ok: "cache_ok (dataDecoder d)"
  shows "returns (\<lambda>q. \<forall>v d'. q = Some (v, d') \<longrightarrow> keeps d d' \<and> has_type v t) (fastRoot d off t)"
proof (cases "t = StringT \<or> t = SliceT Uint8T")
  case True
  then show ?thesis
    using unbudgeted_string [OF ok, of off] unbudgeted_bytes [of d off] keeps_refl [OF ok]
    by (auto simp: fastRoot_def)
next
  case False
  have "keeps d d' \<and> has_type v t"
    if "t \<in> {BoolT, Int32T, UintT, Uint16T, Uint32T, Uint64T, Float64T}" "tryFastDecodeTyped d off t = Some (v, e, d')" for v e d'
    using fast_root_scalar [OF that(2,1)] keeps_refl [OF ok] by simp
  then show ?thesis using False unfolding fastRoot_def by (simp del: tryFastDecodeTyped.simps) blast
qed

lemma Decode_reads:
  assumes ok: "cache_ok (dataDecoder d)" and cur: "has_type cur t"
  shows "returns (\<lambda>(v, d'). keeps d d' \<and> has_type v t) (Decode d off t cur)"
proof (cases "t = AnyT")
  case True
  then show ?thesis
    using decodeAnyWithBudget_reads [OF ok, of off cur 0]
    by (auto simp: Decode_def elim!: returns_weaken intro!: returns_mapErr)
next
  case False
  have general: "returns (\<lambda>(v, d'). keeps d d' \<and> has_type v t)
      (bindE (mapErr (\<lambda>err. wrapRootDecodeError err off) (decodeValue d off t cur 0)) (\<lambda>(v, _, d). Inr (v, d)))"
    by (rule returns_bindE [OF returns_mapErr [OF decode_reads(1) [OF ok cur, unfolded reads_value_def]]])
      (auto simp: gives_def)
  show ?thesis
    using False general by (auto simp: Decode_def intro!: returns_bindE [OF fastRoot_reads [OF ok]] split: option.split)
qed

section \<open>The properties\<close>

lemma decodeValue_outcome:
  assumes ok: "cache_ok (dataDecoder d)" and cur: "has_type cur t" and r: "decodeValue d off t cur depth = Inr (v, e, d')"
  shows "has_type v t" and "nextValueOffset (dataDecoder d) off 1 = Inr e"
    and "\<exists>w. costs d d' w \<and> weight_of v \<le> weight_of cur + w"
proof -
  have g: "gives d t (weight_of cur) v d'" and v: "values_at (dataDecoder d) 1 off e"
    using decode_reads(1) [OF ok cur, of off depth] r by (simp_all add: reads_value_def)
  then show "has_type v t" and "\<exists>w. costs d d' w \<and> weight_of v \<le> weight_of cur + w" by (simp_all add: gives_def)
  obtain x where "decodeCtrlData (dataDecoder d) off = Inr x"
    using r by (auto simp: decodeValue.simps bindE_eq_Inr split: if_splits)
  then have "unat off \<le> unat (glen (buffer (dataDecoder d)))"
    using decodeCtrlData_Inr(1,3) by (cases x) fastforce
  then show "nextValueOffset (dataDecoder d) off 1 = Inr e"
    using v nextValueOffset_complete [of "dataDecoder d" 1 off e] by simp
qed

text \<open>
  C3. Decoding a value, whatever the data, the type of the destination and the value it holds, never
  panics; when it succeeds the result is a value of the destination's type (each field of a struct of
  the field's type, at whatever depth it is embedded) and the offset returned is where the value ends:
  the one that skipping the value reaches.
\<close>

theorem decodeValue_sound:
  assumes "cache_ok (dataDecoder d)" and "has_type cur t"
  shows "no_panic (decodeValue d off t cur depth) \<and>
    (\<forall>v e d'. decodeValue d off t cur depth = Inr (v, e, d') \<longrightarrow>
       has_type v t \<and> nextValueOffset (dataDecoder d) off 1 = Inr e)"
  using decode_reads(1) [OF assms, of off depth] decodeValue_outcome [OF assms]
  by (simp add: reads_value_def returns_def)

text \<open>A map of the type keeps the entry it has and gains one.\<close>

theorem decodeValue_sound_witness:
  "has_type (MapV [([98], UintV 1), ([97], UintV 7)]) (MapT Uint16T)"
proof -
  let ?d = "NewWithoutStringCache [0xE1, 0x41, 0x61, 0xA1, 7]"
  have ok: "cache_ok (dataDecoder ?d)" by (simp add: NewWithoutStringCache_def)
  have cur: "has_type (MapV [([98], UintV 1)]) (MapT Uint16T)" by simp
  have "decodeValue ?d 0 (MapT Uint16T) (MapV [([98], UintV 1)]) 0 = Inr (MapV [([98], UintV 1), ([97], UintV 7)], 5, ?d)"
    by code_simp
  then show ?thesis using decodeValue_sound [OF ok cur, of 0 0] by blast
qed

text \<open>
  C7. A decoded value is paid for: under active limits, the child slots and payload bytes left after
  decoding and the size of the value (a unit for each element, key and entry of a container and each
  byte of a string, key or byte slice) add up to no more than what was left before and the size of the
  value the destination held.
\<close>

theorem decodeValue_paid:
  assumes "cache_ok (dataDecoder d)" and "has_type cur t" and "budgetRemaining d \<noteq> 0"
    and "decodeValue d off t cur depth = Inr (v, e, d')"
  shows "unat (budgetRemaining d') + unat (payloadRemaining d') + weight_of v \<le>
      unat (budgetRemaining d) + unat (payloadRemaining d) + weight_of cur \<and> budgetRemaining d' \<noteq> 0"
  using decodeValue_outcome(3) [OF assms(1,2,4)] assms(3) by (auto simp: costs_def)

theorem decodeValue_paid_witness:
  "unat (budgetRemaining \<lparr>dataDecoder = NewDataDecoderWithoutStringCache [0xE1, 0x41, 0x61, 0xA1, 7],
     budgetRemaining = 1, payloadRemaining = 9\<rparr>) + 9 + weight_of (MapV [([97], UintV 7)]) \<le> 13"
proof -
  let ?d = "\<lambda>b p. \<lparr>dataDecoder = NewDataDecoderWithoutStringCache [0xE1, 0x41, 0x61, 0xA1, 7],
     budgetRemaining = b, payloadRemaining = p\<rparr>"
  have ok: "cache_ok (dataDecoder (?d 3 10))" and cur: "has_type NilV (MapT Uint16T)" by simp_all
  have "decodeValue (?d 3 10) 0 (MapT Uint16T) NilV 0 = Inr (MapV [([97], UintV 7)], 5, ?d 1 9)" by code_simp
  then show ?thesis using decodeValue_paid [OF ok cur, of 0 0 _ 5 "?d 1 9"] by simp
qed

text \<open>
  C4. \<open>Decode\<close>, by its shortcut for the root's type or in general, never panics, and stores a value
  of the type of its destination; decoded into an \<open>any\<close> the value has at most 32,768 children (the
  elements of its lists and, twice, the entries of its maps, at every depth) and at most 2,097,152
  bytes of payload, however large the database and its pointers make it.
\<close>

theorem Decode_bounded:
  assumes "cache_ok (dataDecoder d)" and "budgetRemaining d = 0" and "has_type cur t"
  shows "no_panic (Decode d off t cur) \<and>
    (\<forall>v d'. Decode d off t cur = Inr (v, d') \<longrightarrow>
       has_type v t \<and> (t = AnyT \<longrightarrow> children_of v \<le> 32768 \<and> payload_of v \<le> 2097152))"
proof -
  have "returns (\<lambda>(v, d'). has_type v t) (Decode d off t cur)"
    using Decode_reads [OF assms(1,3), of off] by (auto elim: returns_weaken)
  moreover have "children_of v \<le> 32768 \<and> payload_of v \<le> 2097152" if "Decode d off AnyT cur = Inr (v, d')" for v d'
  proof -
    from that have "decodeAnyWithBudget d off cur 0 = Inr (v, d')"
      by (cases "decodeAnyWithBudget d off cur 0") (simp_all add: Decode_def)
    then show ?thesis by (rule decodeAnyWithBudget_limits [OF assms(1,2)])
  qed
  ultimately show ?thesis by (auto simp: returns_def)
qed

theorem Decode_bounded_witness:
  "has_type (MapV [([97], UintV 7)]) AnyT \<and> children_of (MapV [([97], UintV 7)]) \<le> 32768 \<and>
   payload_of (MapV [([97], UintV 7)]) \<le> 2097152"
proof -
  let ?d = "NewWithoutStringCache [0xE1, 0x41, 0x61, 0xA1, 7]"
  have ok: "cache_ok (dataDecoder ?d)" "budgetRemaining ?d = 0" by (simp_all add: NewWithoutStringCache_def)
  have cur: "has_type NilV AnyT" by simp
  have "Decode ?d 0 AnyT NilV = Inr (MapV [([97], UintV 7)], ?d)" by code_simp
  then show ?thesis using Decode_bounded [OF ok cur, of 0] by blast
qed

text \<open>A 64-bit word from \<open>2 ^ 63\<close> up, as a signed number.\<close>

lemma sint_high:
  assumes "2 ^ 63 \<le> unat (n :: uint)"
  shows "sint n = int (unat n) - 2 ^ 64" and "int (unat n) < 2 ^ 64"
proof -
  have "int (2 ^ 63) \<le> int (unat n)" using assms by (simp only: of_nat_le_iff)
  then have n: "2 ^ 63 \<le> uint n" "uint n < 2 ^ 64" using unsigned_less [of n, where 'a = int] by simp_all
  then show "int (unat n) < 2 ^ 64" by simp
  have "sint n = (uint n + 2 ^ 63) mod 2 ^ 64 - 2 ^ 63"
    by (simp add: sint_uint signed_take_bit_eq_take_bit_shift take_bit_eq_mod)
  also have "uint n + 2 ^ 63 = (uint n - 2 ^ 63) + 2 ^ 64" by simp
  also have "((uint n - 2 ^ 63) + 2 ^ 64) mod 2 ^ 64 = (uint n - 2 ^ 63) mod (2 ^ 64)" by (rule mod_add_self2)
  also have "\<dots> = uint n - 2 ^ 63" using n by (simp add: mod_pos_pos_trivial)
  finally show "sint n = int (unat n) - 2 ^ 64" by simp
qed

text \<open>
  C39. Unsigned numbers wrap into signed destinations: a \<open>uint64\<close> \<open>n\<close> of the database from \<open>2 ^ 63\<close> up
  is converted to \<open>int64\<close> before the overflow test. So it is stored, with no error, as the negative
  number \<open>n - 2 ^ 64\<close> exactly when that fits the width of the destination (always in an \<open>int\<close> or an
  \<open>int64\<close>; for \<open>2 ^ 64 - 1\<close>, -1 even in an \<open>int8\<close>), and refused otherwise (\<open>2 ^ 63\<close> in an \<open>int8\<close>).
\<close>

theorem unsigned_wraps_into_signed:
  assumes "decodeCtrlData (dataDecoder d) off = Inr (KindUint64, sz, dataOffset)"
    and "decodeUint64 (dataDecoder d) sz dataOffset = Inr (n, e)" and "2 ^ 63 \<le> unat n"
    and "int_width t = Some w" and "depth \<le> maximumDataStructureDepth"
  shows "int (unat n) - 2 ^ 64 < 0 \<and>
    decodeValue d off t cur depth =
      (if - (2 ^ (w - 1)) \<le> int (unat n) - 2 ^ 64 then Inr (IntV (int (unat n) - 2 ^ 64), e, d)
       else Inl (UnmarshalTypeError ''uint64''))"
proof -
  have t: "unwrapPtrType t = t" "allocated t v = v" "t \<notin> {Uint8T, Uint16T, Uint32T, Uint64T}" for v
    using assms(4) by (cases t; simp)+
  have neg: "sint n = int (unat n) - 2 ^ 64" and lt: "int (unat n) < 2 ^ 64" by (rule sint_high [OF assms(3)])+
  have "(0 :: int) < 2 ^ (w - 1)" by simp
  then have fits: "OverflowInt w (sint n) \<longleftrightarrow> \<not> - (2 ^ (w - 1)) \<le> int (unat n) - 2 ^ 64"
    unfolding OverflowInt_def neg using lt by linarith
  have "unmarshalUint d sz dataOffset t 64 =
      (if OverflowInt w (sint n) then Inl (UnmarshalTypeError ''uint64'') else Inr (IntV (sint n), e, d))"
    using assms(2,4) t(3) by (simp add: unmarshalUint_def Let_def)
  then show ?thesis
    using lt fits by (simp add: decodeValue_header [OF assms(1,5)] decodeFromType.simps t neg)
qed

theorem unsigned_wraps_into_signed_witness:
  "decodeValue (NewWithoutStringCache [0x08, 0x02, 0xFF, 0xFF, 0xFF, 0xFF, 0xFF, 0xFF, 0xFF, 0xFF]) 0 Int8T (IntV 0) 0 =
     Inr (IntV (-1), 10, NewWithoutStringCache [0x08, 0x02, 0xFF, 0xFF, 0xFF, 0xFF, 0xFF, 0xFF, 0xFF, 0xFF])"
proof -
  let ?d = "NewWithoutStringCache [0x08, 0x02, 0xFF, 0xFF, 0xFF, 0xFF, 0xFF, 0xFF, 0xFF, 0xFF]"
  have "decodeCtrlData (dataDecoder ?d) 0 = Inr (KindUint64, 8, 2)"
    and "decodeUint64 (dataDecoder ?d) 8 2 = Inr (0xFFFFFFFFFFFFFFFF, 10)" by code_simp+
  from unsigned_wraps_into_signed [OF this, of Int8T 8 0 "IntV 0"] show ?thesis
    by (simp add: maximumDataStructureDepth_def)
qed

end
