(* ===== verification/ReflectionCache.thy ===== *)
theory ReflectionCache
  imports ReflectionProofs
begin

text \<open>
  Decoding into Go values does not depend on the string cache: a decoder whose cache is consistent
  returns the values, offsets, errors and budgets of the same decoder without a cache.
\<close>

section \<open>Runs with and without the cache\<close>

definition uncached :: "ReflectionDecoder \<Rightarrow> ReflectionDecoder" where
  "uncached d = d\<lparr>dataDecoder := (dataDecoder d)\<lparr>stringCache := None\<rparr>\<rparr>"

definition sees :: "ReflectionDecoder \<Rightarrow> ReflectionDecoder \<Rightarrow> bool" where
  "sees d d' \<longleftrightarrow> cache_ok (dataDecoder d) \<and> d' = uncached d"

fun same_offset :: "uint \<times> ReflectionDecoder \<Rightarrow> uint \<times> ReflectionDecoder \<Rightarrow> bool" where
  "same_offset (e, d) (e', d') \<longleftrightarrow> e' = e \<and> sees d d'"

fun same_value :: "'a \<times> uint \<times> ReflectionDecoder \<Rightarrow> 'a \<times> uint \<times> ReflectionDecoder \<Rightarrow> bool" where
  "same_value (v, e, d) (v', e', d') \<longleftrightarrow> v' = v \<and> e' = e \<and> sees d d'"

text \<open>The same error, or related results.\<close>

definition mirrors :: "('a \<Rightarrow> 'b \<Rightarrow> bool) \<Rightarrow> 'a res \<Rightarrow> 'b res \<Rightarrow> bool" where
  "mirrors R r r' \<longleftrightarrow> (case r of Inl e \<Rightarrow> r' = Inl e | Inr x \<Rightarrow> (\<exists>y. r' = Inr y \<and> R x y))"

lemma mirrors_simps [simp]:
  "mirrors R (Inl e) r' \<longleftrightarrow> r' = Inl e" "mirrors R (Inr x) (Inr y) \<longleftrightarrow> R x y" "\<not> mirrors R (Inr x) (Inl e)"
  by (auto simp: mirrors_def)

lemma mirrors_bind:
  assumes "mirrors R m m'" and "\<And>x y. m = Inr x \<Longrightarrow> m' = Inr y \<Longrightarrow> R x y \<Longrightarrow> mirrors S (f x) (f' y)"
  shows "mirrors S (bindE m f) (bindE m' f')"
proof (cases m)
  case (Inr x)
  then obtain y where "m' = Inr y" "R x y" using assms(1) by (auto simp: mirrors_def)
  then show ?thesis using assms(2) Inr by simp
qed (use assms(1) in simp)

lemma mirrors_same:
  assumes "m' = m" and "\<And>x. m = Inr x \<Longrightarrow> mirrors S (f x) (f' x)"
  shows "mirrors S (bindE m f) (bindE m' f')"
  using assms by (cases m) auto

lemma mirrors_mapErr: "mirrors R m m' \<Longrightarrow> mirrors R (mapErr w m) (mapErr w m')"
  by (cases m) (auto simp: mirrors_def)

lemma mirrors_if: "(b \<Longrightarrow> mirrors R x x') \<Longrightarrow> (\<not> b \<Longrightarrow> mirrors R y y') \<Longrightarrow> mirrors R (if b then x else y) (if b then x' else y')"
  by simp

lemma uncached_simps [simp]:
  "dataDecoder (uncached d) = (dataDecoder d)\<lparr>stringCache := None\<rparr>"
  "budgetRemaining (uncached d) = budgetRemaining d" "payloadRemaining (uncached d) = payloadRemaining d"
  "budgetRemaining_update f (uncached d) = uncached (budgetRemaining_update f d)"
  "payloadRemaining_update f (uncached d) = uncached (payloadRemaining_update f d)"
  "(uncached d)\<lparr>dataDecoder := dd\<lparr>stringCache := None\<rparr>\<rparr> = uncached (d\<lparr>dataDecoder := dd\<rparr>)"
  "newBudgetedDecoder (uncached d) = uncached (newBudgetedDecoder d)"
  "activated (uncached d) = uncached (activated d)"
  by (simp_all add: uncached_def newBudgetedDecoder_def activated_def)

lemma uncached_buffer: "buffer (dataDecoder (uncached d)) = buffer (dataDecoder d)"
  by simp

lemma uncached_interned [simp]: "uncached (d\<lparr>dataDecoder := (dataDecoder d)\<lparr>stringCache := c\<rparr>\<rparr>) = uncached d"
  by (simp add: uncached_def)

lemma sees_uncached [simp]: "sees d (uncached d) \<longleftrightarrow> cache_ok (dataDecoder d)"
  by (simp add: sees_def)

lemma no_cache [simp]: "cache_ok (d\<lparr>stringCache := None\<rparr>)"
  by (simp add: cache_ok_def opt_consistent_def)

section \<open>What does not read the cache\<close>

lemma scalars_cache [simp]:
  "decodeBool (stringCache_update f d) = decodeBool d" "decodeBytes (stringCache_update f d) = decodeBytes d"
  "decodeFloat32 (stringCache_update f d) = decodeFloat32 d" "decodeFloat64 (stringCache_update f d) = decodeFloat64 d"
  "decodeInt32 (stringCache_update f d) = decodeInt32 d" "decodeUint16 (stringCache_update f d) = decodeUint16 d"
  "decodeUint32 (stringCache_update f d) = decodeUint32 d" "decodeUint64 (stringCache_update f d) = decodeUint64 d"
  "decodeUint128 (stringCache_update f d) = decodeUint128 d"
  by (simp_all add: fun_eq_iff decodeBool_def decodeBytes_def decodeFloat32_def decodeFloat64_def decodeInt32_def
      decodeUint16_def decodeUint32_def decodeUint64_def decodeUint128_def Let_def cong: if_cong)

lemma validateContainerSize_uncached [simp]: "validateContainerSize (uncached d) k sz off depth = validateContainerSize d k sz off depth"
  by (simp add: validateContainerSize_def Let_def cong: if_cong)

lemma pointedKind_uncached [simp]: "pointedKind (uncached d) p = pointedKind d p"
  by (simp add: pointedKind_def Let_def cong: if_cong)

lemma container_uncached [simp]: "structFieldValueIsInlineContainer (uncached d) off = structFieldValueIsInlineContainer d off"
  by (simp add: structFieldValueIsInlineContainer_def Let_def cong: if_cong)

lemma nestedMap_uncached [simp]: "nestedMap (uncached d) off depth = nestedMap d off depth"
  by (simp add: nestedMap_def cong: if_cong)

lemma CheckMaxSize_uncached [simp]: "CheckMaxSize (ownHeap (uncached d)) c expected maximum = CheckMaxSize (ownHeap d) c expected maximum"
  by (simp add: CheckMaxSize_def ownHeap_def Let_def cong: if_cong option.case_cong)

lemma checkPayloadLimit_uncached [simp]:
  "checkPayloadLimit (uncached d) off expected maximum = checkPayloadLimit d off expected maximum"
  by (simp add: checkPayloadLimit_def cong: if_cong)

lemma budgetHeader_cache [simp]: "budgetHeader (stringCache_update f d) off = budgetHeader d off"
  by (simp add: budgetHeader_def Let_def cong: if_cong)

lemma decodeKey_cache [simp]: "decodeKey (stringCache_update f d) off = decodeKey d off"
  by (simp add: decodeKey_def)

section \<open>Budgets\<close>

lemma reserve_mirrors:
  assumes "cache_ok (dataDecoder d)"
  shows "mirrors sees (reserveActiveContainer d k sz) (reserveActiveContainer (uncached d) k sz)"
    and "mirrors sees (reserveExactPayload d sz) (reserveExactPayload (uncached d) sz)"
  using assms by (simp_all add: reserveActiveContainer_def reserveExactPayload_def)

lemma budgetStep_mirrors:
  assumes "cache_ok (dataDecoder d)"
  shows "mirrors same_value (budgetStep d k sz off n) (budgetStep (uncached d) k sz off n)"
proof -
  have skip [simp]: "skipRange ((dataDecoder d)\<lparr>stringCache := None\<rparr>) = skipRange (dataDecoder d)"
    by (simp add: fun_eq_iff skipRange_def)
  have map: "mirrors same_value
      (bindE (reserveActiveContainer d k' sz) (\<lambda>d. if P then Inl e else Inr (a, m, d)))
      (bindE (reserveActiveContainer (uncached d) k' sz) (\<lambda>d. if P then Inl e else Inr (a, m, d)))" for k' P e a m
    by (rule mirrors_bind [OF reserve_mirrors(1) [OF assms]]) (auto simp: sees_def)
  have plain: "mirrors same_value (bindE q (\<lambda>a. Inr (a, n, d))) (bindE q (\<lambda>a. Inr (a, n, uncached d)))" for q
    by (rule mirrors_same) (use assms in simp_all)
  show ?thesis
    unfolding budgetStep_def Let_def
    by (intro mirrors_if map) (use plain assms in simp_all)
qed

lemma budgeted_mirrors:
  "cache_ok (dataDecoder d) \<Longrightarrow> mirrors same_offset (nextValueOffsetBudgetedSlow d off n) (nextValueOffsetBudgetedSlow (uncached d) off n)"
proof (induction d off n rule: nextValueOffsetBudgetedSlow.induct)
  case (1 d off n)
  show ?case
  proof (cases "n > 0 \<and> \<not> off \<ge> glen (buffer (dataDecoder d))")
    case True
    show ?thesis
    proof (cases "budgetHeader (dataDecoder d) off")
      case (Inr h)
      obtain k sz o1 where h: "h = (k, sz, o1)" by (cases h)
      have "mirrors same_offset
          (bindE (budgetStep d k sz o1 n) (\<lambda>(o2, n, d). nextValueOffsetBudgetedSlow d o2 (n - 1)))
          (bindE (budgetStep (uncached d) k sz o1 n) (\<lambda>(o2, n, d). nextValueOffsetBudgetedSlow d o2 (n - 1)))"
      proof (rule mirrors_bind [OF budgetStep_mirrors [OF 1(2)]], clarsimp, goal_cases)
        case (1 o2 n2 d2 d2')
        then show ?case using "1.IH" [OF _ _ Inr [unfolded h] refl refl 1(1) refl refl] True by (simp add: sees_def)
      qed
      then show ?thesis
        using True by (simp add: nextValueOffsetBudgetedSlow.simps [of d off n] nextValueOffsetBudgetedSlow.simps [of "uncached d" off n] Inr h)
    qed (use True in \<open>simp add: nextValueOffsetBudgetedSlow.simps [of d off n] nextValueOffsetBudgetedSlow.simps [of "uncached d" off n]\<close>)
  next
    case False
    then show ?thesis
      using 1(2) by (auto simp: nextValueOffsetBudgetedSlow.simps [of d off n] nextValueOffsetBudgetedSlow.simps [of "uncached d" off n])
  qed
qed

lemma skipField_mirrors:
  assumes "cache_ok (dataDecoder d)"
  shows "mirrors same_offset (skipField d off) (skipField (uncached d) off)"
  unfolding skipField_def container_uncached
proof (intro mirrors_same [OF refl], goal_cases)
  case (1 container)
  show ?case
  proof (cases container)
    case True
    then show ?thesis using budgeted_mirrors [OF assms] by simp
  next
    case False
    then show ?thesis using assms by (auto intro!: mirrors_same)
  qed
qed

lemma skipStructFields_mirrors:
  "cache_ok (dataDecoder d) \<Longrightarrow> mirrors same_offset (skipStructFields d n off) (skipStructFields (uncached d) n off)"
proof (induction n arbitrary: d off)
  case (Suc n)
  show ?case
    unfolding skipStructFields.simps
  proof (intro mirrors_same, simp, clarify, intro mirrors_bind [OF skipField_mirrors [OF Suc.prems]], clarify, goal_cases)
    case (1 key o1 o2 d2 o2' d2')
    then show ?case using Suc.IH [of d2] by (simp add: sees_def)
  qed
qed simp

section \<open>Strings\<close>

lemma decodeString_mirrors:
  assumes "cache_ok (dataDecoder d)" and "decodeCtrlData (dataDecoder d) h = Inr (KindString, sz, off)"
  shows "mirrors (\<lambda>(s, e, dd) (s', e', dd'). s' = s \<and> e' = e \<and> dd' = dd\<lparr>stringCache := None\<rparr> \<and> cache_ok dd)
    (decodeString (dataDecoder d) sz off) (decodeString ((dataDecoder d)\<lparr>stringCache := None\<rparr>) sz off)"
  using decodeString_record [OF assms] decodeString_record [of "(dataDecoder d)\<lparr>stringCache := None\<rparr>" h sz off] assms(2)
  by (auto simp: decodeString_def [of "(dataDecoder d)\<lparr>stringCache := None\<rparr>"] bindE_eq_Inr Let_def split: if_splits)

lemma decodeCompactString_mirrors:
  assumes "cache_ok (dataDecoder d)" and "decodeCtrlData (dataDecoder d) h = Inr (KindString, sz, off)" and "sz < 29"
    and "unat off + unat sz \<le> unat (glen (buffer (dataDecoder d)))"
  shows "mirrors (\<lambda>(s, dd) (s', dd'). s' = s \<and> dd' = dd\<lparr>stringCache := None\<rparr> \<and> cache_ok dd)
    (decodeCompactString (dataDecoder d) sz off) (decodeCompactString ((dataDecoder d)\<lparr>stringCache := None\<rparr>) sz off)"
  using compact_record [OF assms] compact_record [of "(dataDecoder d)\<lparr>stringCache := None\<rparr>" h sz off] assms(2,3,4)
  by (auto simp: decodeCompactString_def [of "(dataDecoder d)\<lparr>stringCache := None\<rparr>"] decodeStringBytes_def internOpt_def bindE_eq_Inr)

lemma stored_mirrors:
  assumes "mirrors (\<lambda>(s, e, dd) (s', e', dd'). s' = s \<and> e' = e \<and> dd' = dd\<lparr>stringCache := None\<rparr> \<and> cache_ok dd) m m'"
    and "\<And>s. f' s = f s"
  shows "mirrors same_value (bindE m (\<lambda>(s, e, dd). Inr (f s, e, d\<lparr>dataDecoder := dd\<rparr>)))
    (bindE m' (\<lambda>(s, e, dd). Inr (f' s, e, (uncached d)\<lparr>dataDecoder := dd\<rparr>)))"
  by (rule mirrors_bind [OF assms(1)]) (auto simp: assms(2))

lemma stored_compact_mirrors:
  assumes "mirrors (\<lambda>(s, dd) (s', dd'). s' = s \<and> dd' = dd\<lparr>stringCache := None\<rparr> \<and> cache_ok dd) m m'"
  shows "mirrors same_value (bindE m (\<lambda>(s, dd). Inr (f s, e, d\<lparr>dataDecoder := dd\<rparr>)))
    (bindE m' (\<lambda>(s, dd). Inr (f s, e, (uncached d)\<lparr>dataDecoder := dd\<rparr>)))"
  by (rule mirrors_bind [OF assms]) auto

lemma reserved_same: "reserveExactPayload d sz = Inr d' \<Longrightarrow> dataDecoder d' = dataDecoder d"
  by (auto simp: reserveExactPayload_def split: if_splits)

text \<open>Charging the payload of a string and copying it.\<close>

lemma charged_compact_mirrors:
  assumes ok: "cache_ok (dataDecoder d)" and h: "decodeCtrlData (dataDecoder d) h = Inr (KindString, sz, off)"
    and sz: "sz < 29" and fits: "unat off + unat sz \<le> unat (glen (buffer (dataDecoder d)))"
  shows "mirrors same_value
    (bindE (reserveExactPayload d sz) (\<lambda>d. bindE (decodeCompactString (dataDecoder d) sz off) (\<lambda>(s, dd). Inr (f s, e, d\<lparr>dataDecoder := dd\<rparr>))))
    (bindE (reserveExactPayload (uncached d) sz) (\<lambda>d. bindE (decodeCompactString (dataDecoder d) sz off) (\<lambda>(s, dd). Inr (f s, e, d\<lparr>dataDecoder := dd\<rparr>))))"
proof (rule mirrors_bind [OF reserve_mirrors(2) [OF ok]], goal_cases)
  case (1 d1 d1')
  note same = reserved_same [OF 1(1)]
  have "d1' = uncached d1" using 1(3) by (simp add: sees_def)
  then show ?case
    using stored_compact_mirrors [OF decodeCompactString_mirrors [of d1 h sz off], of f e d1] ok h sz fits by (simp add: same)
qed

lemma charged_string_mirrors:
  assumes ok: "cache_ok (dataDecoder d)" and h: "decodeCtrlData (dataDecoder d) h = Inr (KindString, sz, off)"
  shows "mirrors same_value
    (bindE (if P then reserveExactPayload d sz else Inr d) (\<lambda>d. bindE (decodeString (dataDecoder d) sz off) (\<lambda>(s, e, dd). Inr (f s, e, d\<lparr>dataDecoder := dd\<rparr>))))
    (bindE (if P then reserveExactPayload (uncached d) sz else Inr (uncached d)) (\<lambda>d. bindE (decodeString (dataDecoder d) sz off) (\<lambda>(s, e, dd). Inr (f s, e, d\<lparr>dataDecoder := dd\<rparr>))))"
proof (rule mirrors_bind [OF mirrors_if [where R = sees]], goal_cases)
  case 1
  show ?case by (rule reserve_mirrors(2) [OF ok])
next
  case 2
  show ?case using ok by simp
next
  case (3 d1 d1')
  have same: "dataDecoder d1 = dataDecoder d" using 3(1) reserved_same by (auto split: if_splits)
  have "d1' = uncached d1" using 3(3) by (simp add: sees_def)
  then show ?case
    using stored_mirrors [OF decodeString_mirrors [of d1 h sz off], of f f d1] ok h by (simp add: same)
qed

lemma unmarshalString_mirrors:
  assumes ok: "cache_ok (dataDecoder d)" and h: "decodeCtrlData (dataDecoder d) h = Inr (KindString, sz, off)"
  shows "mirrors same_value (unmarshalString d sz off t) (unmarshalString (uncached d) sz off t)"
proof -
  let ?in = "hasBufferRange (glen (buffer (dataDecoder d))) off sz"
  have "mirrors same_value
      (if budgetRemaining d \<noteq> 0 \<and> sz < 29 \<and> off > 0 \<and> ?in then
         bindE (reserveExactPayload d sz) (\<lambda>d. bindE (decodeCompactString (dataDecoder d) sz off) (\<lambda>(s, dd). Inr (s, off + sz, d\<lparr>dataDecoder := dd\<rparr>)))
       else bindE (if budgetRemaining d \<noteq> 0 \<and> ?in then reserveExactPayload d sz else Inr d) (\<lambda>d.
         bindE (decodeString (dataDecoder d) sz off) (\<lambda>(s, e, dd). Inr (s, e, d\<lparr>dataDecoder := dd\<rparr>))))
      (if budgetRemaining d \<noteq> 0 \<and> sz < 29 \<and> off > 0 \<and> ?in then
         bindE (reserveExactPayload (uncached d) sz) (\<lambda>d. bindE (decodeCompactString (dataDecoder d) sz off) (\<lambda>(s, dd). Inr (s, off + sz, d\<lparr>dataDecoder := dd\<rparr>)))
       else bindE (if budgetRemaining d \<noteq> 0 \<and> ?in then reserveExactPayload (uncached d) sz else Inr (uncached d)) (\<lambda>d.
         bindE (decodeString (dataDecoder d) sz off) (\<lambda>(s, e, dd). Inr (s, e, d\<lparr>dataDecoder := dd\<rparr>))))"
    by (intro mirrors_if charged_compact_mirrors [OF ok h] charged_string_mirrors [OF ok h]) (simp_all add: hasBufferRange_iff)
  then show ?thesis
    unfolding unmarshalString_def Let_def uncached_buffer uncached_simps(2)
    by (rule mirrors_bind) auto
qed

lemma unmarshalBytes_mirrors:
  assumes ok: "cache_ok (dataDecoder d)"
  shows "mirrors same_value (unmarshalBytes d sz off t) (unmarshalBytes (uncached d) sz off t)"
  unfolding unmarshalBytes_def uncached_buffer uncached_simps(2)
proof (rule mirrors_bind [OF mirrors_if [where R = sees]], goal_cases)
  case 1
  show ?case by (rule reserve_mirrors(2) [OF ok])
next
  case 2
  show ?case using ok by simp
next
  case (3 d1 d1')
  have "dataDecoder d1 = dataDecoder d" using 3(1) reserved_same by (auto split: if_splits)
  then show ?case using 3(3) ok by (auto simp: sees_def intro!: mirrors_same)
qed

lemma scalar_mirrors:
  assumes ok: "cache_ok (dataDecoder d)" and h: "decodeCtrlData (dataDecoder d) h = Inr (k, sz, off)"
    and k: "k \<notin> {KindMap, KindSlice, KindPointer}"
  shows "mirrors same_value (decodeFromType d k sz off t cur depth) (decodeFromType (uncached d) k sz off t cur depth)"
  using k unmarshalString_mirrors [OF ok, of h sz off t] unmarshalBytes_mirrors [OF ok, of sz off t] h ok
  by (cases k) (auto simp: decodeFromType.simps unmarshalBool_def unmarshalFloat32_def unmarshalFloat64_def unmarshalInt32_def
      unmarshalUint_def unmarshalUint128_def Let_def intro!: mirrors_same split: option.split)

section \<open>Elements and keys\<close>

lemma fast_mirrors_bool:
  "cache_ok (dataDecoder d) \<Longrightarrow> rel_option same_value (fast r f d) (fast r f (uncached d))"
  by (auto simp: fast_def split: sum.split)

lemma fastUint_mirrors:
  "cache_ok (dataDecoder d) \<Longrightarrow> rel_option same_value (fastUint d k sz off w) (fastUint (uncached d) k sz off w)"
  by (auto simp: fastUint_def intro: fast_mirrors_bool)

lemma fast_string_mirrors:
  assumes ok: "cache_ok (dataDecoder d)" and h: "decodeCtrlData (dataDecoder d) h = Inr (KindString, sz, off)"
  shows "rel_option same_value
    (case decodeString (dataDecoder d) sz off of Inl _ \<Rightarrow> None
     | Inr (val, e, dd) \<Rightarrow> Some (StringV val, e, d\<lparr>dataDecoder := dd, payloadRemaining := p\<rparr>))
    (case decodeString (dataDecoder (uncached d)) sz off of Inl _ \<Rightarrow> None
     | Inr (val, e, dd) \<Rightarrow> Some (StringV val, e, (uncached d)\<lparr>dataDecoder := dd, payloadRemaining := p\<rparr>))"
  using decodeString_mirrors [OF ok h]
  by (cases "decodeString (dataDecoder d) sz off") (auto simp: mirrors_def)

lemma fast_leaf_mirrors:
  assumes ok: "cache_ok (dataDecoder d)" and t: "\<forall>e. t \<noteq> PtrT e"
  shows "rel_option same_value (tryFastDecodeTyped d off t) (tryFastDecodeTyped (uncached d) off t)"
proof (cases "decodeCtrlData (dataDecoder d) off")
  case (Inr x)
  obtain k sz o1 where x: "x = (k, sz, o1)" by (cases x)
  have string: "rel_option same_value
      (case decodeString (dataDecoder d) sz o1 of Inl _ \<Rightarrow> None
       | Inr (val, e, dd) \<Rightarrow> Some (StringV val, e, d\<lparr>dataDecoder := dd, payloadRemaining := p\<rparr>))
      (case decodeString (dataDecoder (uncached d)) sz o1 of Inl _ \<Rightarrow> None
       | Inr (val, e, dd) \<Rightarrow> Some (StringV val, e, (uncached d)\<lparr>dataDecoder := dd, payloadRemaining := p\<rparr>))"
    if "k = KindString" for p
    using fast_string_mirrors [OF ok, of off sz o1 p] Inr x that by simp
  have charged: "cache_ok (dataDecoder (d\<lparr>payloadRemaining := p\<rparr>))" for p using ok by simp
  note quick = fast_mirrors_bool [OF ok] fastUint_mirrors [OF ok] fast_mirrors_bool [OF charged]
  show ?thesis
    using t string
    unfolding tryFastDecodeTyped.simps [of _ off t] uncached_simps cache_irrelevant Inr x sum.case prod.case
    by (cases t) (simp_all add: quick)
qed (simp add: tryFastDecodeTyped.simps [of _ off t])

lemma fast_mirrors:
  "cache_ok (dataDecoder d) \<Longrightarrow> rel_option same_value (tryFastDecodeTyped d off t) (tryFastDecodeTyped (uncached d) off t)"
proof (induction t rule: unwrapPtrType.induct)
  case (1 t)
  have "rel_option same_value
      (case tryFastDecodeTyped d off t of None \<Rightarrow> None | Some (val, e, d) \<Rightarrow> Some (PtrV val, e, d))
      (case tryFastDecodeTyped (uncached d) off t of None \<Rightarrow> None | Some (val, e, d) \<Rightarrow> Some (PtrV val, e, d))"
    using 1 by (cases "tryFastDecodeTyped d off t"; cases "tryFastDecodeTyped (uncached d) off t")
      (auto simp del: tryFastDecodeTyped.simps)
  then show ?case
    unfolding tryFastDecodeTyped.simps [of _ off "PtrT t"] uncached_simps cache_irrelevant Type.case
    by (auto split: sum.split simp del: tryFastDecodeTyped.simps)
qed (rule fast_leaf_mirrors; simp)+

lemma element_mirrors:
  assumes "cache_ok (dataDecoder d)" and "mirrors same_value slow slow'"
  shows "mirrors same_value (element (fastElement d off t) w slow) (element (fastElement (uncached d) off t) w slow')"
proof -
  have "rel_option same_value (fastElement d off t) (fastElement (uncached d) off t)"
    using fast_mirrors [OF assms(1)] by (auto simp: fastElement_def simp del: tryFastDecodeTyped.simps)
  then show ?thesis
    using mirrors_mapErr [OF assms(2)]
    by (cases "fastElement d off t"; cases "fastElement (uncached d) off t") (auto simp: element_def)
qed

lemma mapKey_mirrors:
  assumes ok: "cache_ok (dataDecoder d)"
  shows "mirrors same_value (mapKey d off) (mapKey (uncached d) off)"
proof (cases "decodeKeyAt (dataDecoder d) off")
  case (Inl e)
  then show ?thesis by (simp add: mapKey_def decodeStringKey_def decodeBudgetedStringKey_def)
next
  case (Inr x)
  obtain key co n where x: "x = (key, co, n)" by (cases x)
  obtain c where c: "internOpt (stringCache (dataDecoder d)) co key = (key, c)" "cache_ok ((dataDecoder d)\<lparr>stringCache := c\<rparr>)"
    by (rule key_interned [OF ok Inr [unfolded x]])
  have "mirrors same_value (decodeBudgetedStringKey d off) (decodeBudgetedStringKey (uncached d) off)"
    unfolding decodeBudgetedStringKey_def uncached_simps decodeKeyAt_cache Inr x bindE_Inr prod.case
  proof (rule mirrors_bind [OF reserve_mirrors(2) [OF ok]], goal_cases)
    case (1 d1 d1')
    then show ?case
      using reserved_same [OF 1(1)] c ok
      by (cases "stringCache (dataDecoder d)") (auto simp: sees_def internOpt_def uncached_def split: prod.splits)
  qed
  moreover have "mirrors same_value (bindE (decodeStringKey (dataDecoder d) off) (\<lambda>(key, e, dd). Inr (key, e, d\<lparr>dataDecoder := dd\<rparr>)))
      (bindE (decodeStringKey (dataDecoder (uncached d)) off) (\<lambda>(key, e, dd). Inr (key, e, (uncached d)\<lparr>dataDecoder := dd\<rparr>)))"
    using c ok
    by (cases "stringCache (dataDecoder d)") (auto simp: decodeStringKey_def Inr x internOpt_def uncached_def sees_def split: prod.splits)
  ultimately show ?thesis by (simp add: mapKey_def)
qed

lemma limited_mirrors:
  assumes ok: "cache_ok (dataDecoder d)"
  shows "mirrors (rel_option same_value) (readLimitedString d off maximum) (readLimitedString (uncached d) off maximum)"
proof -
  let ?R = "\<lambda>(s, next, h) (s', next', h'). s' = s \<and> next' = next \<and> cache_ok (h 0) \<and> h' 0 = (h 0)\<lparr>stringCache := None\<rparr>"
  have "mirrors ?R (ReadStringMaxSize (ownHeap d) (ownCursor off) maximum) (ReadStringMaxSize (ownHeap (uncached d)) (ownCursor off) maximum)"
  proof (cases "resolveCtrlData (dataDecoder d) off")
    case (Inl e)
    then show ?thesis by (simp add: ReadStringMaxSize_eq readStringSlow_def validate_def)
  next
    case (Inr x)
    obtain k sz o1 n where x: "x = (k, sz, o1, n)" by (cases x)
    have unexpected: "unexpectedKind (ownHeap (uncached d)) c e a = unexpectedKind (ownHeap d) c e a" for c e a
      by (simp add: unexpectedKind_def unexpectedKinds_def ownHeap_def cong: if_cong option.case_cong)
    have "mirrors ?R
        (bindE (mapErr w (decodeString (dataDecoder d) sz o1)) (\<lambda>(value, _, d'). Inr (value, next, (ownHeap d)(0 := d'))))
        (bindE (mapErr w (decodeString (dataDecoder (uncached d)) sz o1)) (\<lambda>(value, _, d'). Inr (value, next, (ownHeap (uncached d))(0 := d'))))"
      if k: "k = KindString" for w "next"
    proof -
      obtain r where "decodeCtrlData (dataDecoder d) r = Inr (KindString, sz, o1)"
        using Inr [unfolded x k] by (rule resolveCtrlData_Inr)
      from mirrors_mapErr [OF decodeString_mirrors [OF ok this]] show ?thesis
        unfolding uncached_simps by (rule mirrors_bind) auto
    qed
    then show ?thesis
      by (auto simp: ReadStringMaxSize_eq readStringSlow_def validate_def Inr x Let_def unexpected [unfolded uncached_simps] unexpected)
  qed
  then show ?thesis
    unfolding readLimitedString_def
    by (cases "ReadStringMaxSize (ownHeap d) (ownCursor off) maximum") (auto simp: mirrors_def Let_def split: gerr.splits)
qed

section \<open>Every value\<close>

lemma mirrors_allocated:
  "mirrors same_value r r' \<Longrightarrow> mirrors same_value (bindE r (\<lambda>(v, e, d). Inr (f v, e, d))) (bindE r' (\<lambda>(v, e, d). Inr (f v, e, d)))"
  by (erule mirrors_bind) auto

lemma mirrors_at:
  "mirrors same_value r r' \<Longrightarrow> mirrors same_value (bindE r (\<lambda>(v, _, d). Inr (v, n, d))) (bindE r' (\<lambda>(v, _, d). Inr (v, n, d)))"
  by (erule mirrors_bind) auto

lemma deactivated_sees: "sees b b' \<Longrightarrow> sees (deactivated d b) (deactivated (uncached d) b')"
  by (auto simp: sees_def deactivated_def)

lemma mirrors_deactivated:
  "mirrors same_value r r' \<Longrightarrow> mirrors same_value (bindE r (\<lambda>(v, e, b). Inr (f v, e, deactivated d b)))
     (bindE r' (\<lambda>(v, e, b). Inr (f v, e, deactivated (uncached d) b)))"
  by (erule mirrors_bind) (auto intro: deactivated_sees)

lemma decode_mirrors:
  "cache_ok (dataDecoder d) \<Longrightarrow> mirrors same_value (decodeValue d off t cur depth) (decodeValue (uncached d) off t cur depth)"
  "cache_ok (dataDecoder d) \<Longrightarrow> decodeCtrlData (dataDecoder d) h = Inr (k, sz, off) \<Longrightarrow>
     mirrors same_value (decodeFromType d k sz off t cur depth) (decodeFromType (uncached d) k sz off t cur depth)"
  "cache_ok (dataDecoder d) \<Longrightarrow> mirrors same_value (unmarshalMap d sz off t cur depth) (unmarshalMap (uncached d) sz off t cur depth)"
  "cache_ok (dataDecoder d) \<Longrightarrow> mirrors same_value (unmarshalPointer d sz off t cur depth) (unmarshalPointer (uncached d) sz off t cur depth)"
  "cache_ok (dataDecoder d) \<Longrightarrow> mirrors same_value (unmarshalSlice d sz off t cur depth) (unmarshalSlice (uncached d) sz off t cur depth)"
  "cache_ok (dataDecoder d) \<Longrightarrow> mirrors same_value (decodeMap d n off t depth m) (decodeMap (uncached d) n off t depth m)"
  "cache_ok (dataDecoder d) \<Longrightarrow> mirrors same_value (decodeSlice d n off t depth vs) (decodeSlice (uncached d) n off t depth vs)"
  "cache_ok (dataDecoder d) \<Longrightarrow> mirrors same_value (decodeStructWithFields d sz off t cur depth fs) (decodeStructWithFields (uncached d) sz off t cur depth fs)"
  "cache_ok (dataDecoder d) \<Longrightarrow> mirrors same_value (decodeFields d n off t cur depth fs) (decodeFields (uncached d) n off t cur depth fs)"
  "cache_ok (dataDecoder d) \<Longrightarrow> mirrors same_value (decodeField d off f cur depth) (decodeField (uncached d) off f cur depth)"
  "cache_ok (dataDecoder d) \<Longrightarrow> mirrors same_value (decodeValueMaxSize d off t cur depth expected maximum)
     (decodeValueMaxSize (uncached d) off t cur depth expected maximum)"
proof (induction d off t cur depth and d k sz off t cur depth and d sz off t cur depth and d sz off t cur depth
    and d sz off t cur depth and d n off t depth m and d n off t depth vs and d sz off t cur depth fs
    and d n off t cur depth fs and d off f cur depth and d off t cur depth expected maximum arbitrary: and h
    rule: decodeValue_decodeFromType_unmarshalMap_unmarshalPointer_unmarshalSlice_decodeMap_decodeSlice_decodeStructWithFields_decodeFields_decodeField_decodeValueMaxSize.induct)
  case (1 d off t cur depth)
  show ?case
    unfolding decodeValue.simps [of _ off] uncached_simps cache_irrelevant
  proof (intro mirrors_if mirrors_same [OF refl], simp, clarify, goal_cases)
    case (1 k sz o1)
    then show ?case using "1.IH" [OF 1(1,2) refl refl "1.prems" 1(2)] by (intro mirrors_allocated) simp
  qed
next
  case (2 d k sz off t cur depth)
  show ?case
  proof (cases "k \<in> {KindMap, KindSlice, KindPointer}")
    case True
    then show ?thesis using 2(1) [OF _ _ 2(4)] 2(2) [OF _ _ _ 2(4)] 2(3) [OF _ _ _ _ 2(4)]
      by (auto simp: decodeFromType.simps)
  qed (use scalar_mirrors 2(4,5) in blast)
next
  case (3 d sz off t cur depth)
  show ?case
    unfolding unmarshalMap.simps [of _ sz off] uncached_simps
  proof (rule mirrors_bind [OF reserve_mirrors(1)], goal_cases)
    case (2 b b')
    then have b: "b' = uncached b" "cache_ok (dataDecoder b)" by (simp_all add: sees_def)
    show ?case
    proof (rule mirrors_if, goal_cases)
      case 1
      show ?case unfolding b(1) by (rule mirrors_deactivated [OF 3(1) [OF \<open>reserveActiveContainer (activated d) KindMap sz = Inr b\<close> 1 b(2)]])
    next
      case 2
      show ?case
      proof (cases "case t of MapT e \<Rightarrow> Some e | AnyT \<Rightarrow> Some AnyT | _ \<Rightarrow> None")
        case (Some e)
        show ?thesis
          unfolding Some option.case b(1) validateContainerSize_uncached
        proof (intro mirrors_same [OF refl], goal_cases)
          case (1 u)
          then show ?case
            using 3(2) [OF \<open>reserveActiveContainer (activated d) KindMap sz = Inr b\<close> 2 Some _ b(2)] by (intro mirrors_deactivated) simp
        qed
      qed simp
    qed
  qed (use 3(3) in simp)
next
  case (4 d sz off t cur depth)
  show ?case
    unfolding unmarshalPointer.simps [of _ sz off] uncached_buffer
    unfolding pointedKind_uncached uncached_simps(1) cache_irrelevant
  proof (intro mirrors_same [OF refl], clarify, intro mirrors_if mirrors_same [OF refl], goal_cases)
    case (1 p n)
    show ?case by (rule mirrors_at [OF 4(1) [OF 1(1) refl 1(2) 4(3)]])
  next
    case (2 p n x)
    obtain c kind where x: "x = (c, kind)" by (cases x)
    have c: "index (buffer (dataDecoder d)) p = Inr c"
      using 2(3) by (auto simp: x pointedKind_def bindE_eq_Inr Let_def split: if_splits)
    let ?sz = "ucast (c AND 0x1f) :: uint"
    show ?case
    proof (cases "kind = KindPointer")
      case kind: False
      show ?thesis
      proof (cases "Kind_of_byte (drop_bit 5 c) = KindString \<and> t = StringT \<and> depth \<le> maximumDataStructureDepth \<and>
          ?sz < 29 \<and> ?sz \<le> glen (buffer (dataDecoder d)) - (p + 1)")
        case True
        then show ?thesis
          using kind charged_compact_mirrors [OF 4(3) short_string_header(1) [OF c _ refl] _ short_string_header(2) [OF c _ refl], of StringV n]
          by (simp add: x Let_def)
      next
        case False
        show ?thesis
          unfolding x prod.case Let_def if_not_P [OF kind] if_not_P [OF False]
          by (rule mirrors_at [OF 4(2) [OF 2(1) refl 2(2) 2(3) x [symmetric] kind refl refl False 4(3)]])
      qed
    qed (simp add: x)
  qed
next
  case (5 d sz off t cur depth)
  show ?case
    unfolding unmarshalSlice.simps [of _ sz off] uncached_simps
  proof (rule mirrors_bind [OF reserve_mirrors(1)], goal_cases)
    case (2 b b')
    then have b: "b' = uncached b" "cache_ok (dataDecoder b)" by (simp_all add: sees_def)
    show ?case
      unfolding b(1) validateContainerSize_uncached
    proof (intro mirrors_same [OF refl], goal_cases)
      case (1 u)
      show ?case
      proof (cases "case t of SliceT e \<Rightarrow> Some e | AnyT \<Rightarrow> Some AnyT | _ \<Rightarrow> None")
        case (Some e)
        show ?thesis
          unfolding Some option.case
          by (rule mirrors_deactivated [OF 5(1) [OF \<open>reserveActiveContainer (activated d) KindSlice sz = Inr b\<close> 1 Some b(2)]])
      qed simp
    qed
  qed (use 5(2) in simp)
next
  case (6 d off t depth m)
  then show ?case by simp
next
  case (7 d n off t depth m)
  show ?case
    unfolding decodeMap.simps
  proof (rule mirrors_bind [OF mapKey_mirrors [OF 7(3)]], clarsimp simp: sees_def, goal_cases)
    case (1 key o1 d1)
    show ?case
    proof (rule mirrors_bind [OF element_mirrors [OF 1(3) 7(1) [OF 1(1) refl refl 1(3)]]], clarsimp simp: sees_def, goal_cases)
      case (1 v o2 d2)
      then show ?case using 7(2) [OF \<open>mapKey d off = _\<close> refl refl 1(1) refl refl] by simp
    qed
  qed
next
  case (8 d off t depth vs)
  then show ?case by simp
next
  case (9 d n off t depth vs)
  show ?case
    unfolding decodeSlice.simps
  proof (rule mirrors_bind [OF element_mirrors [OF 9(3) 9(1) [OF 9(3)]]], clarsimp simp: sees_def, goal_cases)
    case (1 v o2 d2)
    then show ?case using 9(2) [OF 1(1) refl refl] by simp
  qed
next
  case (10 d sz off t cur depth fs)
  show ?case
  proof (cases "validationErr fs")
    case None
    have "mirrors same_value (bindE (skipStructFields d (unat sz) off) (\<lambda>(e, d). Inr (cur, e, d)))
        (bindE (skipStructFields (uncached d) (unat sz) off) (\<lambda>(e, d). Inr (cur, e, d)))"
      by (rule mirrors_bind [OF skipStructFields_mirrors [OF 10(2)]]) auto
    then show ?thesis using 10(1) [OF None _ 10(2)] None by (simp add: decodeStructWithFields.simps)
  qed (simp add: decodeStructWithFields.simps)
next
  case (11 d off t cur depth fs)
  then show ?case by simp
next
  case (12 d n off t cur depth fs)
  show ?case
    unfolding decodeFields.simps uncached_simps(1) decodeKeyAt_cache CheckMaxSize_uncached
  proof (intro mirrors_same [OF refl], clarify, goal_cases)
    case (1 key co o1)
    note hdr = 1(1)
    show ?case
    proof (cases "fieldForKey fs key")
      case None
      show ?thesis
        unfolding None option.case
      proof (rule mirrors_bind [OF skipField_mirrors [OF 12(5)]], clarsimp simp: sees_def, goal_cases)
        case (1 o2 d2)
        then show ?case using 12(1) [OF hdr refl refl None 1(1) refl] by simp
      qed
    next
      case (Some f)
      show ?thesis
        unfolding Some option.case
      proof (intro mirrors_same [OF refl], goal_cases)
        case check: (1 u)
        show ?case
        proof (cases "fieldByIndex t cur (fi_index f) True")
          case None
          show ?thesis
            unfolding None option.case
          proof (rule mirrors_bind [OF skipField_mirrors [OF 12(5)]], clarsimp simp: sees_def, goal_cases)
            case (1 o2 d2)
            then show ?case using 12(2) [OF hdr refl refl \<open>fieldForKey fs key = _\<close> check None 1(1) refl] by simp
          qed
        next
          case v: (Some v)
          show ?thesis
            unfolding v option.case
          proof (rule mirrors_bind [OF mirrors_mapErr [OF 12(3) [OF hdr refl refl Some check v 12(5)]]],
              clarsimp simp: sees_def, goal_cases)
            case (1 x o2 d2)
            then show ?case using 12(4) [OF hdr refl refl Some check v _ refl refl] by simp
          qed
        qed
      qed
    qed
  qed
next
  case (13 d off f cur depth)
  note general = 13(1) [OF 13(4)]
  have struct: "mirrors same_value
      (bindE (nestedMap d off depth) (\<lambda>nested. case nested of None \<Rightarrow> decodeValue d off (fi_type f) cur depth
        | Some (sz, dataOffset, pointerEndOffset, decodeDepth) \<Rightarrow>
            bindE (reserveActiveContainer d KindMap sz) (\<lambda>d.
            bindE (decodeStructWithFields d sz dataOffset (unwrapPtrType (fi_type f)) (deref (fi_type f) cur) decodeDepth
                (makeStructFields (unwrapPtrType (fi_type f)))) (\<lambda>(v, newOffset, d).
              Inr (allocated (fi_type f) v, (if pointerEndOffset \<noteq> 0 then pointerEndOffset else newOffset), d)))))
      (bindE (nestedMap d off depth) (\<lambda>nested. case nested of None \<Rightarrow> decodeValue (uncached d) off (fi_type f) cur depth
        | Some (sz, dataOffset, pointerEndOffset, decodeDepth) \<Rightarrow>
            bindE (reserveActiveContainer (uncached d) KindMap sz) (\<lambda>d.
            bindE (decodeStructWithFields d sz dataOffset (unwrapPtrType (fi_type f)) (deref (fi_type f) cur) decodeDepth
                (makeStructFields (unwrapPtrType (fi_type f)))) (\<lambda>(v, newOffset, d).
              Inr (allocated (fi_type f) v, (if pointerEndOffset \<noteq> 0 then pointerEndOffset else newOffset), d)))))"
  proof (intro mirrors_same [OF refl], goal_cases)
    case (1 nested)
    show ?case
    proof (cases nested)
      case None
      then show ?thesis using general by simp
    next
      case (Some x)
      obtain sz o1 pe depth' where x: "x = (sz, o1, pe, depth')" by (cases x)
      note n = 1 [unfolded Some x]
      show ?thesis
        unfolding Some x option.case prod.case
      proof (rule mirrors_bind [OF reserve_mirrors(1) [OF 13(4)]], goal_cases)
        case (1 d1 d1')
        then have d1: "d1' = uncached d1" "cache_ok (dataDecoder d1)" by (simp_all add: sees_def)
        show ?case
          unfolding d1(1)
          by (rule mirrors_bind [OF 13(2) [OF refl n refl refl refl refl 1(1) d1(2)]]) auto
      qed
    qed
  qed
  have quick: "mirrors same_value
      (case (if length (fi_index f) = 1 then tryFastDecodeTyped d off (fi_type f) else None) of
         Some result \<Rightarrow> Inr result | None \<Rightarrow> decodeValue d off (fi_type f) cur depth)
      (case (if length (fi_index f) = 1 then tryFastDecodeTyped (uncached d) off (fi_type f) else None) of
         Some result \<Rightarrow> Inr result | None \<Rightarrow> decodeValue (uncached d) off (fi_type f) cur depth)"
    using fast_mirrors [OF 13(4), of off "fi_type f"] general
    by (cases "tryFastDecodeTyped d off (fi_type f)"; cases "tryFastDecodeTyped (uncached d) off (fi_type f)")
      (auto simp del: tryFastDecodeTyped.simps)
  have limited: "fi_dispatch f = dispatchMaxSize \<Longrightarrow>
      mirrors same_value (decodeValueMaxSize d off (fi_type f) cur depth (fi_maxSizeKinds f) (fi_maxSize f))
        (decodeValueMaxSize (uncached d) off (fi_type f) cur depth (fi_maxSizeKinds f) (fi_maxSize f))"
    using 13(3) [OF refl refl _ 13(4)] by simp
  show ?case
    unfolding decodeField.simps [of _ off] nestedMap_uncached Let_def
    using quick general struct limited by (cases "fi_dispatch f") (simp_all del: tryFastDecodeTyped.simps)
next
  case (14 d off t cur depth expected maximum)
  have checked: "mirrors same_value (bindE (CheckMaxSize (ownHeap d) (ownCursor off) expected maximum) (\<lambda>_. decodeValue d off t cur depth))
      (bindE (CheckMaxSize (ownHeap d) (ownCursor off) expected maximum) (\<lambda>_. decodeValue (uncached d) off t cur depth))"
    by (rule mirrors_same [OF refl]) (use 14(1) 14(4) in simp)
  have limited: "mirrors same_value
      (bindE (checkPayloadLimit d off expected maximum) (\<lambda>_. bindE (readLimitedString d off maximum) (\<lambda>read.
         case read of Some result \<Rightarrow> Inr result | None \<Rightarrow> decodeValue d off t cur depth)))
      (bindE (checkPayloadLimit d off expected maximum) (\<lambda>_. bindE (readLimitedString (uncached d) off maximum) (\<lambda>read.
         case read of Some result \<Rightarrow> Inr result | None \<Rightarrow> decodeValue (uncached d) off t cur depth)))"
    if t: "t = unwrapPtrType t" "\<not> depth > maximumDataStructureDepth" "t = StringT \<and> expected = NewKindSet [KindString]"
  proof (intro mirrors_same [OF refl], rule mirrors_bind [OF limited_mirrors [OF 14(4)]], goal_cases)
    case (1 u q q')
    show ?case
    proof (cases q)
      case None
      then show ?thesis using 1 14(2) [OF refl _ t(2,3) 1(1) _ _ 14(4)] t(1) by (cases q') simp_all
    next
      case (Some r)
      then show ?thesis using 1(4) by (cases q') simp_all
    qed
  qed
  have direct: "mirrors same_value
      (bindE (decodeCtrlData (dataDecoder d) off) (\<lambda>(k, sz, o1).
         if k = KindPointer then bindE (CheckMaxSize (ownHeap d) (ownCursor off) expected maximum) (\<lambda>_. decodeValue d off t cur depth)
         else if KindSet_Contains expected k \<and> sz > maximum then
           Inl (wrapErrorAtOffset (InvalidDatabaseError (MaxSizeExceeded k sz maximum)) off)
         else decodeFromType d k sz o1 t cur (depth + 1)))
      (bindE (decodeCtrlData (dataDecoder d) off) (\<lambda>(k, sz, o1).
         if k = KindPointer then bindE (CheckMaxSize (ownHeap d) (ownCursor off) expected maximum) (\<lambda>_. decodeValue (uncached d) off t cur depth)
         else if KindSet_Contains expected k \<and> sz > maximum then
           Inl (wrapErrorAtOffset (InvalidDatabaseError (MaxSizeExceeded k sz maximum)) off)
         else decodeFromType (uncached d) k sz o1 t cur (depth + 1)))"
    if t: "t = unwrapPtrType t" "\<not> depth > maximumDataStructureDepth" "\<not> (t = StringT \<and> expected = NewKindSet [KindString])"
  proof (intro mirrors_same [OF refl], clarify, intro mirrors_if checked, simp, goal_cases)
    case (1 k sz o1)
    then show ?case using 14(3) [OF refl _ t(2,3) 1(1) refl refl 1(2,3) 14(4) 1(1)] t(1) by simp
  qed
  show ?case
    unfolding decodeValueMaxSize.simps [of _ off] CheckMaxSize_uncached checkPayloadLimit_uncached uncached_simps cache_irrelevant Let_def
    by (intro mirrors_if checked) (use limited direct in simp_all)
qed

section \<open>Entry points\<close>

fun same_result :: "Value \<times> ReflectionDecoder \<Rightarrow> Value \<times> ReflectionDecoder \<Rightarrow> bool" where
  "same_result (v, d) (v', d') \<longleftrightarrow> v' = v \<and> sees d d'"

lemma decodeAny_mirrors:
  assumes "cache_ok (dataDecoder d)"
  shows "mirrors same_result (decodeAny d off cur depth) (decodeAny (uncached d) off cur depth)"
  unfolding decodeAny_eq uncached_simps cache_irrelevant
proof (intro mirrors_same [OF refl], clarify, goal_cases)
  case (1 k sz o1)
  show ?case by (rule mirrors_bind [OF decode_mirrors(2) [OF assms 1]]) auto
qed

lemma decodeAnyWithBudget_mirrors:
  assumes "cache_ok (dataDecoder d)"
  shows "mirrors same_result (decodeAnyWithBudget d off cur depth) (decodeAnyWithBudget (uncached d) off cur depth)"
proof -
  have "cache_ok (dataDecoder (newBudgetedDecoder d))" using assms by (simp add: newBudgetedDecoder_def)
  from mirrors_bind [OF decodeAny_mirrors [OF this, of off cur depth], where S = same_result and
      f = "\<lambda>(v, b). Inr (v, d\<lparr>dataDecoder := dataDecoder b\<rparr>)" and f' = "\<lambda>(v, b). Inr (v, (uncached d)\<lparr>dataDecoder := dataDecoder b\<rparr>)"]
  have "mirrors same_result (bindE (decodeAny (newBudgetedDecoder d) off cur depth) (\<lambda>(v, b). Inr (v, d\<lparr>dataDecoder := dataDecoder b\<rparr>)))
      (bindE (decodeAny (uncached (newBudgetedDecoder d)) off cur depth) (\<lambda>(v, b). Inr (v, (uncached d)\<lparr>dataDecoder := dataDecoder b\<rparr>)))"
    by (auto simp: sees_def)
  then show ?thesis using decodeAny_mirrors [OF assms] by (simp add: decodeAnyWithBudget_def)
qed

lemma quick_mirrors:
  assumes "rel_option same_value q q'"
  shows "rel_option same_result (map_option (\<lambda>(v, _, d). (v, d)) q) (map_option (\<lambda>(v, _, d). (v, d)) q')"
  using assms by (cases q; cases q') auto

lemma unbudgeted_string_mirrors:
  assumes ok: "cache_ok (dataDecoder d)"
  shows "mirrors (rel_option same_result) (tryFastDecodeUnbudgetedString d off) (tryFastDecodeUnbudgetedString (uncached d) off)"
proof -
  let ?dd = "dataDecoder d"
  let ?general = "\<lambda>d. case decodeCtrlData (dataDecoder d) off of Inl _ \<Rightarrow> None
    | Inr (typeNum, sz, newOffset) \<Rightarrow>
        if typeNum = KindString then
          (case decodeString (dataDecoder d) sz newOffset of Inl _ \<Rightarrow> None
           | Inr (val, _, dd) \<Rightarrow> Some (StringV val, d\<lparr>dataDecoder := dd\<rparr>))
        else None"
  have general: "rel_option same_result (?general d) (?general (uncached d))"
  proof (cases "decodeCtrlData ?dd off")
    case (Inr x)
    obtain k sz o1 where x: "x = (k, sz, o1)" by (cases x)
    show ?thesis
    proof (cases "k = KindString")
      case True
      from decodeString_mirrors [OF ok Inr [unfolded x True]] show ?thesis
        by (cases "decodeString ?dd sz o1") (auto simp: Inr x mirrors_def)
    qed (simp add: Inr x)
  qed simp
  show ?thesis
  proof (cases "off < glen (buffer ?dd)")
    case True
    then obtain b where b: "index (buffer ?dd) off = Inr b" by (simp add: index_ok)
    let ?sz = "ucast (b AND 0x1f) :: uint"
    have "mirrors (rel_option same_result)
        (bindE (decodeCompactString ?dd ?sz (off + 1)) (\<lambda>(s, dd). Inr (Some (StringV s, d\<lparr>dataDecoder := dd\<rparr>))))
        (bindE (decodeCompactString (dataDecoder (uncached d)) ?sz (off + 1)) (\<lambda>(s, dd). Inr (Some (StringV s, (uncached d)\<lparr>dataDecoder := dd\<rparr>))))"
      if k: "Kind_of_byte (drop_bit 5 b) = KindString" and sz: "?sz < 29" and fit: "hasBufferRange (glen (buffer ?dd)) (off + 1) ?sz"
    proof -
      have h: "decodeCtrlData ?dd off = Inr (KindString, ?sz, off + 1)"
        using decodeCtrlData_direct [OF b refl] k sz by simp
      have "unat (off + 1) + unat ?sz \<le> unat (glen (buffer ?dd))" using fit by (simp add: hasBufferRange_iff)
      from decodeCompactString_mirrors [OF ok h sz this] show ?thesis
        unfolding uncached_simps by (rule mirrors_bind) auto
    qed
    then show ?thesis
      using general True
      unfolding tryFastDecodeUnbudgetedString_def Let_def uncached_buffer b bindE_Inr by simp
  qed (use general in \<open>simp add: tryFastDecodeUnbudgetedString_def Let_def\<close>)
qed

lemma fastRoot_mirrors:
  assumes ok: "cache_ok (dataDecoder d)"
  shows "mirrors (rel_option same_result) (fastRoot d off t) (fastRoot (uncached d) off t)"
proof -
  have "rel_option same_result (tryFastDecodeUnbudgetedBytes d off) (tryFastDecodeUnbudgetedBytes (uncached d) off)"
    using ok by (auto simp: tryFastDecodeUnbudgetedBytes_def split: sum.split)
  then show ?thesis
    using unbudgeted_string_mirrors [OF ok, of off] quick_mirrors [OF fast_mirrors [OF ok, of off t]]
    by (simp add: fastRoot_def del: tryFastDecodeTyped.simps)
qed

lemma Decode_mirrors:
  assumes ok: "cache_ok (dataDecoder d)"
  shows "mirrors same_result (Decode d off t cur) (Decode (uncached d) off t cur)"
proof (cases "t = AnyT")
  case True
  then show ?thesis using mirrors_mapErr [OF decodeAnyWithBudget_mirrors [OF ok]] by (simp add: Decode_def)
next
  case False
  have general: "mirrors same_result
      (bindE (mapErr (\<lambda>err. wrapRootDecodeError err off) (decodeValue d off t cur 0)) (\<lambda>(v, _, d). Inr (v, d)))
      (bindE (mapErr (\<lambda>err. wrapRootDecodeError err off) (decodeValue (uncached d) off t cur 0)) (\<lambda>(v, _, d). Inr (v, d)))"
    by (rule mirrors_bind [OF mirrors_mapErr [OF decode_mirrors(1) [OF ok]]]) auto
  have "mirrors same_result
      (bindE (fastRoot d off t) (\<lambda>quick. case quick of Some result \<Rightarrow> Inr result | None \<Rightarrow>
        bindE (mapErr (\<lambda>err. wrapRootDecodeError err off) (decodeValue d off t cur 0)) (\<lambda>(v, _, d). Inr (v, d))))
      (bindE (fastRoot (uncached d) off t) (\<lambda>quick. case quick of Some result \<Rightarrow> Inr result | None \<Rightarrow>
        bindE (mapErr (\<lambda>err. wrapRootDecodeError err off) (decodeValue (uncached d) off t cur 0)) (\<lambda>(v, _, d). Inr (v, d))))"
  proof (rule mirrors_bind [OF fastRoot_mirrors [OF ok]], goal_cases)
    case (1 q q')
    then show ?case using general by (cases q; cases q') simp_all
  qed
  then show ?thesis using False by (simp add: Decode_def)
qed

section \<open>The property\<close>

text \<open>
  C10. Decoding does not depend on the string cache: from any cache whose entries hold the payloads of
  the records they are filed under, decoding into any destination gives the value, the offset, the
  budgets or the error that decoding without a cache gives, and leaves such a cache behind.
\<close>

theorem decoding_ignores_cache:
  assumes "cache_ok (dataDecoder d)"
  shows "map_sum id (\<lambda>(v, e, d'). (v, e, budgetRemaining d', payloadRemaining d')) (decodeValue d off t cur depth) =
      map_sum id (\<lambda>(v, e, d'). (v, e, budgetRemaining d', payloadRemaining d')) (decodeValue (uncached d) off t cur depth) \<and>
    map_sum id fst (Decode d off t cur) = map_sum id fst (Decode (uncached d) off t cur) \<and>
    (\<forall>v d'. Decode d off t cur = Inr (v, d') \<longrightarrow> cache_ok (dataDecoder d'))"
proof -
  note v = decode_mirrors(1) [OF assms, of off t cur depth] and D = Decode_mirrors [OF assms, of off t cur]
  have "map_sum id (\<lambda>(v, e, d'). (v, e, budgetRemaining d', payloadRemaining d')) (decodeValue d off t cur depth) =
      map_sum id (\<lambda>(v, e, d'). (v, e, budgetRemaining d', payloadRemaining d')) (decodeValue (uncached d) off t cur depth)"
    using v by (cases "decodeValue d off t cur depth") (auto simp: mirrors_def sees_def)
  moreover have "map_sum id fst (Decode d off t cur) = map_sum id fst (Decode (uncached d) off t cur)"
    using D by (cases "Decode d off t cur") (auto simp: mirrors_def)
  moreover have "cache_ok (dataDecoder d')" if "Decode d off t cur = Inr (v, d')" for v d'
    using D that by (auto simp: mirrors_def sees_def)
  ultimately show ?thesis by blast
qed

text \<open>The same string at two offsets of a slice, the second behind a pointer, and cached in between.\<close>

theorem decoding_ignores_cache_witness:
  "map_sum id fst (Decode (NewReflectionDecoder [0x02, 0x04, 0x42, 104, 105, 0x20, 2]) 0 AnyT NilV) =
     Inr (ListV 2 [StringV [104, 105], StringV [104, 105]])"
proof -
  let ?d = "NewReflectionDecoder [0x02, 0x04, 0x42, 104, 105, 0x20, 2]"
  have ok: "cache_ok (dataDecoder ?d)" by (simp add: NewReflectionDecoder_def)
  have "uncached ?d = NewWithoutStringCache [0x02, 0x04, 0x42, 104, 105, 0x20, 2]"
    by (simp add: uncached_def NewReflectionDecoder_def NewWithoutStringCache_def NewDataDecoder_def NewDataDecoderWithoutStringCache_def)
  moreover have "map_sum id fst (Decode (NewWithoutStringCache [0x02, 0x04, 0x42, 104, 105, 0x20, 2]) 0 AnyT NilV) =
     Inr (ListV 2 [StringV [104, 105], StringV [104, 105]])" by code_simp
  ultimately show ?thesis using decoding_ignores_cache [OF ok, of 0 AnyT NilV 0] by simp
qed

end
