(* ===== verification/PushDecoder.thy ===== *)
theory PushDecoder
  imports CursorContainers ReflectionCache
begin

text \<open>
  The \<open>Decoder\<close> handed to an \<open>Unmarshaler\<close> (\<open>internal/decoder/decoder.go\<close>, with \<open>Cursor\<close>, \<open>Advance\<close>
  and \<open>Unmarshal\<close> of \<open>cursor.go\<close>). It is a mutable position in the data section: an operation takes
  the heap of data decoders and the decoder, and returns its result with both of them updated, on
  errors too. Iterators call back the client's \<open>yield\<close>, which may use the decoder in between.
\<close>

section \<open>The decoder\<close>

text \<open>
  \<open>p_owned\<close> is the address of the embedded \<open>ownedData\<close>; \<open>p_d\<close> and \<open>p_cursorDecoder\<close> are pointers.
\<close>

record Decoder =
  p_cursorDecoder :: "nat option"
  p_d :: "nat option"
  p_owned :: nat
  p_offset :: uint
  p_nextOffset :: uint
  p_hasNextOffset :: bool

type_synonym 'a action = "heap \<times> Decoder \<Rightarrow> 'a res \<times> heap \<times> Decoder"

definition zeroDataDecoder :: DataDecoder where
  "zeroDataDecoder = \<lparr>stringCache = None, buffer = []\<rparr>"

definition NewDecoder :: "heap \<Rightarrow> nat \<Rightarrow> DataDecoder \<Rightarrow> uint \<Rightarrow> heap \<times> Decoder" where
  "NewDecoder h own d offset =
     (h(own := d),
      \<lparr>p_cursorDecoder = Some own, p_d = Some own, p_owned = own, p_offset = offset,
       p_nextOffset = 0, p_hasNextOffset = False\<rparr>)"

text \<open>A decoder taken from the pool lies at the address \<open>own\<close>.\<close>

definition acquireDecoder :: "heap \<Rightarrow> nat \<Rightarrow> nat option \<Rightarrow> uint \<Rightarrow> heap \<times> Decoder" where
  "acquireDecoder h own d offset =
     (h(own := zeroDataDecoder),
      \<lparr>p_cursorDecoder = d, p_d = d, p_owned = own, p_offset = offset,
       p_nextOffset = 0, p_hasNextOffset = False\<rparr>)"

definition releaseDecoder :: "heap \<Rightarrow> Decoder \<Rightarrow> heap \<times> Decoder" where
  "releaseDecoder h d =
     (h(p_owned d := zeroDataDecoder),
      \<lparr>p_cursorDecoder = None, p_d = None, p_owned = p_owned d, p_offset = 0,
       p_nextOffset = 0, p_hasNextOffset = False\<rparr>)"

definition reset :: "Decoder \<Rightarrow> uint \<Rightarrow> Decoder" where
  "reset d offset = d\<lparr>p_offset := offset, p_hasNextOffset := False, p_nextOffset := 0\<rparr>"

definition setNextOffset :: "Decoder \<Rightarrow> uint \<Rightarrow> Decoder" where
  "setNextOffset d offset =
     (if \<not> p_hasNextOffset d then d\<lparr>p_hasNextOffset := True, p_nextOffset := offset\<rparr> else d)"

text \<open>The method \<open>dataDecoder\<close>, and the plain access to \<open>d.d\<close>.\<close>

definition ownDataDecoder :: "Decoder \<Rightarrow> nat \<times> Decoder" where
  "ownDataDecoder d =
     (case p_d d of
        Some a \<Rightarrow> (a, d)
      | None \<Rightarrow> (p_owned d, d\<lparr>p_d := Some (p_owned d), p_cursorDecoder := Some (p_owned d)\<rparr>))"

definition dataPointer :: "Decoder \<Rightarrow> nat res" where
  "dataPointer d = (case p_d d of None \<Rightarrow> Inl Panic | Some a \<Rightarrow> Inr a)"

definition p_wrapError :: "Decoder \<Rightarrow> gerr \<Rightarrow> gerr" where
  "p_wrapError d err = WrapWithContext err (p_offset d) None"

text \<open>One operation after the other; an error ends both and leaves the decoder as it is then.\<close>

definition andThen :: "'a action \<Rightarrow> ('a \<Rightarrow> 'b action) \<Rightarrow> 'b action" where
  "andThen m f = (\<lambda>w. case m w of (Inl err, w) \<Rightarrow> (Inl err, w) | (Inr x, w) \<Rightarrow> f x w)"

definition wrapping :: "'a action \<Rightarrow> 'a action" where
  "wrapping m = (\<lambda>w. case m w of (r, h, d) \<Rightarrow> (mapErr (p_wrapError d) r, h, d))"

section \<open>Reads\<close>

definition unexpectedKindErr :: "Kind \<Rightarrow> Kind \<Rightarrow> gerr" where
  "unexpectedKindErr expected actual = UnexpectedKindError actual (NewKindSet [expected])"

definition decodeCtrlDataAndFollow :: "Kind \<Rightarrow> (uint \<times> uint) action" where
  "decodeCtrlDataAndFollow expectedKind = (\<lambda>(h, d).
     let (a, d) = ownDataDecoder d in
     case resolveCtrlData (h a) (p_offset d) of
       Inl err \<Rightarrow> (Inl err, h, d)
     | Inr (kindNum, sz, dataOffset, nextOffset) \<Rightarrow>
         let d = (if nextOffset \<noteq> 0 then setNextOffset d nextOffset else d) in
         if kindNum \<noteq> expectedKind then (Inl (unexpectedKindErr expectedKind kindNum), h, d)
         else (Inr (sz, dataOffset), h, d))"

text \<open>The common form of the reads of fixed-size values.\<close>

definition readValue :: "Kind \<Rightarrow> (DataDecoder \<Rightarrow> uint \<Rightarrow> uint \<Rightarrow> ('v \<times> uint) res) \<Rightarrow> 'v action" where
  "readValue kind decode =
     wrapping (andThen (decodeCtrlDataAndFollow kind) (\<lambda>(sz, offset) (h, d).
       case bindE (dataPointer d) (\<lambda>a. decode (h a) sz offset) of
         Inl err \<Rightarrow> (Inl err, h, d)
       | Inr (v, newOffset) \<Rightarrow> (Inr v, h, setNextOffset d newOffset)))"

definition Decoder_ReadBool :: "bool action" where
  "Decoder_ReadBool = readValue KindBool decodeBool"

definition Decoder_ReadFloat32 :: "32 word action" where
  "Decoder_ReadFloat32 = readValue KindFloat32 decodeFloat32"

definition Decoder_ReadFloat64 :: "64 word action" where
  "Decoder_ReadFloat64 = readValue KindFloat64 decodeFloat64"

definition Decoder_ReadInt32 :: "32 word action" where
  "Decoder_ReadInt32 = readValue KindInt32 decodeInt32"

definition Decoder_ReadUint16 :: "16 word action" where
  "Decoder_ReadUint16 = readValue KindUint16 decodeUint16"

definition Decoder_ReadUint32 :: "32 word action" where
  "Decoder_ReadUint32 = readValue KindUint32 decodeUint32"

definition Decoder_ReadUint64 :: "64 word action" where
  "Decoder_ReadUint64 = readValue KindUint64 decodeUint64"

definition Decoder_ReadUint128 :: "(64 word \<times> 64 word) action" where
  "Decoder_ReadUint128 = readValue KindUint128 (\<lambda>d sz off.
     bindE (decodeUint128 d sz off) (\<lambda>(hi, lo, next). Inr ((hi, lo), next)))"

definition Decoder_ReadString :: "gostring action" where
  "Decoder_ReadString = (\<lambda>(h, d).
     let (a, d) = ownDataDecoder d in
     case decodeStringValue (h a) (p_offset d) of
       Inl err \<Rightarrow> (Inl (p_wrapError d err), h, d)
     | Inr (v, newOffset, data) \<Rightarrow> (Inr v, h(a := data), setNextOffset d newOffset))"

definition readBytes :: "Kind \<Rightarrow> bytes action" where
  "readBytes kind =
     andThen (decodeCtrlDataAndFollow kind) (\<lambda>(sz, offset) (h, d).
       case dataPointer d of
         Inl err \<Rightarrow> (Inl err, h, d)
       | Inr a \<Rightarrow>
           if offset + sz > glen (buffer (h a)) then
             (Inl (InvalidDatabaseError (BadDataRange (offset + sz) (glen (buffer (h a))))), h, d)
           else (slice (buffer (h a)) offset (offset + sz), h, setNextOffset d (offset + sz)))"

definition Decoder_ReadBytes :: "bytes action" where
  "Decoder_ReadBytes = wrapping (readBytes KindBytes)"

definition SkipValue :: "unit action" where
  "SkipValue = (\<lambda>(h, d).
     let (a, d) = ownDataDecoder d in
     case nextValueOffset (h a) (p_offset d) 1 of
       Inl err \<Rightarrow> (Inl (p_wrapError d err), h, d)
     | Inr nextOffset \<Rightarrow> (Inr (), h, reset d nextOffset))"

definition PeekKind :: "Kind action" where
  "PeekKind = (\<lambda>(h, d).
     let (a, d) = ownDataDecoder d in
     case resolveCtrlData (h a) (p_offset d) of
       Inl err \<Rightarrow> (Inl (p_wrapError d err), h, d)
     | Inr (kindNum, _, _, _) \<Rightarrow> (Inr kindNum, h, d))"

text \<open>\<open>Offset\<close> swallows the errors of the resolution.\<close>

definition Decoder_Offset :: "heap \<times> Decoder \<Rightarrow> uint \<times> heap \<times> Decoder" where
  "Decoder_Offset = (\<lambda>(h, d).
     let (a, d) = ownDataDecoder d in
     (case decodeCtrlData (h a) (p_offset d) of
        Inl err \<Rightarrow> p_offset d
      | Inr (kindNum, sz, ctrlEndOffset) \<Rightarrow>
          if kindNum \<noteq> KindPointer then p_offset d
          else
            (case decodePointer (h a) sz ctrlEndOffset of
               Inl err \<Rightarrow> p_offset d
             | Inr (pointer, _) \<Rightarrow>
                 (case decodeCtrlData (h a) pointer of
                    Inl err \<Rightarrow> p_offset d
                  | Inr (kindNum, _, _) \<Rightarrow> if kindNum = KindPointer then p_offset d else pointer)),
      h, d))"

section \<open>Iterators\<close>

text \<open>
  The client's callback has a state of its own and tells whether the iteration goes on. It is called
  with a key (for a slice, with \<open>()\<close>) or with an error.
\<close>

type_synonym ('k, 's) yield = "'k res \<Rightarrow> 's \<times> heap \<times> Decoder \<Rightarrow> bool \<times> 's \<times> heap \<times> Decoder"

text \<open>An error that is swallowed; a panic is not.\<close>

definition swallow :: "'a res \<Rightarrow> 'a option res" where
  "swallow m = (case m of Inl err \<Rightarrow> if root_error err = Panic then Inl err else Inr None | Inr x \<Rightarrow> Inr (Some x))"

definition nextFrom :: "heap \<Rightarrow> Decoder \<Rightarrow> uint \<Rightarrow> uint \<Rightarrow> uint res" where
  "nextFrom h d offset numberToSkip = bindE (dataPointer d) (\<lambda>a. nextValueOffset (h a) offset numberToSkip)"

definition valueEndOffsetAfterYield :: "heap \<Rightarrow> Decoder \<Rightarrow> uint \<Rightarrow> uint res" where
  "valueEndOffsetAfterYield h d valueOffset =
     (if p_hasNextOffset d then Inr (p_nextOffset d) else nextFrom h d valueOffset 1)"

definition finishMapAfterStop :: "heap \<Rightarrow> Decoder \<Rightarrow> uint \<Rightarrow> uint \<Rightarrow> Decoder res" where
  "finishMapAfterStop h d keyEndOffset remainingPairs =
     bindE (swallow (valueEndOffsetAfterYield h d keyEndOffset)) (\<lambda>valueEnd.
       case valueEnd of
         None \<Rightarrow> Inr d
       | Some valueEndOffset \<Rightarrow>
           let remainingValues = remainingPairs * 2 in
           if remainingValues = 0 then Inr (reset d valueEndOffset)
           else
             bindE (swallow (nextFrom h d valueEndOffset remainingValues)) (\<lambda>stop.
               case stop of None \<Rightarrow> Inr d | Some endOffset \<Rightarrow> Inr (reset d endOffset)))"

definition finishSliceAfterStop :: "heap \<Rightarrow> Decoder \<Rightarrow> uint \<Rightarrow> uint \<Rightarrow> Decoder res" where
  "finishSliceAfterStop h d currentOffset remainingValues =
     (let (endOffset, remainingValues) =
        (if p_hasNextOffset d then (p_nextOffset d, remainingValues - 1) else (currentOffset, remainingValues)) in
      if remainingValues = 0 then Inr (reset d endOffset)
      else
        bindE (swallow (nextFrom h d endOffset remainingValues)) (\<lambda>stop.
          case stop of None \<Rightarrow> Inr d | Some endOffset \<Rightarrow> Inr (reset d endOffset)))"

text \<open>The loop of the iterator of a map, with the number of entries that remain.\<close>

fun mapIterator :: "nat \<Rightarrow> uint \<Rightarrow> (bytes, 's) yield \<Rightarrow> 's \<times> heap \<times> Decoder \<Rightarrow> ('s \<times> heap \<times> Decoder) res" where
  "mapIterator 0 currentOffset yield (s, h, d) = Inr (s, h, reset d currentOffset)"
| "mapIterator (Suc n) currentOffset yield (s, h, d) =
     bindE (dataPointer d) (\<lambda>a.
       case decodeKey (h a) currentOffset of
         Inl err \<Rightarrow>
           if root_error err = Panic then Inl err
           else Inr (snd (yield (Inl (wrapErrorAtOffset err currentOffset)) (s, h, d)))
       | Inr (key, keyEndOffset) \<Rightarrow>
           (case yield (Inr key) (s, h, reset d keyEndOffset) of
              (ok, s, h, d) \<Rightarrow>
                if \<not> ok then
                  bindE (finishMapAfterStop h d keyEndOffset (word_of_nat n)) (\<lambda>d. Inr (s, h, d))
                else
                  (case nextFrom h d keyEndOffset 1 of
                     Inl err \<Rightarrow>
                       if root_error err = Panic then Inl err
                       else Inr (snd (yield (Inl (p_wrapError d err)) (s, h, d)))
                   | Inr valueEndOffset \<Rightarrow> mapIterator n valueEndOffset yield (s, h, d))))"

definition ReadMap ::
  "(((bytes, 's) yield \<Rightarrow> 's \<times> heap \<times> Decoder \<Rightarrow> ('s \<times> heap \<times> Decoder) res) \<times> uint) action" where
  "ReadMap =
     wrapping (andThen (decodeCtrlDataAndFollow KindMap) (\<lambda>(sz, offset) w.
       (Inr (mapIterator (unat sz) offset, sz), w)))"

fun sliceIterator :: "nat \<Rightarrow> uint \<Rightarrow> (unit, 's) yield \<Rightarrow> 's \<times> heap \<times> Decoder \<Rightarrow> ('s \<times> heap \<times> Decoder) res" where
  "sliceIterator 0 currentOffset yield (s, h, d) = Inr (s, h, reset d currentOffset)"
| "sliceIterator (Suc n) currentOffset yield (s, h, d) =
     (case yield (Inr ()) (s, h, reset d currentOffset) of
        (ok, s, h, d) \<Rightarrow>
          if \<not> ok then
            bindE (finishSliceAfterStop h d currentOffset (word_of_nat (Suc n))) (\<lambda>d. Inr (s, h, d))
          else
            (case nextFrom h d currentOffset 1 of
               Inl err \<Rightarrow>
                 if root_error err = Panic then Inl err
                 else Inr (snd (yield (Inl (p_wrapError d err)) (s, h, d)))
             | Inr nextOffset \<Rightarrow> sliceIterator n nextOffset yield (s, h, d)))"

definition ReadSlice ::
  "(((unit, 's) yield \<Rightarrow> 's \<times> heap \<times> Decoder \<Rightarrow> ('s \<times> heap \<times> Decoder) res) \<times> uint) action" where
  "ReadSlice =
     wrapping (andThen (decodeCtrlDataAndFollow KindSlice) (\<lambda>(sz, offset) w.
       (Inr (sliceIterator (unat sz) offset, sz), w)))"

section \<open>Cursors of a decoder\<close>

definition Decoder_Cursor :: "Decoder \<Rightarrow> Cursor" where
  "Decoder_Cursor d = \<lparr>c_decoder = p_cursorDecoder d, c_offset = p_offset d, originToken = 0\<rparr>"

definition Advance :: "Decoder \<Rightarrow> Cursor \<Rightarrow> Decoder res" where
  "Advance d next =
     (if c_decoder next \<noteq> p_cursorDecoder d then
        Inl (PlainError ''cannot advance with a cursor from another decoder'')
      else if originToken next \<noteq> p_offset d + 1 then
        Inl (PlainError ''cursor is not the successor of the current value'')
      else Inr (reset d (c_offset next)))"

text \<open>
  \<open>Unmarshal\<close> hands the user's \<open>UnmarshalMaxMindDB\<close>, a parameter, a decoder of the pool at the address
  \<open>own\<close>; \<open>None\<close> stands for a nil interface or one that holds a nil.
\<close>

definition Unmarshal :: "nat \<Rightarrow> heap \<Rightarrow> Cursor \<Rightarrow> unit action option \<Rightarrow> (Cursor \<times> heap) res" where
  "Unmarshal own h c value =
     bindE (validate c) (\<lambda>a.
       case value of
         None \<Rightarrow> Inl (PlainError ''cannot unmarshal into nil'')
       | Some unmarshal \<Rightarrow>
           (case unmarshal (acquireDecoder h own (c_decoder c) (c_offset c)) of
              (Inl err, _) \<Rightarrow> Inl err
            | (Inr _, h, child) \<Rightarrow>
                let (h, child) = releaseDecoder h child in
                bindE (mapErr (c_wrapError c) (nextValueOffset (h a) (c_offset c) 1)) (\<lambda>next.
                  Inr (successor c next, h))))"

section \<open>The decoder between operations\<close>

lemmas position_defs = reset_def setNextOffset_def ownDataDecoder_def dataPointer_def Decoder_Cursor_def

text \<open>A decoder that stands at a value none of which has been read, on the data decoder \<open>a\<close>.\<close>

definition fresh_at :: "Decoder \<Rightarrow> nat \<Rightarrow> bool" where
  "fresh_at d a \<longleftrightarrow> p_d d = Some a \<and> p_cursorDecoder d = Some a \<and> \<not> p_hasNextOffset d"

definition moved :: "Decoder \<Rightarrow> uint \<Rightarrow> Decoder" where
  "moved d next = d\<lparr>p_hasNextOffset := True, p_nextOffset := next\<rparr>"

lemma fresh_simps [simp]:
  "fresh_at d a \<Longrightarrow> ownDataDecoder d = (a, d)" "fresh_at d a \<Longrightarrow> dataPointer d = Inr a"
  "fresh_at d a \<Longrightarrow> setNextOffset d n = moved d n" "fresh_at d a \<Longrightarrow> dataPointer (moved d n) = Inr a"
  "setNextOffset (moved d n) m = moved d n" "fresh_at d a \<Longrightarrow> validate (Decoder_Cursor d) = Inr a"
  "fresh_at d a \<Longrightarrow> fresh_at (reset d off) a" "p_offset (reset d off) = off" "p_offset (moved d n) = p_offset d"
  "c_offset (Decoder_Cursor d) = p_offset d" "p_nextOffset (moved d n) = n"
  "c_decoder (Decoder_Cursor d) = p_cursorDecoder d"
  by (auto simp: fresh_at_def position_defs moved_def validate_def split: option.splits)

lemma moved_eq [simp]: "moved d n = moved d m \<longleftrightarrow> n = m"
  by (auto simp: moved_def dest: arg_cong [where f = p_nextOffset])

text \<open>The end of the value at the decoder, once its header is resolved.\<close>

lemma follow:
  assumes "fresh_at d a"
  shows "decodeCtrlDataAndFollow k (h, d) =
    (case resolveCtrlData (h a) (p_offset d) of
       Inl err \<Rightarrow> (Inl err, h, d)
     | Inr (kind, sz, o1, n) \<Rightarrow>
         (if kind \<noteq> k then Inl (unexpectedKindErr k kind) else Inr (sz, o1), h, if n \<noteq> 0 then moved d n else d))"
  using assms by (auto simp: decodeCtrlDataAndFollow_def Let_def split: sum.split prod.split)

section \<open>Reads agree with the reads of cursors\<close>

text \<open>The contract of a primitive decoder: its value ends where its payload ends.\<close>

locale push_read = scalar_read k decode
  for k :: Kind and decode :: "DataDecoder \<Rightarrow> uint \<Rightarrow> uint \<Rightarrow> ('v \<times> uint) res" +
  assumes ends: "decode d sz o1 = Inr (v, e) \<Longrightarrow> e = (if k = KindBool then o1 else o1 + sz)"
begin

lemma agrees:
  assumes "fresh_at d a"
  shows "readValue k decode (h, d) = (Inr v, h', d') \<longleftrightarrow>
    (\<exists>next. readScalar h (Decoder_Cursor d) k decode = Inr (v, next) \<and> h' = h \<and> d' = moved d (c_offset next))"
proof (cases "\<exists>sz o1 n. resolveCtrlData (h a) (p_offset d) = Inr (k, sz, o1, n)")
  case False
  then show ?thesis
    using assms by (cases "resolveCtrlData (h a) (p_offset d)")
      (auto simp: readValue_def wrapping_def andThen_def follow readScalar_def scalar_eq [OF kinds(1,2)]
        scalarSlow_def bindE_eq_Inr)
next
  case True
  then obtain sz o1 n where r: "resolveCtrlData (h a) (p_offset d) = Inr (k, sz, o1, n)" by blast
  show ?thesis
  proof (cases "decode (h a) sz o1")
    case (Inl e)
    then show ?thesis
      using assms r by (auto simp: readValue_def wrapping_def andThen_def follow readScalar_def
          scalar_eq [OF kinds(1,2)] scalarSlow_def bindE_eq_Inr)
  next
    case (Inr x)
    then obtain w e where x: "decode (h a) sz o1 = Inr (w, e)" by (cases x) auto
    show ?thesis
      using assms r x ends [OF x] by (auto simp: readValue_def wrapping_def andThen_def follow readScalar_def
          scalar_eq [OF kinds(1,2)] scalarSlow_def successor_def)
  qed
qed

end

interpretation push_bool: push_read KindBool decodeBool
  by unfold_locales (auto simp: decodeBool_def split: if_splits)

lemma uint_ends:
  "decodeInt32 d sz o1 = Inr (i, e) \<Longrightarrow> e = o1 + sz" "decodeUint16 d sz o1 = Inr (u, e) \<Longrightarrow> e = o1 + sz"
  "decodeUint32 d sz o1 = Inr (v, e) \<Longrightarrow> e = o1 + sz" "decodeUint64 d sz o1 = Inr (w, e) \<Longrightarrow> e = o1 + sz"
  "decodeFloat32 d sz o1 = Inr (f, e) \<Longrightarrow> e = o1 + sz" "decodeFloat64 d sz o1 = Inr (g, e) \<Longrightarrow> e = o1 + sz"
  "decodeUint128 d sz o1 = Inr (hi, lo, e) \<Longrightarrow> e = o1 + sz"
  by (auto simp: decodeInt32_def decodeUint16_def decodeUint32_def decodeUint64_def decodeFloat32_def
      decodeFloat64_def decodeUint128_def bindE_eq_Inr Let_def case_prod_beta split: if_splits)

interpretation push_float32: push_read KindFloat32 decodeFloat32
  by unfold_locales (simp add: uint_ends)

interpretation push_float64: push_read KindFloat64 decodeFloat64
  by unfold_locales (simp add: uint_ends)

interpretation push_int32: push_read KindInt32 decodeInt32
  by unfold_locales (simp add: uint_ends)

interpretation push_uint16: push_read KindUint16 decodeUint16
  by unfold_locales (auto simp: uint_decoders_spec uint_spec_def token_len_def dest: uint_ends split: if_splits)

interpretation push_uint32: push_read KindUint32 decodeUint32
  by unfold_locales (auto simp: uint_decoders_spec uint_spec_def token_len_def dest: uint_ends split: if_splits)

interpretation push_uint64: push_read KindUint64 decodeUint64
  by unfold_locales (auto simp: uint_decoders_spec uint_spec_def token_len_def dest: uint_ends split: if_splits)

interpretation push_uint128: push_read KindUint128
    "\<lambda>d sz off. bindE (decodeUint128 d sz off) (\<lambda>(hi, lo, next). Inr ((hi, lo), next))"
  by unfold_locales (auto simp: uint_ends bindE_eq_Inr)

lemma push_bytes_agrees:
  assumes "fresh_at d a"
  shows "Decoder_ReadBytes (h, d) = (Inr v, h', d') \<longleftrightarrow>
    (\<exists>next. ReadBytes h (Decoder_Cursor d) = Inr (v, next) \<and> h' = h \<and> d' = moved d (c_offset next))"
proof (cases "\<exists>sz o1 n. resolveCtrlData (h a) (p_offset d) = Inr (KindBytes, sz, o1, n)")
  case False
  then show ?thesis
    using assms by (cases "resolveCtrlData (h a) (p_offset d)")
      (auto simp: Decoder_ReadBytes_def readBytes_def wrapping_def andThen_def follow ReadBytes_def scalar_eq
        scalarSlow_def bindE_eq_Inr)
next
  case True
  then obtain sz o1 n where r: "resolveCtrlData (h a) (p_offset d) = Inr (KindBytes, sz, o1, n)" by blast
  obtain r' where c: "decodeCtrlData (h a) r' = Inr (KindBytes, sz, o1)" using r by (rule resolveCtrlData_Inr)
  note small = decodeCtrlData_small [OF c]
  have o1: "unat o1 \<le> unat (glen (buffer (h a)))" using decodeCtrlData_Inr(3) [OF c] .
  have g: "o1 + sz > glen (buffer (h a)) \<longleftrightarrow> o1 > glen (buffer (h a)) \<or> sz > glen (buffer (h a)) - o1"
    using guard_iff [OF small] o1 unat_sub [of o1 "glen (buffer (h a))"] by (auto simp: word_less_nat_alt word_le_nat_alt)
  show ?thesis
  proof (cases "o1 + sz > glen (buffer (h a))")
    case True
    then show ?thesis
      using assms r g by (auto simp: Decoder_ReadBytes_def readBytes_def wrapping_def andThen_def follow ReadBytes_def
          scalar_eq scalarSlow_def)
  next
    case False
    then have "slice (buffer (h a)) o1 (o1 + sz) = Inr (payload (h a) o1 sz)"
      using guard_iff [OF small] by (intro slice_payload) simp
    then show ?thesis
      using assms r g False by (auto simp: Decoder_ReadBytes_def readBytes_def wrapping_def andThen_def follow ReadBytes_def
          scalar_eq scalarSlow_def successor_def)
  qed
qed

lemma push_string_agrees:
  assumes "fresh_at d a"
  shows "Decoder_ReadString (h, d) = (Inr v, h', d') \<longleftrightarrow>
    (\<exists>next. ReadString h (Decoder_Cursor d) = Inr (v, next, h') \<and> d' = moved d (c_offset next))"
proof (cases "\<exists>sz o1 n. resolveCtrlData (h a) (p_offset d) = Inr (KindString, sz, o1, n)")
  case False
  then show ?thesis
    using assms by (cases "resolveCtrlData (h a) (p_offset d)")
      (auto simp: Decoder_ReadString_def decodeStringValue_eq stringValueSlow_def ReadString_def ReadStringMaxSize_eq
        readStringSlow_def bindE_eq_Inr)
next
  case True
  then obtain sz o1 n where r: "resolveCtrlData (h a) (p_offset d) = Inr (KindString, sz, o1, n)" by blast
  obtain r' where c: "decodeCtrlData (h a) r' = Inr (KindString, sz, o1)" using r by (rule resolveCtrlData_Inr)
  have sz: "\<not> sz > maxValueSize" using decodeCtrlData_Inr [OF c] by (simp add: maxValueSize_def word_less_nat_alt)
  show ?thesis
  proof (cases "decodeString (h a) sz o1")
    case (Inl e)
    then show ?thesis
      using assms r sz by (auto simp: Decoder_ReadString_def decodeStringValue_eq stringValueSlow_def ReadString_def
          ReadStringMaxSize_eq readStringSlow_def)
  next
    case (Inr x)
    then obtain w e data where x: "decodeString (h a) sz o1 = Inr (w, e, data)" by (cases x) auto
    have "e = o1 + sz" using x by (auto simp: decodeString_def bindE_eq_Inr Let_def case_prod_beta split: if_splits option.splits)
    then show ?thesis
      using assms r sz x by (auto simp: Decoder_ReadString_def decodeStringValue_eq stringValueSlow_def ReadString_def
          ReadStringMaxSize_eq readStringSlow_def successor_def)
  qed
qed

text \<open>The reads of a client as one type, with their values, on the decoder and on the cursor.\<close>

datatype push_op =
    Push_Bool | Push_Float32 | Push_Float64 | Push_Int32 | Push_Uint16 | Push_Uint32 | Push_Uint64
  | Push_Uint128 | Push_Bytes | Push_String

datatype push_value =
    IsBool bool | IsFloat32 "32 word" | IsFloat64 "64 word" | IsInt32 "32 word" | IsUint "64 word"
  | IsUint128 "64 word \<times> 64 word" | IsBytes bytes

definition returning :: "('a \<Rightarrow> push_value) \<Rightarrow> 'a action \<Rightarrow> push_value action" where
  "returning f m = (\<lambda>w. case m w of (r, w) \<Rightarrow> (map_sum id f r, w))"

fun push :: "push_op \<Rightarrow> push_value action" where
  "push Push_Bool = returning IsBool Decoder_ReadBool"
| "push Push_Float32 = returning IsFloat32 Decoder_ReadFloat32"
| "push Push_Float64 = returning IsFloat64 Decoder_ReadFloat64"
| "push Push_Int32 = returning IsInt32 Decoder_ReadInt32"
| "push Push_Uint16 = returning (\<lambda>v. IsUint (ucast v)) Decoder_ReadUint16"
| "push Push_Uint32 = returning (\<lambda>v. IsUint (ucast v)) Decoder_ReadUint32"
| "push Push_Uint64 = returning IsUint Decoder_ReadUint64"
| "push Push_Uint128 = returning IsUint128 Decoder_ReadUint128"
| "push Push_Bytes = returning IsBytes Decoder_ReadBytes"
| "push Push_String = returning IsBytes Decoder_ReadString"

text \<open>A cursor reads every width of unsigned integers with \<open>ReadUint\<close>; \<open>Kind\<close> tells them apart.\<close>

definition cursorUint :: "Kind \<Rightarrow> heap \<Rightarrow> Cursor \<Rightarrow> (push_value \<times> Cursor \<times> heap) res" where
  "cursorUint k h c =
     bindE (Cursor_Kind h c) (\<lambda>kind.
       if kind \<noteq> k then Inl (unexpectedKind h c k kind)
       else bindE (ReadUint h c) (\<lambda>(v, next). Inr (IsUint v, next, h)))"

fun pull :: "push_op \<Rightarrow> heap \<Rightarrow> Cursor \<Rightarrow> (push_value \<times> Cursor \<times> heap) res" where
  "pull Push_Bool h c = bindE (ReadBool h c) (\<lambda>(v, next). Inr (IsBool v, next, h))"
| "pull Push_Float32 h c = bindE (ReadFloat32 h c) (\<lambda>(v, next). Inr (IsFloat32 v, next, h))"
| "pull Push_Float64 h c = bindE (ReadFloat64 h c) (\<lambda>(v, next). Inr (IsFloat64 v, next, h))"
| "pull Push_Int32 h c = bindE (ReadInt32 h c) (\<lambda>(v, next). Inr (IsInt32 v, next, h))"
| "pull Push_Uint16 h c = cursorUint KindUint16 h c"
| "pull Push_Uint32 h c = cursorUint KindUint32 h c"
| "pull Push_Uint64 h c = cursorUint KindUint64 h c"
| "pull Push_Uint128 h c = bindE (ReadUint128 h c) (\<lambda>(v, next). Inr (IsUint128 v, next, h))"
| "pull Push_Bytes h c = bindE (ReadBytes h c) (\<lambda>(v, next). Inr (IsBytes v, next, h))"
| "pull Push_String h c = bindE (ReadString h c) (\<lambda>(v, next, h). Inr (IsBytes v, next, h))"

lemma returning_Inr: "returning f m w = (Inr y, w') \<longleftrightarrow> (\<exists>x. m w = (Inr x, w') \<and> y = f x)"
  by (cases "m w"; cases "fst (m w)") (auto simp: returning_def)

lemma readScalar_uint:
  assumes "c_decoder c = Some a" and "k \<in> {KindUint16, KindUint32, KindUint64}"
  shows "cursorUint k h c = Inr (v, next, h') \<longleftrightarrow>
    h' = h \<and> (k = KindUint16 \<longrightarrow> (\<exists>u. readScalar h c KindUint16 decodeUint16 = Inr (u, next) \<and> v = IsUint (ucast u))) \<and>
    (k = KindUint32 \<longrightarrow> (\<exists>u. readScalar h c KindUint32 decodeUint32 = Inr (u, next) \<and> v = IsUint (ucast u))) \<and>
    (k = KindUint64 \<longrightarrow> (\<exists>u. readScalar h c KindUint64 decodeUint64 = Inr (u, next) \<and> v = IsUint u))"
proof (cases "\<exists>sz o1 n. resolveCtrlData (h a) (c_offset c) = Inr (k, sz, o1, n)")
  case False
  then show ?thesis
    using assms by (cases "resolveCtrlData (h a) (c_offset c)")
      (auto simp: cursorUint_def Cursor_Kind_def readScalar_def scalar_eq scalarSlow_def bindE_eq_Inr)
next
  case True
  then obtain sz o1 n where r: "resolveCtrlData (h a) (c_offset c) = Inr (k, sz, o1, n)" by blast
  then show ?thesis
    using assms by (auto simp: cursorUint_def Cursor_Kind_def ReadUint_eq resolved_read_def uint_by_kind_def
        readScalar_def scalar_eq scalarSlow_def bindE_eq_Inr dest: uint_ends)
qed

lemma push_pull:
  assumes "fresh_at d a"
  shows "push op (h, d) = (Inr v, h', d') \<longleftrightarrow>
    (\<exists>next. pull op h (Decoder_Cursor d) = Inr (v, next, h') \<and> d' = moved d (c_offset next))"
proof -
  have c: "c_decoder (Decoder_Cursor d) = Some a" using assms by (simp add: fresh_at_def Decoder_Cursor_def)
  note agree = push_bool.agrees [OF assms] push_float32.agrees [OF assms] push_float64.agrees [OF assms]
    push_int32.agrees [OF assms] push_uint16.agrees [OF assms] push_uint32.agrees [OF assms]
    push_uint64.agrees [OF assms] push_uint128.agrees [OF assms] push_bytes_agrees [OF assms] push_string_agrees [OF assms]
  note reads = Decoder_ReadBool_def Decoder_ReadFloat32_def Decoder_ReadFloat64_def Decoder_ReadInt32_def
    Decoder_ReadUint16_def Decoder_ReadUint32_def Decoder_ReadUint64_def Decoder_ReadUint128_def
    ReadBool_def ReadFloat32_def ReadFloat64_def ReadInt32_def ReadUint128_def
  show ?thesis
    by (cases op; simp only: push.simps pull.simps reads returning_Inr agree readScalar_uint [OF c, simplified];
      auto simp: bindE_eq_Inr readScalar_uint [OF c])
qed

section \<open>What a client may do with the decoder while an iterator runs\<close>

text \<open>
  After the client has used a decoder that stood at a value, the end the decoder remembers, if any,
  is the end of that value, and data decoders have changed in their string caches at most.
\<close>

definition within_value :: "heap \<Rightarrow> Decoder \<Rightarrow> heap \<Rightarrow> Decoder \<Rightarrow> bool" where
  "within_value h d h' d' \<longleftrightarrow>
     same_heap h h' \<and> p_d d' = p_d d \<and> p_cursorDecoder d' = p_cursorDecoder d \<and>
     (\<forall>a. p_d d = Some a \<and> p_hasNextOffset d' \<longrightarrow> values_at (h a) 1 (p_offset d) (p_nextOffset d'))"

lemma within_refl: "fresh_at d a \<Longrightarrow> within_value h d h d"
  by (simp add: within_value_def fresh_at_def)

lemma within_moved:
  "fresh_at d a \<Longrightarrow> same_heap h h' \<Longrightarrow> values_at (h a) 1 (p_offset d) n \<Longrightarrow> within_value h d h' (moved d n)"
  by (auto simp: within_value_def fresh_at_def moved_def)

lemma resolved_pointer_end:
  assumes "resolveCtrlData d off = Inr (k, sz, o1, n)" and "n \<noteq> 0"
  shows "values_at d 1 off n"
proof -
  obtain r where "resolves d off r n" and "decodeCtrlData d r = Inr (k, sz, o1)"
    using assms(1) by (rule resolveCtrlData_Inr)
  from resolves_next [OF this] assms(2) show ?thesis by (simp add: stream_Suc)
qed

lemma follow_within:
  assumes "fresh_at d a" and "decodeCtrlDataAndFollow k (h, d) = (r, h', d')"
  shows "within_value h d h' d'"
  using assms within_refl [OF assms(1)] within_moved [OF assms(1) same_heap_refl] resolved_pointer_end
  by (auto simp: follow [OF assms(1)] split: sum.splits prod.splits if_splits)

lemma readValue_within:
  assumes f: "fresh_at d a" and r: "readValue k decode (h, d) = (Inl e, h', d')"
  shows "within_value h d h' d'"
proof -
  obtain x h1 d1 where c: "decodeCtrlDataAndFollow k (h, d) = (x, h1, d1)" by (metis prod_cases3)
  have "h' = h1 \<and> d' = d1"
    using r c by (auto simp: readValue_def wrapping_def andThen_def mapErr_eq_Inl split: sum.splits prod.splits)
  with follow_within [OF f c] show ?thesis by simp
qed

lemma pull_Skip:
  assumes "pull op h c = Inr (v, next, h')" and "c_decoder c = Some a"
  shows "Skip h c = Inr next \<and> same_heap h h'"
proof -
  have uint: "ReadUint h c = Inr (v, n) \<Longrightarrow> Skip h c = Inr n" for h v n
    by (auto simp: ReadUint_eq dest: uint_read.read_Skip)
  show ?thesis
    using assms by (cases op)
      (auto simp: bindE_eq_Inr cursorUint_def ReadBool_def ReadFloat32_def ReadFloat64_def ReadInt32_def ReadUint128_def
        ReadString_def dest!: uint dest: read_bool.read_Skip read_float32.read_Skip read_float64.read_Skip read_int32.read_Skip
        read_uint128.read_Skip ReadBytes_Skip ReadStringMaxSize_Skip ReadStringMaxSize_heap split: if_splits)
qed

lemma returning_Inl: "returning f m w = (Inl e, w') \<longleftrightarrow> m w = (Inl e, w')"
  by (cases "m w"; cases "fst (m w)") (auto simp: returning_def)

lemma push_within:
  assumes f: "fresh_at d a" and p: "push op (h, d) = (r, h', d')"
  shows "within_value h d h' d'"
proof (cases r)
  case (Inr v)
  with p push_pull [OF f] obtain next' where n: "pull op h (Decoder_Cursor d) = Inr (v, next', h')"
    and d': "d' = moved d (c_offset next')" by blast
  have "c_decoder (Decoder_Cursor d) = Some a" using f by (simp add: fresh_at_def)
  from pull_Skip [OF n this] have s: "Skip h (Decoder_Cursor d) = Inr next'" "same_heap h h'" by auto
  from Skip_values [OF s(1)] f have "values_at (h a) 1 (p_offset d) (c_offset next')" by (auto simp: fresh_at_def)
  with within_moved [OF f s(2)] d' show ?thesis by simp
next
  case (Inl e)
  have bytes: "within_value h d h' d'" if "Decoder_ReadBytes (h, d) = (Inl e, h', d')"
  proof -
    obtain x h1 d1 where c: "decodeCtrlDataAndFollow KindBytes (h, d) = (x, h1, d1)" by (metis prod_cases3)
    have "h' = h1 \<and> d' = d1"
    proof (cases x)
      case (Inl e0)
      then show ?thesis using that c by (simp add: Decoder_ReadBytes_def readBytes_def wrapping_def andThen_def)
    next
      case (Inr y)
      then obtain sz o1 where x: "x = Inr (sz, o1)" by (cases y) auto
      with c obtain n where r: "resolveCtrlData (h a) (p_offset d) = Inr (KindBytes, sz, o1, n)"
        and d1: "h1 = h" "d1 = (if n \<noteq> 0 then moved d n else d)"
        by (auto simp: follow [OF f] split: sum.splits if_splits)
      have a: "dataPointer d1 = Inr a" using f d1 by simp
      obtain r' where rd: "decodeCtrlData (h a) r' = Inr (KindBytes, sz, o1)" using r by (rule resolveCtrlData_Inr)
      have sl: "slice (buffer (h a)) o1 (o1 + sz) = Inr (payload (h a) o1 sz)" if "\<not> o1 + sz > glen (buffer (h a))"
        using that guard_iff [OF decodeCtrlData_small [OF rd]] by (intro slice_payload) simp
      then show ?thesis
        using that c x a d1(1) by (auto simp: Decoder_ReadBytes_def readBytes_def wrapping_def andThen_def split: if_splits)
    qed
    with follow_within [OF f c] show ?thesis by simp
  qed
  have string: "within_value h d h' d'" if "Decoder_ReadString (h, d) = (Inl e, h', d')"
    using that f within_refl [OF f] by (auto simp: Decoder_ReadString_def split: sum.splits)
  from p Inl show ?thesis
    by (cases op) (auto simp: returning_Inl Decoder_ReadBool_def Decoder_ReadFloat32_def Decoder_ReadFloat64_def
        Decoder_ReadInt32_def Decoder_ReadUint16_def Decoder_ReadUint32_def Decoder_ReadUint64_def
        Decoder_ReadUint128_def dest: readValue_within [OF f] bytes string)
qed

text \<open>A client whose calls keep to one value of the decoder.\<close>

definition polite :: "('k, 's) yield \<Rightarrow> bool" where
  "polite yield \<longleftrightarrow> (\<forall>k s h d a ok s' h' d'. fresh_at d a \<longrightarrow> yield (Inr k) (s, h, d) = (ok, s', h', d') \<longrightarrow>
     within_value h d h' d')"

text \<open>What the iterators hand out: the keys with the offsets of their values, and where the last one ends.\<close>

fun map_entries :: "DataDecoder \<Rightarrow> nat \<Rightarrow> uint \<Rightarrow> ((bytes \<times> uint) list \<times> uint) res" where
  "map_entries d 0 off = Inr ([], off)"
| "map_entries d (Suc n) off =
     bindE (decodeKey d off) (\<lambda>(key, valueOffset).
     bindE (nextValueOffset d valueOffset 1) (\<lambda>e.
     bindE (map_entries d n e) (\<lambda>(es, stop). Inr ((key, valueOffset) # es, stop))))"

fun slice_entries :: "DataDecoder \<Rightarrow> nat \<Rightarrow> uint \<Rightarrow> ((unit \<times> uint) list \<times> uint) res" where
  "slice_entries d 0 off = Inr ([], off)"
| "slice_entries d (Suc n) off =
     bindE (nextValueOffset d off 1) (\<lambda>e.
     bindE (slice_entries d n e) (\<lambda>(es, stop). Inr (((), off) # es, stop)))"

text \<open>The calls of a client: it is asked at every entry until it stops.\<close>

fun visit :: "('k, 's) yield \<Rightarrow> ('k \<times> uint) list \<Rightarrow> 's \<times> heap \<times> Decoder \<Rightarrow> 's \<times> heap \<times> Decoder" where
  "visit yield [] w = w"
| "visit yield ((k, off) # es) (s, h, d) =
     (case yield (Inr k) (s, h, reset d off) of (ok, w) \<Rightarrow> if ok then visit yield es w else w)"

section \<open>Iteration\<close>

lemma map_entries_values: "map_entries d n off = Inr (es, stop) \<Longrightarrow> values_at d (2 * n) off stop"
proof (induction n arbitrary: off es)
  case 0
  then show ?case by simp
next
  case (Suc n)
  then obtain key vo e es' where "decodeKey d off = Inr (key, vo)" "nextValueOffset d vo 1 = Inr e"
    and m: "map_entries d n e = Inr (es', stop)" by (auto simp: bindE_eq_Inr)
  then have "values_at d 1 off vo" "values_at d 1 vo e"
    using decodeKey_token [of d off key vo] nextValueOffset_sound [of d vo 1 e] by (simp_all add: stream_Suc)
  with Suc.IH [OF m] show ?case by (intro stream_entry)
qed

lemma slice_entries_values: "slice_entries d n off = Inr (es, stop) \<Longrightarrow> values_at d n off stop"
proof (induction n arbitrary: off es)
  case 0
  then show ?case by simp
next
  case (Suc n)
  then obtain e es' where "nextValueOffset d off 1 = Inr e" and m: "slice_entries d n e = Inr (es', stop)"
    by (auto simp: bindE_eq_Inr)
  then have "values_at d 1 off e" using nextValueOffset_sound [of d off 1 e] by simp
  with Suc.IH [OF m] show ?case by (intro stream_element)
qed

lemma same_heap_decoder: "same_heap h h' \<Longrightarrow> \<exists>sc. h' a = stringCache_update (\<lambda>_. sc) (h a)"
  by (simp add: same_heap_def)

lemma same_heap_entries:
  "map_entries (stringCache_update f d) n off = map_entries d n off"
  "slice_entries (stringCache_update f d) n off = slice_entries d n off"
  by (induction n arbitrary: off) simp_all

lemma within_next:
  assumes w: "within_value h d h' d'" and f: "fresh_at d a" and e: "nextValueOffset (h a) (p_offset d) 1 = Inr e"
  shows "valueEndOffsetAfterYield h' d' (p_offset d) = Inr e" and "nextFrom h' d' off n = nextValueOffset (h a) off n"
    and "fresh_at (reset d' off) a"
proof -
  have p: "p_d d' = Some a" "p_cursorDecoder d' = Some a" using w f by (auto simp: within_value_def fresh_at_def)
  obtain sc where h': "h' a = stringCache_update (\<lambda>_. sc) (h a)" using same_heap_decoder [of h h' a] w by (auto simp: within_value_def)
  show n: "nextFrom h' d' off n = nextValueOffset (h a) off n" for off n
    by (simp add: nextFrom_def dataPointer_def p h')
  have "p_nextOffset d' = e" if "p_hasNextOffset d'"
  proof -
    have "values_at (h a) 1 (p_offset d) (p_nextOffset d')" using w f that by (auto simp: within_value_def fresh_at_def)
    moreover have "values_at (h a) 1 (p_offset d) e" using nextValueOffset_sound [OF e] by simp
    ultimately show ?thesis using stream_determ by blast
  qed
  then show "valueEndOffsetAfterYield h' d' (p_offset d) = Inr e" by (simp add: valueEndOffsetAfterYield_def n e)
  show "fresh_at (reset d' off) a" by (simp add: fresh_at_def reset_def p)
qed

lemma value_end_fits:
  assumes "nextValueOffset d off 1 = Inr e"
  shows "unat e \<le> unat (glen (buffer d))"
proof -
  have v: "values_at d (Suc 0) off e" using nextValueOffset_sound [OF assms] by simp
  with plain.stream_start [OF this] show ?thesis using plain.stream_offset [OF v] by simp
qed

text \<open>Finishing a container after the client has stopped.\<close>

lemma finishMap_at:
  assumes w: "within_value h d h' d'" and f: "fresh_at d a" and e: "nextValueOffset (h a) (p_offset d) 1 = Inr e"
    and rest: "values_at (h a) (2 * n) e stop" and n: "n < 2 ^ 32"
  shows "finishMapAfterStop h' d' (p_offset d) (word_of_nat n) = Inr (reset d' stop)"
proof -
  have u: "unat (word_of_nat n * 2 :: uint) = 2 * n"
    using n by (simp add: unat_word_ariths unat_of_nat take_bit_nat_eq_self)
  have fit: "unat e \<le> unat (glen (buffer (h a)))" using e by (rule value_end_fits)
  show ?thesis
  proof (cases "n = 0")
    case True
    then show ?thesis using rest within_next(1) [OF w f e] by (simp add: finishMapAfterStop_def swallow_def)
  next
    case False
    then have "word_of_nat n * 2 \<noteq> (0 :: uint)" using u by auto
    moreover have "nextValueOffset (h a) e (word_of_nat n * 2) = Inr stop"
      using rest fit by (intro nextValueOffset_complete) (simp_all only: u)
    ultimately show ?thesis
      using within_next(1,2) [OF w f e] by (simp add: finishMapAfterStop_def swallow_def Let_def)
  qed
qed

lemma finishSlice_at:
  assumes w: "within_value h d h' d'" and f: "fresh_at d a" and e: "nextValueOffset (h a) (p_offset d) 1 = Inr e"
    and rest: "values_at (h a) n e stop" and n: "n < 2 ^ 32"
  shows "finishSliceAfterStop h' d' (p_offset d) (word_of_nat (Suc n)) = Inr (reset d' stop)"
proof -
  have u: "unat (word_of_nat n :: uint) = n" and u1: "unat (word_of_nat (Suc n) :: uint) = Suc n"
    using n by (simp_all only: unat_of_nat) (simp_all add: take_bit_nat_eq_self)
  have s: "word_of_nat (Suc n) - 1 = (word_of_nat n :: uint)" by simp
  have fit: "unat e \<le> unat (glen (buffer (h a)))" using e by (rule value_end_fits)
  have v: "values_at (h a) 1 (p_offset d) e" using nextValueOffset_sound [OF e] by simp
  have at: "unat (p_offset d) \<le> unat (glen (buffer (h a)))" using v plain.stream_start [of "h a" 0 "p_offset d" e] by simp
  show ?thesis
  proof (cases "p_hasNextOffset d'")
    case True
    then have next': "p_nextOffset d' = e" using within_next(1) [OF w f e] by (simp add: valueEndOffsetAfterYield_def)
    show ?thesis
    proof (cases "n = 0")
      case True
      then show ?thesis using rest next' \<open>p_hasNextOffset d'\<close> by (simp add: finishSliceAfterStop_def)
    next
      case False
      then have "word_of_nat n \<noteq> (0 :: uint)" using u by auto
      moreover have "nextValueOffset (h a) e (word_of_nat n) = Inr stop"
        using rest fit u by (intro nextValueOffset_complete) simp_all
      ultimately show ?thesis
        using next' True within_next(2) [OF w f e] by (simp add: finishSliceAfterStop_def swallow_def s del: of_nat_Suc)
    qed
  next
    case False
    have "word_of_nat (Suc n) \<noteq> (0 :: uint)" using u1 by (metis nat.distinct(1) unat_0)
    moreover have "values_at (h a) (Suc n) (p_offset d) stop" using v rest by (rule stream_element)
    then have "nextValueOffset (h a) (p_offset d) (word_of_nat (Suc n)) = Inr stop"
      using at by (intro nextValueOffset_complete) (simp_all only: u1)
    ultimately show ?thesis
      using False within_next(2) [OF w f e] by (simp add: finishSliceAfterStop_def swallow_def del: of_nat_Suc)
  qed
qed

text \<open>A decoder on a data decoder, wherever it stands.\<close>

lemma on_reset: "p_d d = Some a \<Longrightarrow> p_cursorDecoder d = Some a \<Longrightarrow> fresh_at (reset d off) a"
  by (simp add: fresh_at_def reset_def)

lemma polite_within:
  "polite yield \<Longrightarrow> fresh_at d a \<Longrightarrow> yield (Inr k) (s, h, d) = (ok, s', h', d') \<Longrightarrow> within_value h d h' d'"
  unfolding polite_def by blast

lemma mapIterator_visits:
  assumes "polite yield" and "n < 2 ^ 32"
  shows "map_entries (h a) n off = Inr (es, stop) \<Longrightarrow> p_d d = Some a \<Longrightarrow> p_cursorDecoder d = Some a \<Longrightarrow>
    \<exists>s' h' d'. visit yield es (s, h, d) = (s', h', d') \<and> mapIterator n off yield (s, h, d) = Inr (s', h', reset d' stop)"
  using assms(2)
proof (induction n arbitrary: s h d off es)
  case 0
  then show ?case by simp
next
  case (Suc n)
  obtain key vo e es' where k: "decodeKey (h a) off = Inr (key, vo)" and e: "nextValueOffset (h a) vo 1 = Inr e"
    and m: "map_entries (h a) n e = Inr (es', stop)" and es: "es = (key, vo) # es'"
    using Suc.prems(1) by (auto simp: bindE_eq_Inr)
  have f: "fresh_at (reset d vo) a" using Suc.prems(2,3) by (rule on_reset)
  have a: "dataPointer d = Inr a" using Suc.prems(2) by (simp add: dataPointer_def)
  obtain ok s1 h1 d1 where y: "yield (Inr key) (s, h, reset d vo) = (ok, s1, h1, d1)" by (metis prod_cases4)
  note w = polite_within [OF assms(1) f y]
  have e': "nextValueOffset (h a) (p_offset (reset d vo)) 1 = Inr e" using e by simp
  note next' = within_next(2) [OF w f e'] finishMap_at [OF w f e' map_entries_values [OF m]]
  show ?case
  proof (cases ok)
    case False
    then show ?thesis using k y es a next'(2) Suc.prems(4) by simp
  next
    case True
    obtain sc where h1: "h1 a = stringCache_update (\<lambda>_. sc) (h a)"
      using same_heap_decoder [of h h1 a] w by (auto simp: within_value_def)
    have "p_d d1 = Some a" "p_cursorDecoder d1 = Some a"
      using w Suc.prems(2,3) by (simp_all add: within_value_def reset_def)
    moreover have "map_entries (h1 a) n e = Inr (es', stop)" using m by (simp add: h1 same_heap_entries)
    ultimately show ?thesis
      using Suc.IH [of h1 e es' d1 s1] Suc.prems(4) True k e y es a next'(1) by simp
  qed
qed

lemma sliceIterator_visits:
  assumes "polite yield" and "n < 2 ^ 32"
  shows "slice_entries (h a) n off = Inr (es, stop) \<Longrightarrow> p_d d = Some a \<Longrightarrow> p_cursorDecoder d = Some a \<Longrightarrow>
    \<exists>s' h' d'. visit yield es (s, h, d) = (s', h', d') \<and> sliceIterator n off yield (s, h, d) = Inr (s', h', reset d' stop)"
  using assms(2)
proof (induction n arbitrary: s h d off es)
  case 0
  then show ?case by simp
next
  case (Suc n)
  obtain e es' where e: "nextValueOffset (h a) off 1 = Inr e"
    and m: "slice_entries (h a) n e = Inr (es', stop)" and es: "es = ((), off) # es'"
    using Suc.prems(1) by (auto simp: bindE_eq_Inr)
  have f: "fresh_at (reset d off) a" using Suc.prems(2,3) by (rule on_reset)
  obtain ok s1 h1 d1 where y: "yield (Inr ()) (s, h, reset d off) = (ok, s1, h1, d1)" by (metis prod_cases4)
  note w = polite_within [OF assms(1) f y]
  have e': "nextValueOffset (h a) (p_offset (reset d off)) 1 = Inr e" using e by simp
  note next' = within_next(2) [OF w f e'] finishSlice_at [OF w f e' slice_entries_values [OF m]]
  show ?case
  proof (cases ok)
    case False
    then show ?thesis using y es next'(2) Suc.prems(4) by (simp del: of_nat_Suc)
  next
    case True
    obtain sc where h1: "h1 a = stringCache_update (\<lambda>_. sc) (h a)"
      using same_heap_decoder [of h h1 a] w by (auto simp: within_value_def)
    have "p_d d1 = Some a" "p_cursorDecoder d1 = Some a"
      using w Suc.prems(2,3) by (simp_all add: within_value_def reset_def)
    moreover have "slice_entries (h1 a) n e = Inr (es', stop)" using m by (simp add: h1 same_heap_entries)
    ultimately show ?thesis
      using Suc.IH [of h1 e es' d1 s1] Suc.prems(4) True e y es next'(1) by simp
  qed
qed

text \<open>A client that reads every value with the same operation and stops after \<open>m\<close> of them.\<close>

definition collect :: "push_op \<Rightarrow> nat \<Rightarrow> ('k, ('k \<times> push_value res) list) yield" where
  "collect op m r = (\<lambda>(s, h, d).
     case r of
       Inl err \<Rightarrow> (False, s, h, d)
     | Inr k \<Rightarrow> (case push op (h, d) of (v, h, d) \<Rightarrow> (length s + 1 < m, s @ [(k, v)], h, d)))"

lemma polite_collect: "polite (collect op m)"
  unfolding polite_def collect_def using push_within by (fastforce split: prod.splits)

lemma readContainer:
  assumes "fresh_at d a" and "resolveCtrlData (h a) (p_offset d) = Inr (k, sz, o1, n)"
  shows "decodeCtrlDataAndFollow k (h, d) = (Inr (sz, o1), h, if n \<noteq> 0 then moved d n else d)"
    and "p_d (if n \<noteq> 0 then moved d n else d) = Some a" and "p_cursorDecoder (if n \<noteq> 0 then moved d n else d) = Some a"
    and "unat sz < 2 ^ 32"
  using assms by (auto simp: follow fresh_at_def moved_def elim!: resolveCtrlData_Inr dest: decodeCtrlData_Inr(4))

lemma Skip_container:
  assumes "fresh_at d a" and "resolveCtrlData (h a) (p_offset d) = Inr (k, sz, o1, 0)" and "k = KindMap \<or> k = KindSlice"
    and "values_at (h a) (token_children k sz) o1 stop"
  shows "Skip h (Decoder_Cursor d) = Inr (successor (Decoder_Cursor d) stop)"
  using resolved_container [OF assms(2-4)] assms(1) by (simp add: Skip_def)

text \<open>
  C15. Every read of the \<open>Decoder\<close> agrees with the read of the \<open>Cursor\<close> at its position: one returns
  a value exactly when the other does, the same value, with the same string cache afterwards, and the
  decoder remembers as the end of the value the offset of the cursor's successor.
\<close>

theorem push_reads_agree:
  assumes "fresh_at d a"
  shows "push op (h, d) = (Inr v, h', d') \<longleftrightarrow>
    (\<exists>next. pull op h (Decoder_Cursor d) = Inr (v, next, h') \<and> d' = moved d (c_offset next))"
  using push_pull [OF assms] .

definition sample_push :: "heap \<times> Decoder" where
  "sample_push = NewDecoder (\<lambda>_. zeroDataDecoder) 0
     (NewDataDecoderWithoutStringCache [0xE2, 0x41, 0x61, 0xA1, 7, 0x41, 0x62, 0x20, 3]) 3"

lemma fresh_sample: "fresh_at (snd sample_push) 0" "p_offset (snd sample_push) = 3"
  by (simp_all add: sample_push_def NewDecoder_def fresh_at_def)

theorem push_reads_agree_witness:
  "\<exists>h' d'. push Push_Uint16 (fst sample_push, snd sample_push) = (Inr (IsUint 7), h', d') \<and> p_nextOffset d' = 5"
proof -
  have "bindE (pull Push_Uint16 (fst sample_push) (Decoder_Cursor (snd sample_push))) (\<lambda>(v, next, _). Inr (v, c_offset next)) =
      Inr (IsUint 7, 5)" by code_simp
  then obtain next' h' where "pull Push_Uint16 (fst sample_push) (Decoder_Cursor (snd sample_push)) = Inr (IsUint 7, next', h')"
    and "c_offset next' = 5" by (auto simp: bindE_eq_Inr)
  with push_reads_agree [OF fresh_sample(1), of Push_Uint16 "fst sample_push" "IsUint 7" h' "moved (snd sample_push) 5"]
  show ?thesis by force
qed

text \<open>
  C16. The iterator of \<open>ReadMap\<close> asks the client at every entry, in order, with the key and the
  decoder at the value, until it stops. For a well-formed map (its keys decode and its values end) and a
  client that keeps to the value it is given, reading none, some or all of it but not on behind it
  (\<open>polite\<close>: an end the decoder remembers is the end of that value), the decoder stands afterwards at the
  end of the entries, wherever the client stopped; where the map is not behind a pointer that is where
  \<open>Skip\<close> ends.
\<close>

theorem map_iteration:
  assumes "fresh_at d a" and "polite yield"
    and "resolveCtrlData (h a) (p_offset d) = Inr (KindMap, sz, o1, n)"
    and "map_entries (h a) (unat sz) o1 = Inr (es, stop)"
  shows "\<exists>it d1 s' h' d'. ReadMap (h, d) = (Inr (it, sz), h, d1) \<and> visit yield es (s, h, d1) = (s', h', d') \<and>
    it yield (s, h, d1) = Inr (s', h', reset d' stop) \<and>
    (n = 0 \<longrightarrow> Skip h (Decoder_Cursor d) = Inr (successor (Decoder_Cursor d) stop))"
proof -
  note c = readContainer [where h = h, OF assms(1,3)]
  have "n = 0 \<Longrightarrow> Skip h (Decoder_Cursor d) = Inr (successor (Decoder_Cursor d) stop)"
    using Skip_container [OF assms(1), of h KindMap sz o1 stop] assms(3) map_entries_values [OF assms(4)]
    by (simp add: token_children_def)
  with mapIterator_visits [where h = h and s = s, OF assms(2) c(4) assms(4) c(2,3)] c(1) show ?thesis
    by (simp add: ReadMap_def wrapping_def andThen_def)
qed

theorem map_iteration_witness:
  "\<exists>it d1 s' h' d'. ReadMap (fst sample_push, reset (snd sample_push) 0) = (Inr (it, 2), fst sample_push, d1) \<and>
     it (collect Push_Uint16 1) ([], fst sample_push, d1) = Inr (s', h', reset d' 9)"
proof -
  let ?h = "fst sample_push" and ?d = "reset (snd sample_push) 0"
  have f: "fresh_at ?d 0" using fresh_sample by simp
  have r: "resolveCtrlData (?h 0) (p_offset ?d) = Inr (KindMap, 2, 1, 0)" by code_simp
  have e: "map_entries (?h 0) (unat (2 :: uint)) 1 = Inr ([([0x61], 3), ([0x62], 7)], 9)" by code_simp
  from map_iteration [where h = ?h and s = "[]", OF f polite_collect [of Push_Uint16 1] r e] show ?thesis by blast
qed

text \<open>
  C17. The iterator of \<open>ReadSlice\<close> puts the decoder at every element in turn and asks the client until
  it stops, and leaves the decoder at the end of the elements wherever the client stopped; for a
  well-formed slice and a client that does not read on behind the element it is given (\<open>polite\<close>).
\<close>

theorem slice_iteration:
  assumes "fresh_at d a" and "polite yield"
    and "resolveCtrlData (h a) (p_offset d) = Inr (KindSlice, sz, o1, n)"
    and "slice_entries (h a) (unat sz) o1 = Inr (es, stop)"
  shows "\<exists>it d1 s' h' d'. ReadSlice (h, d) = (Inr (it, sz), h, d1) \<and> visit yield es (s, h, d1) = (s', h', d') \<and>
    it yield (s, h, d1) = Inr (s', h', reset d' stop) \<and>
    (n = 0 \<longrightarrow> Skip h (Decoder_Cursor d) = Inr (successor (Decoder_Cursor d) stop))"
proof -
  note c = readContainer [where h = h, OF assms(1,3)]
  have "n = 0 \<Longrightarrow> Skip h (Decoder_Cursor d) = Inr (successor (Decoder_Cursor d) stop)"
    using Skip_container [OF assms(1), of h KindSlice sz o1 stop] assms(3) slice_entries_values [OF assms(4)]
    by (simp add: token_children_def)
  with sliceIterator_visits [where h = h and s = s, OF assms(2) c(4) assms(4) c(2,3)] c(1) show ?thesis
    by (simp add: ReadSlice_def wrapping_def andThen_def)
qed

definition sample_list :: "heap \<times> Decoder" where
  "sample_list = NewDecoder (\<lambda>_. zeroDataDecoder) 0 (NewDataDecoderWithoutStringCache [2, 4, 0xA1, 7, 0xA0]) 0"

theorem slice_iteration_witness:
  "\<exists>it d1 s' h' d'. ReadSlice sample_list = (Inr (it, 2), fst sample_list, d1) \<and>
     it (collect Push_Uint16 1) ([], fst sample_list, d1) = Inr (s', h', reset d' 5)"
proof -
  let ?h = "fst sample_list" and ?d = "snd sample_list"
  have f: "fresh_at ?d 0" by (simp add: sample_list_def NewDecoder_def fresh_at_def)
  have r: "resolveCtrlData (?h 0) (p_offset ?d) = Inr (KindSlice, 2, 2, 0)" by code_simp
  have e: "slice_entries (?h 0) (unat (2 :: uint)) 2 = Inr ([((), 2), ((), 4)], 5)" by code_simp
  from slice_iteration [where h = ?h and s = "[]", OF f polite_collect [of Push_Uint16 1] r e] show ?thesis by simp blast
qed

section \<open>Positions\<close>

text \<open>\<open>Offset\<close> of the decoder is that of the cursor, with the position itself for an error.\<close>

lemma Decoder_Offset_Cursor:
  assumes "fresh_at d a"
  shows "Decoder_Offset (h, d) =
    (case Cursor_Offset h (Decoder_Cursor d) of Inl _ \<Rightarrow> p_offset d | Inr off \<Rightarrow> off, h, d)"
  using assms by (simp add: Decoder_Offset_def Cursor_Offset_def split: sum.split prod.split)

lemma SkipValue_Skip:
  assumes "fresh_at d a"
  shows "SkipValue (h, d) = (Inr (), h, d') \<longleftrightarrow> (\<exists>next. Skip h (Decoder_Cursor d) = Inr next \<and> d' = reset d (c_offset next))"
  using assms by (auto simp: SkipValue_def Skip_def successor_def bindE_eq_Inr split: sum.splits)

text \<open>
  C18. A cursor read followed by \<open>Advance\<close> moves the decoder exactly as \<open>SkipValue\<close> does, and \<open>Advance\<close>
  takes no other cursor: of the cursors that reads, skips and traversals have handed the client, one
  that a decoder inside its data accepts is the successor of the value at its position. The client has
  kept the contract of \<open>MapReader.End\<close>, to pass it the cursor behind exactly \<open>Len\<close> entries.
\<close>

theorem advance_to_successor:
  assumes "fresh_at d a" and "unat (p_offset d) \<le> unat (glen (buffer (h a)))" and "issued h next"
  shows "(pull op h (Decoder_Cursor d) = Inr (v, next, h') \<longrightarrow> Advance d next = Inr (reset d (c_offset next))) \<and>
    (Advance d next = Inr d' \<longrightarrow> SkipValue (h, d) = (Inr (), h, d'))"
proof -
  have c: "c_decoder (Decoder_Cursor d) = Some a" "p_cursorDecoder d = Some a" using assms(1) by (simp_all add: fresh_at_def)
  have "Advance d next = Inr (reset d (c_offset next))" if p: "pull op h (Decoder_Cursor d) = Inr (v, next, h')"
    using Skip_values [of h "Decoder_Cursor d" "next"] pull_Skip [OF p c(1)] c by (auto simp: Advance_def)
  moreover have "SkipValue (h, d) = (Inr (), h, d')" if adv: "Advance d next = Inr d'"
  proof -
    have "c_decoder next = Some a" "originToken next = p_offset d + 1" and d': "d' = reset d (c_offset next)"
      using adv c by (auto simp: Advance_def split: if_splits)
    then have "nextValueOffset (h a) (p_offset d) 1 = Inr (c_offset next)"
      using issued_proven(1) [OF assms(3)] inc_nonzero [OF assms(2)] by (simp add: proven_def)
    then show ?thesis using assms(1) d' by (simp add: SkipValue_def)
  qed
  ultimately show ?thesis by blast
qed

theorem advance_to_successor_witness:
  "SkipValue sample_push = (Inr (), fst sample_push, reset (snd sample_push) 5)"
proof -
  let ?h = "fst sample_push" and ?d = "snd sample_push"
  let ?next = "\<lparr>c_decoder = Some 0, c_offset = 5, originToken = 4\<rparr>"
  have "Skip ?h \<lparr>c_decoder = Some 0, c_offset = 3, originToken = 0\<rparr> = Inr ?next" by code_simp
  then have "issued ?h ?next" by (rule Skip_issued)
  moreover have "Advance ?d ?next = Inr (reset ?d 5)" by (simp add: Advance_def sample_push_def NewDecoder_def)
  moreover have "unat (p_offset ?d) \<le> unat (glen (buffer (?h 0)))" by code_simp
  ultimately show ?thesis
    using advance_to_successor [OF fresh_sample(1), of ?h ?next Push_Bool "IsBool True" ?h "reset ?d 5"] by simp
qed

text \<open>\<open>Unmarshal\<close> returns the successor of the value whatever the user's method has read of it.\<close>

lemma Unmarshal_Skip:
  assumes "Unmarshal own h c (Some f) = Inr (next, h')" and "c_decoder c = Some a" and "own \<noteq> a"
    and "\<And>w r h1 d1. f w = (r, h1, d1) \<Longrightarrow> same_heap (fst w) h1 \<and> p_owned d1 = p_owned (snd w)"
  shows "Skip h c = Inr next"
proof -
  obtain h1 d1 where f: "f (acquireDecoder h own (Some a) (c_offset c)) = (Inr (), h1, d1)"
    and n: "nextValueOffset ((h1(p_owned d1 := zeroDataDecoder)) a) (c_offset c) 1 = Inr (c_offset next)"
    and next': "next = successor c (c_offset next)"
    using assms(1,2) by (auto simp: Unmarshal_def releaseDecoder_def bindE_eq_Inr successor_def split: sum.splits prod.splits)
  have "same_heap (h(own := zeroDataDecoder)) h1" and o: "p_owned d1 = own"
    using assms(4) [OF f] by (simp_all add: acquireDecoder_def)
  then obtain sc where "h1 a = stringCache_update (\<lambda>_. sc) (h a)"
    using same_heap_decoder [of "h(own := zeroDataDecoder)" h1 a] assms(3) by auto
  then have "nextValueOffset (h a) (c_offset c) 1 = Inr (c_offset next)" using n o assms(3) by simp
  then show ?thesis using assms(2) next' by (simp add: Skip_def)
qed

end
