(* ===== verification/SearchTree.thy ===== *)
theory SearchTree
  imports Errors DataDecoder
begin

text \<open>
  The search tree of a database (\<open>reader.go\<close>): Go's \<open>netip.Addr\<close> as the code uses it, the readers of
  a node's two child pointers, and the three traversals, one for each record size. The traversals
  repeat the same two loops around the read of a child; the loops are stated once over that read.
  A bit count is a natural number: the code's are between 0 and 128.
\<close>

section \<open>Addresses\<close>

text \<open>
  \<open>netip.Addr\<close>: the zero value, an IPv4 or an IPv6 address (a zone plays no part here). \<open>As16\<close> maps
  an IPv4 address to \<open>::ffff:a.b.c.d\<close>; \<open>As4\<close> accepts that form back and panics on other IPv6
  addresses.
\<close>

datatype Addr = ZeroAddr | V4 "32 word" | V6 "128 word"

definition Is4 :: "Addr \<Rightarrow> bool" where
  "Is4 ip \<longleftrightarrow> (case ip of V4 _ \<Rightarrow> True | _ \<Rightarrow> False)"

definition Is6 :: "Addr \<Rightarrow> bool" where
  "Is6 ip \<longleftrightarrow> (case ip of V6 _ \<Rightarrow> True | _ \<Rightarrow> False)"

definition IsValid :: "Addr \<Rightarrow> bool" where
  "IsValid ip \<longleftrightarrow> ip \<noteq> ZeroAddr"

definition As16 :: "Addr \<Rightarrow> 128 word" where
  "As16 ip = (case ip of ZeroAddr \<Rightarrow> 0 | V4 a \<Rightarrow> push_bit 32 0xffff OR ucast a | V6 a \<Rightarrow> a)"

definition As4 :: "Addr \<Rightarrow> 32 word res" where
  "As4 ip =
     (case ip of
        V4 a \<Rightarrow> Inr a
      | V6 a \<Rightarrow> if drop_bit 32 a = 0xffff then Inr (ucast a) else Inl Panic
      | ZeroAddr \<Rightarrow> Inl Panic)"

text \<open>\<open>binary.BigEndian.Uint32(ip16[chunk*4:])\<close> of the 16 bytes of an address.\<close>

definition chunk32 :: "128 word \<Rightarrow> nat \<Rightarrow> 32 word res" where
  "chunk32 ip16 chunk = (if chunk < 4 then Inr (ucast (drop_bit (32 * (3 - chunk)) ip16)) else Inl Panic)"

section \<open>Nodes\<close>

text \<open>\<open>uint(b[0])<<16 | uint(b[1])<<8 | uint(b[2])\<close>, and the same for four bytes.\<close>

definition read24 :: "bytes \<Rightarrow> uint \<Rightarrow> uint res" where
  "read24 buf o1 =
     bindE (index buf o1) (\<lambda>b0. bindE (index buf (o1 + 1)) (\<lambda>b1. bindE (index buf (o1 + 2)) (\<lambda>b2.
       Inr (push_bit 16 (ucast b0) OR push_bit 8 (ucast b1) OR ucast b2))))"

definition read32 :: "bytes \<Rightarrow> uint \<Rightarrow> uint res" where
  "read32 buf o1 =
     bindE (index buf o1) (\<lambda>b0. bindE (index buf (o1 + 1)) (\<lambda>b1. bindE (index buf (o1 + 2)) (\<lambda>b2.
     bindE (index buf (o1 + 3)) (\<lambda>b3.
       Inr (push_bit 24 (ucast b0) OR push_bit 16 (ucast b1) OR push_bit 8 (ucast b2) OR ucast b3)))))"

definition readNodePairBySize :: "bytes \<Rightarrow> uint \<Rightarrow> uint \<Rightarrow> (uint \<times> uint) res" where
  "readNodePairBySize buf baseOffset recordSize =
     (let bufferLen = glen buf in
      if recordSize = 24 then
        if \<not> hasBufferRange bufferLen baseOffset 6 then
          Inl (InvalidDatabaseError (TreeMsg (NodePairOutOfBounds 24)))
        else
          bindE (read24 buf baseOffset) (\<lambda>left. bindE (read24 buf (baseOffset + 3)) (\<lambda>right.
            Inr (left, right)))
      else if recordSize = 28 then
        if \<not> hasBufferRange bufferLen baseOffset 7 then
          Inl (InvalidDatabaseError (TreeMsg (NodePairOutOfBounds 28)))
        else
          bindE (index buf (baseOffset + 3)) (\<lambda>b. let shared = ucast b :: uint in
          bindE (read24 buf baseOffset) (\<lambda>left. bindE (read24 buf (baseOffset + 4)) (\<lambda>right.
            Inr (push_bit 20 (shared AND 0xF0) OR left, push_bit 24 (shared AND 0x0F) OR right))))
      else if recordSize = 32 then
        if \<not> hasBufferRange bufferLen baseOffset 8 then
          Inl (InvalidDatabaseError (TreeMsg (NodePairOutOfBounds 32)))
        else
          bindE (read32 buf baseOffset) (\<lambda>left. bindE (read32 buf (baseOffset + 4)) (\<lambda>right.
            Inr (left, right)))
      else Inl (InvalidDatabaseError (TreeMsg UnsupportedRecordSize)))"

text \<open>\<open>readNode28\<close> works on a 32-bit word, read from four bytes; the shifts drop the bits beyond.\<close>

definition readNode28 :: "bytes \<Rightarrow> uint \<Rightarrow> uint \<Rightarrow> uint res" where
  "readNode28 buf baseOffset side =
     (let offset = baseOffset + side * 3 in
      bindE (slice buf offset (offset + 4)) (\<lambda>bs.
        let w = be_word bs :: 32 word; left = 1 - side in
        Inr (ucast ((drop_bit (unat (left * 8)) w AND 0x00FFFFFF) OR
                    (push_bit (unat (left * 20)) w AND 0x0F000000)))))"

text \<open>The child of a node as each traversal reads it.\<close>

definition child24 :: "bytes \<Rightarrow> uint \<Rightarrow> uint \<Rightarrow> uint res" where
  "child24 buf node side = (let baseOffset = node * 6 in read24 buf (baseOffset + side * 3))"

definition child28 :: "bytes \<Rightarrow> uint \<Rightarrow> uint \<Rightarrow> uint res" where
  "child28 buf node side = (let baseOffset = node * 7 in readNode28 buf baseOffset side)"

definition child32 :: "bytes \<Rightarrow> uint \<Rightarrow> uint \<Rightarrow> uint res" where
  "child32 buf node side = (let baseOffset = node * 8 in read32 buf (baseOffset + side * 4))"

section \<open>Traversal\<close>

text \<open>The inner loop: at most \<open>n\<close> bits of \<open>ipBits\<close>, most significant first, counted in \<open>i\<close>.\<close>

fun bit_loop :: "(uint \<Rightarrow> uint \<Rightarrow> uint res) \<Rightarrow> uint \<Rightarrow> nat \<Rightarrow> uint \<Rightarrow> 32 word \<Rightarrow> nat \<Rightarrow> (uint \<times> nat) res" where
  "bit_loop child nodeCount 0 node ipBits i = Inr (node, i)"
| "bit_loop child nodeCount (Suc n) node ipBits i =
     (if node < nodeCount then
        let side = ucast (drop_bit 31 ipBits AND 1) in
        bindE (child node side) (\<lambda>node. bit_loop child nodeCount n node (push_bit 1 ipBits) (i + 1))
      else Inr (node, i))"

lemma bit_loop_count: "bit_loop child nodeCount n node ipBits i = Inr (node', i') \<Longrightarrow> i \<le> i' \<and> i' \<le> i + n"
proof (induction n arbitrary: node ipBits i)
  case 0
  then show ?case by simp
next
  case (Suc n)
  then show ?case by (fastforce simp: Let_def bindE_eq_Inr split: if_splits)
qed

lemma bit_loop_progress:
  "bit_loop child nodeCount n node ipBits i = Inr (node', i') \<Longrightarrow> 0 < n \<Longrightarrow> node < nodeCount \<Longrightarrow> i < i'"
  by (cases n) (auto simp: Let_def bindE_eq_Inr dest: bit_loop_count)

text \<open>The outer loop over an IPv6 address, 32 bits of it at a time.\<close>

function chunk_loop ::
  "(uint \<Rightarrow> uint \<Rightarrow> uint res) \<Rightarrow> uint \<Rightarrow> 128 word \<Rightarrow> nat \<Rightarrow> uint \<Rightarrow> nat \<Rightarrow> (uint \<times> nat) res" where
  "chunk_loop child nodeCount ip16 stopBit node i =
     (if i < stopBit \<and> node < nodeCount then
        bindE (chunk32 ip16 (i div 32)) (\<lambda>chunk.
          let offsetInChunk = i mod 32;
              ipBits = push_bit offsetInChunk chunk;
              bitsToProcess = min (32 - offsetInChunk) (stopBit - i)
          in bindE (bit_loop child nodeCount bitsToProcess node ipBits i) (\<lambda>(node, i).
               chunk_loop child nodeCount ip16 stopBit node i))
      else Inr (node, i))"
  by pat_completeness auto
termination
proof (relation "measure (\<lambda>(child, nodeCount, ip16, stopBit, node, i). stopBit - i)", goal_cases)
  case 1
  show ?case by simp
next
  case (2 child nodeCount ip16 stopBit node i chunk x xa xb y node' i')
  then have "i < i'"
    by (intro bit_loop_progress [of child nodeCount _ node _ i node' i']) (auto simp: min_def)
  with 2 show ?case by auto
qed

declare chunk_loop.simps [simp del]

text \<open>
  The part the three traversals share: an IPv4 address starts at the IPv4 subtree and has 32 bits;
  the number of bits it starts with is \<open>startDepth\<close>.
\<close>

definition traverse ::
  "(uint \<Rightarrow> uint \<Rightarrow> uint res) \<Rightarrow> uint \<Rightarrow> uint \<Rightarrow> nat \<Rightarrow> Addr \<Rightarrow> uint \<Rightarrow> nat \<Rightarrow> (uint \<times> nat) res" where
  "traverse child nodeCount ipv4Start startDepth ip node stopBit =
     (if Is4 ip then
        let i = startDepth; node = ipv4Start in
        if stopBit \<le> i then Inr (node, i)
        else
          bindE (As4 ip) (\<lambda>ipBits.
            let remainingBits = min (stopBit - i) 32 in
            bit_loop child nodeCount remainingBits node ipBits i)
      else chunk_loop child nodeCount (As16 ip) stopBit node 0)"

section \<open>Descending along bits\<close>

text \<open>
  The reference for every traversal: follow a list of bits from a node until the node is not an
  internal one; the result says where it ended and how many bits it used.
\<close>

fun descend :: "(uint \<Rightarrow> uint \<Rightarrow> uint res) \<Rightarrow> uint \<Rightarrow> uint \<Rightarrow> bool list \<Rightarrow> (uint \<times> nat) res" where
  "descend child nodeCount node [] = Inr (node, 0)"
| "descend child nodeCount node (b # bs) =
     (if node < nodeCount then
        bindE (child node (of_bool b)) (\<lambda>next.
        bindE (descend child nodeCount next bs) (\<lambda>(m, k). Inr (m, Suc k)))
      else Inr (node, 0))"

lemma descend_leaf: "\<not> node < nodeCount \<Longrightarrow> descend child nodeCount node bs = Inr (node, 0)"
  by (cases bs) simp_all

lemma descend_append:
  "descend child nodeCount node (xs @ ys) =
     bindE (descend child nodeCount node xs) (\<lambda>(m, k).
     bindE (descend child nodeCount m ys) (\<lambda>(m', k'). Inr (m', k + k')))"
proof (induction xs arbitrary: node)
  case Nil
  show ?case by (cases "descend child nodeCount node ys") auto
next
  case (Cons x xs)
  show ?case
  proof (cases "node < nodeCount")
    case False
    then show ?thesis by (simp add: descend_leaf)
  next
    case True
    then show ?thesis
      by (cases "child node (of_bool x)") (simp_all add: Cons.IH bindE_assoc split_def)
  qed
qed

lemma descend_length: "descend child nodeCount node bs = Inr (m, k) \<Longrightarrow> k \<le> length bs"
  by (induction bs arbitrary: node m k) (auto simp: bindE_eq_Inr split: if_splits)

lemma descend_all: "descend child nodeCount node bs = Inr (m, k) \<Longrightarrow> m < nodeCount \<Longrightarrow> k = length bs"
  by (induction bs arbitrary: node m k) (auto simp: bindE_eq_Inr split: if_splits)

text \<open>Whoever agrees on the bits used ends at the same node.\<close>

lemma descend_prefix:
  "descend child nodeCount node bs = Inr (m, k) \<Longrightarrow> length bs' = length bs \<Longrightarrow> take k bs' = take k bs \<Longrightarrow>
     descend child nodeCount node bs' = Inr (m, k)"
proof (induction bs arbitrary: node m k bs')
  case Nil
  then show ?case by simp
next
  case (Cons b bs)
  then obtain b' cs where bs': "bs' = b' # cs" by (cases bs') auto
  show ?case
  proof (cases "node < nodeCount")
    case False
    then show ?thesis using Cons.prems by (auto simp: bs')
  next
    case True
    then obtain n j where n: "child node (of_bool b) = Inr n" "descend child nodeCount n bs = Inr (m, j)"
      and k: "k = Suc j" using Cons.prems(1) by (auto simp: bindE_eq_Inr)
    with Cons.prems bs' have "b' = b" "length cs = length bs" "take j cs = take j bs" by auto
    with Cons.IH [OF n(2)] True n show ?thesis by (simp add: bs' k)
  qed
qed

definition addBits :: "nat \<Rightarrow> (uint \<times> nat) res \<Rightarrow> (uint \<times> nat) res" where
  "addBits i r = bindE r (\<lambda>(m, k). Inr (m, i + k))"

lemma addBits_0 [simp]: "addBits 0 r = r"
  by (cases r) (auto simp: addBits_def)

text \<open>The bits of an address, most significant first, from position \<open>i\<close> up to \<open>j\<close>.\<close>

definition bits32 :: "32 word \<Rightarrow> nat \<Rightarrow> bool list" where
  "bits32 a n = map (\<lambda>k. bit a (31 - k)) [0..<n]"

definition bits128 :: "128 word \<Rightarrow> nat \<Rightarrow> nat \<Rightarrow> bool list" where
  "bits128 a i j = map (\<lambda>k. bit a (127 - k)) [i..<j]"

lemma top_bit_of_bool: "(ucast (drop_bit 31 a AND 1) :: uint) = of_bool (bit (a :: 32 word) 31)"
  by (rule bit_word_eqI) (auto simp: bit_simps)

lemma bits32_shift: "n < 32 \<Longrightarrow> bits32 a (Suc n) = bit a 31 # bits32 (push_bit 1 a) n"
proof -
  assume n: "n < 32"
  have "bit (push_bit 1 a) (31 - k) = bit a (31 - Suc k)" if "k < n" for k
    using that n unfolding bit_push_bit_iff by auto
  then have "map (\<lambda>k. bit a (31 - k)) (map Suc [0..<n]) = map (\<lambda>k. bit (push_bit 1 a) (31 - k)) [0..<n]"
    by simp
  then show ?thesis by (simp add: bits32_def upt_conv_Cons map_Suc_upt del: upt_Suc)
qed

lemma bit_loop_descend:
  "n \<le> 32 \<Longrightarrow> bit_loop child nodeCount n node a i = addBits i (descend child nodeCount node (bits32 a n))"
proof (induction n arbitrary: node a i)
  case 0
  then show ?case by (simp add: bits32_def addBits_def)
next
  case (Suc n)
  then have "bits32 a (Suc n) = bit a 31 # bits32 (push_bit 1 a) n" by (intro bits32_shift) simp
  with Suc show ?case
    by (cases "child node (of_bool (bit a 31))")
      (simp_all add: top_bit_of_bool addBits_def Let_def bindE_assoc split_def)
qed

lemma chunk_bits:
  assumes "i div 32 < 4" and "n \<le> 32 - i mod 32" and "chunk32 a (i div 32) = Inr c"
  shows "bits32 (push_bit (i mod 32) c) n = bits128 a i (i + n)"
proof -
  have "bit (push_bit (i mod 32) c) (31 - k) = bit a (127 - (i + k))" if "k < n" for k
  proof -
    have k: "i mod 32 + k < 32" using that assms(2) by simp
    have "32 * (3 - i div 32) + (31 - k - i mod 32) = 127 - (i + k)"
      using assms(1) k div_mult_mod_eq [of i 32] by (simp add: diff_mult_distrib2)
    then show ?thesis
      using assms(1,3) k by (auto simp: chunk32_def bit_simps)
  qed
  moreover have "map (\<lambda>k. bit a (127 - k)) [i..<i + n] = map (\<lambda>k. bit a (127 - (i + k))) [0..<n]"
    by (intro nth_equalityI) simp_all
  ultimately show ?thesis by (simp add: bits32_def bits128_def)
qed

lemma bits128_append: "i \<le> j \<Longrightarrow> j \<le> k \<Longrightarrow> bits128 a i k = bits128 a i j @ bits128 a j k"
  using upt_add_eq_append [of i j "k - j"] by (simp add: bits128_def)

lemma chunk_loop_descend:
  "stopBit \<le> 128 \<Longrightarrow> i \<le> stopBit \<Longrightarrow> chunk_loop child nodeCount a stopBit node i =
     addBits i (descend child nodeCount node (bits128 a i stopBit))"
proof (induction child nodeCount a stopBit node i rule: chunk_loop.induct)
  case (1 child nodeCount a stopBit node i)
  show ?case
  proof (cases "i < stopBit \<and> node < nodeCount")
    case False
    then show ?thesis
      using "1.prems" by (auto simp: chunk_loop.simps [of _ _ _ _ _ i] addBits_def bits128_def descend_leaf)
  next
    case True
    define n where "n = min (32 - i mod 32) (stopBit - i)"
    have c4: "i div 32 < 4" using True "1.prems" by (intro less_mult_imp_div_less) simp
    then obtain c where c: "chunk32 a (i div 32) = Inr c" by (simp add: chunk32_def)
    have n: "n \<le> 32 - i mod 32" "n \<le> 32" "i + n \<le> stopBit" using True by (auto simp: n_def)
    have split: "bits128 a i stopBit = bits128 a i (i + n) @ bits128 a (i + n) stopBit"
      using n by (intro bits128_append) simp_all
    have inner: "bit_loop child nodeCount n node (push_bit (i mod 32) c) i =
        addBits i (descend child nodeCount node (bits128 a i (i + n)))"
      using bit_loop_descend [OF n(2)] chunk_bits [OF c4 n(1) c] by simp
    show ?thesis
    proof (cases "descend child nodeCount node (bits128 a i (i + n))")
      case (Inl e)
      then show ?thesis
        using True c inner by (simp add: chunk_loop.simps [of _ _ _ _ _ i] split descend_append addBits_def n_def)
    next
      case (Inr r)
      then obtain m k where mk: "descend child nodeCount node (bits128 a i (i + n)) = Inr (m, k)" by (cases r) auto
      have "bit_loop child nodeCount (min (32 - i mod 32) (stopBit - i)) node (push_bit (i mod 32) c) i = Inr (m, i + k)"
        using inner mk by (simp add: addBits_def n_def)
      note ih = "1.IH" [OF True c refl refl refl this refl "1.prems"(1)]
      have k: "k \<le> n" using descend_length [OF mk] by (simp add: bits128_def)
      show ?thesis
      proof (cases "m < nodeCount")
        case False
        then show ?thesis
          using True c inner mk ih k n(3) "1.prems"
          by (simp add: chunk_loop.simps [of _ _ _ _ _ i] split descend_append addBits_def n_def descend_leaf)
      next
        case True
        then have "k = n" using descend_all [OF mk] by (simp add: bits128_def)
        then show ?thesis
          using \<open>i < stopBit \<and> node < nodeCount\<close> c inner mk ih n(3) "1.prems"
          by (simp add: chunk_loop.simps [of _ _ _ _ _ i] split descend_append addBits_def n_def bindE_assoc
              Let_def split_def add.assoc)
      qed
    qed
  qed
qed

lemma traverse_descend:
  assumes "stopBit \<le> 128"
  shows "traverse child nodeCount ipv4Start startDepth ip node stopBit =
    (case ip of
       V4 a \<Rightarrow>
         if stopBit \<le> startDepth then Inr (ipv4Start, startDepth)
         else addBits startDepth (descend child nodeCount ipv4Start (bits32 a (min (stopBit - startDepth) 32)))
     | _ \<Rightarrow> descend child nodeCount node (bits128 (As16 ip) 0 stopBit))"
  using assms bit_loop_descend chunk_loop_descend [of stopBit 0]
  by (cases ip) (simp_all add: traverse_def Is4_def As4_def Let_def)

section \<open>The two readers of a node agree\<close>

lemma masks:
  "(0x00FFFFFF :: 32 word) = mask 24" "(0x0F000000 :: 32 word) = push_bit 24 (mask 4)"
  "(0xF0 :: uint) = push_bit 4 (mask 4)" "(0x0F :: uint) = mask 4"
  by (simp_all add: mask_eq_decr_exp numeral_eq_Suc)

lemma left28:
  fixes b0 b1 b2 sb :: byte
  defines "w \<equiv> push_bit 8 (push_bit 8 (push_bit 8 (ucast b0) OR ucast b1) OR ucast b2) OR ucast sb :: 32 word"
  shows "ucast ((drop_bit 8 w AND mask 24) OR (push_bit 20 w AND push_bit 24 (mask 4))) =
    push_bit 20 (ucast sb AND push_bit 4 (mask 4)) OR (push_bit 16 (ucast b0) OR push_bit 8 (ucast b1) OR ucast b2 :: uint)"
  (is "?l = ?r")
proof (rule bit_word_eqI)
  fix n assume n: "n < LENGTH(64)"
  consider "n < 8" | "8 \<le> n" "n < 16" | "16 \<le> n" "n < 24" | "24 \<le> n" "n < 28" | "28 \<le> n" by linarith
  then show "bit ?l n \<longleftrightarrow> bit ?r n"
    using n by cases (auto simp: w_def bit_simps bit_mask_iff dest: bit_imp_le_length)
qed

lemma right28:
  fixes b0 b1 b2 sb :: byte
  defines "w \<equiv> push_bit 8 (push_bit 8 (push_bit 8 (ucast sb) OR ucast b0) OR ucast b1) OR ucast b2 :: 32 word"
  shows "ucast ((w AND mask 24) OR (w AND push_bit 24 (mask 4))) =
    push_bit 24 (ucast sb AND mask 4) OR (push_bit 16 (ucast b0) OR push_bit 8 (ucast b1) OR ucast b2 :: uint)"
  (is "?l = ?r")
proof (rule bit_word_eqI)
  fix n assume n: "n < LENGTH(64)"
  consider "n < 8" | "8 \<le> n" "n < 16" | "16 \<le> n" "n < 24" | "24 \<le> n" "n < 28" | "28 \<le> n" by linarith
  then show "bit ?l n \<longleftrightarrow> bit ?r n"
    using n by cases (auto simp: w_def bit_simps bit_mask_iff dest: bit_imp_le_length)
qed

lemma index_at:
  assumes "unat o1 + k < unat (glen (buf :: bytes))"
  shows "index buf (o1 + word_of_nat k) = Inr (buf ! (unat o1 + k))"
proof -
  have u: "unat (o1 + word_of_nat k) = unat o1 + k"
    using assms unat_glen_bound [of buf]
    by (subst unat_add_small) (simp_all add: unat_of_nat take_bit_nat_eq_self)
  then show ?thesis using assms by (simp add: index_def word_less_nat_alt)
qed

lemma read_at:
  assumes "unat o1 + 2 < unat (glen buf)"
  shows "read24 buf o1 = Inr (push_bit 16 (ucast (buf ! unat o1)) OR
      push_bit 8 (ucast (buf ! (unat o1 + 1))) OR ucast (buf ! (unat o1 + 2)))"
  using assms index_at [of o1 0 buf] index_at [of o1 1 buf] index_at [of o1 2 buf]
  by (simp add: read24_def)

lemma read32_at:
  assumes "unat o1 + 3 < unat (glen buf)"
  shows "\<exists>v. read32 buf o1 = Inr v"
  using assms index_at [of o1 0 buf] index_at [of o1 1 buf] index_at [of o1 2 buf] index_at [of o1 3 buf]
  by (simp add: read32_def)

lemma unat_add_at:
  "unat o1 + k \<le> unat (glen (buf :: bytes)) \<Longrightarrow> unat (o1 + word_of_nat k :: uint) = unat o1 + k"
  using unat_glen_bound [of buf] by (subst unat_add_small) (simp_all add: unat_of_nat take_bit_nat_eq_self)

lemma take_4_nth: "n + 4 \<le> length xs \<Longrightarrow> take 4 (drop n xs) = [xs ! n, xs ! (n + 1), xs ! (n + 2), xs ! (n + 3)]"
  by (rule nth_equalityI) (auto simp: nth_Cons' numeral_eq_Suc less_Suc_eq)

lemma slice_4:
  assumes "unat o1 + 4 \<le> unat (glen (buf :: bytes))"
  shows "slice buf o1 (o1 + 4) =
    Inr [buf ! unat o1, buf ! (unat o1 + 1), buf ! (unat o1 + 2), buf ! (unat o1 + 3)]"
proof -
  have u: "unat (o1 + 4) = unat o1 + 4" using unat_add_at [of o1 4 buf] assms by simp
  have "unat o1 + 4 \<le> length buf" using assms by (simp add: unat_glen)
  with u assms take_4_nth show ?thesis by (simp add: slice_def word_le_nat_alt)
qed

lemma node28_pair:
  assumes "unat o1 + 7 \<le> unat (glen buf)"
  shows "\<exists>l r. readNodePairBySize buf o1 28 = Inr (l, r) \<and> readNode28 buf o1 0 = Inr l \<and> readNode28 buf o1 1 = Inr r"
proof -
  have u3: "unat (o1 + 3) = unat o1 + 3" and u4: "unat (o1 + 4) = unat o1 + 4"
    using unat_add_at [of o1 3 buf] unat_add_at [of o1 4 buf] assms by simp_all
  have r: "hasBufferRange (glen buf) o1 7" using assms by (simp add: hasBufferRange_iff)
  have i: "index buf (o1 + 3) = Inr (buf ! (unat o1 + 3))" using index_at [of o1 3 buf] assms by simp
  have e: "o1 + 3 + 4 = o1 + 7" by simp
  have "unat (o1 + 3) + 4 \<le> unat (glen buf)" using u3 assms by simp
  note slice_4 [OF this, unfolded u3 e]
  then have s: "slice buf (o1 + 3) (o1 + 7) =
      Inr [buf ! (unat o1 + 3), buf ! (unat o1 + 4), buf ! (unat o1 + 5), buf ! (unat o1 + 6)]"
    by (simp add: add.commute)
  let ?b = "\<lambda>k. buf ! (unat o1 + k)"
  let ?l = "push_bit 20 (ucast (?b 3) AND 0xF0) OR (push_bit 16 (ucast (?b 0)) OR push_bit 8 (ucast (?b 1)) OR ucast (?b 2)) :: uint"
  let ?r = "push_bit 24 (ucast (?b 3) AND 0x0F) OR (push_bit 16 (ucast (?b 4)) OR push_bit 8 (ucast (?b 5)) OR ucast (?b 6)) :: uint"
  have "unat (o1 + 4) + 2 < unat (glen buf)" using u4 assms by simp
  note read_at [OF this, unfolded u4]
  then have "read24 buf (o1 + 4) = Inr (push_bit 16 (ucast (?b 4)) OR push_bit 8 (ucast (?b 5)) OR ucast (?b 6))"
    by (simp add: add.commute)
  then have "readNodePairBySize buf o1 28 = Inr (?l, ?r)"
    using r i read_at [of o1 buf] assms
    by (simp add: readNodePairBySize_def Let_def)
  moreover have "readNode28 buf o1 0 = Inr ?l"
    using slice_4 [of o1 buf] assms left28 [of "?b 0" "?b 1" "?b 2" "?b 3", folded masks]
    by (simp add: readNode28_def be_word_def Let_def)
  moreover have "readNode28 buf o1 1 = Inr ?r"
    using s [unfolded add.commute [of o1 7]] right28 [of "?b 3" "?b 4" "?b 5" "?b 6", folded masks]
    by (simp add: readNode28_def be_word_def Let_def)
  ultimately show ?thesis by blast
qed

text \<open>
  The contract between the tree and its readers: a node takes \<open>mult\<close> bytes (the code's
  \<open>nodeOffsetMult\<close>), and a traversal that reads one child gets what the pair reader gets.
\<close>

definition covers :: "bytes \<Rightarrow> uint \<Rightarrow> nat \<Rightarrow> bool" where
  "covers buf nodeCount mult \<longleftrightarrow> unat nodeCount * mult \<le> unat (glen buf)"

locale node_reader =
  fixes recordSize :: uint and mult :: nat and child :: "bytes \<Rightarrow> uint \<Rightarrow> uint \<Rightarrow> uint res"
  assumes pair: "unat node * mult + mult \<le> unat (glen buf) \<Longrightarrow>
    \<exists>l r. readNodePairBySize buf (node * word_of_nat mult) recordSize = Inr (l, r) \<and>
      child buf node 0 = Inr l \<and> child buf node 1 = Inr r"
begin

lemma inside: "covers buf nodeCount mult \<Longrightarrow> node < nodeCount \<Longrightarrow> unat node * mult + mult \<le> unat (glen buf)"
proof -
  assume c: "covers buf nodeCount mult" and n: "node < nodeCount"
  have "Suc (unat node) * mult \<le> unat nodeCount * mult"
    using n by (intro mult_right_mono) (auto simp: word_less_nat_alt)
  then show ?thesis using c by (simp add: covers_def)
qed

lemma child_pair:
  assumes "covers buf nodeCount mult" and "node < nodeCount"
  obtains l r where "readNodePairBySize buf (node * word_of_nat mult) recordSize = Inr (l, r)"
    and "\<And>b. child buf node (of_bool b) = Inr (if b then r else l)"
  using pair [OF inside [OF assms]] by force

lemma descend_total: "covers buf nodeCount mult \<Longrightarrow> \<exists>m k. descend (child buf) nodeCount node bs = Inr (m, k)"
proof (induction bs arbitrary: node)
  case Nil
  then show ?case by simp
next
  case (Cons b bs)
  show ?case
  proof (cases "node < nodeCount")
    case False
    then show ?thesis by simp
  next
    case True
    then obtain n where n: "child buf node (of_bool b) = Inr n" using child_pair [OF Cons.prems] by metis
    obtain m k where "descend (child buf) nodeCount n bs = Inr (m, k)" using Cons by blast
    with True n show ?thesis by simp
  qed
qed

end

lemma unat_node_mult:
  assumes "unat node * mult + mult \<le> unat (glen (buf :: bytes))" and "mult < 16"
  shows "unat (node * word_of_nat mult :: uint) = unat node * mult"
proof -
  have "unat (word_of_nat mult :: uint) = mult" using assms(2) by (simp add: unat_of_nat take_bit_nat_eq_self)
  with assms unat_glen_bound [of buf] show ?thesis by (subst unat_mult_lem [THEN iffD1]) simp_all
qed

interpretation nodes24: node_reader 24 6 child24
proof
  fix node :: uint and buf :: bytes
  assume a: "unat node * 6 + 6 \<le> unat (glen buf)"
  then have u: "unat (node * 6) = unat node * 6" using unat_node_mult [of node 6 buf] by simp
  with a have "unat (node * 6 + 3) = unat node * 6 + 3" using unat_add_at [of "node * 6" 3 buf] by simp
  with a u show "\<exists>l r. readNodePairBySize buf (node * word_of_nat 6) 24 = Inr (l, r) \<and>
      child24 buf node 0 = Inr l \<and> child24 buf node 1 = Inr r"
    using read_at [of "node * 6" buf] read_at [of "node * 6 + 3" buf]
    by (simp add: readNodePairBySize_def child24_def Let_def hasBufferRange_iff)
qed

interpretation nodes28: node_reader 28 7 child28
proof
  fix node :: uint and buf :: bytes
  assume a: "unat node * 7 + 7 \<le> unat (glen buf)"
  then have "unat (node * 7) = unat node * 7" using unat_node_mult [of node 7 buf] by simp
  with a show "\<exists>l r. readNodePairBySize buf (node * word_of_nat 7) 28 = Inr (l, r) \<and>
      child28 buf node 0 = Inr l \<and> child28 buf node 1 = Inr r"
    using node28_pair [of "node * 7" buf] by (simp add: child28_def)
qed

interpretation nodes32: node_reader 32 8 child32
proof
  fix node :: uint and buf :: bytes
  assume a: "unat node * 8 + 8 \<le> unat (glen buf)"
  then have u: "unat (node * 8) = unat node * 8" using unat_node_mult [of node 8 buf] by simp
  with a have "unat (node * 8 + 4) = unat node * 8 + 4" using unat_add_at [of "node * 8" 4 buf] by simp
  with a u obtain l r where "read32 buf (node * 8) = Inr l" "read32 buf (node * 8 + 4) = Inr r"
    using read32_at [of "node * 8" buf] read32_at [of "node * 8 + 4" buf] by auto
  with a u show "\<exists>l r. readNodePairBySize buf (node * word_of_nat 8) 32 = Inr (l, r) \<and>
      child32 buf node 0 = Inr l \<and> child32 buf node 1 = Inr r"
    by (simp add: readNodePairBySize_def child32_def Let_def hasBufferRange_iff)
qed

end
