(* ===== verification/Reader.thy ===== *)
theory Reader
  imports SearchTree Budget
begin

text \<open>
  The reader of a database (\<open>reader.go\<close>, \<open>result.go\<close>): what \<open>OpenBytes\<close> builds from a file and its
  decoded metadata, lookups, and the accessors of a result. The reader is a record; \<open>OpenBytes\<close>
  fills it in once and \<open>Close\<close> clears it, nothing else changes it.
\<close>

section \<open>Readers\<close>

record Metadata =
  Description :: "(gostring \<times> gostring) list"
  DatabaseType :: gostring
  Languages :: "gostring list"
  BinaryFormatMajorVersion :: uint
  BinaryFormatMinorVersion :: uint
  BuildEpoch :: uint
  IPVersion :: uint
  NodeCount :: uint
  RecordSize :: uint

text \<open>\<open>reader_buffer\<close> is \<open>None\<close> once the database is closed.\<close>

record Reader =
  hasMappedFile :: bool
  reader_decoder :: ReflectionDecoder
  reader_buffer :: "bytes option"
  metadata :: Metadata
  ipv4Start :: uint
  nodeOffsetMult :: uint
  dataSectionSize :: uint
  ipv4StartBitDepth :: nat

definition buf :: "Reader \<Rightarrow> bytes" where
  "buf r = (case reader_buffer r of None \<Rightarrow> [] | Some b \<Rightarrow> b)"

definition dataSectionSeparatorSize :: uint where
  "dataSectionSeparatorSize = 16"

definition metadataStartMarker :: bytes where
  "metadataStartMarker = [0xAB, 0xCD, 0xEF] @ ascii ''MaxMind.com''"

text \<open>\<open>bytes.LastIndex\<close>, with \<open>None\<close> for \<open>-1\<close>.\<close>

fun LastIndex :: "bytes \<Rightarrow> bytes \<Rightarrow> nat option" where
  "LastIndex [] sep = (if sep = [] then Some 0 else None)"
| "LastIndex (b # bs) sep =
     (case LastIndex bs sep of
        Some i \<Rightarrow> Some (i + 1)
      | None \<Rightarrow> if take (length sep) (b # bs) = sep then Some 0 else None)"

section \<open>Traversals\<close>

definition traverseTree24 :: "Reader \<Rightarrow> Addr \<Rightarrow> uint \<Rightarrow> nat \<Rightarrow> (uint \<times> nat) res" where
  "traverseTree24 r ip node stopBit =
     (if glen (buf r) < NodeCount (metadata r) * 6 then
        Inl (InvalidDatabaseError (TreeMsg TraversalOutOfBounds))
      else traverse (child24 (buf r)) (NodeCount (metadata r)) (ipv4Start r) (ipv4StartBitDepth r) ip node stopBit)"

definition traverseTree28 :: "Reader \<Rightarrow> Addr \<Rightarrow> uint \<Rightarrow> nat \<Rightarrow> (uint \<times> nat) res" where
  "traverseTree28 r ip node stopBit =
     (if glen (buf r) < NodeCount (metadata r) * 7 then
        Inl (InvalidDatabaseError (TreeMsg TraversalOutOfBounds))
      else traverse (child28 (buf r)) (NodeCount (metadata r)) (ipv4Start r) (ipv4StartBitDepth r) ip node stopBit)"

definition traverseTree32 :: "Reader \<Rightarrow> Addr \<Rightarrow> uint \<Rightarrow> nat \<Rightarrow> (uint \<times> nat) res" where
  "traverseTree32 r ip node stopBit =
     (if glen (buf r) < NodeCount (metadata r) * 8 then
        Inl (InvalidDatabaseError (TreeMsg TraversalOutOfBounds))
      else traverse (child32 (buf r)) (NodeCount (metadata r)) (ipv4Start r) (ipv4StartBitDepth r) ip node stopBit)"

definition traverseTree :: "Reader \<Rightarrow> Addr \<Rightarrow> uint \<Rightarrow> nat \<Rightarrow> (uint \<times> nat) res" where
  "traverseTree r ip node stopBit =
     (if RecordSize (metadata r) = 24 then traverseTree24 r ip node stopBit
      else if RecordSize (metadata r) = 28 then traverseTree28 r ip node stopBit
      else if RecordSize (metadata r) = 32 then traverseTree32 r ip node stopBit
      else Inl (InvalidDatabaseError (TreeMsg UnsupportedRecordSize)))"

section \<open>Opening and closing\<close>

definition searchTreeSizeBytes :: "uint \<Rightarrow> uint \<Rightarrow> uint" where
  "searchTreeSizeBytes nodeCount recordSize = nodeCount * (recordSize div 4)"

definition zeroIP :: Addr where
  "zeroIP = V6 0"

definition setIPv4Start :: "Reader \<Rightarrow> Reader res" where
  "setIPv4Start r =
     (if IPVersion (metadata r) \<noteq> 6 then Inr (r\<lparr>ipv4StartBitDepth := 96\<rparr>)
      else bindE (traverseTree r zeroIP 0 96) (\<lambda>(node, i).
        Inr (r\<lparr>ipv4Start := node, ipv4StartBitDepth := i\<rparr>)))"

text \<open>
  \<open>OpenBytes\<close> from the decoded metadata on; \<open>metadataStart\<close> is the offset behind the last marker.
\<close>

definition openMetadata :: "bytes \<Rightarrow> uint \<Rightarrow> Metadata \<Rightarrow> bool \<Rightarrow> Reader res" where
  "openMetadata file metadataStart md disableStringCache =
     bindE (if NodeCount md > 0 \<and> RecordSize md > 0 then
              let recordSizeQuarter = RecordSize md div 4 in
              if recordSizeQuarter > 0 \<and> NodeCount md > NOT 0 div recordSizeQuarter
              then Inl (InvalidDatabaseError (FileMsg TreeSizeOverflow)) else Inr ()
            else Inr ()) (\<lambda>_.
       let searchTreeSize = searchTreeSizeBytes (NodeCount md) (RecordSize md);
           dataSectionStart = searchTreeSize + dataSectionSeparatorSize;
           dataSectionEnd = metadataStart - glen metadataStartMarker
       in if dataSectionStart > dataSectionEnd then Inl (InvalidDatabaseError (FileMsg InvalidMetadata))
       else bindE (slice file dataSectionStart dataSectionEnd) (\<lambda>dataSection.
         let d = (if disableStringCache then NewWithoutStringCache dataSection else NewReflectionDecoder dataSection)
         in setIPv4Start
              \<lparr>hasMappedFile = False, reader_decoder = d, reader_buffer = Some file, metadata = md,
               ipv4Start = 0, nodeOffsetMult = RecordSize md div 4,
               dataSectionSize = dataSectionEnd - dataSectionStart, ipv4StartBitDepth = 0\<rparr>))"

text \<open>The offset behind the marker, where \<open>OpenBytes\<close> decodes the metadata.\<close>

definition findMetadata :: "bytes \<Rightarrow> uint res" where
  "findMetadata file =
     (case LastIndex file metadataStartMarker of
        None \<Rightarrow> Inl (InvalidDatabaseError (FileMsg InvalidMaxMindDBFile))
      | Some i \<Rightarrow> Inr (word_of_nat i + glen metadataStartMarker))"

text \<open>\<open>munmap\<close> is the operating system's: its error is the argument.\<close>

definition Close :: "gerr option \<Rightarrow> Reader \<Rightarrow> gerr option \<times> Reader" where
  "Close munmap r =
     (if hasMappedFile r then munmap else None,
      r\<lparr>hasMappedFile := False, reader_buffer := None, reader_decoder := NewWithoutStringCache [],
        dataSectionSize := 0\<rparr>)"

section \<open>Lookups\<close>

definition hasIPv4Subtree :: "Reader \<Rightarrow> bool" where
  "hasIPv4Subtree r \<longleftrightarrow> IPVersion (metadata r) = 4 \<or> ipv4Start r < NodeCount (metadata r)"

text \<open>An error comes with the prefix length that is returned beside it.\<close>

definition lookupPointer :: "Reader \<Rightarrow> Addr \<Rightarrow> (gerr \<times> nat) + (uint \<times> nat)" where
  "lookupPointer r ip =
     (if \<not> IsValid ip then Inl (PlainError ''invalid IP address'', 0)
      else if IPVersion (metadata r) = 4 \<and> Is6 ip then
        Inl (PlainError ''you attempted to look up an IPv6 address in an IPv4-only database'', 0)
      else
        case traverseTree r ip 0 128 of
          Inl err \<Rightarrow> Inl (err, 0)
        | Inr (node, prefixLength) \<Rightarrow>
            let nodeCount = NodeCount (metadata r) in
            if node > nodeCount then Inr (node, prefixLength)
            else if node = nodeCount then Inr (0, prefixLength)
            else Inl (InvalidDatabaseError (TreeMsg InvalidNode), prefixLength))"

definition resolveDataPointer :: "Reader \<Rightarrow> uint \<Rightarrow> uint res" where
  "resolveDataPointer r pointer =
     (let minPointer = NodeCount (metadata r) + dataSectionSeparatorSize in
      if pointer < minPointer then Inl (InvalidDatabaseError (TreeMsg CorruptSearchTree))
      else
        let resolved = pointer - minPointer in
        if resolved \<ge> dataSectionSize r then Inl (InvalidDatabaseError (TreeMsg CorruptSearchTree))
        else Inr resolved)"

record Result =
  res_ip :: Addr
  res_err :: "gerr option"
  res_reader :: "Reader option"
  res_offset :: uint
  res_prefixLen :: byte

definition notFound :: uint where
  "notFound = NOT 0"

definition zeroResult :: Result where
  "zeroResult = \<lparr>res_ip = ZeroAddr, res_err = None, res_reader = None, res_offset = 0, res_prefixLen = 0\<rparr>"

text \<open>A failing \<open>resolveDataPointer\<close> returns the offset 0.\<close>

definition Lookup :: "Reader \<Rightarrow> Addr \<Rightarrow> Result" where
  "Lookup r ip =
     (if reader_buffer r = None then
        zeroResult\<lparr>res_err := Some (PlainError ''cannot call Lookup on a closed database'')\<rparr>
      else
        case lookupPointer r ip of
          Inl (err, prefixLen) \<Rightarrow>
            zeroResult\<lparr>res_ip := ip, res_prefixLen := word_of_nat prefixLen, res_err := Some err\<rparr>
        | Inr (pointer, prefixLen) \<Rightarrow>
            if pointer = 0 then
              zeroResult\<lparr>res_ip := ip, res_prefixLen := word_of_nat prefixLen, res_offset := notFound\<rparr>
            else
              let res = zeroResult\<lparr>res_reader := Some r, res_ip := ip, res_prefixLen := word_of_nat prefixLen\<rparr> in
              (case resolveDataPointer r pointer of
                 Inl err \<Rightarrow> res\<lparr>res_err := Some err\<rparr>
               | Inr offset \<Rightarrow> res\<lparr>res_offset := offset\<rparr>))"

definition LookupOffset :: "Reader \<Rightarrow> uint \<Rightarrow> Result" where
  "LookupOffset r offset =
     (if reader_buffer r = None then
        zeroResult\<lparr>res_err := Some (PlainError ''cannot call LookupOffset on a closed database'')\<rparr>
      else zeroResult\<lparr>res_reader := Some r, res_offset := offset\<rparr>)"

section \<open>Results\<close>

definition Err :: "Result \<Rightarrow> gerr option" where
  "Err r = res_err r"

definition Found :: "Result \<Rightarrow> bool" where
  "Found r \<longleftrightarrow> res_err r = None \<and> res_offset r \<noteq> notFound"

definition Offset :: "Result \<Rightarrow> uint" where
  "Offset r = res_offset r"

definition ipv4PrefixLen :: "Result \<Rightarrow> nat \<Rightarrow> nat \<times> bool" where
  "ipv4PrefixLen r prefixLen =
     (case res_reader r of
        Some rd \<Rightarrow>
          if hasIPv4Subtree rd then
            if prefixLen < ipv4StartBitDepth rd then (prefixLen, False)
            else (prefixLen - ipv4StartBitDepth rd, True)
          else if prefixLen < 96 then (prefixLen, False) else (prefixLen - 96, True)
      | None \<Rightarrow> if prefixLen < 96 then (prefixLen, False) else (prefixLen - 96, True))"

text \<open>
  \<open>netip.Prefix\<close>: an address and its number of bits, \<open>None\<close> for an invalid prefix. \<open>Addr.Prefix\<close>
  clears the bits behind the prefix.
\<close>

type_synonym Prefix = "Addr \<times> nat option"

definition mask_prefix :: "'w::len word \<Rightarrow> nat \<Rightarrow> 'w word" where
  "mask_prefix a b = a AND NOT (mask (LENGTH('w) - b))"

definition Addr_Prefix :: "Addr \<Rightarrow> nat \<Rightarrow> Prefix res" where
  "Addr_Prefix ip b =
     (case ip of
        ZeroAddr \<Rightarrow> Inr (ZeroAddr, None)
      | V4 a \<Rightarrow>
          if b > 32 then Inl (PlainError ''prefix length is too large for IPv4'')
          else Inr (V4 (mask_prefix a b), Some b)
      | V6 a \<Rightarrow>
          if b > 128 then Inl (PlainError ''prefix length is too large for IPv6'')
          else Inr (V6 (mask_prefix a b), Some b))"

definition PrefixFrom :: "Addr \<Rightarrow> nat \<Rightarrow> Prefix" where
  "PrefixFrom ip b =
     (ip, case ip of ZeroAddr \<Rightarrow> None | V4 _ \<Rightarrow> if b \<le> 32 then Some b else None
        | V6 _ \<Rightarrow> if b \<le> 128 then Some b else None)"

definition Result_Prefix :: "Result \<Rightarrow> Prefix" where
  "Result_Prefix r =
     (let ip = res_ip r;
          prefixLen = unat (res_prefixLen r);
          (prefixLen, isIPv4) = (if Is4 ip then ipv4PrefixLen r prefixLen else (prefixLen, True))
      in if Is4 ip \<and> \<not> isIPv4 then PrefixFrom zeroIP prefixLen
         else (case Addr_Prefix ip prefixLen of Inl _ \<Rightarrow> (ZeroAddr, None) | Inr prefix \<Rightarrow> prefix))"

end
