(* ===== verification/Lookups.thy ===== *)
theory Lookups
  imports Reader
begin

text \<open>
  Properties of lookups: on a tree that the file covers, every traversal is the descent along the
  bits of the address and cannot panic; IPv4 addresses are found where their IPv6 form is; a
  result's prefix is exactly a network with one answer. And what \<open>OpenBytes\<close> checks of the tree size.
\<close>

section \<open>Covered trees\<close>

definition child_of :: "Reader \<Rightarrow> uint \<Rightarrow> uint \<Rightarrow> uint res" where
  "child_of r =
     (if RecordSize (metadata r) = 24 then child24 (buf r)
      else if RecordSize (metadata r) = 28 then child28 (buf r) else child32 (buf r))"

definition node_size :: "Reader \<Rightarrow> nat" where
  "node_size r = unat (RecordSize (metadata r) div 4)"

definition supported :: "uint \<Rightarrow> bool" where
  "supported recordSize \<longleftrightarrow> recordSize = 24 \<or> recordSize = 28 \<or> recordSize = 32"

definition tree_covered :: "Reader \<Rightarrow> bool" where
  "tree_covered r \<longleftrightarrow>
     supported (RecordSize (metadata r)) \<and> covers (buf r) (NodeCount (metadata r)) (node_size r)"

lemma node_size [simp]:
  "RecordSize (metadata r) = 24 \<Longrightarrow> node_size r = 6"
  "RecordSize (metadata r) = 28 \<Longrightarrow> node_size r = 7"
  "RecordSize (metadata r) = 32 \<Longrightarrow> node_size r = 8"
  by (simp_all add: node_size_def)

lemma tree_covered_cases:
  assumes "tree_covered r"
  obtains (s24) "RecordSize (metadata r) = 24" and "covers (buf r) (NodeCount (metadata r)) 6"
    | (s28) "RecordSize (metadata r) = 28" and "covers (buf r) (NodeCount (metadata r)) 7"
    | (s32) "RecordSize (metadata r) = 32" and "covers (buf r) (NodeCount (metadata r)) 8"
  using assms by (auto simp: tree_covered_def supported_def)

lemma covers_guard:
  assumes "covers b nodeCount mult" and "mult < 16"
  shows "\<not> glen b < nodeCount * word_of_nat mult"
proof -
  have "unat (word_of_nat mult :: uint) = mult" using assms(2) by (simp add: unat_of_nat take_bit_nat_eq_self)
  moreover from this have "unat (nodeCount * word_of_nat mult) = unat nodeCount * mult"
    using assms unat_glen_bound [of b] by (subst unat_mult_lem [THEN iffD1]) (simp_all add: covers_def)
  ultimately show ?thesis using assms(1) by (simp add: word_less_nat_alt covers_def)
qed

lemma covers_guards:
  "covers b n 6 \<Longrightarrow> \<not> glen b < n * 6" "covers b n 7 \<Longrightarrow> \<not> glen b < n * 7" "covers b n 8 \<Longrightarrow> \<not> glen b < n * 8"
  using covers_guard [of b n 6] covers_guard [of b n 7] covers_guard [of b n 8] by simp_all

lemma traverseTree_covered:
  assumes "tree_covered r"
  shows "traverseTree r ip node stopBit =
    traverse (child_of r) (NodeCount (metadata r)) (ipv4Start r) (ipv4StartBitDepth r) ip node stopBit"
  using assms
  by (cases rule: tree_covered_cases)
    (simp_all add: traverseTree_def traverseTree24_def traverseTree28_def traverseTree32_def child_of_def covers_guards)

lemma descend_covered:
  assumes "tree_covered r"
  shows "\<exists>m k. descend (child_of r) (NodeCount (metadata r)) node bs = Inr (m, k)"
  using assms
proof (cases rule: tree_covered_cases)
  case s24
  then show ?thesis using nodes24.descend_total by (simp add: child_of_def)
next
  case s28
  then show ?thesis using nodes28.descend_total by (simp add: child_of_def)
next
  case s32
  then show ?thesis using nodes32.descend_total by (simp add: child_of_def)
qed

lemma child_covered:
  assumes "tree_covered r" and "node < NodeCount (metadata r)" and "nodeOffsetMult r = RecordSize (metadata r) div 4"
  obtains l rt where
    "readNodePairBySize (buf r) (node * nodeOffsetMult r) (RecordSize (metadata r)) = Inr (l, rt)"
    and "\<And>b. child_of r node (of_bool b) = Inr (if b then rt else l)"
  using assms(1)
proof (cases rule: tree_covered_cases)
  case s24
  then show ?thesis using nodes24.child_pair [OF _ assms(2)] that assms(3) by (auto simp: child_of_def)
next
  case s28
  then show ?thesis using nodes28.child_pair [OF _ assms(2)] that assms(3) by (auto simp: child_of_def)
next
  case s32
  then show ?thesis using nodes32.child_pair [OF _ assms(2)] that assms(3) by (auto simp: child_of_def)
qed

text \<open>The bits a traversal uses, and where it starts.\<close>

definition lookup_bits :: "Reader \<Rightarrow> Addr \<Rightarrow> bool list" where
  "lookup_bits r ip = (case ip of V4 a \<Rightarrow> bits32 a (min (128 - ipv4StartBitDepth r) 32) | _ \<Rightarrow> bits128 (As16 ip) 0 128)"

definition lookup_start :: "Reader \<Rightarrow> Addr \<Rightarrow> uint \<times> nat" where
  "lookup_start r ip = (if Is4 ip then (ipv4Start r, ipv4StartBitDepth r) else (0, 0))"

lemma traverse_lookup:
  assumes "tree_covered r" and "ipv4StartBitDepth r \<le> 96"
  shows "traverseTree r ip 0 128 = addBits (snd (lookup_start r ip))
    (descend (child_of r) (NodeCount (metadata r)) (fst (lookup_start r ip)) (lookup_bits r ip))"
  using assms(2)
  by (cases ip) (simp_all add: traverseTree_covered [OF assms(1)] traverse_descend lookup_start_def lookup_bits_def Is4_def)

text \<open>A reader as \<open>OpenBytes\<close> leaves it.\<close>

definition opened :: "Reader \<Rightarrow> bool" where
  "opened r \<longleftrightarrow> (\<exists>fl start md nocache. openMetadata fl start md nocache = Inr r)"

lemma openMetadata_Inr:
  assumes "openMetadata fl start md nocache = Inr r"
  shows "reader_buffer r = Some fl" and "metadata r = md" and "nodeOffsetMult r = RecordSize md div 4"
    and "NodeCount md > 0 \<Longrightarrow> RecordSize md div 4 > 0 \<Longrightarrow> NodeCount md \<le> NOT 0 div (RecordSize md div 4)"
    and "dataSectionSize r = (start - glen metadataStartMarker) - (searchTreeSizeBytes (NodeCount md) (RecordSize md) + 16)"
    and "searchTreeSizeBytes (NodeCount md) (RecordSize md) + 16 \<le> start - glen metadataStartMarker"
    and "start - glen metadataStartMarker \<le> glen fl"
  using assms
  by (auto simp: openMetadata_def setIPv4Start_def Let_def bindE_eq_Inr slice_def dataSectionSeparatorSize_def
      not_less word_gt_0 split: if_splits)

lemma opened_ipv4Start:
  assumes "opened r"
  shows "if IPVersion (metadata r) = 6 then traverseTree r zeroIP 0 96 = Inr (ipv4Start r, ipv4StartBitDepth r)
    else ipv4Start r = 0 \<and> ipv4StartBitDepth r = 96"
proof -
  obtain fl start md nocache where "openMetadata fl start md nocache = Inr r"
    using assms by (auto simp: opened_def)
  then obtain r0 where r0: "setIPv4Start r0 = Inr r" and "ipv4Start r0 = 0"
    by (auto simp: openMetadata_def Let_def bindE_eq_Inr split: if_splits)
  have "traverseTree (r0\<lparr>ipv4Start := n, ipv4StartBitDepth := i\<rparr>) zeroIP 0 96 = traverseTree r0 zeroIP 0 96" for n i
    by (simp add: traverseTree_def traverseTree24_def traverseTree28_def traverseTree32_def buf_def
        traverse_def zeroIP_def Is4_def)
  with r0 \<open>ipv4Start r0 = 0\<close> show ?thesis
    by (auto simp: setIPv4Start_def bindE_eq_Inr split: if_splits)
qed

lemma opened_depth:
  assumes "opened r" and "tree_covered r"
  shows "ipv4StartBitDepth r \<le> 96"
proof (cases "IPVersion (metadata r) = 6")
  case True
  then have "descend (child_of r) (NodeCount (metadata r)) 0 (bits128 0 0 96) = Inr (ipv4Start r, ipv4StartBitDepth r)"
    using opened_ipv4Start [OF assms(1)] assms(2) by (simp add: traverseTree_covered traverse_descend zeroIP_def As16_def)
  from descend_length [OF this] show ?thesis by (simp add: bits128_def)
next
  case False
  then show ?thesis using opened_ipv4Start [OF assms(1)] by simp
qed

text \<open>The overflow check of \<open>OpenBytes\<close> makes the guard of the traversals exact.\<close>

lemma no_wrap:
  fixes n q :: uint
  assumes "n \<le> NOT 0 div q" and "q > 0"
  shows "unat (n * q) = unat n * unat q"
proof -
  have "unat n * unat q \<le> unat (NOT 0 div q) * unat q"
    using assms(1) by (intro mult_right_mono) (simp_all add: word_le_nat_alt)
  also have "\<dots> \<le> unat (NOT 0 :: uint)" by (simp add: unat_div)
  also have "\<dots> < 2 ^ 64" by (simp add: unsigned_minus_1_eq_mask mask_eq_exp_minus_1)
  finally show ?thesis by (intro unat_mult_lem [THEN iffD1]) simp
qed

lemma checked_guard:
  assumes "NodeCount (metadata r) > 0 \<Longrightarrow> NodeCount (metadata r) \<le> NOT 0 div (RecordSize (metadata r) div 4)"
    and "supported (RecordSize (metadata r))"
  shows "(glen (buf r) < NodeCount (metadata r) * (RecordSize (metadata r) div 4)) = (\<not> tree_covered r)"
proof -
  have q: "RecordSize (metadata r) div 4 > 0" using assms(2) by (auto simp: supported_def)
  have "unat (NodeCount (metadata r) * (RecordSize (metadata r) div 4)) =
      unat (NodeCount (metadata r)) * node_size r"
    using no_wrap [OF assms(1) q]
    by (cases "NodeCount (metadata r) = 0") (simp_all add: word_gt_0 node_size_def)
  then show ?thesis using assms(2) by (simp add: tree_covered_def covers_def word_less_nat_alt not_le)
qed

lemma checked_uncovered:
  assumes "NodeCount (metadata r) > 0 \<Longrightarrow> RecordSize (metadata r) div 4 > 0 \<Longrightarrow>
      NodeCount (metadata r) \<le> NOT 0 div (RecordSize (metadata r) div 4)"
    and "\<not> tree_covered r"
  shows "traverseTree r ip node stopBit =
    Inl (InvalidDatabaseError (TreeMsg (if supported (RecordSize (metadata r)) then TraversalOutOfBounds
      else UnsupportedRecordSize)))"
proof (cases "supported (RecordSize (metadata r))")
  case True
  then have "RecordSize (metadata r) div 4 > 0" by (auto simp: supported_def)
  with checked_guard [OF assms(1) True] True assms(2) show ?thesis
    by (auto simp: supported_def traverseTree_def traverseTree24_def traverseTree28_def traverseTree32_def)
next
  case False
  then show ?thesis by (simp add: supported_def traverseTree_def)
qed

lemma opened_checked:
  assumes "opened r" and "NodeCount (metadata r) > 0" and "RecordSize (metadata r) div 4 > 0"
  shows "NodeCount (metadata r) \<le> NOT 0 div (RecordSize (metadata r) div 4)"
  using assms openMetadata_Inr(2,4) unfolding opened_def by blast

lemma opened_uncovered:
  assumes "opened r" and "\<not> tree_covered r"
  shows "traverseTree r ip node stopBit =
    Inl (InvalidDatabaseError (TreeMsg (if supported (RecordSize (metadata r)) then TraversalOutOfBounds
      else UnsupportedRecordSize)))"
  by (rule checked_uncovered [OF opened_checked [OF assms(1)] assms(2)])

section \<open>Lookups\<close>

text \<open>The specification of a lookup: descend along the address, and classify where it ends.\<close>

definition lookup_spec :: "Reader \<Rightarrow> Addr \<Rightarrow> (gerr \<times> nat) + (uint \<times> nat)" where
  "lookup_spec r ip =
     (case descend (child_of r) (NodeCount (metadata r)) (fst (lookup_start r ip)) (lookup_bits r ip) of
        Inl e \<Rightarrow> Inl (e, 0)
      | Inr (node, k) \<Rightarrow>
          if node > NodeCount (metadata r) then Inr (node, snd (lookup_start r ip) + k)
          else if node = NodeCount (metadata r) then Inr (0, snd (lookup_start r ip) + k)
          else Inl (InvalidDatabaseError (TreeMsg InvalidNode), snd (lookup_start r ip) + k))"

lemma lookup_eq:
  assumes "opened r" and "IsValid ip" and "\<not> (IPVersion (metadata r) = 4 \<and> Is6 ip)"
  shows "lookupPointer r ip =
     (if tree_covered r then lookup_spec r ip
      else Inl (InvalidDatabaseError (TreeMsg (if supported (RecordSize (metadata r)) then TraversalOutOfBounds
        else UnsupportedRecordSize)), 0)) \<and>
     no_panic (map_sum fst id (lookupPointer r ip)) \<and>
     (tree_covered r \<longrightarrow> (\<exists>node k. descend (child_of r) (NodeCount (metadata r)) (fst (lookup_start r ip))
        (lookup_bits r ip) = Inr (node, k)))"
proof (cases "tree_covered r")
  case False
  then show ?thesis using assms opened_uncovered by (simp add: lookupPointer_def)
next
  case True
  obtain node k where d: "descend (child_of r) (NodeCount (metadata r)) (fst (lookup_start r ip))
      (lookup_bits r ip) = Inr (node, k)" using descend_covered [OF True] by blast
  have "traverseTree r ip 0 128 = Inr (node, snd (lookup_start r ip) + k)"
    using traverse_lookup [OF True opened_depth [OF assms(1) True], of ip] d by (simp add: addBits_def)
  then show ?thesis
    using assms(2,3) True d by (simp add: lookupPointer_def lookup_spec_def Let_def)
qed

text \<open>
  C31. On a database that \<open>OpenBytes\<close> accepts and whose tree the file covers, for each record size and
  both address families, a lookup is exactly the descent along the bits of the address, from the root
  or (IPv4) from the start of the IPv4 subtree, and the descent always ends at a node. On one it accepts
  though the file does not cover the tree, or the record size is none of 24, 28 and 32, every lookup
  reports just that. It never panics.
\<close>

theorem lookup_descends:
  assumes "opened r" and "IsValid ip" and "\<not> (IPVersion (metadata r) = 4 \<and> Is6 ip)"
  shows "lookupPointer r ip =
     (if tree_covered r then lookup_spec r ip
      else Inl (InvalidDatabaseError (TreeMsg (if supported (RecordSize (metadata r)) then TraversalOutOfBounds
        else UnsupportedRecordSize)), 0)) \<and>
     no_panic (map_sum fst id (lookupPointer r ip)) \<and>
     (tree_covered r \<longrightarrow> (\<exists>node k. descend (child_of r) (NodeCount (metadata r)) (fst (lookup_start r ip))
        (lookup_bits r ip) = Inr (node, k)))"
  using assms by (rule lookup_eq)

lemma bits128_ipv4: "bits128 (ucast (a :: 32 word)) 0 128 = bits128 0 0 96 @ bits32 a 32"
proof (rule nth_equalityI)
  show "length (bits128 (ucast a) 0 128) = length (bits128 0 0 96 @ bits32 a 32)"
    by (simp add: bits128_def bits32_def)
  fix k assume "k < length (bits128 (ucast a) 0 128)"
  then have k: "k < 128" by (simp add: bits128_def)
  show "bits128 (ucast a) 0 128 ! k = (bits128 0 0 96 @ bits32 a 32) ! k"
  proof (cases "k < 96")
    case True
    then have "\<not> bit a (127 - k)" using bit_imp_le_length [of a "127 - k"] by auto
    then show ?thesis using True by (simp add: bits128_def nth_append bit_simps)
  next
    case False
    have "127 - k = 31 - (k - 96)" using False k by simp
    then show ?thesis using False k by (auto simp: bits128_def bits32_def nth_append bit_simps)
  qed
qed

lemma ipv4_lookup_eq:
  assumes "opened r" and "IPVersion (metadata r) = 6"
  shows "lookupPointer r (V4 a) = lookupPointer r (V6 (ucast a))"
proof (cases "tree_covered r")
  case False
  then show ?thesis using opened_uncovered [OF assms(1)]
    by (simp add: lookupPointer_def assms(2) IsValid_def)
next
  case True
  let ?d = "descend (child_of r) (NodeCount (metadata r))"
  have depth: "ipv4StartBitDepth r \<le> 96" by (rule opened_depth [OF assms(1) True])
  have start: "?d 0 (bits128 0 0 96) = Inr (ipv4Start r, ipv4StartBitDepth r)"
    using opened_ipv4Start [OF assms(1)] assms(2) True by (simp add: traverseTree_covered traverse_descend zeroIP_def As16_def)
  have "?d 0 (bits128 (ucast a) 0 128) = addBits (ipv4StartBitDepth r) (?d (ipv4Start r) (bits32 a 32))"
    using start by (simp add: bits128_ipv4 descend_append addBits_def)
  moreover have "min (128 - ipv4StartBitDepth r) 32 = 32" using depth by simp
  ultimately have "traverseTree r (V4 a) 0 128 = traverseTree r (V6 (ucast a)) 0 128"
    using traverse_lookup [OF True depth]
    by (simp add: lookup_bits_def lookup_start_def Is4_def As16_def)
  then show ?thesis by (simp add: lookupPointer_def assms(2) IsValid_def)
qed

text \<open>
  C32. In an IPv6 database an IPv4 address is found exactly where its IPv6 form \<open>::a.b.c.d\<close> is: the
  lookup that starts at the stored root of the IPv4 subtree gives the pointer, the prefix length and
  the error of the lookup that walks all 128 bits from the root of the tree.
\<close>

theorem ipv4_lookup_agrees:
  assumes "opened r" and "IPVersion (metadata r) = 6"
  shows "lookupPointer r (V4 a) = lookupPointer r (V6 (ucast a))"
  using assms by (rule ipv4_lookup_eq)

text \<open>A one-node database: 0.0.0.0/1 is empty, 128.0.0.0/1 has the record "a" at offset 0.\<close>

definition sample_file :: bytes where
  "sample_file = [0, 0, 1, 0, 0, 17] @ replicate 16 0 @ [0x41, 0x61] @ metadataStartMarker"

definition sample_metadata :: "uint \<Rightarrow> Metadata" where
  "sample_metadata version = \<lparr>Description = [], DatabaseType = [], Languages = [], BinaryFormatMajorVersion = 2,
     BinaryFormatMinorVersion = 0, BuildEpoch = 0, IPVersion = version, NodeCount = 1, RecordSize = 24\<rparr>"

definition sample :: "uint \<Rightarrow> Reader" where
  "sample version =
     \<lparr>hasMappedFile = False, reader_decoder = NewWithoutStringCache [0x41, 0x61], reader_buffer = Some sample_file,
      metadata = sample_metadata version, ipv4Start = (if version = 6 then 1 else 0), nodeOffsetMult = 6,
      dataSectionSize = 2, ipv4StartBitDepth = (if version = 6 then 1 else 96)\<rparr>"

lemma sample_opens:
  "openMetadata sample_file 38 (sample_metadata 4) True = Inr (sample 4)"
  "openMetadata sample_file 38 (sample_metadata 6) True = Inr (sample 6)"
  by code_simp+

lemma sample_opened: "opened (sample 4)" "opened (sample 6)"
  using sample_opens by (auto simp: opened_def)

lemma sample_covered: "tree_covered (sample 4)" "tree_covered (sample 6)"
proof -
  have "length sample_file = 38" by code_simp
  then show "tree_covered (sample 4)" "tree_covered (sample 6)"
    by (simp_all add: sample_def sample_metadata_def tree_covered_def supported_def covers_def node_size_def
        buf_def unat_glen max_int_def)
qed

text \<open>
  The reader of both children that the iterator and the verifier use, and the single child reads
  inlined in the three traversals (for 28 bits, a shifted 32-bit word) agree on every node of the tree.
\<close>

theorem node_readers_agree:
  assumes "tree_covered r" and "node < NodeCount (metadata r)" and "nodeOffsetMult r = RecordSize (metadata r) div 4"
  shows "\<exists>left right.
     readNodePairBySize (buf r) (node * nodeOffsetMult r) (RecordSize (metadata r)) = Inr (left, right) \<and>
     (\<forall>side. child_of r node (of_bool side) = Inr (if side then right else left))"
  using child_covered [OF assms] by metis

theorem node_readers_agree_witness:
  "child_of (sample 4) 0 1 = Inr 17 \<and> readNodePairBySize (buf (sample 4)) 0 24 = Inr (1, 17)"
proof -
  have r: "metadata (sample 4) = sample_metadata 4" "nodeOffsetMult (sample 4) = 6"
    "NodeCount (sample_metadata 4) = 1" "RecordSize (sample_metadata 4) = 24"
    by (simp_all add: sample_def sample_metadata_def)
  obtain left right where "readNodePairBySize (buf (sample 4)) 0 24 = Inr (left, right)"
    and side: "\<forall>side. child_of (sample 4) 0 (of_bool side) = Inr (if side then right else left)"
    using node_readers_agree [OF sample_covered(1), of 0] r by auto
  moreover have "child_of (sample 4) 0 1 = Inr right" using side [rule_format, of True] by simp
  moreover have "readNodePairBySize (buf (sample 4)) 0 24 = Inr (1, 17)" by code_simp
  ultimately show ?thesis by simp
qed

theorem lookup_descends_witness:
  "lookupPointer (sample 4) (V4 0x80000000) = lookup_spec (sample 4) (V4 0x80000000)"
  using lookup_descends [OF sample_opened(1), of "V4 0x80000000"] sample_covered(1)
  by (simp add: IsValid_def Is6_def)

theorem ipv4_lookup_agrees_witness:
  "lookupPointer (sample 6) (V4 7) = lookupPointer (sample 6) (V6 7)"
  using ipv4_lookup_agrees [OF sample_opened(2), of 7] by (simp add: sample_def sample_metadata_def)

section \<open>The network of a result\<close>

lemma bit_mask_prefix: "bit (mask_prefix (a :: 'w::len word) n) k \<longleftrightarrow> bit a k \<and> LENGTH('w) - n \<le> k"
  using bit_imp_le_length [of a k] by (auto simp: mask_prefix_def bit_simps bit_mask_iff)

lemma mask_prefix_idem [simp]: "mask_prefix (mask_prefix a n) n = mask_prefix (a :: 'w::len word) n"
  by (rule bit_word_eqI) (simp add: bit_mask_prefix)

lemma mask_prefix_bits:
  assumes "mask_prefix (a :: 'w::len word) n = mask_prefix b n" and "k < n" and "k < LENGTH('w)"
  shows "bit a (LENGTH('w) - 1 - k) = bit b (LENGTH('w) - 1 - k)"
proof -
  have "bit (mask_prefix a n) (LENGTH('w) - 1 - k) = bit (mask_prefix b n) (LENGTH('w) - 1 - k)"
    by (simp only: assms(1))
  moreover have "LENGTH('w) - n \<le> LENGTH('w) - 1 - k" using assms(2,3) by simp
  ultimately show ?thesis by (simp add: bit_mask_prefix)
qed

text \<open>The addresses of a prefix; IPv4 addresses live at \<open>::/96\<close>.\<close>

definition in_prefix :: "Prefix \<Rightarrow> Addr \<Rightarrow> bool" where
  "in_prefix p ip =
     (case p of
        (V4 q, Some n) \<Rightarrow> (case ip of V4 a \<Rightarrow> mask_prefix a n = mask_prefix q n | _ \<Rightarrow> False)
      | (V6 q, Some n) \<Rightarrow>
          (case ip of V6 a \<Rightarrow> mask_prefix a n = mask_prefix q n
             | V4 a \<Rightarrow> mask_prefix (ucast a) n = mask_prefix q n | ZeroAddr \<Rightarrow> False)
      | _ \<Rightarrow> False)"

lemma lookupPointer_prefix:
  assumes "opened r" and "lookupPointer r ip = Inr (p, n)" and "Is4 ip' = Is4 ip" and "IsValid ip'"
    and "take (n - snd (lookup_start r ip)) (lookup_bits r ip') = take (n - snd (lookup_start r ip)) (lookup_bits r ip)"
  shows "lookupPointer r ip' = Inr (p, n)"
proof -
  have v: "IsValid ip" "\<not> (IPVersion (metadata r) = 4 \<and> Is6 ip)"
    using assms(2) by (auto simp: lookupPointer_def split: if_splits)
  have v': "\<not> (IPVersion (metadata r) = 4 \<and> Is6 ip')"
    using v assms(3,4) by (cases ip; cases ip') (auto simp: Is4_def Is6_def IsValid_def)
  have cov: "tree_covered r"
    using lookup_eq [OF assms(1) v] assms(2) by (auto split: if_splits)
  obtain node k where d: "descend (child_of r) (NodeCount (metadata r)) (fst (lookup_start r ip))
      (lookup_bits r ip) = Inr (node, k)" using descend_covered [OF cov] by blast
  have n: "n = snd (lookup_start r ip) + k"
    using lookup_eq [OF assms(1) v] cov d assms(2) by (auto simp: lookup_spec_def split: if_splits)
  have start: "lookup_start r ip' = lookup_start r ip" using assms(3) by (simp add: lookup_start_def)
  have "length (lookup_bits r ip') = length (lookup_bits r ip)"
    using assms(3,4) v(1) by (cases ip; cases ip')
      (auto simp: lookup_bits_def Is4_def IsValid_def bits32_def bits128_def)
  from descend_prefix [OF d this] assms(5) n
  have "descend (child_of r) (NodeCount (metadata r)) (fst (lookup_start r ip')) (lookup_bits r ip') = Inr (node, k)"
    by (simp add: start)
  with d have "lookup_spec r ip' = lookup_spec r ip" by (simp add: lookup_spec_def start)
  then show ?thesis using lookup_eq [OF assms(1) v] lookup_eq [OF assms(1,4) v'] cov assms(2) by simp
qed

lemma take_bits128:
  "mask_prefix a n = mask_prefix b n \<Longrightarrow> n \<le> 128 \<Longrightarrow> take n (bits128 a 0 128) = take n (bits128 b 0 128)"
  using mask_prefix_bits [of a n b] by (intro nth_equalityI) (auto simp: bits128_def)

lemma take_bits32:
  "mask_prefix a n = mask_prefix b n \<Longrightarrow> n \<le> 32 \<Longrightarrow> take n (bits32 a m) = take n (bits32 b m)"
  using mask_prefix_bits [of a n b] by (cases "m \<le> 32"; intro nth_equalityI) (auto simp: bits32_def)

lemma mask_prefix_ipv4: "n \<le> 96 \<Longrightarrow> mask_prefix (ucast (a :: 32 word) :: 128 word) n = 0"
  by (rule bit_word_eqI) (auto simp: bit_mask_prefix bit_simps dest: bit_imp_le_length)

lemma Lookup_no_error:
  assumes "Lookup r ip = res" and "res_err res = None"
  obtains p n where "lookupPointer r ip = Inr (p, n)" and "res_ip res = ip"
    and "res_prefixLen res = word_of_nat n" and "res_reader res = (if p = 0 then None else Some r)"
    and "\<And>ip'. lookupPointer r ip' = Inr (p, n) \<Longrightarrow> Lookup r ip' = res\<lparr>res_ip := ip'\<rparr>"
proof -
  have op: "reader_buffer r \<noteq> None" using assms by (auto simp: Lookup_def split: if_splits)
  obtain p n where p: "lookupPointer r ip = Inr (p, n)"
    using assms op by (auto simp: Lookup_def split: sum.splits)
  show thesis
  proof (cases "p = 0")
    case True
    then show ?thesis using p op assms that [of p n] by (auto simp: Lookup_def zeroResult_def)
  next
    case False
    then obtain off where "resolveDataPointer r p = Inr off"
      using p op assms by (auto simp: Lookup_def Let_def split: sum.splits)
    then show ?thesis using False p op assms that [of p n] by (auto simp: Lookup_def zeroResult_def Let_def)
  qed
qed

text \<open>Where the descent for an address ends, relative to the start of the IPv4 subtree.\<close>

lemma lookup_length:
  assumes "opened r" and "lookupPointer r ip = Inr (p, n)"
  shows "n \<le> 128" and "Is4 ip \<Longrightarrow> ipv4StartBitDepth r \<le> n"
    and "Is4 ip \<Longrightarrow> ipv4StartBitDepth r < 96 \<Longrightarrow> n = ipv4StartBitDepth r"
    and "ipv4StartBitDepth r < 96 \<Longrightarrow> \<not> hasIPv4Subtree r" and "ipv4StartBitDepth r \<le> 96"
proof -
  let ?d = "descend (child_of r) (NodeCount (metadata r))"
  have v: "IsValid ip" "\<not> (IPVersion (metadata r) = 4 \<and> Is6 ip)"
    using assms(2) by (auto simp: lookupPointer_def split: if_splits)
  have cov: "tree_covered r" using lookup_eq [OF assms(1) v] assms(2) by (auto split: if_splits)
  show depth: "ipv4StartBitDepth r \<le> 96" by (rule opened_depth [OF assms(1) cov])
  obtain node k where d: "?d (fst (lookup_start r ip)) (lookup_bits r ip) = Inr (node, k)"
    using descend_covered [OF cov] by blast
  have n: "n = snd (lookup_start r ip) + k"
    using lookup_eq [OF assms(1) v] cov d assms(2) by (auto simp: lookup_spec_def split: if_splits)
  show "n \<le> 128" using descend_length [OF d] n depth
    by (cases ip) (auto simp: lookup_bits_def lookup_start_def Is4_def bits32_def bits128_def)
  show "Is4 ip \<Longrightarrow> ipv4StartBitDepth r \<le> n" using n by (simp add: lookup_start_def)
  have short: "IPVersion (metadata r) = 6 \<and> \<not> ipv4Start r < NodeCount (metadata r)"
    if "ipv4StartBitDepth r < 96"
  proof -
    have six: "IPVersion (metadata r) = 6" using opened_ipv4Start [OF assms(1)] that by (auto split: if_splits)
    then have "?d 0 (bits128 0 0 96) = Inr (ipv4Start r, ipv4StartBitDepth r)"
      using opened_ipv4Start [OF assms(1)] cov by (simp add: traverseTree_covered traverse_descend zeroIP_def As16_def)
    from descend_all [OF this] that six show ?thesis by (auto simp: bits128_def)
  qed
  then show "ipv4StartBitDepth r < 96 \<Longrightarrow> \<not> hasIPv4Subtree r" by (simp add: hasIPv4Subtree_def)
  show "Is4 ip \<Longrightarrow> ipv4StartBitDepth r < 96 \<Longrightarrow> n = ipv4StartBitDepth r"
    using d n short by (simp add: lookup_start_def descend_leaf)
qed

text \<open>The prefix of a result, in the terms of the lookup.\<close>

lemma Result_Prefix_lookup:
  assumes "opened r" and "lookupPointer r ip = Inr (p, n)" and "res_ip res = ip"
    and "res_prefixLen res = word_of_nat n" and "res_reader res = (if p = 0 then None else Some r)"
  shows "Result_Prefix res =
    (case ip of V6 a \<Rightarrow> (V6 (mask_prefix a n), Some n)
     | V4 a \<Rightarrow> if n < 96 then (V6 0, Some n) else (V4 (mask_prefix a (n - 96)), Some (n - 96))
     | ZeroAddr \<Rightarrow> (ZeroAddr, None))"
proof -
  note len = lookup_length [OF assms(1,2)]
  have n: "unat (res_prefixLen res) = n" using assms(4) len(1) by (simp add: unat_of_nat take_bit_nat_eq_self)
  show ?thesis
  proof (cases ip)
    case ZeroAddr
    then show ?thesis using assms(3) by (simp add: Result_Prefix_def Is4_def Addr_Prefix_def Let_def)
  next
    case (V6 a)
    then show ?thesis using assms(3) n len(1) by (simp add: Result_Prefix_def Is4_def Addr_Prefix_def Let_def)
  next
    case (V4 a)
    have "ipv4PrefixLen res n = (if n < 96 then (n, False) else (n - 96, True))"
    proof (cases "ipv4StartBitDepth r = 96")
      case True
      then show ?thesis using assms(5) by (simp add: ipv4PrefixLen_def)
    next
      case False
      with len(5) have "\<not> hasIPv4Subtree r" by (intro len(4)) simp
      then show ?thesis using assms(5) by (simp add: ipv4PrefixLen_def)
    qed
    moreover have "n - 96 \<le> 32" using len(1) by simp
    ultimately show ?thesis using assms(3) n V4
      by (simp add: Result_Prefix_def Is4_def Addr_Prefix_def PrefixFrom_def zeroIP_def Let_def)
  qed
qed

text \<open>The addresses of the prefix of a result agree on the bits that the lookup used.\<close>

lemma prefix_bits:
  assumes "opened r" and p: "lookupPointer r ip = Inr (p, n)" and res: "res_ip res = ip"
    "res_prefixLen res = word_of_nat n" "res_reader res = (if p = 0 then None else Some r)"
    and within: "in_prefix (Result_Prefix res) ip'" and family: "Is4 ip' = Is4 ip"
  shows "IsValid ip'"
    and "take (n - snd (lookup_start r ip)) (lookup_bits r ip') = take (n - snd (lookup_start r ip)) (lookup_bits r ip)"
proof -
  note len = lookup_length [OF assms(1) p]
  note prefix = Result_Prefix_lookup [OF assms(1) p res]
  have v: "IsValid ip" using p by (auto simp: lookupPointer_def split: if_splits)
  show v': "IsValid ip'"
    using within by (cases "Result_Prefix res"; cases "fst (Result_Prefix res)")
      (auto simp: in_prefix_def IsValid_def split: option.splits)
  show "take (n - snd (lookup_start r ip)) (lookup_bits r ip') = take (n - snd (lookup_start r ip)) (lookup_bits r ip)"
  proof (cases ip)
    case ZeroAddr
    then show ?thesis using v by (simp add: IsValid_def)
  next
    case (V6 a)
    then obtain a' where "ip' = V6 a'" using family v' by (cases ip') (auto simp: Is4_def IsValid_def)
    then show ?thesis using V6 within len(1) prefix take_bits128 [of a' n a]
      by (simp add: in_prefix_def lookup_bits_def lookup_start_def Is4_def As16_def)
  next
    case (V4 a)
    then obtain a' where a': "ip' = V4 a'" using family v' by (cases ip') (auto simp: Is4_def IsValid_def)
    show ?thesis
    proof (cases "n < 96")
      case True
      then have "n = ipv4StartBitDepth r" using len(2,3) V4 by (simp add: Is4_def)
      then show ?thesis using V4 by (simp add: lookup_start_def Is4_def)
    next
      case False
      then have "ipv4StartBitDepth r = 96" using len(3,5) V4 by (force simp: Is4_def)
      then show ?thesis using V4 a' False within len(1) prefix take_bits32 [of a' "n - 96" a]
        by (simp add: in_prefix_def lookup_bits_def lookup_start_def Is4_def)
    qed
  qed
qed

text \<open>
  C30. The prefix of a lookup's result is exactly a network of one answer: it contains the address
  that was looked up, and every address of the family in it gets the same record, prefix length and
  (absence of) data. So a caller may cache the answer for the whole network.
\<close>

theorem result_prefix_network:
  assumes "opened r" and "Lookup r ip = res" and "res_err res = None"
  shows "in_prefix (Result_Prefix res) ip \<and>
    (\<forall>ip'. in_prefix (Result_Prefix res) ip' \<and> Is4 ip' = Is4 ip \<longrightarrow> Lookup r ip' = res\<lparr>res_ip := ip'\<rparr>)"
proof -
  obtain p n where p: "lookupPointer r ip = Inr (p, n)" and res: "res_ip res = ip"
    "res_prefixLen res = word_of_nat n" "res_reader res = (if p = 0 then None else Some r)"
    and same: "\<And>ip'. lookupPointer r ip' = Inr (p, n) \<Longrightarrow> Lookup r ip' = res\<lparr>res_ip := ip'\<rparr>"
    by (rule Lookup_no_error [OF assms(2,3)]) blast
  have v: "IsValid ip" using p by (auto simp: lookupPointer_def split: if_splits)
  have "Lookup r ip' = res\<lparr>res_ip := ip'\<rparr>" if "in_prefix (Result_Prefix res) ip'" and "Is4 ip' = Is4 ip" for ip'
    using same lookupPointer_prefix [OF assms(1) p that(2)] prefix_bits [OF assms(1) p res that] by blast
  moreover have "in_prefix (Result_Prefix res) ip"
    using v Result_Prefix_lookup [OF assms(1) p res] mask_prefix_ipv4
    by (cases ip) (auto simp: in_prefix_def IsValid_def mask_prefix_def)
  ultimately show ?thesis by blast
qed

theorem result_prefix_network_witness:
  "in_prefix (Result_Prefix (Lookup (sample 4) (V4 0x80000000))) (V4 0x80000000) \<and>
   Lookup (sample 4) (V4 0xC0000000) = (Lookup (sample 4) (V4 0x80000000))\<lparr>res_ip := V4 0xC0000000\<rparr>"
proof -
  let ?res = "Lookup (sample 4) (V4 0x80000000)"
  have e: "res_err ?res = None" and within: "in_prefix (Result_Prefix ?res) (V4 0xC0000000)" by code_simp+
  have "Is4 (V4 0xC0000000) = Is4 (V4 0x80000000)" by (simp add: Is4_def)
  with within result_prefix_network [OF sample_opened(1) refl e] show ?thesis by blast
qed

section \<open>The size checks of \<open>OpenBytes\<close>\<close>

lemma openMetadata_section:
  assumes "openMetadata fl start md nocache = Inr r"
  shows "buffer (dataDecoder (reader_decoder r)) =
    take (unat (dataSectionSize r)) (drop (unat (searchTreeSizeBytes (NodeCount md) (RecordSize md) + 16)) fl)"
proof -
  obtain data where d: "slice fl (searchTreeSizeBytes (NodeCount md) (RecordSize md) + 16)
      (start - glen metadataStartMarker) = Inr data" "buffer (dataDecoder (reader_decoder r)) = data"
    using assms by (auto simp: openMetadata_def setIPv4Start_def Let_def bindE_eq_Inr dataSectionSeparatorSize_def
        NewWithoutStringCache_def NewReflectionDecoder_def NewDataDecoder_def NewDataDecoderWithoutStringCache_def
        split: if_splits)
  then show ?thesis
    using openMetadata_Inr(5,6) [OF assms] by (auto simp: slice_def unat_sub split: if_splits)
qed

text \<open>
  What \<open>OpenBytes\<close> guarantees of the layout when the size of the tree and the separator does not
  wrap around: the file covers every node of the tree, tree, separator and data section fill exactly
  the bytes before the metadata marker, and the decoder's buffer is that data section.
\<close>

theorem open_layout:
  assumes "openMetadata fl start md nocache = Inr r" and "supported (RecordSize md)"
    and "unat (NodeCount md) * unat (RecordSize md div 4) + 16 < 2 ^ 64"
  shows "tree_covered r \<and>
    unat (NodeCount md) * node_size r + 16 + unat (dataSectionSize r) = unat (start - glen metadataStartMarker) \<and>
    unat (start - glen metadataStartMarker) \<le> length fl \<and>
    buffer (dataDecoder (reader_decoder r)) =
      take (unat (dataSectionSize r)) (drop (unat (NodeCount md) * node_size r + 16) fl)"
proof -
  note o1 = openMetadata_Inr [OF assms(1)]
  have "unat (NodeCount md * (RecordSize md div 4)) = unat (NodeCount md) * unat (RecordSize md div 4)"
    using assms(3) by (intro unat_mult_lem [THEN iffD1]) simp
  then have u: "unat (searchTreeSizeBytes (NodeCount md) (RecordSize md) + 16) =
      unat (NodeCount md) * node_size r + 16"
    using assms(3) o1(2) by (subst unat_add_small) (simp_all add: searchTreeSizeBytes_def node_size_def)
  have le: "unat (start - glen metadataStartMarker) \<le> unat (glen fl)"
    using o1(7) by (simp add: word_le_nat_alt)
  have sum: "unat (NodeCount md) * node_size r + 16 + unat (dataSectionSize r) = unat (start - glen metadataStartMarker)"
    using o1(5,6) u by (simp add: unat_sub word_le_nat_alt)
  have "buf r = fl" using o1(1) by (simp add: buf_def)
  then have "tree_covered r"
    using sum le assms(2) o1(2) by (simp add: tree_covered_def covers_def)
  with sum le unat_glen_le(2) [of fl] openMetadata_section [OF assms(1)] u show ?thesis
    by (simp del: One_nat_def)
qed

theorem open_layout_witness: "tree_covered (sample 4) \<and> unat (dataSectionSize (sample 4)) = 2"
  using open_layout [OF sample_opens(1)] by (simp add: sample_metadata_def supported_def sample_def)

end
