(* ===== verification/Networks.thy ===== *)
theory Networks
  imports Reader
begin

text \<open>
  The iterator over the networks of a database (\<open>traverse.go\<close>): a depth-first walk of the search
  tree with an explicit stack. The head of \<open>nodes\<close> is the code's loop variable \<open>node\<close> (its inner loop
  goes on with the left child, which is here pushed on top of the right one and popped at once). The
  client is the function \<open>accept\<close>: given everything yielded so far, whether its \<open>yield\<close> returns true;
  a false ends the iteration. The iterator's output is the list of the results it has yielded.
\<close>

record netNode =
  nn_ip :: Addr
  nn_bit :: uint
  nn_pointer :: uint

record networkOptions =
  includeAliasedNetworks :: bool
  includeEmptyNetworks :: bool
  skipEmptyValues :: bool

definition IncludeAliasedNetworks :: "networkOptions \<Rightarrow> networkOptions" where
  "IncludeAliasedNetworks n = n\<lparr>includeAliasedNetworks := True\<rparr>"

definition IncludeNetworksWithoutData :: "networkOptions \<Rightarrow> networkOptions" where
  "IncludeNetworksWithoutData n = n\<lparr>includeEmptyNetworks := True\<rparr>"

definition SkipEmptyValues :: "networkOptions \<Rightarrow> networkOptions" where
  "SkipEmptyValues n = n\<lparr>skipEmptyValues := True\<rparr>"

section \<open>Addresses of the IPv4 subtree\<close>

text \<open>
  \<open>Addr.Less\<close> orders by address family first, so an invalid and an IPv4 address are below the
  boundary, which is \<open>::1:0:0\<close>.
\<close>

definition isInIPv4Subtree :: "Addr \<Rightarrow> bool" where
  "isInIPv4Subtree ip \<longleftrightarrow> Is4 ip \<or> (case ip of V6 a \<Rightarrow> a < push_bit 32 1 | _ \<Rightarrow> True)"

definition v4ToV16 :: "Addr \<Rightarrow> Addr res" where
  "v4ToV16 ip = bindE (As4 ip) (\<lambda>b4. Inr (V6 (ucast b4)))"

definition v6ToV4 :: "Addr \<Rightarrow> Addr" where
  "v6ToV4 ip = V4 (ucast (As16 ip))"

definition mappedIP :: "Addr \<Rightarrow> Addr" where
  "mappedIP ip = (if isInIPv4Subtree ip then v6ToV4 ip else ip)"

section \<open>The walk\<close>

definition weight :: "netNode list \<Rightarrow> nat" where
  "weight nodes = sum_list (map (\<lambda>node. 3 ^ (129 - unat (nn_bit node))) nodes)"

lemma weight_Cons [simp]: "weight (node # nodes) = 3 ^ (129 - unat (nn_bit node)) + weight nodes"
  by (simp add: weight_def)

lemma bit_below: "\<not> 16 \<le> drop_bit 3 (b :: uint) \<Longrightarrow> unat b < 128"
  by (simp add: word_le_nat_alt drop_bit_eq_div unat_div)

lemma unat_inc_bit: "unat (b :: uint) < 128 \<Longrightarrow> unat (b + 1) = Suc (unat b)"
  using unat_add_small [of b 1] by simp

lemma weight_split:
  assumes "\<not> 16 \<le> drop_bit 3 (b :: uint)"
  shows "3 ^ (129 - unat (b + 1)) + 3 ^ (129 - unat (b + 1)) < (3 :: nat) ^ (129 - unat b)"
proof -
  have b: "unat b < 128" by (rule bit_below [OF assms])
  then have "129 - unat b = Suc (129 - unat (b + 1))" by (simp add: unat_inc_bit)
  then show ?thesis by simp
qed

text \<open>The result yielded for a pointer into the data section, and whether it is skipped as empty.\<close>

definition dataResult :: "Reader \<Rightarrow> networkOptions \<Rightarrow> netNode \<Rightarrow> Result option" where
  "dataResult r n node =
     (let result = (\<lambda>offset err.
        \<lparr>res_ip = mappedIP (nn_ip node), res_err = err, res_reader = Some r, res_offset = offset,
         res_prefixLen = ucast (nn_bit node)\<rparr>)
      in case resolveDataPointer r (nn_pointer node) of
           Inl err \<Rightarrow> Some (result 0 (Some err))
         | Inr offset \<Rightarrow>
             if skipEmptyValues n then
               (case IsEmptyValueAt (reader_decoder r) offset of
                  Inl err \<Rightarrow> Some (result offset (Some err))
                | Inr isEmpty \<Rightarrow> if isEmpty then None else Some (result offset None))
             else Some (result offset None))"

function networks_loop ::
  "Reader \<Rightarrow> networkOptions \<Rightarrow> (Result list \<Rightarrow> bool) \<Rightarrow> Result list \<Rightarrow> netNode list \<Rightarrow> Result list" where
  "networks_loop r n accept out [] = out"
| "networks_loop r n accept out (node # nodes) =
     (if nn_pointer node = NodeCount (metadata r) then
        if includeEmptyNetworks n then
          let out = out @ [zeroResult\<lparr>res_ip := mappedIP (nn_ip node), res_offset := notFound,
                             res_prefixLen := ucast (nn_bit node)\<rparr>]
          in if accept out then networks_loop r n accept out nodes else out
        else networks_loop r n accept out nodes
      else if \<not> includeAliasedNetworks n \<and> ipv4Start r \<noteq> 0 \<and> nn_pointer node = ipv4Start r \<and>
              \<not> isInIPv4Subtree (nn_ip node) then
        networks_loop r n accept out nodes
      else if nn_pointer node > NodeCount (metadata r) then
        (case dataResult r n node of
           None \<Rightarrow> networks_loop r n accept out nodes
         | Some res \<Rightarrow>
             let out = out @ [res] in
             if accept out then networks_loop r n accept out nodes else out)
      else if 16 \<le> drop_bit 3 (nn_bit node) then
        out @ [zeroResult\<lparr>res_ip := (if isInIPv4Subtree (nn_ip node) then v6ToV4 (nn_ip node) else nn_ip node),
                 res_prefixLen := ucast (nn_bit node),
                 res_err := Some (InvalidDatabaseError (TreeMsg InvalidSearchTree))\<rparr>]
      else
        let ipRight = set_bit (127 - unat (nn_bit node)) (As16 (nn_ip node)) in
        (case readNodePairBySize (buf r) (nn_pointer node * nodeOffsetMult r) (RecordSize (metadata r)) of
           Inl err \<Rightarrow>
             out @ [zeroResult\<lparr>res_ip := mappedIP (nn_ip node), res_prefixLen := ucast (nn_bit node),
                      res_err := Some err\<rparr>]
         | Inr (leftPointer, rightPointer) \<Rightarrow>
             networks_loop r n accept out
               (node\<lparr>nn_bit := nn_bit node + 1, nn_pointer := leftPointer\<rparr> #
                \<lparr>nn_ip = V6 ipRight, nn_bit = nn_bit node + 1, nn_pointer = rightPointer\<rparr> # nodes)))"
  by pat_completeness auto
termination
  by (relation "measure (\<lambda>(r, n, accept, out, nodes). weight nodes)") (simp_all add: weight_split)

declare networks_loop.simps(2) [simp del]

text \<open>\<open>NetworksWithin\<close>. Every error before the walk is yielded as a single result.\<close>

definition NetworksWithin :: "Reader \<Rightarrow> Prefix \<Rightarrow> networkOptions \<Rightarrow> (Result list \<Rightarrow> bool) \<Rightarrow> Result list res" where
  "NetworksWithin r prefix n accept =
     (case snd prefix of
        None \<Rightarrow> Inr [zeroResult\<lparr>res_err := Some (PlainError ''invalid prefix'')\<rparr>]
      | Some bits \<Rightarrow>
          if IPVersion (metadata r) = 4 \<and> Is6 (fst prefix) then
            Inr [zeroResult\<lparr>res_err := Some (PlainError
              ''you attempted to use an IPv6 network in an IPv4-only database'')\<rparr>]
          else
            let ip = fst prefix in
            bindE (if Is4 ip then bindE (v4ToV16 ip) (\<lambda>netIP. Inr (netIP, bits + 96)) else Inr (ip, bits))
              (\<lambda>(netIP, stopBit).
                 if stopBit > 128 then
                   Inr [zeroResult\<lparr>res_err := Some (PlainError ''invalid prefix: exceeds IPv6 maximum of 128 bits'')\<rparr>]
                 else
                   case traverseTree r ip 0 stopBit of
                     Inl err \<Rightarrow>
                       if root_error err = Panic then Inl err
                       else Inr [zeroResult\<lparr>res_ip := ip, res_err := Some err\<rparr>]
                   | Inr (pointer, i) \<Rightarrow>
                       (case Addr_Prefix netIP i of
                          Inl err \<Rightarrow> Inr [zeroResult\<lparr>res_ip := ip, res_prefixLen := word_of_nat i, res_err := Some err\<rparr>]
                        | Inr networkPrefix \<Rightarrow>
                            Inr (networks_loop r n accept []
                              [\<lparr>nn_ip = fst networkPrefix, nn_bit = word_of_nat i, nn_pointer = pointer\<rparr>]))))"

definition allIPv4 :: Prefix where
  "allIPv4 = (V4 0, Some 0)"

definition allIPv6 :: Prefix where
  "allIPv6 = (V6 0, Some 0)"

definition Networks :: "Reader \<Rightarrow> networkOptions \<Rightarrow> (Result list \<Rightarrow> bool) \<Rightarrow> Result list res" where
  "Networks r n accept =
     (if IPVersion (metadata r) = 6 then NetworksWithin r allIPv6 n accept
      else NetworksWithin r allIPv4 n accept)"

end
