(* ===== verification/NetworkProofs.thy ===== *)
theory NetworkProofs
  imports Networks Lookups
begin

text \<open>
  Properties of the network iterator: each result it yields is the result of looking up its own
  address, the networks come in ascending order without overlapping, and with every option to
  include networks they fill the prefix that was asked for.
\<close>

section \<open>The walk as an invariant rule\<close>

definition leaf :: "Reader \<Rightarrow> networkOptions \<Rightarrow> netNode \<Rightarrow> Result \<Rightarrow> bool" where
  "leaf r n node res \<longleftrightarrow>
     nn_pointer node = NodeCount (metadata r) \<and>
       res = zeroResult\<lparr>res_ip := mappedIP (nn_ip node), res_offset := notFound, res_prefixLen := ucast (nn_bit node)\<rparr> \<or>
     nn_pointer node > NodeCount (metadata r) \<and> dataResult r n node = Some res"

definition failing :: "Reader \<Rightarrow> netNode \<Rightarrow> Result \<Rightarrow> bool" where
  "failing r node res \<longleftrightarrow> nn_pointer node < NodeCount (metadata r) \<and>
     (unat (nn_bit node) < 128 \<longrightarrow>
       (\<exists>e. readNodePairBySize (buf r) (nn_pointer node * nodeOffsetMult r) (RecordSize (metadata r)) = Inl e)) \<and>
     res_err res \<noteq> None \<and> res_ip res = mappedIP (nn_ip node) \<and> res_prefixLen res = ucast (nn_bit node)"

definition yields_all :: "networkOptions \<Rightarrow> bool" where
  "yields_all n \<longleftrightarrow> includeAliasedNetworks n \<and> includeEmptyNetworks n \<and> \<not> skipEmptyValues n"

definition left_node :: "netNode \<Rightarrow> uint \<Rightarrow> netNode" where
  "left_node node p = node\<lparr>nn_bit := nn_bit node + 1, nn_pointer := p\<rparr>"

definition right_node :: "netNode \<Rightarrow> uint \<Rightarrow> netNode" where
  "right_node node p =
     \<lparr>nn_ip = V6 (set_bit (127 - unat (nn_bit node)) (As16 (nn_ip node))), nn_bit = nn_bit node + 1, nn_pointer = p\<rparr>"

lemma networks_invariant:
  assumes init: "Inv out nodes"
    and skip: "\<And>out node nodes. Inv out (node # nodes) \<Longrightarrow> \<not> yields_all n \<Longrightarrow> Inv out nodes"
    and yield: "\<And>out node nodes res. Inv out (node # nodes) \<Longrightarrow> leaf r n node res \<Longrightarrow> Inv (out @ [res]) nodes"
    and split: "\<And>out node nodes lp rp. Inv out (node # nodes) \<Longrightarrow> nn_pointer node < NodeCount (metadata r) \<Longrightarrow>
      unat (nn_bit node) < 128 \<Longrightarrow>
      readNodePairBySize (buf r) (nn_pointer node * nodeOffsetMult r) (RecordSize (metadata r)) = Inr (lp, rp) \<Longrightarrow>
      Inv out (left_node node lp # right_node node rp # nodes)"
    and fail: "\<And>out node nodes res. Inv out (node # nodes) \<Longrightarrow> failing r node res \<Longrightarrow> final (out @ [res])"
    and stop: "\<And>out nodes. Inv out nodes \<Longrightarrow> nodes = [] \<or> \<not> accept out \<Longrightarrow> final out"
  shows "final (networks_loop r n accept out nodes)"
  using init
proof (induction "weight nodes" arbitrary: out nodes rule: less_induct)
  case less
  note ih = less(1) and inv = less(2)
  show ?case
  proof (cases nodes)
    case Nil
    then show ?thesis using stop [OF inv] by simp
  next
    case (Cons node rest)
    have smaller: "weight rest < weight nodes" by (simp add: Cons)
    have go_on: "final (networks_loop r n accept (out @ [res]) rest)" "final (out @ [res]) \<or> accept (out @ [res])"
      if "leaf r n node res" for res
      using ih [OF smaller] yield [OF _ that, of out rest] stop inv by (auto simp: Cons)
    have skipped: "final (networks_loop r n accept out rest)" if "\<not> yields_all n"
      using ih [OF smaller] skip [OF _ that, of out node rest] inv by (simp add: Cons)
    note step = networks_loop.simps(2) [of r n accept out node rest, folded Cons]
    consider (empty) "nn_pointer node = NodeCount (metadata r)"
      | (aliased) "nn_pointer node \<noteq> NodeCount (metadata r)" "\<not> includeAliasedNetworks n" "ipv4Start r \<noteq> 0"
        "nn_pointer node = ipv4Start r" "\<not> isInIPv4Subtree (nn_ip node)"
      | (data) "nn_pointer node > NodeCount (metadata r)" "includeAliasedNetworks n \<or> ipv4Start r = 0 \<or>
        nn_pointer node \<noteq> ipv4Start r \<or> isInIPv4Subtree (nn_ip node)"
      | (deep) "nn_pointer node < NodeCount (metadata r)" "includeAliasedNetworks n \<or> ipv4Start r = 0 \<or>
        nn_pointer node \<noteq> ipv4Start r \<or> isInIPv4Subtree (nn_ip node)" "16 \<le> drop_bit 3 (nn_bit node)"
      | (inner) "nn_pointer node < NodeCount (metadata r)" "includeAliasedNetworks n \<or> ipv4Start r = 0 \<or>
        nn_pointer node \<noteq> ipv4Start r \<or> isInIPv4Subtree (nn_ip node)" "\<not> 16 \<le> drop_bit 3 (nn_bit node)"
      using less_linear [of "nn_pointer node" "NodeCount (metadata r)"] by blast
    then show ?thesis
    proof cases
      case empty
      let ?res = "zeroResult\<lparr>res_ip := mappedIP (nn_ip node), res_offset := notFound, res_prefixLen := ucast (nn_bit node)\<rparr>"
      have l: "leaf r n node ?res" using empty by (simp add: leaf_def)
      have step': "networks_loop r n accept out nodes =
          (if includeEmptyNetworks n then
             if accept (out @ [?res]) then networks_loop r n accept (out @ [?res]) rest else out @ [?res]
           else networks_loop r n accept out rest)"
        using empty by (simp add: step Let_def)
      show ?thesis using go_on [OF l] skipped by (auto simp: step' yields_all_def)
    next
      case aliased
      then show ?thesis using skipped by (simp add: step yields_all_def)
    next
      case data
      then have step': "networks_loop r n accept out nodes = (case dataResult r n node of
          None \<Rightarrow> networks_loop r n accept out rest
        | Some res \<Rightarrow> if accept (out @ [res]) then networks_loop r n accept (out @ [res]) rest else out @ [res])"
        by (cases "dataResult r n node") (auto simp: step Let_def)
      show ?thesis
      proof (cases "dataResult r n node")
        case None
        then have "\<not> yields_all n"
          by (auto simp: dataResult_def yields_all_def Let_def split: sum.splits if_splits)
        then show ?thesis using skipped None by (simp add: step')
      next
        case (Some res)
        then have l: "leaf r n node res" using data by (simp add: leaf_def)
        from go_on [OF this] show ?thesis using Some by (auto simp: step' Let_def)
      qed
    next
      case deep
      then have "networks_loop r n accept out nodes = out @ [zeroResult\<lparr>res_ip := mappedIP (nn_ip node),
          res_prefixLen := ucast (nn_bit node), res_err := Some (InvalidDatabaseError (TreeMsg InvalidSearchTree))\<rparr>]"
        by (auto simp: step mappedIP_def)
      moreover have "\<not> unat (nn_bit node) < 128"
        using deep(3) by (simp add: word_le_nat_alt drop_bit_eq_div unat_div)
      ultimately show ?thesis using fail [of out node rest] inv deep(1) by (simp add: failing_def Cons)
    next
      case inner
      note b = bit_below [OF inner(3)]
      let ?pair = "readNodePairBySize (buf r) (nn_pointer node * nodeOffsetMult r) (RecordSize (metadata r))"
      have step': "networks_loop r n accept out nodes = (case ?pair of
          Inl err \<Rightarrow> out @ [zeroResult\<lparr>res_ip := mappedIP (nn_ip node), res_prefixLen := ucast (nn_bit node), res_err := Some err\<rparr>]
        | Inr (lp, rp) \<Rightarrow> networks_loop r n accept out (left_node node lp # right_node node rp # rest))"
        using inner by (cases ?pair) (auto simp: step Let_def left_node_def right_node_def)
      show ?thesis
      proof (cases ?pair)
        case (Inl err)
        show ?thesis
          unfolding step' Inl sum.case
          by (rule fail [of out node rest]) (use inv inner(1) Inl in \<open>simp_all add: failing_def Cons\<close>)
      next
        case (Inr q)
        then obtain lp rp where q: "?pair = Inr (lp, rp)" by (cases q) auto
        have "weight (left_node node lp # right_node node rp # rest) < weight nodes"
          using weight_split [OF inner(3)] by (simp add: Cons left_node_def right_node_def)
        from ih [OF this split [OF _ inner(1) b q]] inv show ?thesis
          unfolding step' q sum.case prod.case by (simp add: Cons)
      qed
    qed
  qed
qed

section \<open>Each network is a lookup\<close>

text \<open>
  A node of the walk stands for the addresses that start with the first \<open>b\<close> bits of \<open>a\<close>, and the
  descent along these bits leads to it. An IPv4 tree hangs at \<open>::/96\<close>.
\<close>

definition root_depth :: "Reader \<Rightarrow> nat" where
  "root_depth r = (if IPVersion (metadata r) = 6 then 0 else 96)"

definition at_node :: "Reader \<Rightarrow> 128 word \<Rightarrow> nat \<Rightarrow> uint \<Rightarrow> bool" where
  "at_node r a b p \<longleftrightarrow> root_depth r \<le> b \<and> b \<le> 128 \<and> mask_prefix a b = a \<and>
     (\<forall>k < root_depth r. \<not> bit a (127 - k)) \<and>
     descend (child_of r) (NodeCount (metadata r)) 0 (bits128 a (root_depth r) b) = Inr (p, b - root_depth r)"

definition reached :: "Reader \<Rightarrow> netNode \<Rightarrow> bool" where
  "reached r node \<longleftrightarrow> (\<exists>a. nn_ip node = V6 a \<and> at_node r a (unat (nn_bit node)) (nn_pointer node))"

lemma clear_below: "mask_prefix a b = a \<Longrightarrow> k < LENGTH('w) - b \<Longrightarrow> \<not> bit (a :: 'w::len word) k"
  using bit_mask_prefix [of a b k] by auto

lemma bit_in_prefix: "mask_prefix a b = a \<Longrightarrow> bit (a :: 'w::len word) k \<Longrightarrow> LENGTH('w) - b \<le> k"
  using clear_below [of a b k] by (cases "k < LENGTH('w) - b") auto

lemma mask_prefix_Suc: "mask_prefix a b = a \<Longrightarrow> mask_prefix a (Suc b) = (a :: 'w::len word)"
  using bit_in_prefix [of a b] by (intro bit_word_eqI) (force simp: bit_mask_prefix)

lemma mask_prefix_set:
  "mask_prefix a b = a \<Longrightarrow> b < 128 \<Longrightarrow> mask_prefix (set_bit (127 - b) a) (Suc b) = set_bit (127 - b) (a :: 128 word)"
  using bit_in_prefix [of a b] by (intro bit_word_eqI) (force simp: bit_mask_prefix bit_simps)

lemma bits128_Suc: "i \<le> b \<Longrightarrow> bits128 a i (Suc b) = bits128 a i b @ [bit a (127 - b)]"
  by (simp add: bits128_def)

lemma bits128_set: "b < 128 \<Longrightarrow> bits128 (set_bit (127 - b) a) i b = bits128 a i b"
  by (auto simp: bits128_def bit_simps)

lemma at_child:
  assumes "at_node r a b p" and "p < NodeCount (metadata r)" and "b < 128"
    and "\<And>c. child_of r p (of_bool c) = Inr (if c then rp else lp)"
  shows "at_node r a (Suc b) lp" and "at_node r (set_bit (127 - b) a) (Suc b) rp"
proof -
  let ?s = "root_depth r"
  note at = assms(1)[unfolded at_node_def]
  have s: "?s \<le> b" and m: "mask_prefix a b = a"
    and d: "descend (child_of r) (NodeCount (metadata r)) 0 (bits128 a ?s b) = Inr (p, b - ?s)" using at by auto
  have step: "descend (child_of r) (NodeCount (metadata r)) 0 (bits128 a ?s b @ [c]) =
      Inr (if c then rp else lp, Suc b - ?s)" for c
    using assms(2,4) d s by (simp add: descend_append Suc_diff_le)
  show "at_node r a (Suc b) lp"
    using at assms(3) mask_prefix_Suc [OF m] clear_below [OF m, of "127 - b"] step [of False]
    by (simp add: at_node_def bits128_Suc)
  have "127 - b < (128 :: nat)" by simp
  then show "at_node r (set_bit (127 - b) a) (Suc b) rp"
    using at assms(3) mask_prefix_set [OF m assms(3)] bits128_set [OF assms(3)] step [of True]
    by (auto simp: at_node_def bits128_Suc bit_simps)
qed

lemma reached_children:
  assumes "reached r node" and "nn_pointer node < NodeCount (metadata r)" and "unat (nn_bit node) < 128"
    and "tree_covered r" and "nodeOffsetMult r = RecordSize (metadata r) div 4"
    and "readNodePairBySize (buf r) (nn_pointer node * nodeOffsetMult r) (RecordSize (metadata r)) = Inr (lp, rp)"
  shows "reached r (left_node node lp)" and "reached r (right_node node rp)"
proof -
  obtain a where a: "nn_ip node = V6 a" "at_node r a (unat (nn_bit node)) (nn_pointer node)"
    using assms(1) by (auto simp: reached_def)
  have "child_of r (nn_pointer node) (of_bool c) = Inr (if c then rp else lp)" for c
    using child_covered [OF assms(4,2,5)] assms(6) by (metis Inr_inject Pair_inject)
  note at_child [OF a(2) assms(2,3) this]
  then show "reached r (left_node node lp)" "reached r (right_node node rp)"
    using a(1) unat_inc_bit [OF assms(3)]
    by (simp_all add: reached_def left_node_def right_node_def As16_def)
qed

text \<open>Where the walk meets a record, the lookup of the network's first address meets it too.\<close>

lemma ipv4_bits:
  assumes "\<forall>k < 96. \<not> bit (a :: 128 word) (127 - k)"
  shows "a < 2 ^ 32" and "ucast (ucast a :: 32 word) = a"
proof -
  have low: "n < 32" if "bit a n" for n
  proof (rule ccontr)
    assume "\<not> n < 32"
    then have "127 - n < 96" "127 - (127 - n) = n" using bit_imp_le_length [OF that] by auto
    with assms that show False by metis
  qed
  then have "take_bit 32 a = a" by (intro bit_word_eqI) (auto simp: bit_simps)
  then have "unat a < 2 ^ 32"
    by (metis take_bit_nat_less_exp unsigned_take_bit_eq)
  then show "a < 2 ^ 32" by (simp add: word_less_nat_alt)
  show "ucast (ucast a :: 32 word) = a" using low by (intro bit_word_eqI) (auto simp: bit_simps)
qed

lemma ipv4_ucast: "(a :: 128 word) < 2 ^ 32 \<Longrightarrow> ucast (ucast a :: 32 word) = a"
proof -
  assume "a < 2 ^ 32"
  then have "take_bit 32 a = a"
    by (subst word_unat_eq_iff) (simp add: unsigned_take_bit_eq take_bit_nat_eq_self word_less_nat_alt)
  then have "bit a n \<Longrightarrow> n < 32" for n by (metis bit_take_bit_iff)
  then show ?thesis by (intro bit_word_eqI) (auto simp: bit_simps)
qed

lemma opened_root:
  assumes "opened r" and "IPVersion (metadata r) \<noteq> 6"
  shows "ipv4Start r = 0" and "ipv4StartBitDepth r = 96"
  using opened_ipv4Start [OF assms(1)] assms(2) by simp_all

lemma at_leaf:
  assumes "at_node r a b p" and "\<not> p < NodeCount (metadata r)"
  shows "descend (child_of r) (NodeCount (metadata r)) 0 (bits128 a (root_depth r) 128) = Inr (p, b - root_depth r)"
proof -
  have "bits128 a (root_depth r) 128 = bits128 a (root_depth r) b @ bits128 a b 128"
    using assms(1) by (intro bits128_append) (auto simp: at_node_def)
  then show ?thesis using assms by (simp add: at_node_def descend_append descend_leaf)
qed

lemma isInIPv4Subtree_V6: "isInIPv4Subtree (V6 a) \<longleftrightarrow> a < 2 ^ 32"
  by (simp add: isInIPv4Subtree_def Is4_def push_bit_eq_mult)

lemma mappedIP_V6: "mappedIP (V6 a) = (if a < 2 ^ 32 then V4 (ucast a) else V6 a)"
  by (simp add: mappedIP_def v6ToV4_def isInIPv4Subtree_V6 As16_def)

lemma bits32_of_128: "bits32 (ucast a) 32 = bits128 a 96 128"
proof (rule nth_equalityI)
  fix k assume "k < length (bits32 (ucast a) 32)"
  then have k: "k < 32" by (simp add: bits32_def)
  have "127 - (96 + k) = 31 - k" "31 - k < (32 :: nat)" by simp_all
  then show "bits32 (ucast a) 32 ! k = bits128 a 96 128 ! k" using k by (simp add: bits32_def bits128_def bit_simps del: upt_rec_numeral)
qed (simp add: bits32_def bits128_def)

lemma reached_lookup:
  assumes "opened r" and "tree_covered r" and "at_node r a b p" and "\<not> p < NodeCount (metadata r)"
  shows "lookupPointer r (mappedIP (V6 a)) = Inr (if p = NodeCount (metadata r) then 0 else p, b)"
proof (cases "IPVersion (metadata r) = 6")
  case True
  have "lookupPointer r (mappedIP (V6 a)) = lookupPointer r (V6 a)"
    using ipv4_lookup_eq [OF assms(1) True, of "ucast a"] by (simp add: mappedIP_V6 ipv4_ucast)
  moreover have "lookup_spec r (V6 a) = Inr (if p = NodeCount (metadata r) then 0 else p, b)"
    using at_leaf [OF assms(3,4)] assms(4) True
    by (auto simp: lookup_spec_def lookup_start_def lookup_bits_def Is4_def As16_def root_depth_def)
  ultimately show ?thesis
    using lookup_eq [OF assms(1), of "V6 a"] assms(2) True by (simp add: IsValid_def)
next
  case False
  note root = opened_root [OF assms(1) False]
  have at: "96 \<le> b" "\<forall>k < 96. \<not> bit a (127 - k)" using assms(3) False by (auto simp: at_node_def root_depth_def)
  note low = ipv4_bits [OF at(2)]
  have "lookup_spec r (V4 (ucast a)) = Inr (if p = NodeCount (metadata r) then 0 else p, b)"
    using at_leaf [OF assms(3,4)] assms(4) False at(1) root
    by (auto simp: lookup_spec_def lookup_start_def lookup_bits_def Is4_def root_depth_def bits32_of_128)
  then show ?thesis
    using lookup_eq [OF assms(1), of "V4 (ucast a)"] assms(2) low(1)
    by (simp add: mappedIP_V6 IsValid_def Is6_def)
qed

lemma leaf_lookup:
  assumes "opened r" and "tree_covered r" and "reached r node" and "leaf r n node res" and "res_err res = None"
  shows "Lookup r (res_ip res) = res"
proof -
  obtain a where a: "nn_ip node = V6 a" "at_node r a (unat (nn_bit node)) (nn_pointer node)"
    using assms(3) by (auto simp: reached_def)
  have p: "\<not> nn_pointer node < NodeCount (metadata r)" using assms(4) by (auto simp: leaf_def)
  note look = reached_lookup [OF assms(1,2) a(2) p, folded a(1)]
  have op: "reader_buffer r \<noteq> None" using assms(1) openMetadata_Inr(1) by (force simp: opened_def)
  have bits: "word_of_nat (unat (nn_bit node)) = (ucast (nn_bit node) :: byte)" by (simp add: of_nat_unat)
  show ?thesis
  proof (cases "nn_pointer node = NodeCount (metadata r)")
    case True
    then show ?thesis using assms(4) look op by (simp add: leaf_def Lookup_def bits zeroResult_def)
  next
    case False
    then have gt: "NodeCount (metadata r) < nn_pointer node" using p by simp
    then have nz: "nn_pointer node \<noteq> 0" by auto
    have d: "dataResult r n node = Some res" using assms(4) False by (simp add: leaf_def)
    then obtain offset where "resolveDataPointer r (nn_pointer node) = Inr offset"
      and "res = \<lparr>res_ip = mappedIP (nn_ip node), res_err = None, res_reader = Some r, res_offset = offset,
        res_prefixLen = ucast (nn_bit node)\<rparr>"
      using assms(5) by (auto simp: dataResult_def Let_def split: sum.splits if_splits)
    then show ?thesis using look False nz op by (simp add: Lookup_def bits zeroResult_def Let_def)
  qed
qed

lemma descend_take:
  "descend child nodeCount node bs = Inr (m, k) \<Longrightarrow> descend child nodeCount node (take k bs) = Inr (m, k)"
  by (induction bs arbitrary: node m k) (auto simp: bindE_eq_Inr split: if_splits)

text \<open>The start of the walk.\<close>

lemma opened_uncovered_within:
  assumes "opened r" and "\<not> tree_covered r" and "NetworksWithin r prefix n accept = Inr out" and "res \<in> set out"
  shows "res_err res \<noteq> None"
  using assms(3,4) opened_uncovered [OF assms(1,2)]
  by (auto simp: NetworksWithin_def Let_def bindE_eq_Inr split: option.splits if_splits)

lemma descend_within:
  assumes "tree_covered r" and "descend (child_of r) (NodeCount (metadata r)) 0 (bits128 a s stop) = Inr (p, k)"
    and "s = root_depth r" and "s \<le> stop" and "stop \<le> 128" and "\<forall>k < s. \<not> bit a (127 - k)"
  shows "at_node r (mask_prefix a (s + k)) (s + k) p"
proof -
  have k: "s + k \<le> stop" using descend_length [OF assms(2)] assms(4) by (simp add: bits128_def)
  have same: "bits128 (mask_prefix a (s + k)) s (s + k) = bits128 a s (s + k)"
    using k assms(5) by (auto simp: bits128_def bit_mask_prefix)
  have "take k (bits128 a s stop) = bits128 a s (s + k)" using k by (simp add: bits128_def take_map)
  with descend_take [OF assms(2)]
  have "descend (child_of r) (NodeCount (metadata r)) 0 (bits128 a s (s + k)) = Inr (p, k)" by simp
  then show ?thesis using assms(3,5,6) k same by (auto simp: at_node_def bit_mask_prefix)
qed

lemma bits128_ipv4_upto:
  assumes "n \<le> 32"
  shows "bits128 (ucast (q :: 32 word)) 0 (96 + n) = bits128 0 0 96 @ bits32 q n"
    and "bits128 (ucast q) 96 (96 + n) = bits32 q n"
proof -
  have "take (96 + n) (bits128 (ucast q) 0 128) = bits128 (ucast q) 0 (96 + n)"
    using assms by (simp add: bits128_def take_map del: upt_rec_numeral)
  moreover have "take (96 + n) (bits128 0 0 96 @ bits32 q 32) = bits128 0 0 96 @ bits32 q n"
    using assms by (simp add: bits128_def bits32_def take_map del: upt_rec_numeral)
  ultimately show all: "bits128 (ucast q) 0 (96 + n) = bits128 0 0 96 @ bits32 q n" by (simp add: bits128_ipv4)
  have "bits128 (ucast q) 0 (96 + n) = bits128 (ucast q) 0 96 @ bits128 (ucast q) 96 (96 + n)"
    by (rule bits128_append) simp_all
  moreover have "length (bits128 (ucast q) 0 96) = length (bits128 0 0 96)" by (simp add: bits128_def del: upt_rec_numeral)
  ultimately show "bits128 (ucast q) 96 (96 + n) = bits32 q n" using all by simp
qed

lemma opened_subtree:
  assumes "opened r" and "tree_covered r" and "IPVersion (metadata r) = 6"
  shows "descend (child_of r) (NodeCount (metadata r)) 0 (bits128 0 0 96) = Inr (ipv4Start r, ipv4StartBitDepth r)"
    and "ipv4StartBitDepth r < 96 \<Longrightarrow> \<not> ipv4Start r < NodeCount (metadata r)"
proof -
  show d: "descend (child_of r) (NodeCount (metadata r)) 0 (bits128 0 0 96) = Inr (ipv4Start r, ipv4StartBitDepth r)"
    using opened_ipv4Start [OF assms(1)] assms(2,3) by (simp add: traverseTree_covered traverse_descend zeroIP_def As16_def)
  have "length (bits128 0 0 96) = 96" by (simp add: bits128_def del: upt_rec_numeral)
  then show "ipv4StartBitDepth r < 96 \<Longrightarrow> \<not> ipv4Start r < NodeCount (metadata r)"
    using descend_all [OF d] by auto
qed

lemma bindE_return: "bindE x Inr = x"
  by (cases x) simp_all

lemma traverse_within:
  assumes "opened r" and "tree_covered r" and "n \<le> 32"
  shows "traverseTree r (V4 q) 0 (96 + n) =
    addBits (root_depth r) (descend (child_of r) (NodeCount (metadata r)) 0 (bits128 (ucast q) (root_depth r) (96 + n)))"
proof (cases "IPVersion (metadata r) = 6")
  case False
  then show ?thesis using opened_root [OF assms(1) False] assms(3) bits128_ipv4_upto(2) [OF assms(3), of q]
    by (simp add: traverseTree_covered [OF assms(2)] traverse_descend root_depth_def bits32_def addBits_def)
next
  case True
  note sub = opened_subtree [OF assms(1,2) True]
  have depth: "ipv4StartBitDepth r \<le> 96" by (rule opened_depth [OF assms(1,2)])
  have "addBits (ipv4StartBitDepth r) (descend (child_of r) (NodeCount (metadata r)) (ipv4Start r)
      (bits32 q (min (96 + n - ipv4StartBitDepth r) 32))) =
    addBits (ipv4StartBitDepth r) (descend (child_of r) (NodeCount (metadata r)) (ipv4Start r) (bits32 q n))"
  proof (cases "ipv4StartBitDepth r = 96")
    case True
    then show ?thesis using assms(3) by simp
  next
    case False
    then show ?thesis using sub(2) depth by (simp add: descend_leaf)
  qed
  moreover have "n = 0 \<and> ipv4StartBitDepth r = 96" if "96 + n \<le> ipv4StartBitDepth r" using that depth by simp
  ultimately show ?thesis
    using sub(1) True bits128_ipv4_upto(1) [OF assms(3), of q] assms(3)
    by (auto simp: traverseTree_covered [OF assms(2)] traverse_descend root_depth_def descend_append addBits_def bits32_def bindE_return)
qed

lemma NetworksWithin_walk:
  assumes "opened r" and "tree_covered r" and "IPVersion (metadata r) = 4 \<or> IPVersion (metadata r) = 6"
    and "IsValid (fst prefix)" and "NetworksWithin r prefix n accept = Inr out"
  obtains (error) res where "out = [res]" and "res_err res \<noteq> None"
    | (walk) a b p where "at_node r a b p"
      and "out = networks_loop r n accept [] [\<lparr>nn_ip = V6 a, nn_bit = word_of_nat b, nn_pointer = p\<rparr>]"
proof (cases "snd prefix = None \<or> (IPVersion (metadata r) = 4 \<and> Is6 (fst prefix)) \<or>
    (case fst prefix of V4 _ \<Rightarrow> 32 | _ \<Rightarrow> 128) < the (snd prefix)")
  case True
  then show ?thesis
    using assms(4,5) that(1)
    by (cases "fst prefix")
      (auto simp: NetworksWithin_def Let_def IsValid_def Is4_def Is6_def v4ToV16_def As4_def
        split: option.splits if_splits)
next
  case False
  then obtain bits where bits: "snd prefix = Some bits" by auto
  note start = descend_within [OF assms(2)]
  show ?thesis
  proof (cases "fst prefix")
    case ZeroAddr
    then show ?thesis using assms(4) by (simp add: IsValid_def)
  next
    case (V6 a)
    then have six: "root_depth r = 0" and le: "bits \<le> 128" using False bits assms(3)
      by (auto simp: root_depth_def Is6_def)
    obtain p k where d: "descend (child_of r) (NodeCount (metadata r)) 0 (bits128 a 0 bits) = Inr (p, k)"
      using descend_covered [OF assms(2)] by blast
    have "k \<le> 128" using descend_length [OF d] le by (simp add: bits128_def)
    then show ?thesis
      using that(2) start [OF d] assms(5) V6 bits False six le d
      by (auto simp: NetworksWithin_def Let_def Is4_def traverseTree_covered [OF assms(2)] traverse_descend As16_def
          Addr_Prefix_def)
  next
    case (V4 q)
    then have le: "bits \<le> 32" using False bits by simp
    let ?s = "root_depth r"
    obtain p k where d: "descend (child_of r) (NodeCount (metadata r)) 0 (bits128 (ucast q) ?s (96 + bits)) = Inr (p, k)"
      using descend_covered [OF assms(2)] by blast
    have s: "?s \<le> 96" by (simp add: root_depth_def)
    have "\<forall>k < ?s. \<not> bit (ucast q :: 128 word) (127 - k)"
      using s by (auto simp: bit_simps dest!: bit_imp_le_length)
    note at = start [OF d refl _ _ this]
    have "traverseTree r (V4 q) 0 (96 + bits) = Inr (p, ?s + k)"
      using traverse_within [OF assms(1,2) le, of q] d by (simp add: addBits_def)
    moreover have "?s + k \<le> 128" using descend_length [OF d] le s by (simp add: bits128_def)
    ultimately show ?thesis
      using that(2) at assms(5) V4 bits False le s
      by (auto simp: NetworksWithin_def Let_def Is4_def Is6_def v4ToV16_def As4_def Addr_Prefix_def ac_simps)
  qed
qed

lemma opened_mult: "opened r \<Longrightarrow> nodeOffsetMult r = RecordSize (metadata r) div 4"
  using openMetadata_Inr(2,3) by (metis opened_def)

lemma root_reached:
  assumes "at_node r a b p"
  shows "reached r \<lparr>nn_ip = V6 a, nn_bit = word_of_nat b, nn_pointer = p\<rparr>"
  using assms by (simp add: reached_def at_node_def unat_of_nat take_bit_nat_eq_self)

definition results_ok :: "Reader \<Rightarrow> Result list \<Rightarrow> bool" where
  "results_ok r out \<longleftrightarrow> (\<forall>res \<in> set out. res_err res = None \<longrightarrow> Lookup r (res_ip res) = res)"

text \<open>
  C33. Every network the iterator yields, for any prefix, any options and however early the client
  stops, is what looking up the network's own address gives: the same record, offset, address and
  prefix length, or an error is reported with it.
\<close>

theorem networks_are_lookups:
  assumes "opened r" and "IPVersion (metadata r) = 4 \<or> IPVersion (metadata r) = 6" and "IsValid (fst prefix)"
    and "NetworksWithin r prefix n accept = Inr out" and "res \<in> set out" and "res_err res = None"
  shows "Lookup r (res_ip res) = res"
proof (cases "tree_covered r")
  case False
  then show ?thesis using opened_uncovered_within [OF assms(1) _ assms(4,5)] assms(6) by simp
next
  case cov: True
  from assms(1) cov assms(2,3,4) show ?thesis
  proof (cases rule: NetworksWithin_walk)
    case (error res')
    then show ?thesis using assms(5,6) by simp
  next
    case (walk a b p)
    have "results_ok r out"
      unfolding walk(2)
    proof (rule networks_invariant [where Inv = "\<lambda>out nodes. results_ok r out \<and> (\<forall>node \<in> set nodes. reached r node)"])
      show "results_ok r [] \<and> (\<forall>node \<in> set [\<lparr>nn_ip = V6 a, nn_bit = word_of_nat b, nn_pointer = p\<rparr>]. reached r node)"
        using root_reached [OF walk(1)] by (simp add: results_ok_def)
    next
      fix out node nodes lp rp
      assume "results_ok r out \<and> (\<forall>node \<in> set (node # nodes). reached r node)"
        and "nn_pointer node < NodeCount (metadata r)" "unat (nn_bit node) < 128"
        and "readNodePairBySize (buf r) (nn_pointer node * nodeOffsetMult r) (RecordSize (metadata r)) = Inr (lp, rp)"
      then show "results_ok r out \<and> (\<forall>node \<in> set (left_node node lp # right_node node rp # nodes). reached r node)"
        using reached_children [OF _ _ _ cov opened_mult [OF assms(1)], of node] by simp
    qed (use leaf_lookup [OF assms(1) cov] in \<open>auto simp: results_ok_def failing_def\<close>)
    then show ?thesis using assms(5,6) by (simp add: results_ok_def)
  qed
qed

theorem networks_are_lookups_witness:
  "\<exists>out. Networks (sample 4) \<lparr>includeAliasedNetworks = False, includeEmptyNetworks = True, skipEmptyValues = False\<rparr>
       (\<lambda>_. True) = Inr out \<and> length out = 2 \<and> (\<forall>res \<in> set out. Lookup (sample 4) (res_ip res) = res)"
proof -
  let ?n = "\<lparr>includeAliasedNetworks = False, includeEmptyNetworks = True, skipEmptyValues = False\<rparr>"
  have "case Networks (sample 4) ?n (\<lambda>_. True) of Inl _ \<Rightarrow> False
      | Inr out \<Rightarrow> length out = 2 \<and> list_all (\<lambda>res. res_err res = None) out" by code_simp
  then obtain out where out: "NetworksWithin (sample 4) allIPv4 ?n (\<lambda>_. True) = Inr out" "length out = 2"
    "\<forall>res \<in> set out. res_err res = None"
    by (auto simp: Networks_def sample_def sample_metadata_def list_all_iff split: sum.splits)
  then have "\<forall>res \<in> set out. Lookup (sample 4) (res_ip res) = res"
    using networks_are_lookups [OF sample_opened(1) _ _ out(1)]
    by (simp add: sample_def sample_metadata_def allIPv4_def IsValid_def)
  with out show ?thesis by (auto simp: Networks_def sample_def sample_metadata_def)
qed

section \<open>Order and completeness\<close>

text \<open>The first address and the size (as a power of two) of a network.\<close>

definition first_address :: "Addr \<Rightarrow> nat" where
  "first_address ip = (case ip of ZeroAddr \<Rightarrow> 0 | V4 a \<Rightarrow> unat a | V6 a \<Rightarrow> unat a)"

definition result_range :: "Result \<Rightarrow> nat \<times> nat" where
  "result_range res = (first_address (res_ip res), 128 - unat (res_prefixLen res))"

definition node_range :: "netNode \<Rightarrow> nat \<times> nat" where
  "node_range node = (first_address (nn_ip node), 128 - unat (nn_bit node))"

definition ascending :: "(nat \<times> nat) list \<Rightarrow> bool" where
  "ascending = sorted_wrt (\<lambda>(a, k) (b, _). a + 2 ^ k \<le> b)"

text \<open>\<open>tiles lo hi xs\<close>: the ranges follow each other without a gap from \<open>lo\<close> up to \<open>hi\<close>.\<close>

fun tiles :: "nat \<Rightarrow> nat \<Rightarrow> (nat \<times> nat) list \<Rightarrow> bool" where
  "tiles lo hi [] \<longleftrightarrow> lo = hi"
| "tiles lo hi ((a, k) # xs) \<longleftrightarrow> a = lo \<and> tiles (lo + 2 ^ k) hi xs"

lemma tiles_append: "tiles lo hi (xs @ ys) \<longleftrightarrow> (\<exists>mid. tiles lo mid xs \<and> tiles mid hi ys)"
  by (induction xs arbitrary: lo) auto

lemma ascending_split:
  "ascending (xs @ (a, Suc k) # ys) \<Longrightarrow> ascending (xs @ (a, k) # (a + 2 ^ k, k) # ys)"
  unfolding ascending_def by (fastforce simp: sorted_wrt_append)

lemma ascending_drop: "ascending (xs @ x # ys) \<Longrightarrow> ascending (xs @ ys)"
  by (simp add: ascending_def sorted_wrt_append)

lemma ascending_take: "ascending (xs @ ys) \<Longrightarrow> ascending xs"
  by (simp add: ascending_def sorted_wrt_append)

lemma reached_bit: "reached r node \<Longrightarrow> unat (nn_bit node) \<le> 128"
  by (auto simp: reached_def at_node_def)

lemma mapped_range:
  assumes "reached r node" and "res_ip res = mappedIP (nn_ip node)" and "res_prefixLen res = ucast (nn_bit node)"
  shows "result_range res = node_range node"
proof -
  have "unat (ucast (nn_bit node) :: byte) = unat (nn_bit node)"
    using reached_bit [OF assms(1)] by (simp add: unsigned_ucast_eq take_bit_nat_eq_self)
  moreover obtain a where a: "nn_ip node = V6 a" using assms(1) by (auto simp: reached_def)
  moreover have "unat (ucast a :: 32 word) = unat a" if "a < 2 ^ 32"
    using that by (simp add: unsigned_ucast_eq take_bit_nat_eq_self word_less_nat_alt)
  ultimately show ?thesis using assms(2,3) by (simp add: result_range_def node_range_def first_address_def mappedIP_V6)
qed

lemma leaf_range: "reached r node \<Longrightarrow> leaf r n node res \<Longrightarrow> result_range res = node_range node"
  by (rule mapped_range) (auto simp: leaf_def dataResult_def Let_def split: sum.splits if_splits)

lemma split_range:
  assumes "reached r node" and "unat (nn_bit node) < 128"
  obtains a k where "node_range node = (a, Suc k)" and "node_range (left_node node lp) = (a, k)"
    and "node_range (right_node node rp) = (a + 2 ^ k, k)"
proof -
  obtain a where a: "nn_ip node = V6 a" "mask_prefix a (unat (nn_bit node)) = a"
    using assms(1) by (auto simp: reached_def at_node_def)
  let ?k = "127 - unat (nn_bit node)"
  have "\<not> bit a ?k" using clear_below [OF a(2), of ?k] assms(2) by simp
  moreover have "unat (set_bit ?k a) = set_bit ?k (unat a)"
    by (rule bit_eqI) (auto simp: bit_simps)
  ultimately have "unat (set_bit ?k a) = unat a + 2 ^ ?k"
    by (simp add: set_bit_eq bit_unsigned_iff)
  then show ?thesis
    using that [of "unat a" ?k] a(1) assms(2) unat_inc_bit [OF assms(2)]
    by (simp add: node_range_def left_node_def right_node_def first_address_def As16_def)
qed

text \<open>
  The iterator yields the networks in ascending order without overlap: each one ends before the
  next begins, whatever the options, and also when the client stops early or an error ends the walk.
\<close>

theorem networks_ascending:
  assumes "opened r" and "IPVersion (metadata r) = 4 \<or> IPVersion (metadata r) = 6" and "IsValid (fst prefix)"
    and "NetworksWithin r prefix n accept = Inr out"
  shows "sorted_wrt (\<lambda>(a, k) (b, _). a + 2 ^ k \<le> b) (map result_range out)"
proof (cases "tree_covered r")
  case False
  then show ?thesis
    using opened_uncovered [OF assms(1) False] assms(4)
    by (auto simp: NetworksWithin_def Let_def bindE_eq_Inr split: option.splits if_splits)
next
  case cov: True
  from assms(1) cov assms(2,3,4) show ?thesis
  proof (cases rule: NetworksWithin_walk)
    case (error res')
    then show ?thesis by simp
  next
    case (walk a b p)
    let ?Inv = "\<lambda>out nodes. (\<forall>node \<in> set nodes. reached r node) \<and> ascending (map result_range out @ map node_range nodes)"
    have "ascending (map result_range out)"
      unfolding walk(2)
    proof (rule networks_invariant [where Inv = ?Inv])
      show "?Inv [] [\<lparr>nn_ip = V6 a, nn_bit = word_of_nat b, nn_pointer = p\<rparr>]"
        using root_reached [OF walk(1)] by (simp add: ascending_def)
    next
      fix out node nodes lp rp
      assume inv: "?Inv out (node # nodes)" and p: "nn_pointer node < NodeCount (metadata r)" "unat (nn_bit node) < 128"
        and q: "readNodePairBySize (buf r) (nn_pointer node * nodeOffsetMult r) (RecordSize (metadata r)) = Inr (lp, rp)"
      then have "reached r node" by simp
      from split_range [OF this p(2)] obtain a k where "node_range node = (a, Suc k)"
        "node_range (left_node node lp) = (a, k)" "node_range (right_node node rp) = (a + 2 ^ k, k)" by metis
      with inv ascending_split show "?Inv out (left_node node lp # right_node node rp # nodes)"
        using reached_children [OF \<open>reached r node\<close> p cov opened_mult [OF assms(1)] q] by simp
    next
      fix out node nodes res assume "?Inv out (node # nodes)" "failing r node res"
      then show "ascending (map result_range (out @ [res]))"
        using mapped_range [of r node res] ascending_take [of "map result_range out @ [node_range node]" "map node_range nodes"]
        by (simp add: failing_def)
    next
      fix out node nodes res assume "?Inv out (node # nodes)" "leaf r n node res"
      then show "?Inv (out @ [res]) nodes" using leaf_range [of r node n res] by simp
    next
      fix out node nodes assume "?Inv out (node # nodes)"
      then show "?Inv out nodes" by (auto intro: ascending_drop)
    next
      fix out nodes assume "?Inv out nodes"
      then show "ascending (map result_range out)" using ascending_take by blast
    qed
    then show ?thesis by (simp add: ascending_def)
  qed
qed

theorem networks_ascending_witness:
  "\<exists>out. NetworksWithin (sample 6) allIPv6 \<lparr>includeAliasedNetworks = True, includeEmptyNetworks = True, skipEmptyValues = False\<rparr>
       (\<lambda>out. length out < 2) = Inr out \<and> length out = 2 \<and>
     sorted_wrt (\<lambda>(a, k) (b, _). a + 2 ^ k \<le> b) (map result_range out)"
proof -
  let ?n = "\<lparr>includeAliasedNetworks = True, includeEmptyNetworks = True, skipEmptyValues = False\<rparr>"
  have "case NetworksWithin (sample 6) allIPv6 ?n (\<lambda>out. length out < 2) of Inl _ \<Rightarrow> False
      | Inr out \<Rightarrow> length out = 2" by code_simp
  then obtain out where "NetworksWithin (sample 6) allIPv6 ?n (\<lambda>out. length out < 2) = Inr out" "length out = 2"
    by (auto split: sum.splits)
  with networks_ascending [OF sample_opened(2) _ _ this(1)] show ?thesis
    by (simp add: sample_def sample_metadata_def allIPv6_def IsValid_def)
qed

text \<open>The walk over the whole address space starts at the root.\<close>

definition root_node :: "Reader \<Rightarrow> netNode" where
  "root_node r = \<lparr>nn_ip = V6 0, nn_bit = word_of_nat (root_depth r), nn_pointer = 0\<rparr>"

lemma root_node_at: "at_node r 0 (root_depth r) 0"
  by (simp add: at_node_def root_depth_def bits128_def mask_prefix_def)

lemma root_node_reached: "reached r (root_node r)"
  using root_reached [OF root_node_at] by (simp add: root_node_def)

lemma Networks_walk:
  assumes "opened r" and "tree_covered r" and "IPVersion (metadata r) = 4 \<or> IPVersion (metadata r) = 6"
  shows "Networks r n accept = Inr (networks_loop r n accept [] [root_node r])"
  using opened_root [OF assms(1)] assms(3)
  by (auto simp: Networks_def NetworksWithin_def allIPv4_def allIPv6_def Let_def Is4_def Is6_def v4ToV16_def As4_def
      traverseTree_covered [OF assms(2)] traverse_descend root_depth_def bits128_def As16_def Addr_Prefix_def
      mask_prefix_def root_node_def)

lemma Networks_covered:
  assumes "opened r" and "IPVersion (metadata r) = 4 \<or> IPVersion (metadata r) = 6"
    and "Networks r n accept = Inr out" and "\<forall>res \<in> set out. res_err res = None"
  shows "tree_covered r"
proof (rule ccontr)
  assume nc: "\<not> tree_covered r"
  then show False
    using assms(2,3,4) opened_uncovered [OF assms(1) nc]
    by (auto simp: Networks_def NetworksWithin_def allIPv4_def allIPv6_def Let_def Is4_def Is6_def v4ToV16_def As4_def
        split: if_splits)
qed

lemma Networks_tiles:
  assumes "opened r" and "IPVersion (metadata r) = 4 \<or> IPVersion (metadata r) = 6" and "yields_all n"
    and "Networks r n (\<lambda>_. True) = Inr out" and "\<forall>res \<in> set out. res_err res = None"
  shows "tiles 0 (if IPVersion (metadata r) = 6 then 2 ^ 128 else 2 ^ 32) (map result_range out)"
proof -
  let ?hi = "if IPVersion (metadata r) = 6 then 2 ^ 128 else 2 ^ 32 :: nat"
  let ?Inv = "\<lambda>out nodes. (\<forall>node \<in> set nodes. reached r node) \<and>
    tiles 0 ?hi (map result_range out @ map node_range nodes)"
  have cov: "tree_covered r" by (rule Networks_covered [OF assms(1,2,4,5)])
  have walk: "out = networks_loop r n (\<lambda>_. True) [] [root_node r]"
    using Networks_walk [OF assms(1) cov assms(2)] assms(4) by simp
  have "(\<forall>res \<in> set out. res_err res = None) \<longrightarrow> tiles 0 ?hi (map result_range out)"
    unfolding walk
  proof (rule networks_invariant [where Inv = ?Inv])
    show "?Inv [] [root_node r]"
      using root_node_reached [of r] by (simp add: node_range_def first_address_def root_node_def root_depth_def)
  next
    fix out node nodes res assume "?Inv out (node # nodes)" "leaf r n node res"
    then show "?Inv (out @ [res]) nodes" using leaf_range [of r node n res] by simp
  next
    fix out node nodes lp rp
    assume inv: "?Inv out (node # nodes)" and p: "nn_pointer node < NodeCount (metadata r)" "unat (nn_bit node) < 128"
      and q: "readNodePairBySize (buf r) (nn_pointer node * nodeOffsetMult r) (RecordSize (metadata r)) = Inr (lp, rp)"
    then have "reached r node" by simp
    from split_range [OF this p(2)] obtain a k where "node_range node = (a, Suc k)"
      "node_range (left_node node lp) = (a, k)" "node_range (right_node node rp) = (a + 2 ^ k, k)" by metis
    with inv show "?Inv out (left_node node lp # right_node node rp # nodes)"
      using reached_children [OF \<open>reached r node\<close> p cov opened_mult [OF assms(1)] q]
      by (auto simp: tiles_append mult_2 add.assoc)
  qed (use assms(3) in \<open>auto simp: failing_def\<close>)
  with assms(5) show ?thesis by blast
qed

text \<open>
  C37. \<open>Networks\<close> with every option to include networks, run to the end without an error, covers the
  whole address space: the first network starts at 0, each one starts where the one before it ends,
  and the last one ends at the end of the space. So no address is missed and none is covered twice.
\<close>

theorem networks_tile:
  assumes "opened r" and "IPVersion (metadata r) = 4 \<or> IPVersion (metadata r) = 6" and "yields_all n"
    and "Networks r n (\<lambda>_. True) = Inr out" and "\<forall>res \<in> set out. res_err res = None"
  shows "tiles 0 (if IPVersion (metadata r) = 6 then 2 ^ 128 else 2 ^ 32) (map result_range out)"
  using assms by (rule Networks_tiles)

lemma case_Inr: "(case x of Inl _ \<Rightarrow> False | Inr y \<Rightarrow> P y) \<Longrightarrow> \<exists>y. x = Inr y \<and> P y"
  by (cases x) simp_all

theorem networks_tile_witness:
  "\<exists>out. Networks (sample 4) \<lparr>includeAliasedNetworks = True, includeEmptyNetworks = True, skipEmptyValues = False\<rparr>
       (\<lambda>_. True) = Inr out \<and> map result_range out = [(0, 31), (2 ^ 31, 31)] \<and> tiles 0 (2 ^ 32) (map result_range out)"
proof -
  let ?n = "\<lparr>includeAliasedNetworks = True, includeEmptyNetworks = True, skipEmptyValues = False\<rparr>"
  let ?P = "\<lambda>out. list_all (\<lambda>res. res_err res = None) out \<and>
    map (\<lambda>res. (res_ip res, res_prefixLen res)) out = [(V4 0, 97), (V4 0x80000000, 97)]"
  have "case Networks (sample 4) ?n (\<lambda>_. True) of Inl _ \<Rightarrow> False | Inr out \<Rightarrow> ?P out" by code_simp
  from case_Inr [OF this] obtain out where o: "Networks (sample 4) ?n (\<lambda>_. True) = Inr out \<and> ?P out" ..
  note out = conjunct1 [OF o] and P = conjunct2 [OF o]
  from P have err: "\<forall>res \<in> set out. res_err res = None" by (simp add: list_all_iff)
  from P obtain x y where xy: "out = [x, y]" "res_ip x = V4 0" "res_ip y = V4 0x80000000"
    "res_prefixLen x = 97" "res_prefixLen y = 97" by (auto simp: map_eq_Cons_conv)
  then have "map result_range out = [(0, 31), (2 ^ 31, 31)]"
    by (simp add: result_range_def first_address_def)
  moreover have "IPVersion (metadata (sample 4)) = 4" by (simp add: sample_def sample_metadata_def)
  ultimately show ?thesis
    using out networks_tile [OF sample_opened(1) _ _ out err] by (simp add: yields_all_def)
qed

end
