(* ===== verification/TreeVerifier.thy ===== *)
theory TreeVerifier
  imports NetworkProofs
begin

text \<open>
  The verification of the search tree (\<open>verifier.go\<close>). A depth-first walk that memoizes, for each node,
  the height of the subtree below it; shared subtrees are visited once. What a successful run
  guarantees: every lookup succeeds at a record the walk has seen, and the network iterator runs to its
  end without an error. And the walk expands each node at most once.
\<close>

section \<open>The walker\<close>

record searchTreeWalker =
  offsets :: "uint set"
  nodeStates :: "byte list"
  stateCount :: uint

definition searchTreeNodeUnvisited :: byte where
  "searchTreeNodeUnvisited = 0"

definition searchTreeNodeVisiting :: byte where
  "searchTreeNodeVisiting = 255"

lemma unat_inc_depth: "\<not> 128 \<le> (b :: uint) \<Longrightarrow> unat b < 128 \<and> unat (b + 1) = Suc (unat b)"
  using unat_inc_bit [of b] by (simp add: word_le_nat_alt)

text \<open>The walker is passed on whether a step succeeds or fails.\<close>

function verifyNode :: "Reader \<Rightarrow> uint \<Rightarrow> uint \<Rightarrow> searchTreeWalker \<Rightarrow> byte res \<times> searchTreeWalker"
  and verifyPointer :: "Reader \<Rightarrow> uint \<Rightarrow> uint \<Rightarrow> searchTreeWalker \<Rightarrow> byte res \<times> searchTreeWalker" where
  "verifyNode r node bitDepth w =
     (if bitDepth \<ge> 128 then (Inl (InvalidDatabaseError (TreeMsg (InternalNodeTooDeep bitDepth))), w)
      else if unat node \<ge> length (nodeStates w) then (Inl Panic, w)
      else if nodeStates w ! unat node = searchTreeNodeVisiting then
        (Inl (InvalidDatabaseError (TreeMsg (CycleAtNode node))), w)
      else if nodeStates w ! unat node \<noteq> searchTreeNodeUnvisited then (Inr (nodeStates w ! unat node), w)
      else
        let w = w\<lparr>nodeStates := (nodeStates w)[unat node := searchTreeNodeVisiting], stateCount := stateCount w + 1\<rparr> in
        case readNodePairBySize (buf r) (node * nodeOffsetMult r) (RecordSize (metadata r)) of
          Inl err \<Rightarrow> (Inl err, w)
        | Inr (left, right) \<Rightarrow>
            (case verifyPointer r left (bitDepth + 1) w of
               (Inl err, w) \<Rightarrow> (Inl err, w)
             | (Inr leftHeight, w) \<Rightarrow>
                 (case verifyPointer r right (bitDepth + 1) w of
                    (Inl err, w) \<Rightarrow> (Inl err, w)
                  | (Inr rightHeight, w) \<Rightarrow>
                      let maximumChildHeight = max leftHeight rightHeight in
                      if maximumChildHeight = 128 then (Inl (InvalidDatabaseError (TreeMsg PathExceeds128Bits)), w)
                      else
                        let height = maximumChildHeight + 1 in
                        (Inr height, w\<lparr>nodeStates := (nodeStates w)[unat node := height]\<rparr>))))"
| "verifyPointer r pointer bitDepth w =
     (if pointer = NodeCount (metadata r) then (Inr 0, w)
      else if pointer < NodeCount (metadata r) then verifyNode r pointer bitDepth w
      else
        case resolveDataPointer r pointer of
          Inl err \<Rightarrow> (Inl err, w)
        | Inr offset \<Rightarrow> (Inr 0, w\<lparr>offsets := insert offset (offsets w)\<rparr>))"
  by pat_completeness auto

termination
  by (relation "measure (case_sum (\<lambda>(r, node, bitDepth, w). 2 * (129 - unat bitDepth))
      (\<lambda>(r, pointer, bitDepth, w). 2 * (129 - unat bitDepth) + 1))")
    (auto dest!: unat_inc_depth)

declare verifyNode.simps [simp del] verifyPointer.simps [simp del]

text \<open>\<open>verifySearchTreeWithStateCount\<close>: the offsets of the records, or an error, and the state count.\<close>

definition verifySearchTreeWithStateCount :: "Reader \<Rightarrow> (uint set) res \<times> uint" where
  "verifySearchTreeWithStateCount r =
     (let nodeCount = NodeCount (metadata r) in
      if RecordSize (metadata r) \<noteq> 24 \<and> RecordSize (metadata r) \<noteq> 28 \<and> RecordSize (metadata r) \<noteq> 32 then
        (Inl (InvalidDatabaseError (TreeMsg UnsupportedRecordSize)), 0)
      else if nodeOffsetMult r = 0 \<or> nodeCount > glen (buf r) div nodeOffsetMult r then
        (Inl (InvalidDatabaseError (TreeMsg TreeVerificationOutOfBounds)), 0)
      else
        let bitDepth = (if IPVersion (metadata r) = 4 then 96 else 0);
            walker = \<lparr>offsets = {}, nodeStates = replicate (unat nodeCount) 0, stateCount = 0\<rparr>
        in case verifyNode r 0 bitDepth walker of
             (Inl err, walker) \<Rightarrow> (Inl err, stateCount walker)
           | (Inr height, walker) \<Rightarrow>
               if bitDepth + ucast height > 128 then
                 (Inl (InvalidDatabaseError (TreeMsg PathExceeds128Bits)), stateCount walker)
               else (Inr (offsets walker), stateCount walker))"

definition verifySearchTree :: "Reader \<Rightarrow> (uint set) res" where
  "verifySearchTree r = fst (verifySearchTreeWithStateCount r)"

definition verifyDataSectionSeparator :: "Reader \<Rightarrow> unit res" where
  "verifyDataSectionSeparator r =
     (let separatorStart = searchTreeSizeBytes (NodeCount (metadata r)) (RecordSize (metadata r));
          separatorEnd = separatorStart + dataSectionSeparatorSize
      in if separatorEnd < separatorStart \<or> separatorEnd > glen (buf r) then
           Inl (InvalidDatabaseError (FileMsg SeparatorUnexpectedEnd))
         else
           bindE (slice (buf r) separatorStart separatorEnd) (\<lambda>separator.
             if separator \<noteq> replicate 16 0 then
               Inl (InvalidDatabaseError (FileMsg (SeparatorUnexpectedByte separator)))
             else Inr ()))"

section \<open>The cost of the walk\<close>

definition visited :: "searchTreeWalker \<Rightarrow> nat" where
  "visited w = length (filter (\<lambda>s. s \<noteq> 0) (nodeStates w))"

lemma filter_update:
  "i < length xs \<Longrightarrow> length (filter P (xs[i := x])) + of_bool (P (xs ! i)) = length (filter P xs) + of_bool (P x)"
proof (induction xs arbitrary: i)
  case (Cons a xs)
  then show ?case using Cons.IH [of "i - 1"] by (cases i) auto
qed simp

text \<open>Counting an expanded node, and never clearing one.\<close>

definition counted :: "Reader \<Rightarrow> searchTreeWalker \<Rightarrow> searchTreeWalker \<Rightarrow> bool" where
  "counted r w w' \<longleftrightarrow> length (nodeStates w') = length (nodeStates w) \<and>
     (\<forall>i < length (nodeStates w). nodeStates w ! i \<noteq> 0 \<longrightarrow> nodeStates w' ! i \<noteq> 0) \<and>
     (stateCount w = of_nat (visited w) \<longrightarrow> stateCount w' = of_nat (visited w'))"

lemma counted_refl: "counted r w w"
  by (simp add: counted_def)

lemma counted_trans: "counted r w w' \<Longrightarrow> counted r w' w'' \<Longrightarrow> counted r w w''"
  by (simp add: counted_def)

lemma counted_visit:
  assumes "unat node < length (nodeStates w)" and "nodeStates w ! unat node = 0"
  shows "counted r w (w\<lparr>nodeStates := (nodeStates w)[unat node := 255], stateCount := stateCount w + 1\<rparr>)"
  using assms filter_update [OF assms(1), of "\<lambda>s. s \<noteq> 0" 255]
  by (auto simp: counted_def visited_def nth_list_update)

lemma counted_settle:
  assumes "counted r w w'" and "nodeStates w ! unat node \<noteq> 0" and "unat node < length (nodeStates w)" and "h \<noteq> 0"
  shows "counted r w (w'\<lparr>nodeStates := (nodeStates w')[unat node := h]\<rparr>)"
  using assms filter_update [of "unat node" "nodeStates w'" "\<lambda>s. s \<noteq> 0" h]
  by (auto simp: counted_def visited_def nth_list_update)

section \<open>What a successful walk leaves\<close>

definition has_height :: "Reader \<Rightarrow> searchTreeWalker \<Rightarrow> uint \<Rightarrow> byte \<Rightarrow> bool" where
  "has_height r w p h \<longleftrightarrow> h \<le> 128 \<and>
     (if p < NodeCount (metadata r) then nodeStates w ! unat p = h \<and> h \<noteq> 0
      else h = 0 \<and> (p = NodeCount (metadata r) \<or> (\<exists>off \<in> offsets w. resolveDataPointer r p = Inr off)))"

definition node_settled :: "Reader \<Rightarrow> searchTreeWalker \<Rightarrow> uint \<Rightarrow> byte \<Rightarrow> bool" where
  "node_settled r w node h \<longleftrightarrow>
     (\<exists>left right lh rh. readNodePairBySize (buf r) (node * nodeOffsetMult r) (RecordSize (metadata r)) = Inr (left, right) \<and>
        has_height r w left lh \<and> has_height r w right rh \<and> lh < h \<and> rh < h)"

definition tree_inv :: "Reader \<Rightarrow> searchTreeWalker \<Rightarrow> bool" where
  "tree_inv r w \<longleftrightarrow> length (nodeStates w) = unat (NodeCount (metadata r)) \<and>
     (\<forall>node < NodeCount (metadata r). let s = nodeStates w ! unat node in
        s = 0 \<or> s = 255 \<or> s \<le> 128 \<and> node_settled r w node s)"

definition extends :: "Reader \<Rightarrow> searchTreeWalker \<Rightarrow> searchTreeWalker \<Rightarrow> bool" where
  "extends r w w' \<longleftrightarrow> offsets w \<subseteq> offsets w' \<and> length (nodeStates w') = length (nodeStates w) \<and>
     (\<forall>i < length (nodeStates w). nodeStates w ! i \<noteq> 0 \<longrightarrow> nodeStates w' ! i = nodeStates w ! i)"

lemma extends_refl: "extends r w w"
  by (simp add: extends_def)

lemma extends_trans: "extends r w w' \<Longrightarrow> extends r w' w'' \<Longrightarrow> extends r w w''"
  by (auto simp: extends_def)

lemma tree_inv_length: "tree_inv r w \<Longrightarrow> node < NodeCount (metadata r) \<longleftrightarrow> unat node < length (nodeStates w)"
  by (simp add: tree_inv_def word_less_nat_alt)

lemma has_height_extends:
  "has_height r w p h \<Longrightarrow> extends r w w' \<Longrightarrow> tree_inv r w \<Longrightarrow> has_height r w' p h"
  by (auto simp: has_height_def extends_def tree_inv_length split: if_splits)

lemma node_settled_extends:
  "node_settled r w node h \<Longrightarrow> extends r w w' \<Longrightarrow> tree_inv r w \<Longrightarrow> node_settled r w' node h"
  unfolding node_settled_def by (elim exE conjE) (intro exI conjI; (rule has_height_extends)?; assumption)

lemma tree_invI:
  assumes "length (nodeStates w) = unat (NodeCount (metadata r))"
    and "\<And>node. node < NodeCount (metadata r) \<Longrightarrow> nodeStates w ! unat node \<noteq> 0 \<Longrightarrow> nodeStates w ! unat node \<noteq> 255 \<Longrightarrow>
      nodeStates w ! unat node \<le> 128 \<and> node_settled r w node (nodeStates w ! unat node)"
  shows "tree_inv r w"
  using assms by (auto simp: tree_inv_def Let_def)

lemma tree_inv_settled:
  "tree_inv r w \<Longrightarrow> node < NodeCount (metadata r) \<Longrightarrow> nodeStates w ! unat node \<noteq> 0 \<Longrightarrow> nodeStates w ! unat node \<noteq> 255 \<Longrightarrow>
     nodeStates w ! unat node \<le> 128 \<and> node_settled r w node (nodeStates w ! unat node)"
  by (auto simp: tree_inv_def Let_def)

lemma nth_update_node:
  "length xs = unat (n :: uint) \<Longrightarrow> node < n \<Longrightarrow> xs[unat k := x] ! unat node = (if node = k then x else xs ! unat node)"
  by (auto simp: nth_list_update word_less_nat_alt word_unat_eq_iff)

text \<open>Marking a node, adding an offset and storing a height keep the invariant.\<close>

lemma visit_inv:
  fixes node :: uint
  assumes "tree_inv r w" and "unat node < length (nodeStates w)" and "nodeStates w ! unat node = 0"
    and w': "w' = w\<lparr>nodeStates := (nodeStates w)[unat node := 255], stateCount := c\<rparr>"
  shows "tree_inv r w'" and "extends r w w'" and "nodeStates w' ! unat node = 255"
proof -
  show ext: "extends r w w'" using assms(2,3) by (auto simp: extends_def w' nth_list_update)
  show "nodeStates w' ! unat node = 255" using assms(2) by (simp add: w')
  have len: "length (nodeStates w) = unat (NodeCount (metadata r))" using assms(1) by (simp add: tree_inv_def)
  show "tree_inv r w'"
  proof (rule tree_invI)
    fix n assume n: "n < NodeCount (metadata r)" "nodeStates w' ! unat n \<noteq> 0" "nodeStates w' ! unat n \<noteq> 255"
    show "nodeStates w' ! unat n \<le> 128 \<and> node_settled r w' n (nodeStates w' ! unat n)"
      using n tree_inv_settled [OF assms(1) n(1)] node_settled_extends [OF _ ext assms(1)]
      by (cases "n = node") (simp_all add: w' nth_update_node [OF len])
  qed (simp add: w' len)
qed

lemma offset_inv:
  assumes "tree_inv r w"
    and w': "w' = w\<lparr>offsets := insert off (offsets w)\<rparr>"
  shows "tree_inv r w'" and "extends r w w'"
proof -
  show ext: "extends r w w'" by (auto simp: extends_def w')
  show "tree_inv r w'"
    using assms(1) node_settled_extends [OF _ ext assms(1)] by (auto simp: tree_inv_def w' Let_def)
qed

lemma settle_inv:
  assumes "tree_inv r w" and "unat node < length (nodeStates w)" and "nodeStates w ! unat node = 255"
    and "node_settled r w node h" and "h \<le> 128" and "h \<noteq> 0"
    and w': "w' = w\<lparr>nodeStates := (nodeStates w)[unat node := h]\<rparr>"
  shows "tree_inv r w'" and "has_height r w' node h"
proof -
  have keep: "has_height r w' p k" if "has_height r w p k" for p k
    using that assms(2,3) by (auto simp: has_height_def w' nth_list_update split: if_splits)
  then have settled: "node_settled r w' p k" if "node_settled r w p k" for p k
    using that unfolding node_settled_def by metis
  have len: "length (nodeStates w) = unat (NodeCount (metadata r))" using assms(1) by (simp add: tree_inv_def)
  show "tree_inv r w'"
  proof (rule tree_invI)
    fix n assume n: "n < NodeCount (metadata r)" "nodeStates w' ! unat n \<noteq> 0" "nodeStates w' ! unat n \<noteq> 255"
    show "nodeStates w' ! unat n \<le> 128 \<and> node_settled r w' n (nodeStates w' ! unat n)"
      using n tree_inv_settled [OF assms(1) n(1)] assms(4,5) settled
      by (cases "n = node") (simp_all add: w' nth_update_node [OF len])
  qed (simp add: w' len)
  show "has_height r w' node h"
    using assms(2,5,6) tree_inv_length [OF assms(1), of node] by (simp add: has_height_def w')
qed

definition walk_post :: "Reader \<Rightarrow> searchTreeWalker \<Rightarrow> uint \<Rightarrow> byte res \<times> searchTreeWalker \<Rightarrow> bool" where
  "walk_post r w p result \<longleftrightarrow> counted r w (snd result) \<and>
     (\<forall>h. fst result = Inr h \<longrightarrow> tree_inv r (snd result) \<and> extends r w (snd result) \<and> has_height r (snd result) p h)"

lemma walk_post_error: "counted r w w' \<Longrightarrow> walk_post r w p (Inl e, w')"
  by (simp add: walk_post_def)

lemma unat_Suc_byte: "unat (m :: byte) < 255 \<Longrightarrow> unat (m + 1) = Suc (unat m)"
  by (simp add: unat_word_ariths)

lemma max_height: "(m :: byte) \<le> 128 \<Longrightarrow> m \<noteq> 128 \<Longrightarrow> m < m + 1 \<and> m + 1 \<le> 128 \<and> m + 1 \<noteq> 0"
  using unat_Suc_byte [of m]
  by (auto simp: word_le_nat_alt word_less_nat_alt word_unat_eq_iff)

lemma walk_node:
  assumes inv: "tree_inv r w" and node: "unat node < length (nodeStates w)" "nodeStates w ! unat node = 0"
    and pair: "readNodePairBySize (buf r) (node * nodeOffsetMult r) (RecordSize (metadata r)) = Inr (left, right)"
    and w1: "w1 = w\<lparr>nodeStates := (nodeStates w)[unat node := 255], stateCount := stateCount w + 1\<rparr>"
    and l: "walk_post r w1 left (lres, w2)"
    and rt: "\<And>lh. lres = Inr lh \<Longrightarrow> walk_post r w2 right (rres, w3)"
  shows "walk_post r w node
    (case lres of Inl err \<Rightarrow> (Inl err, w2)
     | Inr lh \<Rightarrow> (case rres of Inl err \<Rightarrow> (Inl err, w3)
        | Inr rh \<Rightarrow> if max lh rh = 128 then (Inl e, w3)
            else (Inr (max lh rh + 1), w3\<lparr>nodeStates := (nodeStates w3)[unat node := max lh rh + 1]\<rparr>)))"
proof (cases lres)
  have c1: "counted r w w1" using counted_visit [OF node] by (simp add: w1)
  have cl: "counted r w w2" using counted_trans [OF c1] l by (simp add: walk_post_def)
  case Inl
  then show ?thesis using cl by (simp add: walk_post_error)
next
  case (Inr lh)
  note v = visit_inv [OF inv node w1]
  have c1: "counted r w w1" using counted_visit [OF node] by (simp add: w1)
  have c3: "counted r w w3" using counted_trans [OF counted_trans [OF c1]] l rt Inr by (auto simp: walk_post_def)
  show ?thesis
  proof (cases rres)
    case Inl
    then show ?thesis using c3 Inr by (simp add: walk_post_error)
  next
    case rh: (Inr rh)
    have i2: "tree_inv r w2" "extends r w1 w2" "has_height r w2 left lh"
      and i3: "tree_inv r w3" "extends r w2 w3" "has_height r w3 right rh"
      using l rt [OF Inr] Inr rh by (auto simp: walk_post_def)
    have left: "has_height r w3 left lh" by (rule has_height_extends [OF i2(3) i3(2) i2(1)])
    have e13: "extends r w1 w3" by (rule extends_trans [OF i2(2) i3(2)])
    have len: "unat node < length (nodeStates w1)" using node(1) by (simp add: w1)
    have s3: "nodeStates w3 ! unat node = 255" "unat node < length (nodeStates w3)"
      using e13 v(3) len by (auto simp: extends_def)
    show ?thesis
    proof (cases "max lh rh = 128")
      case True
      then show ?thesis using c3 Inr rh by (simp add: walk_post_error)
    next
      case False
      have "max lh rh \<le> 128" using left i3(3) by (simp add: has_height_def)
      note h = max_height [OF this False]
      then have "lh < max lh rh + 1" "rh < max lh rh + 1" by (auto simp: max_def not_le split: if_splits)
      with pair left i3(3) have "node_settled r w3 node (max lh rh + 1)" unfolding node_settled_def by blast
      note settled = settle_inv [OF i3(1) s3(2,1) this _ _ refl]
      have "extends r w (w3\<lparr>nodeStates := (nodeStates w3)[unat node := max lh rh + 1]\<rparr>)"
        using extends_trans [OF v(2) e13] node by (auto simp: extends_def nth_list_update)
      moreover have "counted r w1 w3" using counted_trans l rt Inr by (auto simp: walk_post_def)
      then have "counted r w1 (w3\<lparr>nodeStates := (nodeStates w3)[unat node := max lh rh + 1]\<rparr>)"
        using counted_settle [of r w1 w3 node] v(3) len h by simp
      ultimately show ?thesis using counted_trans [OF c1] settled h False Inr rh by (simp add: walk_post_def)
    qed
  qed
qed

lemma verifyNode_fails:
  "128 \<le> bitDepth \<or> length (nodeStates w) \<le> unat node \<or> nodeStates w ! unat node = 255 \<Longrightarrow>
     \<exists>e. verifyNode r node bitDepth w = (Inl e, w)"
  by (auto simp: verifyNode.simps [of r node bitDepth w] searchTreeNodeVisiting_def)

lemma verifyNode_cached:
  "\<not> 128 \<le> bitDepth \<Longrightarrow> \<not> length (nodeStates w) \<le> unat node \<Longrightarrow> nodeStates w ! unat node \<noteq> 255 \<Longrightarrow>
     nodeStates w ! unat node \<noteq> 0 \<Longrightarrow> verifyNode r node bitDepth w = (Inr (nodeStates w ! unat node), w)"
  by (simp add: verifyNode.simps [of r node bitDepth w] searchTreeNodeVisiting_def searchTreeNodeUnvisited_def)

lemma walk_sound:
  shows "tree_inv r w \<Longrightarrow> walk_post r w node (verifyNode r node bitDepth w)"
    and "tree_inv r w \<Longrightarrow> walk_post r w pointer (verifyPointer r pointer bitDepth w)"
proof (induction r node bitDepth w and r pointer bitDepth w rule: verifyNode_verifyPointer.induct)
  case (1 r node bitDepth w)
  note inv = "1.prems" and step = verifyNode.simps [of r node bitDepth w]
  note states = searchTreeNodeVisiting_def searchTreeNodeUnvisited_def
  have node_lt: "node < NodeCount (metadata r)" if "\<not> length (nodeStates w) \<le> unat node"
    using tree_inv_length [OF inv, of node] that by simp
  let ?w1 = "w\<lparr>nodeStates := (nodeStates w)[unat node := 255], stateCount := stateCount w + 1\<rparr>"
  consider (fails) e where "verifyNode r node bitDepth w = (Inl e, w)"
    | (cached) "\<not> length (nodeStates w) \<le> unat node" "nodeStates w ! unat node \<noteq> 255" "nodeStates w ! unat node \<noteq> 0"
      "verifyNode r node bitDepth w = (Inr (nodeStates w ! unat node), w)"
    | (visit) "\<not> 128 \<le> bitDepth" "\<not> length (nodeStates w) \<le> unat node" "nodeStates w ! unat node = 0"
    using verifyNode_fails verifyNode_cached by (metis (no_types))
  then show ?case
  proof cases
    case fails
    then show ?thesis by (simp add: walk_post_error counted_refl)
  next
    case cached
    then show ?thesis using inv tree_inv_settled [OF inv node_lt [OF cached(1)] cached(3,2)] node_lt
      by (simp add: walk_post_def counted_refl extends_refl has_height_def)
  next
    case visit
    note ih = "1.IH" [unfolded states, OF visit(1,2) _ _ refl]
    have inv1: "tree_inv r ?w1" using visit_inv(1) [OF inv _ visit(3) refl] visit(2) by simp
    have c1: "counted r w ?w1" using counted_visit [of node w] visit by simp
    note step' = step [unfolded states Let_def]
    show ?thesis
    proof (cases "readNodePairBySize (buf r) (node * nodeOffsetMult r) (RecordSize (metadata r))")
      case (Inl e)
      then show ?thesis using visit c1 by (simp add: step' walk_post_error)
    next
      case (Inr pair)
      then obtain left right where pair: "readNodePairBySize (buf r) (node * nodeOffsetMult r)
          (RecordSize (metadata r)) = Inr (left, right)" by (cases pair) simp
      obtain lres w2 where l: "verifyPointer r left (bitDepth + 1) ?w1 = (lres, w2)" by fastforce
      have pl: "walk_post r ?w1 left (lres, w2)"
        using ih(1) [OF _ _ pair refl inv1] visit(3) l by simp
      obtain rres w3 where rr: "verifyPointer r right (bitDepth + 1) w2 = (rres, w3)" by fastforce
      have pr: "walk_post r w2 right (rres, w3)" if "lres = Inr lh" for lh
        using ih(2) [OF _ _ pair refl l [symmetric] that] pl that visit(3) rr by (simp add: walk_post_def)
      have "unat node < length (nodeStates w)" using visit(2) by simp
      moreover have "verifyNode r node bitDepth w =
          (case lres of Inl err \<Rightarrow> (Inl err, w2)
           | Inr lh \<Rightarrow> (case rres of Inl err \<Rightarrow> (Inl err, w3)
              | Inr rh \<Rightarrow> if max lh rh = 128 then (Inl (InvalidDatabaseError (TreeMsg PathExceeds128Bits)), w3)
                  else (Inr (max lh rh + 1), w3\<lparr>nodeStates := (nodeStates w3)[unat node := max lh rh + 1]\<rparr>)))"
        using visit pair l rr by (cases lres; cases rres) (simp_all add: step')
      ultimately show ?thesis
        by (simp only:) (rule walk_node [OF inv _ visit(3) pair refl pl pr])
    qed
  qed
next
  case (2 r pointer bitDepth w)
  note step = verifyPointer.simps [of r pointer bitDepth w]
  have "walk_post r w pointer (Inr 0, w\<lparr>offsets := insert off (offsets w)\<rparr>)"
    if "\<not> pointer < NodeCount (metadata r)" "resolveDataPointer r pointer = Inr off" for off
    using offset_inv [OF "2.prems" refl, of off] that
    by (simp add: walk_post_def has_height_def counted_def visited_def)
  then show ?case using 2
    by (auto simp: step walk_post_error counted_refl walk_post_def extends_refl has_height_def split: sum.splits)
qed

section \<open>Consequences of a successful verification\<close>

lemma covers_quotient:
  assumes "n \<le> glen b div q" and "unat q = m" and "m > 0"
  shows "covers b n m"
proof -
  have "unat n * m \<le> unat (glen b div q) * m"
    using assms(1) by (intro mult_right_mono) (simp_all add: word_le_nat_alt)
  also have "\<dots> \<le> unat (glen b)" by (simp add: unat_div assms(2))
  finally show ?thesis by (simp add: covers_def)
qed

definition root_bits :: "Reader \<Rightarrow> uint" where
  "root_bits r = (if IPVersion (metadata r) = 4 then 96 else 0)"

definition new_walker :: "Reader \<Rightarrow> searchTreeWalker" where
  "new_walker r = \<lparr>offsets = {}, nodeStates = replicate (unat (NodeCount (metadata r))) 0, stateCount = 0\<rparr>"

lemma new_walker_inv: "tree_inv r (new_walker r)"
  by (rule tree_invI) (simp_all add: new_walker_def word_less_nat_alt)

lemma verify_cases:
  assumes "opened r"
  obtains (refused) e where "verifySearchTreeWithStateCount r = (Inl e, 0)"
    | (failed) e w where "tree_covered r" and "verifyNode r 0 (root_bits r) (new_walker r) = (Inl e, w)"
      and "verifySearchTreeWithStateCount r = (Inl e, stateCount w)"
    | (deep) e h w where "tree_covered r" and "verifyNode r 0 (root_bits r) (new_walker r) = (Inr h, w)"
      and "verifySearchTreeWithStateCount r = (Inl e, stateCount w)"
    | (ok) h w where "tree_covered r" and "verifyNode r 0 (root_bits r) (new_walker r) = (Inr h, w)"
      and "root_bits r + ucast h \<le> 128" and "verifySearchTreeWithStateCount r = (Inr (offsets w), stateCount w)"
proof -
  obtain res w where v: "verifyNode r 0 (root_bits r) (new_walker r) = (res, w)" by fastforce
  note mult = opened_mult [OF assms]
  have cov: "tree_covered r"
    if "supported (RecordSize (metadata r))" "NodeCount (metadata r) \<le> glen (buf r) div nodeOffsetMult r"
    using that covers_quotient [OF that(2), of "node_size r"]
    by (auto simp: tree_covered_def supported_def mult node_size_def)
  show thesis
  proof (cases "supported (RecordSize (metadata r)) \<and> nodeOffsetMult r \<noteq> 0 \<and>
      NodeCount (metadata r) \<le> glen (buf r) div nodeOffsetMult r")
    case False
    then have "\<exists>e. verifySearchTreeWithStateCount r = (Inl e, 0)"
      by (auto simp: verifySearchTreeWithStateCount_def supported_def Let_def not_le)
    then show thesis using refused by blast
  next
    case True
    then have "verifySearchTreeWithStateCount r =
      (case res of Inl err \<Rightarrow> (Inl err, stateCount w)
       | Inr height \<Rightarrow> if root_bits r + ucast height > 128 then
           (Inl (InvalidDatabaseError (TreeMsg PathExceeds128Bits)), stateCount w)
         else (Inr (offsets w), stateCount w))"
      using v unfolding root_bits_def new_walker_def
      by (auto simp: verifySearchTreeWithStateCount_def supported_def Let_def not_less split: sum.splits)
    then show thesis
      using cov True v failed deep ok by (cases res) (auto simp: not_less split: if_splits)
  qed
qed

lemma walk_count:
  assumes "verifyNode r 0 b (new_walker r) = (res, w)"
  shows "unat (stateCount w) \<le> unat (NodeCount (metadata r))"
proof -
  have "counted r (new_walker r) w"
    using walk_sound(1) [OF new_walker_inv, of r 0 b] assms by (simp add: walk_post_def)
  moreover have "visited (new_walker r) = 0" by (simp add: visited_def new_walker_def)
  ultimately have "stateCount w = of_nat (visited w)" and "length (nodeStates w) = unat (NodeCount (metadata r))"
    by (simp_all add: counted_def new_walker_def)
  moreover from this have "visited w \<le> unat (NodeCount (metadata r))"
    using length_filter_le [of "\<lambda>s. s \<noteq> 0" "nodeStates w"] by (simp add: visited_def)
  ultimately show ?thesis
    using le_less_trans [OF _ unsigned_less [of "NodeCount (metadata r)"]] by (simp add: unat_of_nat take_bit_nat_eq_self)
qed

text \<open>
  C34. The verification of the search tree expands each node at most once, on success and on every
  error: the work is linear in the number of nodes although the tree may share subtrees.
\<close>

theorem verify_linear:
  assumes "opened r"
  shows "unat (snd (verifySearchTreeWithStateCount r)) \<le> unat (NodeCount (metadata r))"
  using assms by (cases rule: verify_cases) (auto dest: walk_count)

theorem verify_linear_witness: "unat (snd (verifySearchTreeWithStateCount (sample 4))) \<le> 1"
  using verify_linear [OF sample_opened(1)] by (simp add: sample_def sample_metadata_def)

lemma height_children:
  assumes "tree_inv r w" and "has_height r w node h" and "node < NodeCount (metadata r)"
    and "readNodePairBySize (buf r) (node * nodeOffsetMult r) (RecordSize (metadata r)) = Inr (left, right)"
  shows "\<exists>k. has_height r w left k \<and> unat k < unat h" and "\<exists>k. has_height r w right k \<and> unat k < unat h"
proof -
  have "nodeStates w ! unat node = h" "h \<noteq> 0" "h \<le> 128" using assms(2,3) by (auto simp: has_height_def)
  moreover from this have "h \<noteq> 255" by auto
  ultimately have "node_settled r w node h" using tree_inv_settled [OF assms(1,3)] by auto
  then show "\<exists>k. has_height r w left k \<and> unat k < unat h" and "\<exists>k. has_height r w right k \<and> unat k < unat h"
    using assms(4) by (auto simp: node_settled_def word_less_nat_alt)
qed

text \<open>From a node of known height every descent of that many bits ends at a good leaf.\<close>

lemma descend_settled:
  assumes inv: "tree_inv r w" and cov: "tree_covered r" and mult: "nodeOffsetMult r = RecordSize (metadata r) div 4"
  shows "has_height r w p h \<Longrightarrow> unat h \<le> length bs \<Longrightarrow>
    \<exists>m k. descend (child_of r) (NodeCount (metadata r)) p bs = Inr (m, k) \<and> has_height r w m 0"
proof (induction bs arbitrary: p h)
  case Nil
  then have "h = 0" by (simp add: word_unat_eq_iff)
  with Nil show ?case by simp
next
  case (Cons b bs)
  show ?case
  proof (cases "p < NodeCount (metadata r)")
    case False
    then show ?thesis using Cons.prems by (simp add: has_height_def)
  next
    case True
    obtain left right where pair: "readNodePairBySize (buf r) (p * nodeOffsetMult r) (RecordSize (metadata r)) = Inr (left, right)"
      and child: "\<And>b. child_of r p (of_bool b) = Inr (if b then right else left)"
      using child_covered [OF cov True mult] by metis
    from height_children [OF inv Cons.prems(1) True pair]
    obtain ch where "has_height r w (if b then right else left) ch" "unat ch < unat h" by (cases b) auto
    moreover from this have "unat ch \<le> length bs" using Cons.prems(2) by simp
    ultimately obtain m k where "descend (child_of r) (NodeCount (metadata r)) (if b then right else left) bs = Inr (m, k)"
      "has_height r w m 0" using Cons.IH by blast
    then show ?thesis using True child [of b] by simp
  qed
qed

lemma has_height_0: "has_height r w m 0 \<Longrightarrow> \<not> m < NodeCount (metadata r)"
  by (auto simp: has_height_def)

lemma settled_lookup:
  assumes "opened r" and "tree_covered r" and "tree_inv r w" and "has_height r w 0 h" and "root_depth r + unat h \<le> 128"
    and "IsValid ip" and "\<not> (IPVersion (metadata r) = 4 \<and> Is6 ip)"
    and "IPVersion (metadata r) = 4 \<or> IPVersion (metadata r) = 6"
  obtains m n where "has_height r w m 0" and "lookupPointer r ip = Inr (if m = NodeCount (metadata r) then 0 else m, n)"
proof -
  note found = that and end_at = descend_settled [OF assms(3,2) opened_mult [OF assms(1)] assms(4)]
  have done_v6: thesis if six: "IPVersion (metadata r) = 6" and ip: "lookupPointer r ip = lookupPointer r (V6 a)" for a
  proof -
    obtain m k where "descend (child_of r) (NodeCount (metadata r)) 0 (bits128 a 0 128) = Inr (m, k)" and m: "has_height r w m 0"
      using end_at [of "bits128 a 0 128"] assms(5) by (auto simp: bits128_def simp del: upt_rec_numeral)
    then have "lookup_spec r (V6 a) = Inr (if m = NodeCount (metadata r) then 0 else m, k)"
      using has_height_0 [OF m] by (auto simp: lookup_spec_def lookup_start_def lookup_bits_def Is4_def As16_def)
    with lookup_eq [OF assms(1), of "V6 a"] assms(2) six have
      "lookupPointer r (V6 a) = Inr (if m = NodeCount (metadata r) then 0 else m, k)" by (simp add: IsValid_def)
    with m ip show thesis by (intro found) simp_all
  qed
  show thesis
  proof (cases "IPVersion (metadata r) = 6")
    case True
    then show thesis
      using done_v6 [OF True] ipv4_lookup_eq [OF assms(1) True] assms(6) by (cases ip) (auto simp: IsValid_def)
  next
    case False
    then obtain a where a: "ip = V4 a" using assms(6,7,8) by (cases ip) (auto simp: IsValid_def Is6_def)
    have "unat h \<le> length (bits32 a 32)"
      using assms(5) False by (simp add: root_depth_def bits32_def del: upt_rec_numeral)
    from end_at [OF this] obtain m k where "descend (child_of r) (NodeCount (metadata r)) 0 (bits32 a 32) = Inr (m, k)"
      and m: "has_height r w m 0" by blast
    then have "lookup_spec r ip = Inr (if m = NodeCount (metadata r) then 0 else m, 96 + k)"
      using has_height_0 [OF m] opened_root [OF assms(1) False]
      by (auto simp: a lookup_spec_def lookup_start_def lookup_bits_def Is4_def)
    with lookup_eq [OF assms(1,6,7)] assms(2) m show thesis by (intro found) auto
  qed
qed

lemma verified:
  assumes "opened r" and "verifySearchTree r = Inr offs"
    and "IPVersion (metadata r) = 4 \<or> IPVersion (metadata r) = 6"
  obtains w h where "tree_covered r" and "tree_inv r w" and "has_height r w 0 h"
    and "root_depth r + unat h \<le> 128" and "offs = offsets w"
    and "verifyNode r 0 (root_bits r) (new_walker r) = (Inr h, w)"
  using assms(1)
proof (cases rule: verify_cases)
  case (ok h w)
  have inv: "tree_inv r w" "has_height r w 0 h"
    using walk_sound(1) [OF new_walker_inv, of r 0 "root_bits r"] ok(2) by (simp_all add: walk_post_def)
  then have h: "unat h \<le> 128" by (simp add: has_height_def word_le_nat_alt)
  then have "unat (ucast h :: uint) = unat h" by (simp add: unsigned_ucast_eq take_bit_nat_eq_self)
  moreover from this have "unat (root_bits r + ucast h) = unat (root_bits r) + unat h"
    using h by (subst unat_add_lem [THEN iffD1]) (simp_all add: root_bits_def)
  ultimately have "root_depth r + unat h \<le> 128"
    using ok(3) assms(3) by (auto simp: word_le_nat_alt root_bits_def root_depth_def)
  then show thesis using that ok inv assms(2) by (simp add: verifySearchTree_def)
qed (use assms(2) in \<open>simp_all add: verifySearchTree_def\<close>)

lemma settled_Lookup:
  assumes "opened r" and "has_height r w m 0" and "lookupPointer r ip = Inr (if m = NodeCount (metadata r) then 0 else m, n)"
  shows "res_err (Lookup r ip) = None" and "Found (Lookup r ip) \<Longrightarrow> Offset (Lookup r ip) \<in> offsets w"
    and "m \<noteq> NodeCount (metadata r) \<Longrightarrow> resolveDataPointer r m = Inr off \<Longrightarrow> res_offset (Lookup r ip) = off"
proof -
  have op: "reader_buffer r \<noteq> None" using assms(1) openMetadata_Inr(1) by (force simp: opened_def)
  consider "m = NodeCount (metadata r)" | off where "NodeCount (metadata r) < m" "off \<in> offsets w" "resolveDataPointer r m = Inr off"
    using assms(2) by (auto simp: has_height_def not_less le_less split: if_splits)
  then have "res_err (Lookup r ip) = None \<and> (Found (Lookup r ip) \<longrightarrow> Offset (Lookup r ip) \<in> offsets w) \<and>
    (m \<noteq> NodeCount (metadata r) \<longrightarrow> resolveDataPointer r m = Inr off \<longrightarrow> res_offset (Lookup r ip) = off)"
  proof cases
    case 1
    then show ?thesis using op assms(3) by (simp add: Lookup_def Found_def zeroResult_def)
  next
    case 2
    then have "m \<noteq> 0" "m \<noteq> NodeCount (metadata r)" by auto
    then show ?thesis using 2 op assms(3) by (simp add: Lookup_def Offset_def zeroResult_def Let_def)
  qed
  then show "res_err (Lookup r ip) = None" and "Found (Lookup r ip) \<Longrightarrow> Offset (Lookup r ip) \<in> offsets w"
    and "m \<noteq> NodeCount (metadata r) \<Longrightarrow> resolveDataPointer r m = Inr off \<Longrightarrow> res_offset (Lookup r ip) = off" by auto
qed

section \<open>The offsets are those lookups find\<close>

text \<open>Every offset the walk has noted hangs at a node that the bits of some address lead to.\<close>

definition offsets_reached :: "Reader \<Rightarrow> searchTreeWalker \<Rightarrow> bool" where
  "offsets_reached r w \<longleftrightarrow> length (nodeStates w) = unat (NodeCount (metadata r)) \<and>
     (\<forall>off \<in> offsets w. \<exists>a b p. at_node r a b p \<and> p > NodeCount (metadata r) \<and> resolveDataPointer r p = Inr off)"

lemma offsets_reached_states:
  "offsets_reached r w \<Longrightarrow> length xs = length (nodeStates w) \<Longrightarrow> offsets_reached r (w\<lparr>nodeStates := xs, stateCount := c\<rparr>)"
  "offsets_reached r w \<Longrightarrow> length xs = length (nodeStates w) \<Longrightarrow> offsets_reached r (w\<lparr>nodeStates := xs\<rparr>)"
  by (simp_all add: offsets_reached_def)

lemma walk_reached:
  assumes cov: "tree_covered r" and mult: "nodeOffsetMult r = RecordSize (metadata r) div 4"
  shows "offsets_reached r w \<Longrightarrow> \<exists>a. at_node r a (unat bitDepth) node \<Longrightarrow> offsets_reached r (snd (verifyNode r node bitDepth w))"
    and "offsets_reached r w \<Longrightarrow> \<exists>a. at_node r a (unat bitDepth) pointer \<Longrightarrow> offsets_reached r (snd (verifyPointer r pointer bitDepth w))"
  using cov mult
proof (induction r node bitDepth w and r pointer bitDepth w rule: verifyNode_verifyPointer.induct)
  case (1 r node bitDepth w)
  note states = searchTreeNodeVisiting_def searchTreeNodeUnvisited_def
  let ?w1 = "w\<lparr>nodeStates := (nodeStates w)[unat node := 255], stateCount := stateCount w + 1\<rparr>"
  show ?case
  proof (cases "128 \<le> bitDepth \<or> length (nodeStates w) \<le> unat node \<or> nodeStates w ! unat node \<noteq> 0")
    case True
    then have "snd (verifyNode r node bitDepth w) = w"
      using verifyNode_fails [of bitDepth w node r] verifyNode_cached [of bitDepth w node r]
      by (cases "nodeStates w ! unat node = 255") fastforce+
    then show ?thesis using "1.prems" by simp
  next
    case False
    then have visit: "\<not> 128 \<le> bitDepth" "\<not> length (nodeStates w) \<le> unat node" "nodeStates w ! unat node = 0" by auto
    note ih = "1.IH" [unfolded states, OF visit(1,2) _ _ refl]
    have r1: "offsets_reached r ?w1" by (rule offsets_reached_states [OF "1.prems"(1)]) simp
    have lt: "node < NodeCount (metadata r)"
      using visit(2) "1.prems"(1) by (simp add: offsets_reached_def word_less_nat_alt)
    have d: "unat bitDepth < 128" "unat (bitDepth + 1) = Suc (unat bitDepth)" using unat_inc_depth [OF visit(1)] by auto
    obtain left right where pair: "readNodePairBySize (buf r) (node * nodeOffsetMult r) (RecordSize (metadata r)) = Inr (left, right)"
      and child: "\<And>b. child_of r node (of_bool b) = Inr (if b then right else left)"
      using child_covered [OF "1.prems"(3) lt "1.prems"(4)] by metis
    then have kids: "\<exists>a. at_node r a (unat (bitDepth + 1)) left" "\<exists>a. at_node r a (unat (bitDepth + 1)) right"
      using at_child [OF _ lt d(1) child] "1.prems"(2) d(2) by auto
    obtain lres w2 where l: "verifyPointer r left (bitDepth + 1) ?w1 = (lres, w2)" by fastforce
    have r2: "offsets_reached r w2" using ih(1) [OF _ _ pair refl r1 kids(1) "1.prems"(3,4)] visit(3) l by simp
    obtain rres w3 where rr: "verifyPointer r right (bitDepth + 1) w2 = (rres, w3)" by fastforce
    have r3: "offsets_reached r w3" if "lres = Inr lh" for lh
      using ih(2) [OF _ _ pair refl l [symmetric] that r2 kids(2) "1.prems"(3,4)] visit(3) rr by simp
    then have "offsets_reached r (w3\<lparr>nodeStates := (nodeStates w3)[unat node := h]\<rparr>)" if "lres = Inr lh" for lh h
      using offsets_reached_states(2) that by simp
    then show ?thesis
      using visit pair l rr r2 r3 by (cases lres; cases rres) (simp_all add: verifyNode.simps [of r node bitDepth w] states Let_def)
  qed
next
  case (2 r pointer bitDepth w)
  have "offsets_reached r (w\<lparr>offsets := insert off (offsets w)\<rparr>)"
    if "\<not> pointer < NodeCount (metadata r)" "pointer \<noteq> NodeCount (metadata r)" "resolveDataPointer r pointer = Inr off" for off
    using "2.prems"(1,2) that unfolding offsets_reached_def by (auto simp: not_less le_less)
  then show ?case using 2
    by (auto simp: verifyPointer.simps [of r pointer bitDepth w] split: sum.splits)
qed

lemma resolve_found: "resolveDataPointer r p = Inr off \<Longrightarrow> off \<noteq> notFound"
  by (auto simp: resolveDataPointer_def notFound_def Let_def not_le split: if_splits)

lemma reached_offset:
  assumes "opened r" and "tree_covered r" and "at_node r a b p" and "p > NodeCount (metadata r)"
    and "resolveDataPointer r p = Inr off"
  shows "IsValid (mappedIP (V6 a)) \<and> \<not> (IPVersion (metadata r) = 4 \<and> Is6 (mappedIP (V6 a))) \<and>
    Found (Lookup r (mappedIP (V6 a))) \<and> Offset (Lookup r (mappedIP (V6 a))) = off"
proof -
  have look: "lookupPointer r (mappedIP (V6 a)) = Inr (p, b)"
    using reached_lookup [OF assms(1,2,3)] assms(4) by auto
  have op: "reader_buffer r \<noteq> None" using assms(1) openMetadata_Inr(1) by (force simp: opened_def)
  have "p \<noteq> 0" using assms(4) by auto
  then have "Found (Lookup r (mappedIP (V6 a))) \<and> Offset (Lookup r (mappedIP (V6 a))) = off"
    using look op assms(5) resolve_found [OF assms(5)] by (simp add: Lookup_def Found_def Offset_def zeroResult_def)
  moreover have "a < 2 ^ 32" if "IPVersion (metadata r) = 4"
    using assms(3) that by (intro ipv4_bits) (auto simp: at_node_def root_depth_def)
  ultimately show ?thesis by (auto simp: mappedIP_V6 IsValid_def Is6_def)
qed

lemma verified_offsets:
  assumes "opened r" and "IPVersion (metadata r) = 4 \<or> IPVersion (metadata r) = 6" and "verifySearchTree r = Inr offs"
  shows "(\<forall>ip. IsValid ip \<and> \<not> (IPVersion (metadata r) = 4 \<and> Is6 ip) \<longrightarrow> res_err (Lookup r ip) = None) \<and>
    offs = {Offset (Lookup r ip) | ip. IsValid ip \<and> \<not> (IPVersion (metadata r) = 4 \<and> Is6 ip) \<and> Found (Lookup r ip)}"
proof -
  obtain w h where ok: "tree_covered r" "tree_inv r w" "has_height r w 0 h" "root_depth r + unat h \<le> 128"
    and offs: "offs = offsets w" and walk: "verifyNode r 0 (root_bits r) (new_walker r) = (Inr h, w)"
    by (rule verified [OF assms(1,3,2)]) blast
  have good: "res_err (Lookup r ip) = None \<and> (Found (Lookup r ip) \<longrightarrow> Offset (Lookup r ip) \<in> offs)"
    if ip: "IsValid ip \<and> \<not> (IPVersion (metadata r) = 4 \<and> Is6 ip)" for ip
  proof -
    obtain m n where "has_height r w m 0" "lookupPointer r ip = Inr (if m = NodeCount (metadata r) then 0 else m, n)"
      by (rule settled_lookup [OF assms(1) ok, of ip]) (use ip assms(2) in auto)
    from settled_Lookup [OF assms(1) this] show ?thesis by (simp add: offs)
  qed
  have "unat (root_bits r) = root_depth r" using assms(2) by (auto simp: root_bits_def root_depth_def)
  then have "\<exists>a. at_node r a (unat (root_bits r)) 0" using root_node_at by metis
  then have "offsets_reached r w"
    using walk_reached(1) [OF ok(1) opened_mult [OF assms(1)], of "new_walker r" "root_bits r" 0] walk
    by (simp add: offsets_reached_def new_walker_def)
  then have "\<exists>ip. off = Offset (Lookup r ip) \<and> IsValid ip \<and> \<not> (IPVersion (metadata r) = 4 \<and> Is6 ip) \<and> Found (Lookup r ip)"
    if "off \<in> offs" for off
    using that reached_offset [OF assms(1) ok(1)] unfolding offs offsets_reached_def by metis
  with good show ?thesis by blast
qed

text \<open>
  C6. A successful verification of the search tree guarantees lookups: no lookup fails, and the
  offsets it returns are exactly the offsets that lookups find.
\<close>

theorem verified_lookups:
  assumes "opened r" and "IPVersion (metadata r) = 4 \<or> IPVersion (metadata r) = 6" and "verifySearchTree r = Inr offs"
  shows "(\<forall>ip. IsValid ip \<and> \<not> (IPVersion (metadata r) = 4 \<and> Is6 ip) \<longrightarrow> res_err (Lookup r ip) = None) \<and>
    offs = {Offset (Lookup r ip) | ip. IsValid ip \<and> \<not> (IPVersion (metadata r) = 4 \<and> Is6 ip) \<and> Found (Lookup r ip)}"
  using verified_offsets [OF assms] .

theorem verified_lookups_witness:
  "verifySearchTree (sample 4) = Inr {0} \<and> res_err (Lookup (sample 4) (V4 5)) = None"
proof -
  have v: "verifySearchTree (sample 4) = Inr {0}" by code_simp
  have "IPVersion (metadata (sample 4)) = 4" by (simp add: sample_def sample_metadata_def)
  with verified_lookups [OF sample_opened(1) _ v] v show ?thesis by (simp add: IsValid_def Is6_def)
qed

lemma settled_leaf:
  assumes "yields_all n" and "has_height r w (nn_pointer node) h" and "leaf r n node res"
  shows "res_err res = None"
proof (cases "nn_pointer node = NodeCount (metadata r)")
  case True
  then show ?thesis using assms(3) by (simp add: leaf_def zeroResult_def)
next
  case False
  then have gt: "nn_pointer node > NodeCount (metadata r)" "dataResult r n node = Some res"
    using assms(3) by (auto simp: leaf_def)
  then obtain off where "resolveDataPointer r (nn_pointer node) = Inr off"
    using assms(2) False by (auto simp: has_height_def split: if_splits)
  then show ?thesis using gt(2) assms(1) by (auto simp: dataResult_def yields_all_def Let_def)
qed

text \<open>
  C8. On a database whose search tree verifies, the network iterator that includes empty and
  aliased networks and does not skip empty values (\<open>yields_all\<close>) meets no error and covers the whole
  address space without gap or overlap.
\<close>

theorem verified_networks:
  assumes "opened r" and "IPVersion (metadata r) = 4 \<or> IPVersion (metadata r) = 6"
    and "verifySearchTree r = Inr offs" and "yields_all n"
  shows "\<exists>out. Networks r n (\<lambda>_. True) = Inr out \<and> (\<forall>res \<in> set out. res_err res = None) \<and>
    tiles 0 (if IPVersion (metadata r) = 6 then 2 ^ 128 else 2 ^ 32) (map result_range out)"
proof -
  obtain w h where cov: "tree_covered r" and inv: "tree_inv r w" and root: "has_height r w 0 h" "root_depth r + unat h \<le> 128"
    by (rule verified [OF assms(1,3,2)]) blast
  note mult = opened_mult [OF assms(1)]
  let ?ok = "\<lambda>node. reached r node \<and> (\<exists>h. has_height r w (nn_pointer node) h \<and> unat (nn_bit node) + unat h \<le> 128)"
  let ?good = "\<lambda>out :: Result list. \<forall>res \<in> set out. res_err res = None"
  let ?Inv = "\<lambda>out nodes. ?good out \<and> (\<forall>node \<in> set nodes. ?ok node)"
  have "?good (networks_loop r n (\<lambda>_. True) [] [root_node r])"
  proof (rule networks_invariant [where Inv = ?Inv])
    have "unat (word_of_nat (root_depth r) :: uint) = root_depth r" by (simp add: root_depth_def)
    then show "?Inv [] [root_node r]"
      using root_node_reached root by (auto simp: root_node_def)
  next
    fix out node nodes res assume "?Inv out (node # nodes)" "leaf r n node res"
    then show "?Inv (out @ [res]) nodes" using settled_leaf [OF assms(4)] by auto
  next
    fix out node nodes lp rp
    assume i: "?Inv out (node # nodes)" and p: "nn_pointer node < NodeCount (metadata r)" "unat (nn_bit node) < 128"
      and q: "readNodePairBySize (buf r) (nn_pointer node * nodeOffsetMult r) (RecordSize (metadata r)) = Inr (lp, rp)"
    then obtain k where k: "has_height r w (nn_pointer node) k" "unat (nn_bit node) + unat k \<le> 128" by auto
    obtain kl where kl: "has_height r w lp kl" "unat kl < unat k"
      using height_children(1) [OF inv k(1) p(1) q] by blast
    obtain kr where kr: "has_height r w rp kr" "unat kr < unat k"
      using height_children(2) [OF inv k(1) p(1) q] by blast
    have "reached r node" using i by simp
    note reached = reached_children [OF this p cov mult q]
    have "?ok (left_node node lp)" using reached(1) kl k(2)
      by (auto simp: left_node_def unat_inc_bit [OF p(2)] intro!: exI [of _ kl])
    moreover have "?ok (right_node node rp)" using reached(2) kr k(2)
      by (auto simp: right_node_def unat_inc_bit [OF p(2)] intro!: exI [of _ kr])
    ultimately show "?Inv out (left_node node lp # right_node node rp # nodes)" using i by simp
  next
    fix out node nodes res assume i: "?Inv out (node # nodes)" and f: "failing r node res"
    then have p: "nn_pointer node < NodeCount (metadata r)" by (simp add: failing_def)
    obtain k where k: "has_height r w (nn_pointer node) k" "unat (nn_bit node) + unat k \<le> 128" using i by auto
    then have "unat k \<noteq> 0" using p by (simp add: has_height_def word_unat_eq_iff)
    with k have "unat (nn_bit node) < 128" by simp
    moreover obtain lp rp where
      "readNodePairBySize (buf r) (nn_pointer node * nodeOffsetMult r) (RecordSize (metadata r)) = Inr (lp, rp)"
      using child_covered [OF cov p mult] by metis
    ultimately show "?good (out @ [res])" using f by (simp add: failing_def)
  qed (use assms(4) in auto)
  with Networks_tiles [OF assms(1,2,4) Networks_walk [OF assms(1) cov assms(2)]] show ?thesis
    using Networks_walk [OF assms(1) cov assms(2)] by blast
qed

theorem verified_networks_witness:
  "\<exists>out. Networks (sample 4) \<lparr>includeAliasedNetworks = True, includeEmptyNetworks = True, skipEmptyValues = False\<rparr>
     (\<lambda>_. True) = Inr out \<and> tiles 0 (2 ^ 32) (map result_range out)"
proof -
  have v: "verifySearchTree (sample 4) = Inr {0}" by code_simp
  have "IPVersion (metadata (sample 4)) = 4" by (simp add: sample_def sample_metadata_def)
  with verified_networks [OF sample_opened(1) _ v] show ?thesis by (force simp: yields_all_def)
qed

end
