(* ===== verification/PathDecoding.thy ===== *)
theory PathDecoding
  imports ReflectionProofs
begin

text \<open>
  Decoding the value at a path (\<open>DecodePath\<close>, \<open>decodePath\<close> of \<open>internal/decoder/reflection.go\<close>): the
  walk along the path, which skips what it does not need on the operation's budget, and the decoding
  of the value it ends at. \<open>selects\<close> is the specification: what a path means in a database.
\<close>

section \<open>Walking a path\<close>

text \<open>
  The elements of a path are Go values of any type: strings, \<open>int\<close>s (64 bits, as words), and others,
  which are errors and carry their formatted value and type.
\<close>

datatype PathElement =
    KeyElement gostring
  | IndexElement uint
  | OtherElement string string

definition text_of :: "gostring \<Rightarrow> string" where
  "text_of s = map (\<lambda>b. char_of (unat b)) s"

definition int_text :: "uint \<Rightarrow> string" where
  "int_text i = (if sint i < 0 then ''-'' else []) @ decimal (nat \<bar>sint i\<bar>)"

definition decodePathKey :: "ReflectionDecoder \<Rightarrow> uint \<Rightarrow> (gostring \<times> uint \<times> ReflectionDecoder) res" where
  "decodePathKey d offset =
     bindE (decodeKey (dataDecoder d) offset) (\<lambda>(key, nextOffset).
     bindE (reserveExactPayload d (glen key)) (\<lambda>d. Inr (key, nextOffset, d)))"

text \<open>The header of a path step, behind at most one pointer.\<close>

definition pathHeader :: "DataDecoder \<Rightarrow> uint \<Rightarrow> (Kind \<times> uint \<times> uint) res" where
  "pathHeader d offset =
     bindE (decodeCtrlData d offset) (\<lambda>(typeNum, sz, offset).
       if typeNum = KindPointer then
         bindE (decodePointer d sz offset) (\<lambda>(pointer, _).
         bindE (decodeCtrlData d pointer) (\<lambda>(typeNum, sz, offset).
           if typeNum = KindPointer then Inl (InvalidDatabaseError (InvalidPointerToPointer pointer))
           else Inr (typeNum, sz, offset)))
       else Inr (typeNum, sz, offset))"

text \<open>\<open>None\<close> stands for a path that leads nowhere: the destination is left as it is.\<close>

fun findPathKey :: "ReflectionDecoder \<Rightarrow> nat \<Rightarrow> uint \<Rightarrow> gostring \<Rightarrow> (uint \<times> ReflectionDecoder) option res" where
  "findPathKey d 0 offset v = Inr None"
| "findPathKey d (Suc n) offset v =
     bindE (decodePathKey d offset) (\<lambda>(key, offset, d).
       if key = v then Inr (Some (offset, d))
       else bindE (nextValueOffsetBudgeted d offset 1) (\<lambda>(offset, d). findPathKey d n offset v))"

text \<open>\<open>uint(-v)\<close> of the smallest \<open>int\<close> is \<open>2 ^ 63\<close>: the negation of a word wraps in the same way.\<close>

definition sliceIndex :: "uint \<Rightarrow> uint \<Rightarrow> uint option" where
  "sliceIndex sz v =
     (if sint v < 0 then if sz < - v then None else Some (sz - (- v))
      else if sz \<le> v then None else Some v)"

definition pathStep :: "ReflectionDecoder \<Rightarrow> Kind \<Rightarrow> uint \<Rightarrow> uint \<Rightarrow> nat \<Rightarrow> PathElement \<Rightarrow>
    (uint \<times> ReflectionDecoder) option res" where
  "pathStep d typeNum sz offset i e =
     (case e of
        KeyElement v \<Rightarrow>
          if typeNum \<noteq> KindMap then
            Inl (PlainError (''expected a map for '' @ text_of v @ '' but found '' @ Kind_String typeNum))
          else findPathKey d (unat sz) offset v
      | IndexElement v \<Rightarrow>
          if typeNum \<noteq> KindSlice then
            Inl (PlainError (''expected a slice for '' @ int_text v @ '' but found '' @ Kind_String typeNum))
          else
            (case sliceIndex sz v of
               None \<Rightarrow> Inr None
             | Some k \<Rightarrow> bindE (nextValueOffsetBudgeted d offset k) (\<lambda>(offset, d). Inr (Some (offset, d))))
      | OtherElement v t \<Rightarrow>
          Inl (PlainError (''unexpected path element at index '' @ decimal i @ '' ('' @ v @ ''): '' @ t)))"

fun walkPath :: "ReflectionDecoder \<Rightarrow> uint \<Rightarrow> nat \<Rightarrow> PathElement list \<Rightarrow> (uint \<times> ReflectionDecoder) option res" where
  "walkPath d offset i [] = Inr (Some (offset, d))"
| "walkPath d offset i (e # path) =
     bindE (pathHeader (dataDecoder d) offset) (\<lambda>(typeNum, sz, offset).
     bindE (if IsContainer typeNum then
              mapErr (\<lambda>err. wrapErrorAtOffset err offset) (reserveActiveContainer d typeNum sz)
            else Inr d) (\<lambda>d.
     bindE (pathStep d typeNum sz offset i e) (\<lambda>found.
       case found of
         None \<Rightarrow> Inr None
       | Some (offset, d) \<Rightarrow> walkPath d offset (i + 1) path)))"

section \<open>Decoding the value\<close>

definition tryFastDecodePathPayload :: "ReflectionDecoder \<Rightarrow> uint \<Rightarrow> Type \<Rightarrow> (Value \<times> ReflectionDecoder) option res" where
  "tryFastDecodePathPayload d offset t =
     (if budgetRemaining d = 0 then
        if t = StringT then tryFastDecodeUnbudgetedString d offset
        else Inr (tryFastDecodeUnbudgetedBytes d offset)
      else Inr (map_option (\<lambda>(v, _, d). (v, d)) (tryFastDecodeTyped d offset t)))"

definition pathFast :: "ReflectionDecoder \<Rightarrow> uint \<Rightarrow> Type \<Rightarrow> (Value \<times> ReflectionDecoder) option res" where
  "pathFast d offset t =
     (if t = StringT \<or> t = SliceT Uint8T then tryFastDecodePathPayload d offset t
      else if t \<in> {BoolT, Int32T, UintT, Uint16T, Uint32T, Uint64T, Float64T} then
        Inr (map_option (\<lambda>(v, _, d). (v, d)) (tryFastDecodeTyped d offset t))
      else Inr None)"

text \<open>The value at the end of the path, whose depth is the length of the path.\<close>

definition decodeTarget :: "ReflectionDecoder \<Rightarrow> uint \<Rightarrow> nat \<Rightarrow> Type \<Rightarrow> Value \<Rightarrow> (Value \<times> ReflectionDecoder) res" where
  "decodeTarget d offset depth t cur =
     (let general = bindE (mapErr (\<lambda>err. wrapErrorAtOffset err offset) (decodeValue d offset t cur depth))
            (\<lambda>(v, _, d). Inr (v, d))
      in if depth \<le> maximumDataStructureDepth then
           if t = AnyT then mapErr (\<lambda>err. wrapErrorAtOffset err offset) (decodeAnyWithBudget d offset cur depth)
           else bindE (pathFast d offset t) (\<lambda>quick. case quick of Some result \<Rightarrow> Inr result | None \<Rightarrow> general)
         else general)"

definition decodePath :: "ReflectionDecoder \<Rightarrow> uint \<Rightarrow> PathElement list \<Rightarrow> Type \<Rightarrow> Value \<Rightarrow> (Value \<times> ReflectionDecoder) res" where
  "decodePath d offset path t cur =
     bindE (walkPath d offset 0 path) (\<lambda>found.
       case found of
         None \<Rightarrow> Inr (cur, d)
       | Some (offset, d) \<Rightarrow> decodeTarget d offset (length path) t cur)"

definition DecodePath :: "ReflectionDecoder \<Rightarrow> uint \<Rightarrow> PathElement list \<Rightarrow> Type \<Rightarrow> Value \<Rightarrow> (Value \<times> ReflectionDecoder) res" where
  "DecodePath d offset path t cur =
     (if length path \<noteq> 0 \<and> budgetRemaining d = 0 then
        bindE (decodePath (newBudgetedDecoder d) offset path t cur) (\<lambda>(v, b).
          Inr (v, d\<lparr>dataDecoder := dataDecoder b\<rparr>))
      else decodePath d offset path t cur)"

section \<open>What a path means\<close>

text \<open>
  The value a path leads to, by the grammar of the data section: the first entry of a map whose key
  is the element, the element of a slice counted from its start or, for a negative index, from its
  end. At every step the value may stand behind one pointer.
\<close>

inductive keyed :: "DataDecoder \<Rightarrow> nat \<Rightarrow> uint \<Rightarrow> gostring \<Rightarrow> uint \<Rightarrow> bool" for d where
  here: "decodeKey d off = Inr (v, target) \<Longrightarrow> keyed d (Suc n) off v target"
| there: "decodeKey d off = Inr (key, o1) \<Longrightarrow> key \<noteq> v \<Longrightarrow> values_at d 1 o1 o2 \<Longrightarrow> keyed d n o2 v target \<Longrightarrow>
    keyed d (Suc n) off v target"

definition nth_from :: "nat \<Rightarrow> int \<Rightarrow> nat option" where
  "nth_from sz i =
     (if 0 \<le> i \<and> i < int sz then Some (nat i)
      else if i < 0 \<and> - i \<le> int sz then Some (nat (int sz + i)) else None)"

inductive selects :: "DataDecoder \<Rightarrow> PathElement list \<Rightarrow> uint \<Rightarrow> uint \<Rightarrow> bool" for d where
  root: "selects d [] off off"
| key: "resolveCtrlData d off = Inr (KindMap, sz, o1, n) \<Longrightarrow> keyed d (unat sz) o1 v o2 \<Longrightarrow> selects d path o2 target \<Longrightarrow>
    selects d (KeyElement v # path) off target"
| index: "resolveCtrlData d off = Inr (KindSlice, sz, o1, n) \<Longrightarrow> nth_from (unat sz) (sint i) = Some k \<Longrightarrow>
    values_at d k o1 o2 \<Longrightarrow> selects d path o2 target \<Longrightarrow> selects d (IndexElement i # path) off target"

inductive_simps keyed_entry: "keyed d (Suc n) off v target"
inductive_simps keyed_0 [simp]: "keyed d 0 off v target"
inductive_simps selects_Nil [simp]: "selects d [] off target"
inductive_simps selects_key: "selects d (KeyElement v # path) off target"
inductive_simps selects_index: "selects d (IndexElement i # path) off target"

section \<open>The walk finds what the path means\<close>

text \<open>The decoder after navigation: the same data and cache, and no more budget than before.\<close>

definition navigated :: "ReflectionDecoder \<Rightarrow> ReflectionDecoder \<Rightarrow> bool" where
  "navigated d d' \<longleftrightarrow> dataDecoder d' = dataDecoder d \<and> costs d d' 0 \<and> budgetRemaining d' \<noteq> 0"

lemma navigated_trans: "navigated d d' \<Longrightarrow> navigated d' d'' \<Longrightarrow> navigated d d''"
  using costs_trans [of d d' 0 d'' 0] by (simp add: navigated_def)

lemma decodeKey_post:
  assumes "decodeKey dd off = Inr (key, o1)"
  shows "values_at dd 1 off o1" and "unat o1 \<le> unat (glen (buffer dd))"
  using token_bounds [OF decodeKey_token [OF assms]] decodeKey_token [OF assms] by (simp_all add: stream_Suc)

lemma decodePathKey_post:
  assumes "budgetRemaining d \<noteq> 0"
  shows "returns (\<lambda>(key, o1, d'). decodeKey (dataDecoder d) off = Inr (key, o1) \<and> navigated d d') (decodePathKey d off)"
  unfolding decodePathKey_def
proof (rule returns_bindE [OF returns_safe], goal_cases)
  case 1
  show ?case by (intro safe)
next
  case (2 x)
  obtain key o1 where x: "x = (key, o1)" by (cases x)
  have less: "unat (p - ucast s) \<le> unat p" if "unat s \<le> unat p" for p :: "32 word" and s :: uint
  proof -
    have "unat s < 4294967296" using that unsigned_less [of p, where 'a = nat] by simp
    then have "unat (ucast s :: 32 word) = unat s" by (rule unat_ucast_small)
    then show ?thesis using that by (simp add: unat_sub word_le_nat_alt)
  qed
  have "navigated d d'" if "reserveExactPayload d (glen key) = Inr d'" for d'
    using that assms less [of "glen key" "payloadRemaining d"]
    by (auto simp: reserveExactPayload_def navigated_def costs_def word_le_nat_alt not_less split: if_splits)
  moreover have "no_panic (reserveExactPayload d (glen key))" by (simp add: reserveExactPayload_def)
  ultimately show ?case
    using 2 by (auto simp: x intro!: returns_bindE [OF returns_safe])
qed

lemma budgeted_walk_post:
  assumes "budgetRemaining d \<noteq> 0" and "unat off \<le> unat (glen (buffer (dataDecoder d)))"
  shows "returns (\<lambda>(e, d'). navigated d d' \<and> values_at (dataDecoder d) (unat n) off e \<and>
      unat e \<le> unat (glen (buffer (dataDecoder d)))) (nextValueOffsetBudgeted d off n)"
proof -
  have slow: "nextValueOffsetBudgeted d off n = nextValueOffsetBudgetedSlow d off n"
    using assms(1) by (simp add: budgeted_skip_shortcuts)
  have "navigated d d' \<and> values_at (dataDecoder d) (unat n) off e \<and> unat e \<le> unat (glen (buffer (dataDecoder d)))"
    if r: "nextValueOffsetBudgetedSlow d off n = Inr (e, d')" for e d'
  proof -
    obtain t b where w: "walk (strict_token (dataDecoder d)) (unat n) off e t"
      and t: "t + unat (budgetRemaining d') = unat n + unat (budgetRemaining d)"
      and b: "d' = d\<lparr>budgetRemaining := b\<rparr>" and nz: "budgetRemaining d' \<noteq> 0"
      using budget_sound [OF r] assms(1) by auto
    have le: "unat n \<le> t" "unat e \<le> unat (glen (buffer (dataDecoder d)))"
      using strict_tokens.walk_offset [OF w assms(2)] by simp_all
    then have "unat b \<le> unat (budgetRemaining d)" using t b by simp
    moreover have "values_at (dataDecoder d) (unat n) off e"
      unfolding stream_def using strict.strict_walk [OF w] by blast
    ultimately show ?thesis using b nz assms(1) le by (simp add: navigated_def costs_def)
  qed
  then show ?thesis
    unfolding slow using returns_safe [OF no_panic_budgeted, of d off n] by (auto elim!: returns_weaken)
qed

definition finds :: "ReflectionDecoder \<Rightarrow> (uint \<Rightarrow> bool) \<Rightarrow> (uint \<times> ReflectionDecoder) option res \<Rightarrow> bool" where
  "finds d spec r \<longleftrightarrow> returns (\<lambda>q. case q of None \<Rightarrow> \<forall>target. \<not> spec target
     | Some (target, d') \<Rightarrow> spec target \<and> navigated d d' \<and> unat target \<le> unat (glen (buffer (dataDecoder d)))) r"

lemma finds_cong:
  assumes "finds d spec r" and "\<And>target. spec' target \<longleftrightarrow> spec target"
  shows "finds d spec' r"
proof -
  have "spec' = spec" using assms(2) by (intro ext)
  then show ?thesis using assms(1) by simp
qed

lemma finds_nothing [simp]:
  "finds d spec (Inr None) \<longleftrightarrow> (\<forall>target. \<not> spec target)" "finds d spec (Inl err) \<longleftrightarrow> root_error err \<noteq> Panic"
  by (simp_all add: finds_def)

lemma finds_step:
  assumes "navigated d d2" and "\<And>target. spec target \<longleftrightarrow> spec2 target" and "finds d2 spec2 r"
  shows "finds d spec r"
  unfolding finds_def
proof (rule returns_weaken [OF assms(3) [unfolded finds_def]], goal_cases)
  case (1 q)
  have same: "dataDecoder d2 = dataDecoder d" using assms(1) by (simp add: navigated_def)
  show ?case
  proof (cases q)
    case None
    then show ?thesis using 1 by (simp add: assms(2))
  next
    case (Some x)
    then show ?thesis using 1 navigated_trans [OF assms(1), of "snd x"] by (cases x) (simp add: assms(2) same)
  qed
qed

lemma keyed_Suc:
  assumes "decodeKey dd off = Inr (key, o1)"
  shows "keyed dd (Suc n) off v target \<longleftrightarrow>
    (if key = v then target = o1 else \<exists>o2. values_at dd 1 o1 o2 \<and> keyed dd n o2 v target)"
  unfolding keyed_entry using assms by (cases "key = v") auto

lemma findPathKey_finds:
  "budgetRemaining d \<noteq> 0 \<Longrightarrow> finds d (keyed (dataDecoder d) n off v) (findPathKey d n off v)"
proof (induction n arbitrary: d off)
  case 0
  then show ?case by (simp add: finds_def)
next
  case (Suc n)
  let ?dd = "dataDecoder d"
  show ?case
    unfolding finds_def findPathKey.simps
  proof (rule returns_bindE [OF decodePathKey_post [OF Suc.prems, of off]], clarify, goal_cases)
    case (1 key o1 d1)
    note key = decodeKey_post [OF 1(2)] and key' = 1(2)
    have d1: "dataDecoder d1 = ?dd" "budgetRemaining d1 \<noteq> 0" using 1(3) by (simp_all add: navigated_def)
    have post: "returns (\<lambda>(e, d'). navigated d1 d' \<and> values_at ?dd 1 o1 e \<and> unat e \<le> unat (glen (buffer ?dd)))
        (nextValueOffsetBudgeted d1 o1 1)"
      using budgeted_walk_post [OF d1(2), of o1 1] key(2) by (simp add: d1(1))
    show ?case
    proof (cases "key = v")
      case True
      then show ?thesis using 1 key by (simp add: keyed_Suc [OF key'])
    next
      case False
      show ?thesis
        unfolding if_not_P [OF False]
      proof (rule returns_bindE [OF post], clarify, goal_cases)
        case (1 o2 d2)
        have d2: "dataDecoder d2 = ?dd" "budgetRemaining d2 \<noteq> 0" using 1(2) d1 by (simp_all add: navigated_def)
        have same: "keyed ?dd (Suc n) off v target \<longleftrightarrow> keyed ?dd n o2 v target" for target
          unfolding keyed_Suc [OF key'] using False 1(3) stream_determ [OF _ 1(3)] by metis
        have "finds d2 (keyed ?dd n o2 v) (findPathKey d2 n o2 v)" using Suc.IH [OF d2(2), of o2] by (simp add: d2(1))
        from finds_step [OF navigated_trans [OF \<open>navigated d d1\<close> 1(2)] same this]
        show ?case by (simp add: finds_def)
      qed
    qed
  qed
qed

section \<open>Steps into slices\<close>

lemma unat_uminus_neg:
  assumes "sint (v :: uint) < 0"
  shows "unat (- v) = nat (- sint v)"
proof -
  have "- v = word_of_int (- sint v)" by simp
  then have "uint (- v) = take_bit 64 (- sint v)" by (simp only: uint_word_of_int take_bit_eq_mod) simp
  moreover have "- (2 ^ 63) \<le> sint v" using sint_ge [of v] by simp
  ultimately have "uint (- v) = - sint v" using assms by (simp add: take_bit_int_eq_self)
  then show ?thesis by (simp flip: nat_uint_eq)
qed

lemma unat_sint_nonneg:
  assumes "\<not> sint (v :: uint) < 0"
  shows "unat v = nat (sint v)"
proof -
  have "uint (word_of_int (sint v) :: uint) = take_bit 64 (sint v)" by (simp only: uint_word_of_int take_bit_eq_mod) simp
  then have "uint v = take_bit 64 (sint v)" by simp
  moreover have "sint v < 2 ^ 63" using sint_lt [of v] by simp
  ultimately have "uint v = sint v" using assms by (simp add: take_bit_int_eq_self)
  then show ?thesis by (simp flip: nat_uint_eq)
qed

lemma sliceIndex_nth:
  "nth_from (unat sz) (sint v) = map_option unat (sliceIndex sz v)"
proof (cases "sint v < 0")
  case True
  note neg = unat_uminus_neg [OF True]
  have "sz < - v \<longleftrightarrow> int (unat sz) < - sint v"
    using neg by (simp only: word_less_nat_alt zless_nat_eq_int_zless)
  moreover have "unat (sz - (- v)) = nat (int (unat sz) + sint v)" if "\<not> sz < - v"
  proof -
    have "unat (sz - (- v)) = unat sz - unat (- v)" using that by (intro unat_sub) (simp add: not_less)
    moreover have "a - nat (- x) = nat (int a + x)" if "x < 0" for a :: nat and x using that by arith
    ultimately show ?thesis using neg True by (simp only:)
  qed
  ultimately show ?thesis using True by (auto simp: sliceIndex_def nth_from_def)
next
  case False
  then have v: "sint v = int (unat v)" using unat_sint_nonneg by simp
  have "nth_from m (int k) = (if k < m then Some k else None)" for m k by (simp add: nth_from_def)
  from this [of "unat sz" "unat v"] show ?thesis
    using False unfolding v [symmetric] by (simp add: sliceIndex_def word_le_nat_alt)
qed

lemma pathHeader_resolves: "pathHeader dd off = Inr (k, sz, o1) \<longleftrightarrow> (\<exists>n. resolveCtrlData dd off = Inr (k, sz, o1, n))"
proof (cases "decodeCtrlData dd off")
  case (Inr x)
  obtain k0 s0 o0 where x: "x = (k0, s0, o0)" by (cases x)
  show ?thesis
  proof (cases "decodePointer dd s0 o0")
    case (Inr y)
    obtain p e where y: "y = (p, e)" by (cases y)
    show ?thesis
      by (cases "decodeCtrlData dd p") (auto simp: pathHeader_def resolveCtrlData_def \<open>decodeCtrlData dd off = _\<close> Inr x y)
  qed (simp add: pathHeader_def resolveCtrlData_def Inr x)
qed (simp add: pathHeader_def resolveCtrlData_def)

lemma pathHeader_post:
  "returns (\<lambda>(k, sz, o1). (\<exists>n. resolveCtrlData dd off = Inr (k, sz, o1, n)) \<and>
     unat o1 \<le> unat (glen (buffer dd)) \<and> unat sz < 2 ^ 32) (pathHeader dd off)"
proof -
  have "no_panic (pathHeader dd off)"
    by (auto simp: pathHeader_def intro!: safe dest: decodeCtrlData_Inr(3) split: prod.splits)
  moreover have "unat o1 \<le> unat (glen (buffer dd)) \<and> unat sz < 2 ^ 32"
    if "resolveCtrlData dd off = Inr (k, sz, o1, n)" for k sz o1 n
    using resolveCtrlData_Inr [OF that] decodeCtrlData_Inr(3) header_small by metis
  ultimately show ?thesis
    by (auto simp: pathHeader_resolves elim!: returns_weaken [OF returns_safe])
qed

text \<open>Charging a container takes its children off the budget and changes nothing else.\<close>

lemma reserve_navigated:
  assumes "budgetRemaining d \<noteq> 0" and "k = KindMap \<or> k = KindSlice"
  shows "returns (navigated d) (reserveActiveContainer d k sz)"
proof -
  have "no_panic (reserveActiveContainer d k sz)" by (auto simp: reserveActiveContainer_def)
  moreover have "navigated d d'" if "reserveActiveContainer d k sz = Inr d'" for d'
    using reserveActiveContainer_Inr [OF that assms(2)] assms(1) by (simp add: navigated_def costs_def)
  ultimately show ?thesis by (auto elim!: returns_weaken [OF returns_safe])
qed

section \<open>The walk\<close>

lemma resolve_unique:
  "resolveCtrlData dd off = Inr (k, sz, o1, n) \<Longrightarrow>
     selects dd (KeyElement v # path) off target \<longleftrightarrow>
       k = KindMap \<and> (\<exists>o2. keyed dd (unat sz) o1 v o2 \<and> selects dd path o2 target)"
  "resolveCtrlData dd off = Inr (k, sz, o1, n) \<Longrightarrow>
     selects dd (IndexElement i # path) off target \<longleftrightarrow>
       k = KindSlice \<and> (\<exists>m o2. nth_from (unat sz) (sint i) = Some m \<and> values_at dd m o1 o2 \<and> selects dd path o2 target)"
  unfolding selects_key selects_index by auto

lemma keyed_determ: "keyed dd n off v target \<Longrightarrow> keyed dd n off v target' \<Longrightarrow> target' = target"
proof (induction n off v target rule: keyed.induct)
  case (here off v target n)
  then show ?case by (simp add: keyed_Suc [OF here(1)])
next
  case (there off key o1 v o2 n target)
  from there(2,6) obtain o2' where "values_at dd 1 o1 o2'" "keyed dd n o2' v target'"
    by (auto simp: keyed_Suc [OF there(1)])
  then show ?case using stream_determ [OF there(3)] there(5) by blast
qed

text \<open>One step of the path: the value it leads to, or none.\<close>

lemma pathStep_finds:
  assumes b: "budgetRemaining d \<noteq> 0" and o1: "unat o1 \<le> unat (glen (buffer (dataDecoder d)))"
    and h: "resolveCtrlData (dataDecoder d) off = Inr (k, sz, o1, n)"
  shows "finds d (selects (dataDecoder d) [e] off) (pathStep d k sz o1 i e)"
proof (cases e)
  case (KeyElement v)
  show ?thesis
  proof (cases "k = KindMap")
    case True
    have "finds d (keyed (dataDecoder d) (unat sz) o1 v) (findPathKey d (unat sz) o1 v)" by (rule findPathKey_finds [OF b])
    then show ?thesis
      using True by (auto simp: KeyElement pathStep_def resolve_unique [OF h] elim!: finds_cong)
  qed (simp add: KeyElement pathStep_def)
next
  case (IndexElement v)
  show ?thesis
  proof (cases "k = KindSlice")
    case True
    show ?thesis
    proof (cases "sliceIndex sz v")
      case None
      then show ?thesis
        using True by (simp add: IndexElement pathStep_def resolve_unique [OF h] sliceIndex_nth)
    next
      case (Some m)
      have "finds d (values_at (dataDecoder d) (unat m) o1)
          (bindE (nextValueOffsetBudgeted d o1 m) (\<lambda>(offset, d). Inr (Some (offset, d))))"
        unfolding finds_def by (rule returns_bindE [OF budgeted_walk_post [OF b o1]]) auto
      then show ?thesis
        using True by (auto simp: IndexElement Some pathStep_def resolve_unique [OF h] sliceIndex_nth elim!: finds_cong)
    qed
  qed (simp add: IndexElement pathStep_def)
qed (simp add: pathStep_def)

lemma selects_Cons: "selects dd (e # path) off target \<longleftrightarrow> (\<exists>o2. selects dd [e] off o2 \<and> selects dd path o2 target)"
proof (cases e)
  case (OtherElement v t)
  have "\<not> selects dd (OtherElement v t # p) off x" for p x by (auto elim: selects.cases)
  then show ?thesis by (simp add: OtherElement)
qed (auto simp: selects_key selects_index; blast)+

lemma selects_step_determ: "selects dd [e] off o2 \<Longrightarrow> selects dd [e] off o2' \<Longrightarrow> o2' = o2"
proof (cases e)
  case (OtherElement v t)
  then show "selects dd [e] off o2 \<Longrightarrow> ?thesis" by (auto elim: selects.cases)
qed (auto simp: selects_key selects_index dest: keyed_determ stream_determ)

lemma walkPath_finds:
  "budgetRemaining d \<noteq> 0 \<Longrightarrow> unat off \<le> unat (glen (buffer (dataDecoder d))) \<or> path \<noteq> [] \<Longrightarrow>
     finds d (selects (dataDecoder d) path off) (walkPath d off i path)"
proof (induction path arbitrary: d off i)
  case Nil
  then show ?case by (simp add: finds_def navigated_def)
next
  case (Cons e path)
  let ?dd = "dataDecoder d"
  show ?case
    unfolding finds_def walkPath.simps
  proof (rule returns_bindE [OF pathHeader_post], clarify, goal_cases)
    case (1 k sz o1 n)
    have charge: "returns (navigated d) (if IsContainer k then
        mapErr (\<lambda>err. wrapErrorAtOffset err o1) (reserveActiveContainer d k sz) else Inr d)"
      using reserve_navigated [OF Cons.prems(1), of k sz] Cons.prems(1)
      by (auto simp: IsContainer_def navigated_def intro!: returns_mapErr)
    show ?case
    proof (rule returns_bindE [OF charge], goal_cases)
      case (1 d1)
      have d1: "dataDecoder d1 = ?dd" "budgetRemaining d1 \<noteq> 0" using 1 by (simp_all add: navigated_def)
      have step: "finds d1 (selects ?dd [e] off) (pathStep d1 k sz o1 i e)"
        using pathStep_finds [OF d1(2), of o1 off k sz n e i] \<open>resolveCtrlData ?dd off = _\<close> \<open>unat o1 \<le> _\<close> by (simp add: d1(1))
      show ?case
      proof (rule returns_bindE [OF step [unfolded finds_def]], goal_cases)
        case (1 q)
        show ?case
        proof (cases q)
          case None
          then show ?thesis using 1(2) unfolding selects_Cons [of ?dd e path] by simp
        next
          case (Some x)
          obtain o2 d2 where x: "x = (o2, d2)" by (cases x)
          have o2: "selects ?dd [e] off o2" "navigated d1 d2" "unat o2 \<le> unat (glen (buffer ?dd))"
            using 1(2) by (simp_all add: Some x d1(1))
          then have d2: "dataDecoder d2 = ?dd" "budgetRemaining d2 \<noteq> 0" by (simp_all add: navigated_def d1(1))
          have same: "selects ?dd (e # path) off target \<longleftrightarrow> selects ?dd path o2 target" for target
            unfolding selects_Cons [of ?dd e path] using o2(1) selects_step_determ [OF o2(1)] by metis
          have "finds d2 (selects ?dd path o2) (walkPath d2 o2 (i + 1) path)"
            using Cons.IH [OF d2(2), of o2] o2(3) by (simp add: d2(1))
          from finds_step [OF navigated_trans [OF \<open>navigated d d1\<close> o2(2)] same this]
          show ?thesis by (simp add: finds_def Some x)
        qed
      qed
    qed
  qed
qed

section \<open>The selected value\<close>

text \<open>On active limits the target is decoded as any value is, whichever way its type takes.\<close>

lemma decodeTarget_general:
  assumes b: "budgetRemaining d \<noteq> 0"
    and r: "decodeTarget d off depth t cur = Inr (v, d')"
  shows "\<exists>e. decodeValue d off t cur depth = Inr (v, e, d')"
proof (cases "depth \<le> maximumDataStructureDepth")
  case False
  then show ?thesis using r by (auto simp: decodeTarget_def bindE_eq_Inr)
next
  case True
  show ?thesis
  proof (cases "t = AnyT")
    case any: True
    have "decodeAny d off cur depth = Inr (v, d')"
      using r True b by (simp add: decodeTarget_def any decodeAnyWithBudget_def)
    then show ?thesis
      using True by (auto simp: decodeAny_eq decodeValue.simps any bindE_eq_Inr)
  next
    case False
    have "\<exists>e. decodeValue d off t cur depth = Inr (v, e, d')" if "pathFast d off t = Inr (Some (v, d'))"
      using that b fast_general [OF _ b True, of off t _ cur]
      by (auto simp: pathFast_def tryFastDecodePathPayload_def simp del: tryFastDecodeTyped.simps split: if_splits)
    then show ?thesis
      using r True False by (auto simp: decodeTarget_def bindE_eq_Inr split: option.splits)
  qed
qed

lemma no_panic_decodeTarget:
  assumes b: "budgetRemaining d \<noteq> 0" and ok: "cache_ok (dataDecoder d)" and cur: "has_type cur t"
  shows "no_panic (decodeTarget d off depth t cur)"
proof -
  have v: "no_panic (decodeValue d off t cur depth)"
    using decode_reads(1) [OF ok cur, of off depth] by (simp add: reads_value_def returns_def)
  have a: "no_panic (decodeAnyWithBudget d off cur depth)"
    using decodeAnyWithBudget_reads [OF ok, of off cur depth] by (simp add: returns_def)
  have f: "no_panic (pathFast d off t)"
    using b by (simp add: pathFast_def tryFastDecodePathPayload_def)
  show ?thesis
    using v a f by (auto simp: decodeTarget_def Let_def intro!: safe split: option.split)
qed

text \<open>
  C9. \<open>DecodePath\<close> with a path decodes the value the path leads to: of a map the first entry whose
  key is the path element, of a slice the element counted from its start or end. It never panics. When
  it succeeds and the path leads somewhere, the result is what decoding the value there gives, at the
  depth of the path and on the limits the walk has left, so it has the destination's type and the
  limits bound its size; where the path leads nowhere the destination keeps its value.
\<close>

theorem DecodePath_selects:
  assumes "cache_ok (dataDecoder d)" and "budgetRemaining d = 0" and "has_type cur t" and "path \<noteq> []"
  shows "no_panic (DecodePath d off path t cur) \<and>
    (\<forall>v d'. DecodePath d off path t cur = Inr (v, d') \<longrightarrow>
       has_type v t \<and> weight_of v \<le> weight_of cur + (32768 + 2097152) \<and>
       (if \<exists>target. selects (dataDecoder d) path off target
        then \<exists>target b e b'. selects (dataDecoder d) path off target \<and> dataDecoder b = dataDecoder d \<and>
          budgetRemaining b \<noteq> 0 \<and> decodeValue b target t cur (length path) = Inr (v, e, b')
        else v = cur))"
proof -
  let ?b = "newBudgetedDecoder d"
  have b: "budgetRemaining ?b \<noteq> 0" by (simp add: budget_size)
  have dd: "dataDecoder ?b = dataDecoder d" by (simp add: newBudgetedDecoder_def)
  have run: "DecodePath d off path t cur = bindE (decodePath ?b off path t cur) (\<lambda>(v, b). Inr (v, d\<lparr>dataDecoder := dataDecoder b\<rparr>))"
    using assms(2,4) by (simp add: DecodePath_def)
  have walk: "finds ?b (selects (dataDecoder d) path off) (walkPath ?b off 0 path)"
    using walkPath_finds [OF b, of off path 0] assms(4) by (simp add: dd)
  let ?Q = "\<lambda>(v, b'). has_type v t \<and> weight_of v \<le> weight_of cur + (32768 + 2097152) \<and>
       (if \<exists>target. selects (dataDecoder d) path off target
        then \<exists>target b e b'. selects (dataDecoder d) path off target \<and> dataDecoder b = dataDecoder d \<and>
          budgetRemaining b \<noteq> 0 \<and> decodeValue b target t cur (length path) = Inr (v, e, b')
        else v = cur)"
  have "returns ?Q (decodePath ?b off path t cur)"
    unfolding decodePath_def
  proof (rule returns_bindE [OF walk [unfolded finds_def]], goal_cases)
    case (1 q)
    show ?case
    proof (cases q)
      case None
      then show ?thesis using 1 assms(3) by simp
    next
      case (Some x)
      obtain target d1 where x: "x = (target, d1)" by (cases x)
      have s: "selects (dataDecoder d) path off target" and n: "navigated ?b d1"
        using 1(2) by (simp_all add: Some x)
      then have d1: "dataDecoder d1 = dataDecoder d" "budgetRemaining d1 \<noteq> 0" by (simp_all add: navigated_def dd)
      have ok: "cache_ok (dataDecoder d1)" using assms(1) by (simp add: d1)
      have "?Q (v, d')" if r: "decodeTarget d1 target (length path) t cur = Inr (v, d')" for v d'
      proof -
        obtain e where e: "decodeValue d1 target t cur (length path) = Inr (v, e, d')"
          using decodeTarget_general [OF d1(2) r] by blast
        obtain w where w: "costs d1 d' w" "weight_of v \<le> weight_of cur + w"
          using decodeValue_outcome(3) [OF ok assms(3) e] by blast
        have "w \<le> 32768 + 2097152"
          using fresh_costs [of d] costs_trans [OF n [unfolded navigated_def, THEN conjunct2, THEN conjunct1] w(1)] by simp
        then show ?thesis
          using w(2) decodeValue_outcome(1) [OF ok assms(3) e] s d1 e by auto
      qed
      then show ?thesis
        using no_panic_decodeTarget [OF d1(2) ok assms(3), of target "length path"]
        by (auto simp: Some x elim!: returns_weaken [OF returns_safe])
    qed
  qed
  then have "returns (\<lambda>(v, d'). ?Q (v, d')) (DecodePath d off path t cur)"
    unfolding run by (rule returns_bindE) auto
  then have np: "no_panic (DecodePath d off path t cur)"
    and q: "\<And>v d'. DecodePath d off path t cur = Inr (v, d') \<Longrightarrow> ?Q (v, d')"
    unfolding returns_def by blast+
  show ?thesis using np q unfolding prod.case by blast
qed

text \<open>The second element from the end of the slice under the key \<open>a\<close>.\<close>

theorem DecodePath_selects_witness:
  "\<exists>target. selects (dataDecoder (NewWithoutStringCache [0xE1, 0x41, 0x61, 0x02, 0x04, 0xA1, 7, 0xA1, 9]))
     [KeyElement [0x61], IndexElement (- 2)] 0 target"
proof -
  let ?d = "NewWithoutStringCache [0xE1, 0x41, 0x61, 0x02, 0x04, 0xA1, 7, 0xA1, 9]"
  let ?path = "[KeyElement [0x61], IndexElement (- 2)]"
  have ok: "cache_ok (dataDecoder ?d)" "budgetRemaining ?d = 0" by (simp_all add: NewWithoutStringCache_def)
  have cur: "has_type NilV AnyT" and path: "?path \<noteq> []" by simp_all
  have "DecodePath ?d 0 ?path AnyT NilV = Inr (UintV 7, ?d)" by code_simp
  then show ?thesis using DecodePath_selects [OF ok cur path, of 0] by (metis Value.distinct(5))
qed

end
