(* ===== verification/Opening.thy ===== *)
theory Opening
  imports Lookups PathDecoding
begin

text \<open>
  Opening a database and decoding the record of a result (\<open>reader.go\<close>, \<open>result.go\<close>): \<open>OpenBytes\<close>
  decodes the metadata map into the \<open>Metadata\<close> struct with the decoder of \<open>Reflection\<close>, and
  \<open>Result.Decode\<close> and \<open>Result.DecodePath\<close> decode the record a lookup has found.
\<close>

section \<open>The metadata struct\<close>

definition tagged :: "string \<Rightarrow> (string + Options) option" where
  "tagged name = Some (Inr (zeroOptions\<lparr>opt_Name := ascii name, opt_HasName := True\<rparr>))"

definition metadataField :: "string \<Rightarrow> string \<Rightarrow> Type \<Rightarrow> FieldDecl" where
  "metadataField name tag t = FieldDecl (ascii name) True False (tagged tag) t"

definition metadataType :: Type where
  "metadataType = StructT (ascii ''Metadata'')
     [metadataField ''Description'' ''description'' (MapT StringT),
      metadataField ''DatabaseType'' ''database_type'' StringT,
      metadataField ''Languages'' ''languages'' (SliceT StringT),
      metadataField ''BinaryFormatMajorVersion'' ''binary_format_major_version'' UintT,
      metadataField ''BinaryFormatMinorVersion'' ''binary_format_minor_version'' UintT,
      metadataField ''BuildEpoch'' ''build_epoch'' UintT,
      metadataField ''IPVersion'' ''ip_version'' UintT,
      metadataField ''NodeCount'' ''node_count'' UintT,
      metadataField ''RecordSize'' ''record_size'' UintT]"

text \<open>The struct as the record of the reader.\<close>

fun string_of :: "Value \<Rightarrow> gostring" where
  "string_of (StringV s) = s"
| "string_of _ = []"

fun uint_of :: "Value \<Rightarrow> uint" where
  "uint_of (UintV n) = n"
| "uint_of _ = 0"

definition Metadata_of :: "Value \<Rightarrow> Metadata" where
  "Metadata_of v =
     (let f = (\<lambda>i. field_values v ! i) in
      \<lparr>Description = (case f 0 of MapV m \<Rightarrow> map (\<lambda>(k, x). (k, string_of x)) m | _ \<Rightarrow> []),
       DatabaseType = string_of (f 1),
       Languages = (case f 2 of ListV _ xs \<Rightarrow> map string_of xs | _ \<Rightarrow> []),
       BinaryFormatMajorVersion = uint_of (f 3), BinaryFormatMinorVersion = uint_of (f 4),
       BuildEpoch = uint_of (f 5), IPVersion = uint_of (f 6), NodeCount = uint_of (f 7),
       RecordSize = uint_of (f 8)\<rparr>)"

section \<open>OpenBytes\<close>

definition decodeMetadata :: "bytes \<Rightarrow> Metadata res" where
  "decodeMetadata section =
     bindE (DecodeWithBudget (NewWithoutStringCache section) 0 metadataType (zero_of metadataType))
       (\<lambda>(v, _). Inr (Metadata_of v))"

definition OpenBytes :: "bytes \<Rightarrow> bool \<Rightarrow> Reader res" where
  "OpenBytes file disableStringCache =
     bindE (findMetadata file) (\<lambda>metadataStart.
     bindE (slice file metadataStart (glen file)) (\<lambda>section.
     bindE (decodeMetadata section) (\<lambda>md.
       openMetadata file metadataStart md disableStringCache)))"

section \<open>Decoding results\<close>

text \<open>
  The reader of a result is the reader at the time of the call: a closed reader has no buffer. The
  reader that is returned differs in its string cache only.
\<close>

definition Result_Decode :: "Result \<Rightarrow> Type \<Rightarrow> Value \<Rightarrow> (Value \<times> Reader option) res" where
  "Result_Decode r t cur =
     (case res_err r of
        Some err \<Rightarrow> Inl err
      | None \<Rightarrow>
          if res_offset r = notFound then Inr (cur, res_reader r)
          else
            (case res_reader r of
               None \<Rightarrow> Inl (PlainError ''cannot call Decode on a closed database'')
             | Some rd \<Rightarrow>
                 if reader_buffer rd = None then Inl (PlainError ''cannot call Decode on a closed database'')
                 else
                   bindE (Decode (reader_decoder rd) (res_offset r) t cur) (\<lambda>(v, d).
                     Inr (v, Some (rd\<lparr>reader_decoder := d\<rparr>)))))"

definition Result_DecodePath :: "Result \<Rightarrow> PathElement list \<Rightarrow> Type \<Rightarrow> Value \<Rightarrow> (Value \<times> Reader option) res" where
  "Result_DecodePath r path t cur =
     (case res_err r of
        Some err \<Rightarrow> Inl err
      | None \<Rightarrow>
          if res_offset r = notFound then Inr (cur, res_reader r)
          else
            (case res_reader r of
               None \<Rightarrow> Inl (PlainError ''cannot call DecodePath on a closed database'')
             | Some rd \<Rightarrow>
                 if reader_buffer rd = None then Inl (PlainError ''cannot call DecodePath on a closed database'')
                 else
                   bindE (DecodePath (reader_decoder rd) (res_offset r) path t cur) (\<lambda>(v, d).
                     Inr (v, Some (rd\<lparr>reader_decoder := d\<rparr>)))))"

section \<open>Opening never fails for a reason of its own\<close>

lemma LastIndex_fits: "LastIndex bs sep = Some i \<Longrightarrow> i + length sep \<le> length bs"
proof (induction bs sep arbitrary: i rule: LastIndex.induct)
  case (2 b bs sep)
  show ?case
  proof (cases "LastIndex bs sep")
    case None
    then have "take (length sep) (b # bs) = sep" and i: "i = 0" using "2.prems" by (auto split: if_splits)
    then have "min (length (b # bs)) (length sep) = length sep" by (metis length_take)
    then show ?thesis by (simp add: i)
  next
    case (Some j)
    then show ?thesis using 2 by force
  qed
qed (auto split: if_splits)

lemma metadata_found:
  assumes "length bs \<le> max_int" and "findMetadata bs = Inr start"
  shows "glen metadataStartMarker \<le> start" and "start \<le> glen bs"
proof -
  obtain i where i: "LastIndex bs metadataStartMarker = Some i" and start: "start = word_of_nat i + 14"
    using assms(2) by (auto simp: findMetadata_def glen_def metadataStartMarker_def ascii_def max_int_def split: option.splits)
  have "i + 14 \<le> length bs" using LastIndex_fits [OF i] by (simp add: metadataStartMarker_def ascii_def)
  then have "unat start = i + 14" and "i + 14 \<le> unat (glen bs)"
    using assms(1) by (simp_all add: start unat_glen_eq unat_add_if unat_of_nat take_bit_nat_eq_self max_int_def)
  then show "glen metadataStartMarker \<le> start" and "start \<le> glen bs"
    by (simp_all add: word_le_nat_alt unat_glen metadataStartMarker_def ascii_def max_int_def)
qed

lemma no_panic_setIPv4Start:
  assumes "NodeCount (metadata r) > 0 \<Longrightarrow> RecordSize (metadata r) div 4 > 0 \<Longrightarrow>
      NodeCount (metadata r) \<le> NOT 0 div (RecordSize (metadata r) div 4)"
  shows "no_panic (setIPv4Start r)"
proof (cases "tree_covered r")
  case False
  then show ?thesis using checked_uncovered [OF assms False] by (simp add: setIPv4Start_def)
next
  case True
  then show ?thesis
    using descend_covered [OF True, of 0 "bits128 (As16 zeroIP) 0 96"]
    by (auto simp: setIPv4Start_def traverseTree_covered traverse_descend zeroIP_def)
qed

lemma no_panic_openMetadata:
  assumes "glen metadataStartMarker \<le> start" and "start \<le> glen bs"
  shows "no_panic (openMetadata bs start md nocache)"
proof -
  have "start - glen metadataStartMarker \<le> glen bs"
    using assms word_sub_le order_trans by blast
  then show ?thesis
    by (auto simp: openMetadata_def Let_def slice_ok not_less word_gt_0 intro!: safe no_panic_setIPv4Start)
qed

lemma no_panic_decodeMetadata: "no_panic (decodeMetadata bs)"
proof -
  let ?d = "newBudgetedDecoder (NewWithoutStringCache bs)"
  have "cache_ok (dataDecoder ?d)" by (simp add: newBudgetedDecoder_def NewWithoutStringCache_def)
  from Decode_reads [OF this zero_has_type [of metadataType], of 0]
  show ?thesis by (auto simp: decodeMetadata_def DecodeWithBudget_def returns_def intro!: safe)
qed

text \<open>
  C11. \<open>OpenBytes\<close> never panics, whatever the bytes: neither the search for the marker, nor decoding
  the metadata, nor the slices it cuts, nor the walk to the IPv4 subtree. A reader it returns is one
  laid out by \<open>openMetadata\<close> on those bytes, with a fresh string cache, which is what the properties of
  lookups, iteration and verification assume.
\<close>

theorem OpenBytes_opens:
  assumes "length bs \<le> max_int"
  shows "no_panic (OpenBytes bs nocache) \<and>
    (OpenBytes bs nocache = Inr r \<longrightarrow> opened r \<and> reader_buffer r = Some bs \<and>
       cache_ok (dataDecoder (reader_decoder r)) \<and> budgetRemaining (reader_decoder r) = 0)"
proof (intro conjI impI)
  show "no_panic (OpenBytes bs nocache)"
    using metadata_found [OF assms] no_panic_decodeMetadata no_panic_openMetadata
    by (auto simp: OpenBytes_def slice_ok intro!: safe) (simp add: findMetadata_def split: option.split)
next
  assume "OpenBytes bs nocache = Inr r"
  then obtain start md where o: "openMetadata bs start md nocache = Inr r" by (auto simp: OpenBytes_def bindE_eq_Inr)
  then show "opened r" and "reader_buffer r = Some bs" using openMetadata_Inr(1) by (auto simp: opened_def)
  from o obtain data where "reader_decoder r = (if nocache then NewWithoutStringCache data else NewReflectionDecoder data)"
    by (auto simp: openMetadata_def setIPv4Start_def Let_def bindE_eq_Inr split: if_splits)
  then show "cache_ok (dataDecoder (reader_decoder r))" and "budgetRemaining (reader_decoder r) = 0"
    by (simp_all add: NewWithoutStringCache_def NewReflectionDecoder_def)
qed

text \<open>The smallest file \<open>OpenBytes\<close> accepts: no tree, the separator, the marker and an empty map.\<close>

definition empty_file :: bytes where
  "empty_file = replicate 16 0 @ metadataStartMarker @ [0xE0]"

theorem OpenBytes_opens_witness:
  "\<exists>r. OpenBytes empty_file True = Inr r \<and> opened r \<and> reader_buffer r = Some empty_file"
proof -
  have "(case OpenBytes empty_file True of Inr _ \<Rightarrow> True | Inl _ \<Rightarrow> False)" by code_simp
  then obtain r where r: "OpenBytes empty_file True = Inr r" by (auto split: sum.splits)
  have "length empty_file \<le> max_int" by (simp add: empty_file_def metadataStartMarker_def ascii_def max_int_def)
  from OpenBytes_opens [OF this, of True r] r show ?thesis by blast
qed

section \<open>A tree size that wraps around\<close>

text \<open>
  A file of 12 empty bytes and a metadata section whose \<open>node_count\<close> is 0x2AAAAAAAAAAAAAAA: six times
  that is \<open>2 ^ 64 - 4\<close>, and with the separator of 16 bytes 12.
\<close>

definition wrapped_section :: bytes where
  "wrapped_section = [0xE3] @
     [0x4A] @ ascii ''ip_version'' @ [0xA1, 4] @
     [0x4B] @ ascii ''record_size'' @ [0xA1, 24] @
     [0x4A] @ ascii ''node_count'' @ [0x08, 0x02, 0x2A] @ replicate 7 0xAA"

definition wrapped_file :: bytes where
  "wrapped_file = replicate 12 0 @ metadataStartMarker @ wrapped_section"

definition wrapped_Metadata :: Metadata where
  "wrapped_Metadata = \<lparr>Description = [], DatabaseType = [], Languages = [], BinaryFormatMajorVersion = 0,
     BinaryFormatMinorVersion = 0, BuildEpoch = 0, IPVersion = 4, NodeCount = 0x2AAAAAAAAAAAAAAA, RecordSize = 24\<rparr>"

text \<open>What the tables of the metadata struct say of these keys.\<close>

definition field_of :: "fieldsType \<Rightarrow> string \<Rightarrow> (Type \<times> nat list \<times> fieldDispatch) option" where
  "field_of fs key = map_option (\<lambda>f. (fi_type f, fi_index f, fi_dispatch f)) (fieldForKey fs (ascii key))"

definition probe :: "fieldsType \<Rightarrow> (Type \<times> nat list \<times> fieldDispatch) option list \<times> bool" where
  "probe fs = (map (field_of fs) [''ip_version'', ''record_size'', ''node_count''],
     validationErr fs = None \<and> namedFields fs \<noteq> [])"

lemma metadata_fields:
  shows "field_of (makeStructFields metadataType) ''ip_version'' = Some (UintT, [6], dispatchFast)"
    and "field_of (makeStructFields metadataType) ''record_size'' = Some (UintT, [8], dispatchFast)"
    and "field_of (makeStructFields metadataType) ''node_count'' = Some (UintT, [7], dispatchFast)"
    and "validationErr (makeStructFields metadataType) = None" and "namedFields (makeStructFields metadataType) \<noteq> []"
proof -
  have "probe (makeStructFields metadataType) =
    ([Some (UintT, [6], dispatchFast), Some (UintT, [8], dispatchFast), Some (UintT, [7], dispatchFast)], True)" by code_simp
  note all = this [unfolded probe_def list.map list.inject prod.inject]
  show "field_of (makeStructFields metadataType) ''ip_version'' = Some (UintT, [6], dispatchFast)"
    and "field_of (makeStructFields metadataType) ''record_size'' = Some (UintT, [8], dispatchFast)"
    and "field_of (makeStructFields metadataType) ''node_count'' = Some (UintT, [7], dispatchFast)"
    and "validationErr (makeStructFields metadataType) = None" and "namedFields (makeStructFields metadataType) \<noteq> []"
    using all by blast+
qed

text \<open>One entry into a scalar field, and the metadata by its entries.\<close>

lemma scalar_entry:
  assumes "decodeKeyAt (dataDecoder d) offset = Inr (ascii key, e, dataOffset)"
    and "field_of fs key = Some (ft, [i], dispatchFast)"
    and "tryFastDecodeTyped d dataOffset ft = Some (v, newOffset, d')"
    and "fieldByIndex t cur [i] True = Some w"
  shows "decodeFields d (Suc n) offset t cur depth fs = decodeFields d' n newOffset t (setField t cur [i] v) depth fs"
  using assms by (auto simp: field_of_def decodeFields.simps(2) decodeField.simps Let_def)

lemma decodeMetadata_fields:
  assumes "decodeCtrlData (NewDataDecoderWithoutStringCache sec) 0 = Inr (KindMap, sz, dataOffset)"
    and "reserveActiveContainer (newBudgetedDecoder (NewWithoutStringCache sec)) KindMap sz = Inr d"
    and "decodeFields d (unat sz) dataOffset metadataType (zero_of metadataType) 1 (makeStructFields metadataType) =
      Inr (v, newOffset, d')"
  shows "decodeMetadata sec = Inr (Metadata_of v)"
proof -
  let ?d = "newBudgetedDecoder (NewWithoutStringCache sec)"
  have d: "dataDecoder ?d = NewDataDecoderWithoutStringCache sec" "activated ?d = ?d"
    by (simp_all add: newBudgetedDecoder_def NewWithoutStringCache_def activated_def)
  have t: "unwrapPtrType metadataType = metadataType" "isStruct metadataType" "metadataType \<noteq> AnyT"
    "deref metadataType v = v" "allocated metadataType v = v" "fastRoot ?d 0 metadataType = Inr None" for v
    by (simp_all add: metadataType_def fastRoot_def isStruct_def)
  have "decodeStructWithFields d sz dataOffset metadataType (zero_of metadataType) 1 (makeStructFields metadataType) =
    Inr (v, newOffset, d')"
    using assms(3) metadata_fields by (simp add: decodeStructWithFields.simps)
  with assms(1,2) have "decodeValue ?d 0 metadataType (zero_of metadataType) 0 = Inr (v, newOffset, deactivated ?d d')"
    by (simp add: decodeValue.simps decodeFromType.simps unmarshalMap.simps d t)
  then show ?thesis by (simp add: decodeMetadata_def DecodeWithBudget_def Decode_def t)
qed

lemma wrapped_fields:
  fixes d :: ReflectionDecoder
  defines "d \<equiv> (newBudgetedDecoder (NewWithoutStringCache wrapped_section))\<lparr>budgetRemaining := 32763\<rparr>"
  shows "decodeFields d 3 1 metadataType (zero_of metadataType) 1 (makeStructFields metadataType) =
    Inr (setField metadataType (setField metadataType (setField metadataType (zero_of metadataType) [6] (UintV 4))
      [8] (UintV 24)) [7] (UintV 0x2AAAAAAAAAAAAAAA), 49, d)"
proof -
  have three: "3 = Suc (Suc (Suc 0))" by simp
  have keys: "decodeKeyAt (dataDecoder d) 1 = Inr (ascii ''ip_version'', 1, 12)"
    "decodeKeyAt (dataDecoder d) 14 = Inr (ascii ''record_size'', 14, 26)"
    "decodeKeyAt (dataDecoder d) 28 = Inr (ascii ''node_count'', 28, 39)"
    unfolding d_def by code_simp+
  have vals: "tryFastDecodeTyped d 12 UintT = Some (UintV 4, 14, d)"
    "tryFastDecodeTyped d 26 UintT = Some (UintV 24, 28, d)"
    "tryFastDecodeTyped d 39 UintT = Some (UintV 0x2AAAAAAAAAAAAAAA, 49, d)"
    unfolding d_def by code_simp+
  note fs = metadata_fields(1-3)
  note step = scalar_entry [OF _ _ _ fieldByIndex.simps(2)]
  show ?thesis
    unfolding three
    unfolding step [OF keys(1) fs(1) vals(1)] step [OF keys(2) fs(2) vals(2)] step [OF keys(3) fs(3) vals(3)]
    by simp
qed

lemma wrapped_metadata:
  "decodeMetadata wrapped_section = Inr wrapped_Metadata"
proof -
  have "reserveActiveContainer (newBudgetedDecoder (NewWithoutStringCache wrapped_section)) KindMap 3 =
      Inr ((newBudgetedDecoder (NewWithoutStringCache wrapped_section))\<lparr>budgetRemaining := 32763\<rparr>)"
    and "decodeCtrlData (NewDataDecoderWithoutStringCache wrapped_section) 0 = Inr (KindMap, 3, 1)" by code_simp+
  moreover have "unat (3 :: uint) = 3" by simp
  moreover have "Metadata_of (setField metadataType (setField metadataType (setField metadataType (zero_of metadataType) [6] (UintV 4))
      [8] (UintV 24)) [7] (UintV 0x2AAAAAAAAAAAAAAA)) = wrapped_Metadata"
    by code_simp
  ultimately show ?thesis
    using decodeMetadata_fields [of wrapped_section 3 1] wrapped_fields by simp
qed
lemma wrapped_opens:
  "OpenBytes wrapped_file True = openMetadata wrapped_file 26 wrapped_Metadata True"
proof -
  have "findMetadata wrapped_file = Inr 26" and "slice wrapped_file 26 (glen wrapped_file) = Inr wrapped_section" by code_simp+
  then show ?thesis by (simp add: OpenBytes_def wrapped_metadata)
qed
text \<open>
  C40. The check of the tree size is too weak: \<open>NodeCount * 6\<close> may be \<open>2 ^ 64 - 4\<close>, which passes the
  overflow check, and adding the separator wraps around to 12. \<open>OpenBytes\<close> accepts the file above, of
  75 bytes, which does not cover its tree, and every lookup in it fails.
\<close>

theorem open_accepts_wrapped_tree:
  "\<exists>r. OpenBytes wrapped_file True = Inr r \<and> \<not> tree_covered r \<and>
     (\<forall>a. lookupPointer r (V4 a) = Inl (InvalidDatabaseError (TreeMsg TraversalOutOfBounds), 0) \<and>
          res_err (Lookup r (V4 a)) = Some (InvalidDatabaseError (TreeMsg TraversalOutOfBounds)))"
proof -
  have "case openMetadata wrapped_file 26 wrapped_Metadata True of Inl _ \<Rightarrow> False | Inr _ \<Rightarrow> True" by code_simp
  then obtain r where r: "openMetadata wrapped_file 26 wrapped_Metadata True = Inr r" by (auto split: sum.splits)
  note o1 = openMetadata_Inr [OF r]
  have "length wrapped_file = 75" by code_simp
  then have small: "length (buf r) = 75" using o1(1) by (simp add: buf_def)
  have md: "RecordSize (metadata r) = 24" "NodeCount (metadata r) = 0x2AAAAAAAAAAAAAAA"
    using o1(2) by (simp_all add: wrapped_Metadata_def)
  then have nc: "\<not> tree_covered r"
    using small by (simp add: tree_covered_def covers_def unat_glen max_int_def)
  have "opened r" using r by (auto simp: opened_def)
  then have "lookupPointer r (V4 a) = Inl (InvalidDatabaseError (TreeMsg TraversalOutOfBounds), 0)" for a
    using opened_uncovered [OF _ nc] md by (simp add: supported_def lookupPointer_def IsValid_def Is6_def)
  moreover from this have "res_err (Lookup r (V4 a)) = Some (InvalidDatabaseError (TreeMsg TraversalOutOfBounds))" for a
    using o1(1) by (simp add: Lookup_def zeroResult_def)
  ultimately show ?thesis using r nc wrapped_opens by auto
qed

end
