(* ===== verification/Utf8.thy ===== *)
theory Utf8
  imports Prelude
begin

text \<open>
  What the code uses of Go's \<open>unicode/utf8\<close> and \<open>strconv\<close>: the validity of UTF-8, the decoding and
  encoding of runes, unsigned decimal numbers and quoted strings. A rune is a natural number.
\<close>

section \<open>Runes\<close>

text \<open>\<open>utf8.ValidString\<close>: no overlong forms, no surrogates, nothing above U+10FFFF.\<close>

definition continuation :: "byte \<Rightarrow> bool" where
  "continuation b \<longleftrightarrow> 0x80 \<le> b \<and> b \<le> 0xBF"

fun ValidString :: "bytes \<Rightarrow> bool" where
  "ValidString [] \<longleftrightarrow> True"
| "ValidString (b # bs) \<longleftrightarrow>
     (if b < 0x80 then ValidString bs
      else if 0xC2 \<le> b \<and> b \<le> 0xDF then
        (case bs of b1 # rest \<Rightarrow> continuation b1 \<and> ValidString rest | _ \<Rightarrow> False)
      else if 0xE0 \<le> b \<and> b \<le> 0xEF then
        (case bs of
           b1 # b2 # rest \<Rightarrow>
             continuation b1 \<and> (b = 0xE0 \<longrightarrow> 0xA0 \<le> b1) \<and> (b = 0xED \<longrightarrow> b1 \<le> 0x9F) \<and>
             continuation b2 \<and> ValidString rest
         | _ \<Rightarrow> False)
      else if 0xF0 \<le> b \<and> b \<le> 0xF4 then
        (case bs of
           b1 # b2 # b3 # rest \<Rightarrow>
             continuation b1 \<and> (b = 0xF0 \<longrightarrow> 0x90 \<le> b1) \<and> (b = 0xF4 \<longrightarrow> b1 \<le> 0x8F) \<and>
             continuation b2 \<and> continuation b3 \<and> ValidString rest
         | _ \<Rightarrow> False)
      else False)"

text \<open>\<open>utf8.DecodeRuneInString\<close>: the rune and its length; (\<open>RuneError\<close>, 1) for an invalid sequence.\<close>

definition RuneError :: nat where
  "RuneError = 0xFFFD"

fun DecodeRune :: "bytes \<Rightarrow> nat \<times> nat" where
  "DecodeRune [] = (RuneError, 0)"
| "DecodeRune (b # bs) =
     (if b < 0x80 then (unat b, 1)
      else if 0xC2 \<le> b \<and> b \<le> 0xDF then
        (case bs of
           b1 # _ \<Rightarrow> if continuation b1 then ((unat b - 0xC0) * 64 + (unat b1 - 0x80), 2) else (RuneError, 1)
         | _ \<Rightarrow> (RuneError, 1))
      else if 0xE0 \<le> b \<and> b \<le> 0xEF then
        (case bs of
           b1 # b2 # _ \<Rightarrow>
             if continuation b1 \<and> (b = 0xE0 \<longrightarrow> 0xA0 \<le> b1) \<and> (b = 0xED \<longrightarrow> b1 \<le> 0x9F) \<and> continuation b2
             then (((unat b - 0xE0) * 64 + (unat b1 - 0x80)) * 64 + (unat b2 - 0x80), 3) else (RuneError, 1)
         | _ \<Rightarrow> (RuneError, 1))
      else if 0xF0 \<le> b \<and> b \<le> 0xF4 then
        (case bs of
           b1 # b2 # b3 # _ \<Rightarrow>
             if continuation b1 \<and> (b = 0xF0 \<longrightarrow> 0x90 \<le> b1) \<and> (b = 0xF4 \<longrightarrow> b1 \<le> 0x8F) \<and>
                continuation b2 \<and> continuation b3
             then ((((unat b - 0xF0) * 64 + (unat b1 - 0x80)) * 64 + (unat b2 - 0x80)) * 64 + (unat b3 - 0x80), 4)
             else (RuneError, 1)
         | _ \<Rightarrow> (RuneError, 1))
      else (RuneError, 1))"

text \<open>\<open>utf8.ValidRune\<close> and \<open>utf8.AppendRune\<close>.\<close>

definition ValidRune :: "nat \<Rightarrow> bool" where
  "ValidRune r \<longleftrightarrow> r < 0xD800 \<or> 0xDFFF < r \<and> r \<le> 0x10FFFF"

definition EncodeRune :: "nat \<Rightarrow> bytes" where
  "EncodeRune r =
     (let r = (if ValidRune r then r else RuneError); tail = (\<lambda>n. word_of_nat (0x80 + n mod 64)) in
      if r < 0x80 then [word_of_nat r]
      else if r < 0x800 then [word_of_nat (0xC0 + r div 64), tail r]
      else if r < 0x10000 then [word_of_nat (0xE0 + r div 4096), tail (r div 64), tail r]
      else [word_of_nat (0xF0 + r div 262144), tail (r div 4096), tail (r div 64), tail r])"

lemma DecodeRune_length: "bs \<noteq> [] \<Longrightarrow> 1 \<le> snd (DecodeRune bs) \<and> snd (DecodeRune bs) \<le> length bs"
  by (cases bs) (auto split: list.split)

text \<open>\<open>strings.TrimLeftFunc\<close>.\<close>

function TrimLeftFunc :: "(nat \<Rightarrow> bool) \<Rightarrow> bytes \<Rightarrow> bytes" where
  "TrimLeftFunc f s =
     (if s = [] then [] else case DecodeRune s of (r, n) \<Rightarrow> if f r then TrimLeftFunc f (drop n s) else s)"
  by pat_completeness auto
termination
proof (relation "measure (\<lambda>(f, s). length s)", goal_cases)
  case (2 f s x r)
  then show ?case using DecodeRune_length [of s] by (cases "DecodeRune s") auto
qed simp

declare TrimLeftFunc.simps [simp del]

section \<open>Valid strings, rune by rune\<close>

text \<open>The encoding of one rune: an ASCII byte, or bytes from \<open>0x80\<close> up.\<close>

definition chunk :: "bytes \<Rightarrow> nat \<Rightarrow> bool" where
  "chunk c r \<longleftrightarrow> c \<noteq> [] \<and> (\<forall>rest. DecodeRune (c @ rest) = (r, length c)) \<and> (\<forall>s. ValidString (c @ s) = ValidString s) \<and>
     EncodeRune r = c \<and> ((\<exists>b. c = [b] \<and> b < 0x80 \<and> r = unat b) \<or> ((\<forall>b \<in> set c. 0x80 \<le> b) \<and> 0x80 \<le> r))"

lemma chunk_ascii: "b < 0x80 \<Longrightarrow> chunk [b] (unat b)"
  by (auto simp: chunk_def EncodeRune_def ValidRune_def word_less_nat_alt Let_def)

lemma word_of_unat_plus: "a \<le> b \<Longrightarrow> word_of_nat (unat a + (unat b - unat a)) = (b :: byte)"
  by (simp add: word_le_nat_alt)

lemma word_nat_id: "word_of_nat (unat b) = b" for b :: "'w::len word"
  by simp

lemma lead_byte:
  fixes b l :: byte
  assumes "l \<le> b"
  obtains x where "unat b = unat l + x" and "b = word_of_nat (unat l + x)"
proof -
  obtain x where "unat b = unat l + x" using assms le_Suc_ex unfolding word_le_nat_alt by blast
  moreover from this have "b = word_of_nat (unat l + x)" by (metis word_nat_id)
  ultimately show thesis by (rule that)
qed

lemma continuation_byte:
  assumes "continuation b"
  obtains y where "unat b = 0x80 + y" and "b = word_of_nat (0x80 + y)" and "y < 64"
proof -
  obtain y where "unat b = unat (0x80 :: byte) + y" "b = word_of_nat (unat (0x80 :: byte) + y)"
    using assms unfolding continuation_def by (metis lead_byte)
  moreover have "unat b \<le> 0xBF" using assms by (simp add: continuation_def word_le_nat_alt)
  ultimately show thesis by (intro that [of y]) simp_all
qed

lemma base64: "y < 64 \<Longrightarrow> (a * 64 + y) div 64 = a" "y < 64 \<Longrightarrow> (a * 64 + y) mod 64 = y" for a y :: nat
  by simp_all

lemma div_4096: "n div 4096 = n div 64 div 64" "n div 262144 = n div 64 div 64 div 64" for n :: nat
  by (simp_all add: div_mult2_eq [symmetric])

lemma chunk_two:
  assumes "0xC2 \<le> b" "b \<le> 0xDF" "continuation b1"
  shows "chunk [b, b1] ((unat b - 0xC0) * 64 + (unat b1 - 0x80))"
proof -
  obtain x where x: "unat b = 0xC2 + x" "b = word_of_nat (0xC2 + x)" using lead_byte [OF assms(1)] by auto
  obtain y where y: "unat b1 = 0x80 + y" "b1 = word_of_nat (0x80 + y)" "y < 64" using assms(3) by (rule continuation_byte)
  have x': "x < 30" using assms(2) x(1) by (simp add: word_le_nat_alt)
  have r: "(unat b - 0xC0) * 64 + (unat b1 - 0x80) = (2 + x) * 64 + y" using x y by simp
  have d: "((2 + x) * 64 + y) div 64 = 2 + x" "((2 + x) * 64 + y) mod 64 = y" by (simp_all only: base64 y(3))
  have "EncodeRune ((2 + x) * 64 + y) = [word_of_nat (0xC0 + (2 + x)), word_of_nat (0x80 + y)]"
    unfolding EncodeRune_def using x' y(3) d by (simp add: ValidRune_def Let_def del: of_nat_add)
  then have "EncodeRune ((2 + x) * 64 + y) = [word_of_nat (0xC2 + x), word_of_nat (0x80 + y)]" by (simp add: add.assoc)
  moreover have "\<not> b < 0x80" using x(1) by (simp add: word_less_nat_alt)
  ultimately show ?thesis
    using assms x y unfolding r by (auto simp: chunk_def continuation_def word_le_nat_alt)
qed

lemma chunk_three:
  assumes "0xE0 \<le> b" "b \<le> 0xEF" "continuation b1" "b = 0xE0 \<longrightarrow> 0xA0 \<le> b1" "b = 0xED \<longrightarrow> b1 \<le> 0x9F" "continuation b2"
  shows "chunk [b, b1, b2] (((unat b - 0xE0) * 64 + (unat b1 - 0x80)) * 64 + (unat b2 - 0x80))"
proof -
  obtain x where x: "unat b = 0xE0 + x" "b = word_of_nat (0xE0 + x)" using lead_byte [OF assms(1)] by auto
  obtain y where y: "unat b1 = 0x80 + y" "b1 = word_of_nat (0x80 + y)" "y < 64" using assms(3) by (rule continuation_byte)
  obtain z where z: "unat b2 = 0x80 + z" "b2 = word_of_nat (0x80 + z)" "z < 64" using assms(6) by (rule continuation_byte)
  define r where "r = (x * 64 + y) * 64 + z"
  have x': "x < 16" using assms(2) x(1) by (simp add: word_le_nat_alt)
  have lo: "x = 0 \<Longrightarrow> 32 \<le> y" and hi: "x = 13 \<Longrightarrow> y < 32"
    using assms(4,5) x(1) y(1) by (simp_all add: word_le_nat_alt word_unat_eq_iff)
  have r: "0x800 \<le> r" "r < 0x10000" using lo x' y(3) z(3) by (cases "x = 0"; simp add: r_def)+
  have v: "ValidRune r"
  proof (cases "x \<le> 13")
    case True
    then have "r < 0xD800" using hi y(3) z(3) by (cases "x = 13") (simp_all add: r_def)
    then show ?thesis by (simp add: ValidRune_def)
  next
    case False
    then show ?thesis using r by (simp add: r_def ValidRune_def)
  qed
  have d: "r div 64 = x * 64 + y" "r div 4096 = x" "r mod 64 = z" "(r div 64) mod 64 = y"
    by (simp_all only: r_def base64 div_4096 y(3) z(3))
  have "EncodeRune r = [word_of_nat (0xE0 + x), word_of_nat (0x80 + y), word_of_nat (0x80 + z)]"
    unfolding EncodeRune_def using r v d by (simp add: Let_def del: of_nat_add)
  moreover have "\<not> b < 0x80" "\<not> b \<le> 0xDF" using x(1) by (simp_all add: word_less_nat_alt word_le_nat_alt)
  moreover have "((unat b - 0xE0) * 64 + (unat b1 - 0x80)) * 64 + (unat b2 - 0x80) = r" using x y z by (simp add: r_def)
  ultimately show ?thesis
    using assms x y z r(1) by (auto simp: chunk_def continuation_def word_le_nat_alt)
qed

lemma chunk_four:
  assumes "0xF0 \<le> b" "b \<le> 0xF4" "continuation b1" "b = 0xF0 \<longrightarrow> 0x90 \<le> b1" "b = 0xF4 \<longrightarrow> b1 \<le> 0x8F"
    and "continuation b2" "continuation b3"
  shows "chunk [b, b1, b2, b3] ((((unat b - 0xF0) * 64 + (unat b1 - 0x80)) * 64 + (unat b2 - 0x80)) * 64 + (unat b3 - 0x80))"
proof -
  obtain x where x: "unat b = 0xF0 + x" "b = word_of_nat (0xF0 + x)" using lead_byte [OF assms(1)] by auto
  obtain y where y: "unat b1 = 0x80 + y" "b1 = word_of_nat (0x80 + y)" "y < 64" using assms(3) by (rule continuation_byte)
  obtain z where z: "unat b2 = 0x80 + z" "b2 = word_of_nat (0x80 + z)" "z < 64" using assms(6) by (rule continuation_byte)
  obtain t where t: "unat b3 = 0x80 + t" "b3 = word_of_nat (0x80 + t)" "t < 64" using assms(7) by (rule continuation_byte)
  define r where "r = ((x * 64 + y) * 64 + z) * 64 + t"
  have x': "x < 5" using assms(2) x(1) by (simp add: word_le_nat_alt)
  have lo: "x = 0 \<Longrightarrow> 16 \<le> y" and hi: "x = 4 \<Longrightarrow> y < 16"
    using assms(4,5) x(1) y(1) by (simp_all add: word_le_nat_alt word_unat_eq_iff)
  have r: "0x10000 \<le> r" using lo by (cases "x = 0") (simp_all add: r_def)
  have "r \<le> 0x10FFFF" using hi x' y(3) z(3) t(3) by (cases "x = 4") (simp_all add: r_def)
  then have v: "ValidRune r" using r by (simp add: ValidRune_def)
  have d: "r div 64 = (x * 64 + y) * 64 + z" "r div 4096 = x * 64 + y" "r div 262144 = x" "r mod 64 = t"
    "(r div 64) mod 64 = z" "(r div 4096) mod 64 = y"
    by (simp_all only: r_def base64 div_4096 y(3) z(3) t(3))
  have "EncodeRune r = [word_of_nat (0xF0 + x), word_of_nat (0x80 + y), word_of_nat (0x80 + z), word_of_nat (0x80 + t)]"
    unfolding EncodeRune_def using r v d by (simp add: Let_def del: of_nat_add)
  moreover have "\<not> b < 0x80" "\<not> b \<le> 0xDF" "\<not> b \<le> 0xEF" using x(1) by (simp_all add: word_less_nat_alt word_le_nat_alt)
  moreover have "(((unat b - 0xF0) * 64 + (unat b1 - 0x80)) * 64 + (unat b2 - 0x80)) * 64 + (unat b3 - 0x80) = r"
    using x y z t by (simp add: r_def)
  ultimately show ?thesis
    using assms x y z t r(1) by (auto simp: chunk_def continuation_def word_le_nat_alt)
qed

lemma ValidString_induct [consumes 1, case_names empty rune]:
  assumes "ValidString s" and "P []" and "\<And>c r s. chunk c r \<Longrightarrow> ValidString s \<Longrightarrow> P s \<Longrightarrow> P (c @ s)"
  shows "P s"
  using assms(1)
proof (induction s rule: length_induct)
  case (1 s)
  show ?case
  proof (cases s)
    case Nil
    then show ?thesis using assms(2) by simp
  next
    case (Cons b bs)
    have "\<exists>c r rest. chunk c r \<and> s = c @ rest \<and> ValidString rest"
      using "1.prems" chunk_ascii [of b] chunk_two [of b] chunk_three [of b] chunk_four [of b]
      unfolding Cons by (auto split: if_splits list.splits) (metis append_Cons append_Nil)+
    then obtain c r rest where c: "chunk c r" "s = c @ rest" "ValidString rest" by blast
    then have "length rest < length s" by (auto simp: chunk_def)
    with "1.IH" c assms(3) show ?thesis by blast
  qed
qed

end
