(* ===== verification/Verification.thy ===== *)
theory Verification
  imports TreeVerifier Opening ReflectionCache Utf8
begin

text \<open>
  \<open>Reader.Verify\<close> (\<open>verifier.go\<close>, \<open>internal/decoder/verifier.go\<close>): the checks of the metadata, of the
  search tree (\<open>TreeVerifier\<close>), of the separator and of the data section, and what a database that
  passes them guarantees.
\<close>

section \<open>UTF-8\<close>

text \<open>
  \<open>validateUTF8\<close> on a value decoded into an \<open>any\<close>. Go ranges over a map in any order; here the order
  is that of the entries, which decides which of several errors is reported.
\<close>

fun validateUTF8 :: "Value \<Rightarrow> unit res"
  and validateEntriesUTF8 :: "(gostring \<times> Value) list \<Rightarrow> unit res"
  and validateItemsUTF8 :: "Value list \<Rightarrow> unit res" where
  "validateUTF8 (StringV s) =
     (if ValidString s then Inr () else Inl (InvalidDatabaseError (DataMsg InvalidUTF8String)))"
| "validateUTF8 (MapV m) = validateEntriesUTF8 m"
| "validateUTF8 (ListV c vs) = validateItemsUTF8 vs"
| "validateUTF8 v = Inr ()"
| "validateEntriesUTF8 [] = Inr ()"
| "validateEntriesUTF8 ((key, item) # m) =
     (if \<not> ValidString key then Inl (InvalidDatabaseError (DataMsg InvalidUTF8MapKey))
      else bindE (validateUTF8 item) (\<lambda>_. validateEntriesUTF8 m))"
| "validateItemsUTF8 [] = Inr ()"
| "validateItemsUTF8 (item # vs) = bindE (validateUTF8 item) (\<lambda>_. validateItemsUTF8 vs)"

section \<open>The metadata\<close>

definition VerifyMetadata :: "bytes \<Rightarrow> unit res" where
  "VerifyMetadata section =
     bindE (DecodeWithBudget (NewWithoutStringCache section) 0 AnyT NilV) (\<lambda>(v, _). validateUTF8 v)"

definition testError :: "string \<Rightarrow> unit res" where
  "testError field = Inl (InvalidDatabaseError (FileMsg (FieldExpected field)))"

definition checkMetadata :: "Metadata \<Rightarrow> unit res" where
  "checkMetadata md =
     (if BinaryFormatMajorVersion md \<noteq> 2 then testError ''binary_format_major_version''
      else if BinaryFormatMinorVersion md \<noteq> 0 then testError ''binary_format_minor_version''
      else if DatabaseType md = [] then testError ''database_type''
      else if \<not> ValidString (DatabaseType md) then
        Inl (InvalidDatabaseError (FileMsg (FieldInvalidUTF8 ''database_type'')))
      else if \<exists>(language, description) \<in> set (Description md). \<not> ValidString language \<or> \<not> ValidString description then
        Inl (InvalidDatabaseError (FileMsg (FieldInvalidUTF8 ''description'')))
      else if \<exists>language \<in> set (Languages md). \<not> ValidString language then
        Inl (InvalidDatabaseError (FileMsg (FieldInvalidUTF8 ''languages'')))
      else if Description md = [] then testError ''description''
      else if IPVersion md \<noteq> 4 \<and> IPVersion md \<noteq> 6 then testError ''ip_version''
      else if RecordSize md \<noteq> 24 \<and> RecordSize md \<noteq> 28 \<and> RecordSize md \<noteq> 32 then testError ''record_size''
      else if NodeCount md = 0 then testError ''node_count''
      else Inr ())"

definition verifyMetadata :: "Reader \<Rightarrow> unit res" where
  "verifyMetadata r =
     bindE (if glen (buf r) \<noteq> 0 then
              (case LastIndex (buf r) metadataStartMarker of
                 None \<Rightarrow> Inl (InvalidDatabaseError (FileMsg MetadataMarkerNotFound))
               | Some i \<Rightarrow>
                   bindE (slice (buf r) (word_of_nat i + glen metadataStartMarker) (glen (buf r))) VerifyMetadata)
            else Inr ())
       (\<lambda>_. checkMetadata (metadata r))"

section \<open>The data section\<close>

text \<open>An error is formatted into the message of a new one; a panic is not caught.\<close>

definition reported :: "data_msg \<Rightarrow> gerr \<Rightarrow> gerr" where
  "reported m err = (if root_error err = Panic then err else InvalidDatabaseError (DataMsg m))"

text \<open>
  The loop over the records of the data section. Every record is decoded on limits of its own; the
  string cache is shared.
\<close>

function verifyRecords ::
  "ReflectionDecoder \<Rightarrow> uint \<Rightarrow> uint \<Rightarrow> uint set \<Rightarrow> (uint \<times> uint set \<times> ReflectionDecoder) res" where
  "verifyRecords d bufferLen offset offs =
     (if offset < bufferLen then
        bindE (mapErr (reported (DecodingErrorAt offset)) (decodeValue (newBudgetedDecoder d) offset AnyT NilV 0))
          (\<lambda>(data, newOffset, bounded).
        bindE (mapErr (reported (ValidationErrorAt offset)) (validateUTF8 data)) (\<lambda>_.
          if newOffset \<le> offset then Inl (InvalidDatabaseError (DataMsg (OffsetWent offset newOffset)))
          else if offset \<notin> offs then Inl (InvalidDatabaseError (DataMsg (UnreferencedData offset)))
          else verifyRecords (d\<lparr>dataDecoder := dataDecoder bounded\<rparr>) bufferLen newOffset (offs - {offset})))
      else Inr (offset, offs, d))"
  by pat_completeness auto
termination
  by (relation "measure (\<lambda>(_, _, offset, _). 2 ^ 64 - unat offset)")
    (auto simp: word_less_nat_alt not_le intro!: diff_less_mono2 unat_less_2_64 [THEN less_le_trans])

declare verifyRecords.simps [simp del]

definition VerifyDataSection :: "ReflectionDecoder \<Rightarrow> uint set \<Rightarrow> ReflectionDecoder res" where
  "VerifyDataSection d offs =
     (let pointerCount = card offs; bufferLen = glen (buffer (dataDecoder d)) in
      bindE (verifyRecords d bufferLen 0 offs) (\<lambda>(offset, left, d).
        if offset \<noteq> bufferLen then Inl (InvalidDatabaseError (DataMsg (TrailingData offset bufferLen)))
        else if card left \<noteq> 0 then Inl (InvalidDatabaseError (DataMsg (UnseenPointers (card left) pointerCount)))
        else Inr d))"

section \<open>Verify\<close>

definition verifyDatabase :: "Reader \<Rightarrow> Reader res" where
  "verifyDatabase r =
     bindE (verifySearchTree r) (\<lambda>offs.
     bindE (verifyDataSectionSeparator r) (\<lambda>_.
     bindE (VerifyDataSection (reader_decoder r) offs) (\<lambda>d.
       Inr (r\<lparr>reader_decoder := d\<rparr>))))"

text \<open>The reader that is returned differs from the one verified in its string cache only.\<close>

definition Verify :: "Reader \<Rightarrow> Reader res" where
  "Verify r = bindE (verifyMetadata r) (\<lambda>_. verifyDatabase r)"

section \<open>Strings\<close>

text \<open>The strings and keys of a value.\<close>

fun strings_of :: "Value \<Rightarrow> gostring set" where
  "strings_of (StringV s) = {s}"
| "strings_of (ListV c vs) = (\<Union>v \<in> set vs. strings_of v)"
| "strings_of (MapV m) = fst ` set m \<union> (\<Union>x \<in> set m. strings_of (snd x))"
| "strings_of v = {}"

lemma validateUTF8_strings:
  "validateUTF8 v = Inr () \<longleftrightarrow> (\<forall>s \<in> strings_of v. ValidString s)"
  "validateEntriesUTF8 m = Inr () \<longleftrightarrow> (\<forall>x \<in> set m. ValidString (fst x) \<and> (\<forall>s \<in> strings_of (snd x). ValidString s))"
  "validateItemsUTF8 vs = Inr () \<longleftrightarrow> (\<forall>v \<in> set vs. \<forall>s \<in> strings_of v. ValidString s)"
  by (induction v and m and vs rule: validateUTF8_validateEntriesUTF8_validateItemsUTF8.induct)
    (auto simp: bindE_eq_Inr)

lemma no_panic_validateUTF8 [safe]: "no_panic (validateUTF8 v)" "no_panic (validateEntriesUTF8 m)" "no_panic (validateItemsUTF8 vs)"
  by (induction v and m and vs rule: validateUTF8_validateEntriesUTF8_validateItemsUTF8.induct) (auto intro!: safe)

section \<open>The records of the data section\<close>

text \<open>A record that decodes into an \<open>any\<close>, on limits of its own and without a cache, to a value of valid strings.\<close>

definition record_ok :: "ReflectionDecoder \<Rightarrow> uint \<Rightarrow> bool" where
  "record_ok d off \<longleftrightarrow> (\<exists>v e d'. decodeValue (newBudgetedDecoder (uncached d)) off AnyT NilV 0 = Inr (v, e, d') \<and>
     (\<forall>s \<in> strings_of v. ValidString s))"

lemma record_step:
  assumes ok: "cache_ok (dataDecoder d)" and r: "decodeValue (newBudgetedDecoder d) off AnyT NilV 0 = Inr (v, e, b)"
  shows "decodeValue (newBudgetedDecoder (uncached d)) off AnyT NilV 0 = Inr (v, e, uncached b)"
    and "cache_ok (dataDecoder b)" and "uncached (d\<lparr>dataDecoder := dataDecoder b\<rparr>) = uncached d"
    and "values_at (dataDecoder d) 1 off e"
proof -
  have same: "dataDecoder (newBudgetedDecoder d) = dataDecoder d" by (simp add: newBudgetedDecoder_def)
  have ok': "cache_ok (dataDecoder (newBudgetedDecoder d))" using ok by (simp add: same)
  show "decodeValue (newBudgetedDecoder (uncached d)) off AnyT NilV 0 = Inr (v, e, uncached b)" and "cache_ok (dataDecoder b)"
    using decode_mirrors(1) [OF ok', of off AnyT NilV 0] r by (auto simp: sees_def mirrors_def)
  have g: "gives (newBudgetedDecoder d) AnyT 0 v b" "values_at (dataDecoder d) 1 off e"
    using decode_reads(1) [OF ok', of NilV AnyT off 0] r by (simp_all add: reads_value_def same)
  then show "values_at (dataDecoder d) 1 off e" by simp
  have "\<exists>c. dataDecoder b = (dataDecoder d)\<lparr>stringCache := c\<rparr>" using g(1) by (auto simp: gives_def keeps_def same)
  then show "uncached (d\<lparr>dataDecoder := dataDecoder b\<rparr>) = uncached d" by (auto simp: uncached_def)
qed

lemma record_ok_uncached: "uncached d' = uncached d \<Longrightarrow> record_ok d' = record_ok d"
  by (simp add: record_ok_def fun_eq_iff)

lemma token_uncached: "uncached d' = uncached d \<Longrightarrow> token (dataDecoder d') = token (dataDecoder d)"
  using token_cache [of "\<lambda>_. None" "dataDecoder d'"] token_cache [of "\<lambda>_. None" "dataDecoder d"]
  by (metis uncached_simps(1))

lemma verifyRecords_sound:
  "cache_ok (dataDecoder d) \<Longrightarrow> verifyRecords d n off offs = Inr (e, left, d') \<Longrightarrow>
     left \<subseteq> offs \<and> (\<forall>x \<in> offs - left. record_ok d x) \<and> values_at (dataDecoder d) (card (offs - left)) off e \<and> \<not> e < n"
proof (induction d n off offs rule: verifyRecords.induct)
  case (1 d n off offs)
  show ?case
  proof (cases "off < n")
    case False
    then show ?thesis using 1(3) by (simp add: verifyRecords.simps)
  next
    case True
    obtain v o1 b where v: "decodeValue (newBudgetedDecoder d) off AnyT NilV 0 = Inr (v, o1, b)"
      and utf8: "validateUTF8 v = Inr ()" and o1: "\<not> o1 \<le> off" and off: "off \<in> offs"
      and rest: "verifyRecords (d\<lparr>dataDecoder := dataDecoder b\<rparr>) n o1 (offs - {off}) = Inr (e, left, d')"
      using 1(3) True by (subst (asm) verifyRecords.simps) (auto simp: bindE_eq_Inr split: if_splits)
    note step = record_step [OF 1(2) v]
    let ?d = "d\<lparr>dataDecoder := dataDecoder b\<rparr>"
    have ih: "left \<subseteq> offs - {off}" "\<forall>x \<in> offs - {off} - left. record_ok ?d x"
      "values_at (dataDecoder ?d) (card (offs - {off} - left)) o1 e" "\<not> e < n"
      using "1.IH" [OF True _ refl refl _ o1 _ _ rest] v utf8 off step(2) by auto
    have eq: "offs - left = insert off (offs - {off} - left)" using ih(1) off by blast
    have fin: "finite (offs - {off} - left)" by simp
    have "card (offs - left) = Suc (card (offs - {off} - left))" unfolding eq using fin by (subst card_insert_disjoint) auto
    moreover have "values_at (dataDecoder d) (Suc (card (offs - {off} - left))) off e"
      using stream_element [OF step(4)] ih(3) token_uncached [OF step(3)] by simp
    moreover have "record_ok d off"
      using step(1) utf8 by (auto simp: record_ok_def validateUTF8_strings)
    moreover have "record_ok ?d = record_ok d" by (rule record_ok_uncached [OF step(3)])
    ultimately show ?thesis using ih eq by auto
  qed
qed

lemma VerifyDataSection_sound:
  assumes "cache_ok (dataDecoder d)" and "VerifyDataSection d offs = Inr d'"
  shows "(\<forall>x \<in> offs. record_ok d x) \<and> values_at (dataDecoder d) (card offs) 0 (glen (buffer (dataDecoder d)))"
proof -
  obtain left where r: "verifyRecords d (glen (buffer (dataDecoder d))) 0 offs = Inr (glen (buffer (dataDecoder d)), left, d')"
    and left: "card left = 0"
    using assms(2) by (auto simp: VerifyDataSection_def Let_def bindE_eq_Inr split: if_splits)
  have "finite left" by simp
  then have "left = {}" using left by simp
  with verifyRecords_sound [OF assms(1) r] show ?thesis by simp
qed

section \<open>Decoding a record into an any\<close>

lemma decodeAny_value:
  "decodeAny d off cur 0 = bindE (decodeValue d off AnyT cur 0) (\<lambda>(v, _, d). Inr (v, d))"
  by (simp add: decodeAny_eq decodeValue.simps [of d off AnyT cur 0] maximumDataStructureDepth_def bindE_assoc split_def)

lemma record_decodes:
  assumes ok: "cache_ok (dataDecoder d)" and b: "budgetRemaining d = 0" and r: "record_ok d off"
  shows "\<exists>v d'. Decode d off AnyT NilV = Inr (v, d') \<and> (\<forall>s \<in> strings_of v. ValidString s)"
proof -
  have same: "dataDecoder (newBudgetedDecoder d) = dataDecoder d" by (simp add: newBudgetedDecoder_def)
  obtain v e d1 where v: "decodeValue (newBudgetedDecoder (uncached d)) off AnyT NilV 0 = Inr (v, e, d1)"
    and s: "\<forall>s \<in> strings_of v. ValidString s"
    using r by (auto simp: record_ok_def)
  have "mirrors same_value (decodeValue (newBudgetedDecoder d) off AnyT NilV 0) (Inr (v, e, d1))"
    using decode_mirrors(1) [of "newBudgetedDecoder d" off AnyT NilV 0] ok v by (simp add: same)
  then obtain b' where "decodeValue (newBudgetedDecoder d) off AnyT NilV 0 = Inr (v, e, b')"
    by (cases "decodeValue (newBudgetedDecoder d) off AnyT NilV 0") auto
  then show ?thesis using s b by (simp add: Decode_def decodeAnyWithBudget_def decodeAny_value)
qed

section \<open>What a verified database guarantees\<close>

lemma opened_decoder:
  assumes "opened r"
  shows "cache_ok (dataDecoder (reader_decoder r))" and "budgetRemaining (reader_decoder r) = 0"
proof -
  obtain fl start md nocache where "openMetadata fl start md nocache = Inr r"
    using assms by (auto simp: opened_def)
  then obtain data where "reader_decoder r = (if nocache then NewWithoutStringCache data else NewReflectionDecoder data)"
    by (auto simp: openMetadata_def setIPv4Start_def Let_def bindE_eq_Inr split: if_splits)
  then show "cache_ok (dataDecoder (reader_decoder r))" and "budgetRemaining (reader_decoder r) = 0"
    by (simp_all add: NewWithoutStringCache_def NewReflectionDecoder_def)
qed

lemma Verify_parts:
  assumes "Verify r = Inr r'"
  obtains offs d where "checkMetadata (metadata r) = Inr ()" and "verifySearchTree r = Inr offs"
    and "VerifyDataSection (reader_decoder r) offs = Inr d" and "r' = r\<lparr>reader_decoder := d\<rparr>"
  using assms by (auto simp: Verify_def verifyMetadata_def verifyDatabase_def bindE_eq_Inr)

lemma checkMetadata_sound:
  assumes "checkMetadata md = Inr ()"
  shows "IPVersion md = 4 \<or> IPVersion md = 6" and "RecordSize md = 24 \<or> RecordSize md = 28 \<or> RecordSize md = 32"
    and "NodeCount md \<noteq> 0"
  using assms by (auto simp: checkMetadata_def testError_def split: if_splits)

lemma Lookup_reader:
  assumes "Found (Lookup r ip)"
  shows "res_reader (Lookup r ip) = Some r"
  using assms by (auto simp: Found_def Lookup_def Let_def zeroResult_def split: if_splits sum.splits prod.splits)

lemma verified_decode:
  assumes o: "opened r" and f: "Found (Lookup r ip)" and ok: "record_ok (reader_decoder r) (Offset (Lookup r ip))"
  shows "\<exists>v rd. Result_Decode (Lookup r ip) AnyT NilV = Inr (v, rd) \<and> (\<forall>s \<in> strings_of v. ValidString s)"
proof -
  have open_buf: "reader_buffer r \<noteq> None" using o openMetadata_Inr(1) by (force simp: opened_def)
  obtain v d where "Decode (reader_decoder r) (Offset (Lookup r ip)) AnyT NilV = Inr (v, d)" "\<forall>s \<in> strings_of v. ValidString s"
    using record_decodes [OF opened_decoder [OF o] ok] by blast
  then show ?thesis
    using f Lookup_reader [OF f] open_buf by (simp add: Result_Decode_def Found_def Offset_def)
qed

text \<open>
  C1. After \<open>Verify\<close> succeeds every lookup gets an answer: for every address of the database's family
  \<open>Lookup\<close> has no error, and decoding its result into an \<open>any\<close> returns a value all of whose strings
  are valid UTF-8, whatever the string cache. The data section is a sequence of values without a gap,
  as many as there are distinct offsets that lookups find.
\<close>

theorem verified_database:
  assumes "opened r" and "Verify r = Inr r'"
  shows "(\<forall>ip. IsValid ip \<and> \<not> (IPVersion (metadata r) = 4 \<and> Is6 ip) \<longrightarrow>
      res_err (Lookup r ip) = None \<and>
      (\<exists>v rd. Result_Decode (Lookup r ip) AnyT NilV = Inr (v, rd) \<and> (\<forall>s \<in> strings_of v. ValidString s))) \<and>
    (let d = dataDecoder (reader_decoder r) in
      values_at d (card {Offset (Lookup r ip) | ip. IsValid ip \<and> \<not> (IPVersion (metadata r) = 4 \<and> Is6 ip) \<and> Found (Lookup r ip)})
        0 (glen (buffer d)))"
proof -
  obtain offs d where md: "checkMetadata (metadata r) = Inr ()" and tree: "verifySearchTree r = Inr offs"
    and data: "VerifyDataSection (reader_decoder r) offs = Inr d"
    using assms(2) by (rule Verify_parts)
  note offsets = verified_offsets [OF assms(1) checkMetadata_sound(1) [OF md] tree]
  note records = VerifyDataSection_sound [OF opened_decoder(1) [OF assms(1)] data]
  have "\<exists>v rd. Result_Decode (Lookup r ip) AnyT NilV = Inr (v, rd) \<and> (\<forall>s \<in> strings_of v. ValidString s)"
    if ip: "IsValid ip \<and> \<not> (IPVersion (metadata r) = 4 \<and> Is6 ip)" for ip
  proof (cases "Found (Lookup r ip)")
    case True
    then have "Offset (Lookup r ip) \<in> offs" using offsets ip by blast
    then show ?thesis using verified_decode [OF assms(1) True] records by blast
  next
    case False
    moreover have "res_err (Lookup r ip) = None" using offsets ip by blast
    ultimately show ?thesis by (simp add: Result_Decode_def Found_def)
  qed
  then show ?thesis using offsets records unfolding Let_def by (metis (no_types, lifting))
qed

text \<open>The sample database with an empty metadata map behind the marker.\<close>

definition verified_file :: bytes where
  "verified_file = sample_file @ [0xE0]"

definition verified_metadata :: Metadata where
  "verified_metadata = (sample_metadata 4)\<lparr>Description := [(ascii ''en'', ascii ''A sample'')], DatabaseType := ascii ''Sample''\<rparr>"

definition verified_sample :: Reader where
  "verified_sample = (sample 4)\<lparr>reader_buffer := Some verified_file, metadata := verified_metadata\<rparr>"

lemma verified_sample_opened: "opened verified_sample"
proof -
  have "openMetadata verified_file 38 verified_metadata True = Inr verified_sample" by code_simp
  then show ?thesis by (auto simp: opened_def)
qed

theorem verified_database_witness:
  "\<exists>v rd. Result_Decode (Lookup verified_sample (V4 0xC0000000)) AnyT NilV = Inr (v, rd) \<and> (\<forall>s \<in> strings_of v. ValidString s)"
proof -
  have "Verify verified_sample = Inr verified_sample" by code_simp
  from verified_database [OF verified_sample_opened this] show ?thesis by (simp add: IsValid_def Is6_def)
qed

end
