(* ===== verification/Strconv.thy ===== *)
theory Strconv
  imports Utf8
begin

text \<open>
  What the code uses of Go's \<open>strconv\<close>: \<open>Unquote\<close> on double-quoted strings, the only ones it is
  applied to, and \<open>ParseUint\<close> in base 10.
\<close>

section \<open>Unquoting\<close>

definition unhex :: "byte \<Rightarrow> nat option" where
  "unhex b =
     (if 48 \<le> b \<and> b \<le> 57 then Some (unat b - 48)
      else if 97 \<le> b \<and> b \<le> 102 then Some (unat b - 87)
      else if 65 \<le> b \<and> b \<le> 70 then Some (unat b - 55) else None)"

definition octal :: "byte \<Rightarrow> nat option" where
  "octal b = (if 48 \<le> b \<and> b \<le> 55 then Some (unat b - 48) else None)"

fun digits :: "(byte \<Rightarrow> nat option) \<Rightarrow> nat \<Rightarrow> bytes \<Rightarrow> nat \<Rightarrow> nat option" where
  "digits d base [] v = Some v"
| "digits d base (b # bs) v = (case d b of None \<Rightarrow> None | Some x \<Rightarrow> digits d base bs (v * base + x))"

definition simpleEscape :: "byte \<Rightarrow> byte option" where
  "simpleEscape c =
     (if c = 97 then Some 7 else if c = 98 then Some 8 else if c = 102 then Some 12 else if c = 110 then Some 10
      else if c = 114 then Some 13 else if c = 116 then Some 9 else if c = 118 then Some 11
      else if c = 92 then Some 92 else if c = 34 then Some 34 else None)"

text \<open>
  \<open>UnquoteChar\<close> with the quote \<open>\"\<close>, as the bytes \<open>Unquote\<close> appends and the rest of the input; \<open>None\<close>
  is a syntax error.
\<close>

definition unquoteEscape :: "byte \<Rightarrow> bytes \<Rightarrow> (bytes \<times> bytes) option" where
  "unquoteEscape e tail =
     (if simpleEscape e \<noteq> None then Some ([the (simpleEscape e)], tail)
      else if e = 120 \<or> e = 117 \<or> e = 85 then
        let n = (if e = 120 then 2 else if e = 117 then 4 else 8) in
        if length tail < n then None
        else
          (case digits unhex 16 (take n tail) 0 of
             None \<Rightarrow> None
           | Some v \<Rightarrow>
               if e = 120 then Some ([word_of_nat v], drop n tail)
               else if ValidRune v then Some (EncodeRune v, drop n tail) else None)
      else if octal e \<noteq> None then
        if length tail < 2 then None
        else
          (case digits octal 8 (e # take 2 tail) 0 of
             None \<Rightarrow> None
           | Some v \<Rightarrow> if v > 255 then None else Some ([word_of_nat v], drop 2 tail))
      else None)"

definition UnquoteChar :: "bytes \<Rightarrow> (bytes \<times> bytes) option" where
  "UnquoteChar s =
     (case s of
        [] \<Rightarrow> None
      | c # rest \<Rightarrow>
          if c = 34 then None
          else if c \<ge> 0x80 then (case DecodeRune s of (r, n) \<Rightarrow> Some (EncodeRune r, drop n s))
          else if c \<noteq> 92 then Some ([c], rest)
          else (case rest of [] \<Rightarrow> None | e # tail \<Rightarrow> unquoteEscape e tail))"

lemma unquoteEscape_progress:
  assumes "unquoteEscape e tail = Some (c, rest)"
  shows "length rest \<le> length tail"
proof -
  have "\<exists>n. rest = drop n tail"
    using assms unfolding unquoteEscape_def Let_def
    by (auto split: if_split_asm option.split_asm intro: exI [of _ 0])
  then show ?thesis by auto
qed

lemma UnquoteChar_progress:
  assumes "UnquoteChar s = Some (c, rest)"
  shows "length rest < length s"
proof (cases s)
  case Nil
  then show ?thesis using assms by (simp add: UnquoteChar_def)
next
  case (Cons b bs)
  note u = assms [unfolded UnquoteChar_def Cons list.case]
  have d: "1 \<le> snd (DecodeRune (b # bs))" using DecodeRune_length [of "b # bs"] by simp
  show ?thesis
  proof (cases "b = 92")
    case True
    then obtain e tail where "bs = e # tail" "unquoteEscape e tail = Some (c, rest)"
      using u by (cases bs) simp_all
    then show ?thesis using unquoteEscape_progress [of e tail c rest] Cons by simp
  next
    case False
    then show ?thesis using u d Cons by (cases "DecodeRune (b # bs)") (auto split: if_split_asm)
  qed
qed

function unquoteLoop :: "bytes \<Rightarrow> (bytes \<times> bytes) option" where
  "unquoteLoop s =
     (if s = [] then None
      else if hd s = 34 then Some ([], tl s)
      else if hd s = 10 then None
      else
        (case UnquoteChar s of
           None \<Rightarrow> None
         | Some (c, rest) \<Rightarrow> map_option (\<lambda>(v, rem). (c @ v, rem)) (unquoteLoop rest)))"
  by pat_completeness auto
termination
  by (relation "measure length") (auto dest: UnquoteChar_progress)

declare unquoteLoop.simps [simp del]

definition Unquote :: "bytes \<Rightarrow> bytes option" where
  "Unquote s =
     (if length s < 2 \<or> hd s \<noteq> 34 then None
      else (case unquoteLoop (tl s) of Some (v, rem) \<Rightarrow> if rem = [] then Some v else None | None \<Rightarrow> None))"

section \<open>Decimal numbers\<close>

definition ParseUint :: "bytes \<Rightarrow> uint option" where
  "ParseUint s =
     (if s = [] then None
      else (case digits (\<lambda>b. if 48 \<le> b \<and> b \<le> 57 then Some (unat b - 48) else None) 10 s 0 of
              None \<Rightarrow> None
            | Some v \<Rightarrow> if int v < 2 ^ 64 then Some (word_of_nat v) else None))"

lemma digits_append:
  "digits d base (xs @ ys) v = (case digits d base xs v of None \<Rightarrow> None | Some w \<Rightarrow> digits d base ys w)"
  by (induction xs arbitrary: v) (auto split: option.split)

lemma digit_byte: "k < 10 \<Longrightarrow> unat (48 + word_of_nat k :: byte) = 48 + k"
  by (simp add: unat_plus_if' unat_of_nat take_bit_nat_eq_self)

lemma digits_decimal:
  "digits (\<lambda>b. if 48 \<le> b \<and> b \<le> 57 then Some (unat b - 48) else None) 10 (ascii (decimal n)) 0 = Some n"
proof (induction n rule: decimal.induct)
  case (1 n)
  have d: "k < 10 \<Longrightarrow> digits (\<lambda>b. if 48 \<le> b \<and> b \<le> 57 then Some (unat b - 48) else None) 10 (ascii [char_of (48 + k)]) v =
      Some (v * 10 + k)" for k v
    by (simp add: ascii_def word_le_nat_alt digit_byte)
  show ?case
  proof (cases "n < 10")
    case True
    then show ?thesis using d [of n 0] by (simp add: decimal.simps)
  next
    case False
    have "ascii (decimal n) = ascii (decimal (n div 10)) @ ascii [char_of (48 + n mod 10)]"
      using False by (simp add: decimal.simps [of n] ascii_def)
    then show ?thesis using "1.IH" [OF False] d [of "n mod 10" "n div 10"] by (simp add: digits_append)
  qed
qed

lemma ParseUint_decimal: "ParseUint (ascii (decimal (unat n))) = Some n"
proof -
  have "ascii (decimal (unat n)) \<noteq> []" by (simp add: ascii_def decimal.simps [of "unat n"])
  moreover have "int (unat n) < 2 ^ 64" using unat_less_2_64 [of n] unfolding of_nat_less_iff [of "unat n", where 'a = int, symmetric] by simp
  ultimately show ?thesis by (simp add: ParseUint_def digits_decimal)
qed

lemma decimal_digits: "b \<in> set (ascii (decimal n)) \<Longrightarrow> 48 \<le> b \<and> b \<le> 57"
proof (induction n rule: decimal.induct)
  case (1 n)
  have k: "48 \<le> (word_of_nat (of_char (char_of (48 + k :: nat) :: char)) :: byte) \<and>
      (word_of_nat (of_char (char_of (48 + k) :: char)) :: byte) \<le> 57" if "k < 10" for k
    using that by (simp add: word_le_nat_alt digit_byte)
  show ?case using 1 k by (subst (asm) decimal.simps) (auto simp: ascii_def split: if_splits)
qed

end
