(* ===== verification/Tag.thy ===== *)
theory Tag
  imports Strconv Destinations
begin

text \<open>
  Struct tags: the parser of their values (\<open>internal/maxminddbtag/tag.go\<close>), how the reflection decoder
  (\<open>internal/decoder/reflection.go\<close>) and the code generator (\<open>maxminddb-gen/generate.go\<close>) find and check
  the tag of a field. The tables of the package \<open>unicode\<close> are a parameter; \<open>strconv\<close> and \<open>utf8\<close> are
  those of \<open>Strconv\<close> and \<open>Utf8\<close>. Errors are values of \<open>tag_error\<close> with the arguments of their texts.
\<close>

record unicode =
  IsLetter :: "nat \<Rightarrow> bool"
  IsNumber :: "nat \<Rightarrow> bool"
  ToLower :: "gostring \<Rightarrow> gostring"

datatype tag_error =
    MustBeValidUTF8
  | NameMustBeQuoted gostring
  | ExpectingComma byte
  | TrailingComma
  | UnnecessarilyQuoted gostring gostring
  | DuplicateOption gostring
  | MissingColon gostring
  | MissingOptionValue gostring
  | InvalidMaxSize gostring
  | MisspelledMaxSize gostring
  | InvalidOptionValue gostring tag_error
  | MissingValue
  | InvalidSingleQuoted gostring
  | NotTerminated
  | UnexpectedEOF
  | InvalidStart nat

definition IndexByte :: "bytes \<Rightarrow> byte \<Rightarrow> nat option" where
  "IndexByte s b = (let n = length (takeWhile (\<lambda>c. c \<noteq> b) s) in if n < length s then Some n else None)"

section \<open>Options\<close>

definition isLetterOrDigit :: "unicode \<Rightarrow> nat \<Rightarrow> bool" where
  "isLetterOrDigit u r \<longleftrightarrow> r = 95 \<or> IsLetter u r \<or> IsNumber u r"

definition uptoComma :: "bytes \<Rightarrow> nat" where
  "uptoComma s = (case IndexByte s 44 of None \<Rightarrow> length s | Some n \<Rightarrow> n)"

lemma decode_step:
  assumes "n < length s" and "(r, k) = DecodeRune (drop n s)"
  shows "length s - (n + k) < length s - n"
proof -
  have "1 \<le> k" using DecodeRune_length [of "drop n s"] assms by (cases "DecodeRune (drop n s)") simp
  then show ?thesis using assms(1) by simp
qed

text \<open>
  The loop over a single-quoted string, from the byte after the quote on: it rewrites the string into
  a double-quoted one in \<open>quoted\<close>.
\<close>

function quotedOption :: "bytes \<Rightarrow> bool \<Rightarrow> bytes \<Rightarrow> nat \<Rightarrow> gostring \<times> nat \<times> tag_error option" where
  "quotedOption s escaped quoted n =
     (let i = uptoComma s in
      if n < length s then
        (case DecodeRune (drop n s) of (r, runeLen) \<Rightarrow>
           let rune = take runeLen (drop n s) in
           if escaped then quotedOption s False ((if r = 39 then butlast quoted else quoted) @ rune) (n + runeLen)
           else if r = 92 then quotedOption s True (quoted @ rune) (n + runeLen)
           else if r = 34 then quotedOption s False (quoted @ [92] @ rune) (n + runeLen)
           else if r = 39 then
             (case Unquote (quoted @ [34]) of
                None \<Rightarrow> (take i s, i, Some (InvalidSingleQuoted (take (n + 1) s)))
              | Some v \<Rightarrow> (v, n + 1, None))
           else quotedOption s False (quoted @ rune) (n + runeLen))
      else (take i s, i, Some NotTerminated))"
  by pat_completeness auto
termination
  by (relation "measure (\<lambda>(s, escaped, quoted, n). length s - n)") (simp_all add: decode_step)

declare quotedOption.simps [simp del]

definition consumeOption :: "unicode \<Rightarrow> bytes \<Rightarrow> gostring \<times> nat \<times> tag_error option" where
  "consumeOption u s =
     (let i = uptoComma s; r = fst (DecodeRune s) in
      if r = 95 \<or> IsLetter u r then
        let n = length s - length (TrimLeftFunc (isLetterOrDigit u) s) in (take n s, n, None)
      else if r = 39 then quotedOption s False [34] 1
      else if s = [] then ([], 0, Some UnexpectedEOF)
      else (take i s, i, Some (InvalidStart r)))"

definition consumeUnknownOptionValue :: "unicode \<Rightarrow> bytes \<Rightarrow> nat \<times> tag_error option" where
  "consumeUnknownOptionValue u s =
     (if s = [] then (0, Some MissingValue)
      else if 48 \<le> hd s \<and> hd s \<le> 57 then (length s - length (TrimLeftFunc (IsNumber u) s), None)
      else (case consumeOption u s of (_, n, err) \<Rightarrow> (n, err)))"

section \<open>Parse\<close>

definition maxsize :: gostring where
  "maxsize = ascii ''maxsize''"

text \<open>The value of the option \<open>maxsize\<close>, at the rest of the tag after the name.\<close>

definition maxsizeValue :: "bytes \<Rightarrow> tag_error + uint \<times> bytes" where
  "maxsizeValue tag =
     (if take 1 tag \<noteq> [58] then Inl (MissingColon maxsize)
      else
        let tag = drop 1 tag; n = uptoComma tag; v = take n tag in
        if v = [] then Inl (MissingOptionValue maxsize)
        else
          (case ParseUint v of
             None \<Rightarrow> Inl (InvalidMaxSize v)
           | Some maximum \<Rightarrow> Inr (maximum, drop n tag)))"

text \<open>An option that is not known: its value is passed over.\<close>

definition unknownOption :: "unicode \<Rightarrow> gostring \<Rightarrow> bytes \<Rightarrow> tag_error + bytes" where
  "unknownOption u option tag =
     (if filter (\<lambda>b. b \<noteq> 95) (ToLower u option) = maxsize then Inl (MisspelledMaxSize option)
      else if take 1 tag = [58] then
        let tag = drop 1 tag in
        (case consumeUnknownOptionValue u tag of
           (n, Some err) \<Rightarrow> Inl (InvalidOptionValue option err)
         | (n, None) \<Rightarrow> Inr (drop n tag))
      else Inr tag)"

function parseOptions :: "unicode \<Rightarrow> bytes \<Rightarrow> gostring set \<Rightarrow> Options \<Rightarrow> Options \<times> tag_error option" where
  "parseOptions u tag seen out =
     (if tag = [] then (out, None)
      else if hd tag \<noteq> 44 then (out, Some (ExpectingComma (hd tag)))
      else
        let tag = tl tag in
        if tag = [] then (out, Some TrailingComma)
        else
          (case consumeOption u tag of
             (option, n, Some err) \<Rightarrow> (out, Some err)
           | (option, n, None) \<Rightarrow>
               let rawOption = take n tag; tag = drop n tag in
               if hd rawOption = 39 \<and> TrimLeftFunc (isLetterOrDigit u) option = [] then
                 (out, Some (UnnecessarilyQuoted rawOption option))
               else if option \<in> seen then (out, Some (DuplicateOption rawOption))
               else if option = maxsize then
                 (case maxsizeValue tag of
                    Inl err \<Rightarrow> (out, Some err)
                  | Inr (maximum, tag) \<Rightarrow>
                      parseOptions u tag (insert option seen) (out\<lparr>opt_MaxSize := maximum, opt_HasMaxSize := True\<rparr>))
               else
                 (case unknownOption u option tag of
                    Inl err \<Rightarrow> (out, Some err)
                  | Inr tag \<Rightarrow> parseOptions u tag (insert option seen) out)))"
  by pat_completeness auto
termination
  by (relation "measure (\<lambda>(u, tag, seen, out). length tag)")
    (auto simp: maxsizeValue_def unknownOption_def Let_def split: if_splits option.splits prod.splits)

declare parseOptions.simps [simp del]

text \<open>The name a tag begins with: the options so far, the rest, and whether it was quoted.\<close>

definition parseName :: "unicode \<Rightarrow> bytes \<Rightarrow> Options \<times> bytes \<times> bool \<times> tag_error option" where
  "parseName u tag =
     (if tag \<noteq> [] \<and> hd tag \<noteq> 44 then
        if hd tag = 39 then
          (case consumeOption u tag of
             (name, n, Some err) \<Rightarrow> (zeroOptions, tag, False, Some err)
           | (name, n, None) \<Rightarrow> (zeroOptions\<lparr>opt_Name := name, opt_HasName := True\<rparr>, drop n tag, True, None))
        else
          let n = uptoComma tag in
          (zeroOptions\<lparr>opt_Name := take n tag, opt_HasName := True\<rparr>, drop n tag, False, None)
      else (zeroOptions, tag, False, None))"

definition Parse :: "unicode \<Rightarrow> bytes \<Rightarrow> Options \<times> tag_error option" where
  "Parse u tag =
     (if \<not> ValidString tag then (zeroOptions, Some MustBeValidUTF8)
      else if tag = [45] then (zeroOptions\<lparr>opt_Ignored := True\<rparr>, None)
      else
        (case parseName u tag of
           (out, tag, quotedName, Some err) \<Rightarrow> (out, Some err)
         | (out, tag, quotedName, None) \<Rightarrow>
             if opt_HasName out \<and> opt_Name out = [45] \<and> \<not> quotedName then (out, Some (NameMustBeQuoted (opt_Name out)))
             else parseOptions u tag {} out))"

section \<open>Writing a tag\<close>

text \<open>The tag of given options: the name in single quotes, and the limit.\<close>

definition esc :: "byte \<Rightarrow> bytes" where
  "esc b = (if b = 39 then [92, 39] else if b = 92 then [92, 92] else if b = 10 then [92, 110] else [b])"

definition render :: "Options \<Rightarrow> bytes" where
  "render o1 =
     (if opt_Ignored o1 then [45]
      else (if opt_HasName o1 then [39] @ concat (map esc (opt_Name o1)) @ [39] else []) @
        (if opt_HasMaxSize o1 then [44] @ maxsize @ [58] @ ascii (decimal (unat (opt_MaxSize o1))) else []))"

text \<open>Options that a tag can give.\<close>

definition proper :: "Options \<Rightarrow> bool" where
  "proper o1 \<longleftrightarrow>
     ValidString (opt_Name o1) \<and> (\<not> opt_HasName o1 \<longrightarrow> opt_Name o1 = []) \<and> (\<not> opt_HasMaxSize o1 \<longrightarrow> opt_MaxSize o1 = 0) \<and>
     (opt_Ignored o1 \<longrightarrow> \<not> opt_HasName o1 \<and> \<not> opt_HasMaxSize o1)"

text \<open>The documented values of the tables on ASCII.\<close>

definition ascii_tables :: "unicode \<Rightarrow> bool" where
  "ascii_tables u \<longleftrightarrow> (\<forall>r < 128. (IsLetter u r \<longleftrightarrow> 65 \<le> r \<and> r \<le> 90 \<or> 97 \<le> r \<and> r \<le> 122) \<and>
     (IsNumber u r \<longleftrightarrow> 48 \<le> r \<and> r \<le> 57))"

text \<open>What the loop over a quoted string makes of an escaped byte.\<close>

definition requote :: "byte \<Rightarrow> bytes" where
  "requote b = (if b = 92 then [92, 92] else if b = 10 then [92, 110] else if b = 34 then [92, 34] else [b])"

lemma DecodeRune_ascii: "b < 0x80 \<Longrightarrow> DecodeRune (b # s) = (unat b, 1)"
  by simp

lemma high_bytes:
  assumes "\<forall>b \<in> set c. 0x80 \<le> (b :: byte)"
  shows "concat (map esc c) = c" and "concat (map requote c) = c"
  using assms by (induction c) (auto simp: esc_def requote_def word_le_nat_alt)

lemma quoted_step:
  assumes "b < 0x80" and "n < length s" and "drop n s = b # t"
  shows "quotedOption s True q n = quotedOption s False ((if b = 39 then butlast q else q) @ [b]) (Suc n)"
    and "b = 92 \<Longrightarrow> quotedOption s False q n = quotedOption s True (q @ [b]) (Suc n)"
    and "b = 34 \<Longrightarrow> quotedOption s False q n = quotedOption s False (q @ [92, b]) (Suc n)"
    and "b \<noteq> 92 \<Longrightarrow> b \<noteq> 34 \<Longrightarrow> b \<noteq> 39 \<Longrightarrow> quotedOption s False q n = quotedOption s False (q @ [b]) (Suc n)"
    and "b = 39 \<Longrightarrow> Unquote (q @ [34]) = Some v \<Longrightarrow> quotedOption s False q n = (v, Suc n, None)"
  using assms
  by (subst quotedOption.simps, simp add: Let_def word_unat_eq_iff)+

lemma quoted_byte:
  assumes "b < 0x80"
  shows "quotedOption (pre @ esc b @ rest) False q (length pre) =
    quotedOption (pre @ esc b @ rest) False (q @ requote b) (length pre + length (esc b))"
proof -
  let ?s = "pre @ esc b @ rest"
  consider "b = 39" | "b = 92" | "b = 10" | "b = 34" | "b \<notin> {39, 92, 10, 34}" by blast
  then show ?thesis
  proof cases
    case 1
    then show ?thesis
      using quoted_step(2) [of 92 "length pre" ?s "39 # rest" q] quoted_step(1) [of 39 "Suc (length pre)" ?s rest "q @ [92]"]
      by (simp add: esc_def requote_def)
  next
    case 2
    then show ?thesis
      using quoted_step(2) [of 92 "length pre" ?s "92 # rest" q] quoted_step(1) [of 92 "Suc (length pre)" ?s rest "q @ [92]"]
      by (simp add: esc_def requote_def)
  next
    case 3
    then show ?thesis
      using quoted_step(2) [of 92 "length pre" ?s "110 # rest" q] quoted_step(1) [of 110 "Suc (length pre)" ?s rest "q @ [92]"]
      by (simp add: esc_def requote_def)
  next
    case 4
    then show ?thesis
      using quoted_step(3) [of 34 "length pre" ?s rest q] by (simp add: esc_def requote_def)
  next
    case 5
    then show ?thesis
      using quoted_step(4) [of b "length pre" ?s rest q] assms by (simp add: esc_def requote_def)
  qed
qed

lemma quoted_high:
  assumes c: "chunk c r" and r: "0x80 \<le> r"
  shows "quotedOption (pre @ c @ rest) False q (length pre) = quotedOption (pre @ c @ rest) False (q @ c) (length pre + length c)"
proof -
  have "c \<noteq> []" "DecodeRune (c @ rest) = (r, length c)" using c by (auto simp: chunk_def)
  then show ?thesis using r by (subst quotedOption.simps) (simp add: Let_def)
qed

lemma quoted_run:
  assumes "ValidString name"
  shows "quotedOption (pre @ concat (map esc name) @ rest) False q (length pre) =
    quotedOption (pre @ concat (map esc name) @ rest) False (q @ concat (map requote name)) (length pre + length (concat (map esc name)))"
  using assms
proof (induction name arbitrary: pre q rule: ValidString_induct)
  case empty
  then show ?case by simp
next
  case (rune c r s)
  have ih: "quotedOption ((pre @ concat (map esc c)) @ concat (map esc s) @ rest) False (q @ concat (map requote c)) (length pre + length (concat (map esc c))) =
    quotedOption ((pre @ concat (map esc c)) @ concat (map esc s) @ rest) False (q @ concat (map requote c) @ concat (map requote s))
      (length pre + length (concat (map esc c)) + length (concat (map esc s)))"
    using rune.IH [of "pre @ concat (map esc c)" "q @ concat (map requote c)"] by simp
  have "quotedOption (pre @ concat (map esc c) @ t) False q (length pre) =
    quotedOption (pre @ concat (map esc c) @ t) False (q @ concat (map requote c)) (length pre + length (concat (map esc c)))" for t
    using rune.hyps(1) quoted_byte [of _ pre t q] quoted_high [OF rune.hyps(1), of pre t q] high_bytes [of c]
    by (auto simp: chunk_def)
  from this [of "concat (map esc s) @ rest"] ih show ?case by (simp add: add.assoc)
qed

lemma unquote_byte:
  assumes "b < 0x80"
  shows "unquoteLoop (requote b @ rest) = map_option (\<lambda>(v, rem). (b # v, rem)) (unquoteLoop rest)"
proof -
  have "\<not> 0x80 \<le> b" using assms by simp
  then show ?thesis
    by (cases "b = 92"; cases "b = 10"; cases "b = 34"; subst unquoteLoop.simps)
      (simp_all add: requote_def UnquoteChar_def unquoteEscape_def simpleEscape_def)
qed

lemma unquote_high:
  assumes "chunk c r" and "0x80 \<le> r"
  shows "unquoteLoop (c @ rest) = map_option (\<lambda>(v, rem). (c @ v, rem)) (unquoteLoop rest)"
proof -
  obtain b t where c: "c = b # t" using assms(1) by (cases c) (auto simp: chunk_def)
  have b: "0x80 \<le> b" using assms c by (auto simp: chunk_def word_less_nat_alt)
  have "b \<noteq> 34" "b \<noteq> 10" using b by auto
  moreover have "DecodeRune (b # t @ rest) = (r, length c)" "EncodeRune r = c" using assms(1) c by (auto simp: chunk_def)
  ultimately show ?thesis using b c by (subst unquoteLoop.simps) (simp add: UnquoteChar_def)
qed

lemma unquote_run: "ValidString name \<Longrightarrow> unquoteLoop (concat (map requote name) @ [34]) = Some (name, [])"
proof (induction name rule: ValidString_induct)
  case empty
  then show ?case by (subst unquoteLoop.simps) simp
next
  case (rune c r s)
  have "unquoteLoop (concat (map requote c) @ t) = map_option (\<lambda>(v, rem). (c @ v, rem)) (unquoteLoop t)" for t
    using rune.hyps(1) unquote_byte [of _ t] unquote_high [OF rune.hyps(1), of t] high_bytes [of c] by (auto simp: chunk_def)
  then show ?case using rune.IH by simp
qed

lemma consume_quoted:
  assumes "ValidString name"
  shows "consumeOption u ([39] @ concat (map esc name) @ [39] @ rest) =
    (if IsLetter u 39 then consumeOption u ([39] @ concat (map esc name) @ [39] @ rest)
     else (name, length (concat (map esc name)) + 2, None))"
proof -
  let ?e = "concat (map esc name)" and ?s = "[39] @ concat (map esc name) @ [39] @ rest"
  have "quotedOption ?s False [34] 1 = quotedOption ?s False ([34] @ concat (map requote name)) (1 + length ?e)"
    using quoted_run [OF assms, of "[39]" "39 # rest" "[34]"] by simp
  also have "\<dots> = (name, length ?e + 2, None)"
    using quoted_step(5) [of 39 "1 + length ?e" ?s rest "[34] @ concat (map requote name)" name] unquote_run [OF assms]
    by (simp add: Unquote_def)
  finally show ?thesis by (simp add: consumeOption_def Let_def)
qed

lemma ValidString_append: "ValidString xs \<Longrightarrow> ValidString (xs @ ys) = ValidString ys"
  by (induction xs rule: ValidString_induct) (simp_all add: chunk_def)

lemma ValidString_ascii: "\<forall>b \<in> set xs. b < 0x80 \<Longrightarrow> ValidString xs"
  by (induction xs) simp_all

lemma ValidString_esc: "ValidString s \<Longrightarrow> ValidString (concat (map esc s))"
proof (induction s rule: ValidString_induct)
  case empty
  then show ?case by simp
next
  case (rune c r s)
  have "ValidString c" using rune.hyps(1) by (auto simp: chunk_def dest: spec [of _ "[]"])
  then have "ValidString (concat (map esc c))"
    using rune.hyps(1) high_bytes [of c] by (auto simp: chunk_def esc_def)
  then show ?case using rune.IH by (simp add: ValidString_append)
qed

lemma TrimLeft_stop: "b < 0x80 \<Longrightarrow> \<not> f (unat b) \<Longrightarrow> TrimLeftFunc f (b # s) = b # s"
  by (subst TrimLeftFunc.simps) (simp add: DecodeRune_ascii del: DecodeRune.simps)

lemma TrimLeft_skip: "b < 0x80 \<Longrightarrow> f (unat b) \<Longrightarrow> TrimLeftFunc f (b # s) = TrimLeftFunc f s"
  by (subst TrimLeftFunc.simps) (simp add: DecodeRune_ascii del: DecodeRune.simps)

lemma maxsize_bytes: "maxsize = [109, 97, 120, 115, 105, 122, 101]"
  by (simp add: maxsize_def ascii_def)

lemma consume_maxsize:
  assumes "ascii_tables u"
  shows "consumeOption u (maxsize @ 58 # rest) = (maxsize, 7, None)"
proof -
  have l: "isLetterOrDigit u r \<longleftrightarrow> r = 95 \<or> 65 \<le> r \<and> r \<le> 90 \<or> 97 \<le> r \<and> r \<le> 122 \<or> 48 \<le> r \<and> r \<le> 57" if "r < 128" for r
    using assms that by (auto simp: ascii_tables_def isLetterOrDigit_def)
  have "TrimLeftFunc (isLetterOrDigit u) (maxsize @ 58 # rest) = 58 # rest"
    by (simp add: maxsize_bytes TrimLeft_skip TrimLeft_stop l)
  moreover have "IsLetter u 109" using assms by (simp add: ascii_tables_def)
  ultimately show ?thesis by (simp add: consumeOption_def Let_def maxsize_bytes)
qed

lemma uptoComma_digits: "uptoComma (ascii (decimal n)) = length (ascii (decimal n))"
proof -
  have "takeWhile (\<lambda>c. c \<noteq> 44) (ascii (decimal n)) = ascii (decimal n)"
    using decimal_digits [of 44 n] by (subst takeWhile_eq_all_conv) (auto simp: word_le_nat_alt)
  then show ?thesis by (simp only: uptoComma_def IndexByte_def Let_def less_irrefl if_False option.case)
qed

lemma parse_limit:
  assumes "ascii_tables u"
  shows "parseOptions u ([44] @ maxsize @ [58] @ ascii (decimal (unat m))) {} out =
    (out\<lparr>opt_MaxSize := m, opt_HasMaxSize := True\<rparr>, None)"
proof -
  let ?d = "ascii (decimal (unat m))"
  have d: "?d \<noteq> []" by (simp add: ascii_def decimal.simps [of "unat m"])
  have "maxsizeValue (58 # ?d) = Inr (m, [])"
    using d by (simp add: maxsizeValue_def Let_def uptoComma_digits ParseUint_decimal)
  moreover have "parseOptions u [] {maxsize} out' = (out', None)" for out' by (subst parseOptions.simps) simp
  ultimately show ?thesis
    using consume_maxsize [OF assms, of ?d] by (subst parseOptions.simps) (simp add: maxsize_bytes)
qed

text \<open>
  C14. Every name and limit can be written as a struct tag: \<open>Parse\<close> gives back the options a tag was
  rendered from, whatever bytes of valid UTF-8 the name has (commas, quotes and backslashes
  included), for every Unicode table with the documented ASCII part.
\<close>

theorem Parse_render:
  assumes "ascii_tables u" and "proper o1"
  shows "Parse u (render o1) = (o1, None)"
proof (cases "opt_Ignored o1")
  case True
  then have "o1 = zeroOptions\<lparr>opt_Ignored := True\<rparr>" using assms(2) by (cases o1) (simp add: proper_def zeroOptions_def)
  then show ?thesis by (simp add: render_def Parse_def zeroOptions_def)
next
  case False
  let ?n = "concat (map esc (opt_Name o1))"
  define tail where "tail = (if opt_HasMaxSize o1 then [44] @ maxsize @ [58] @ ascii (decimal (unat (opt_MaxSize o1))) else [])"
  have render: "render o1 = (if opt_HasName o1 then [39] @ ?n @ [39] @ tail else tail)"
    using False by (simp add: render_def tail_def)
  have "b < 0x80" if "b \<in> set (ascii (decimal (unat (opt_MaxSize o1))))" for b
    using decimal_digits [OF that] by (simp add: word_le_nat_alt word_less_nat_alt)
  then have "\<forall>b \<in> set tail. b < 0x80" by (auto simp: tail_def maxsize_bytes)
  then have vt: "ValidString tail" by (rule ValidString_ascii)
  have vn: "ValidString (opt_Name o1)" using assms(2) by (simp add: proper_def)
  have valid: "ValidString (render o1)"
    using vt ValidString_append [OF ValidString_esc [OF vn]] by (simp add: render)
  have start: "render o1 \<noteq> [45]" by (auto simp: render tail_def)
  have options: "parseOptions u tail {} out =
      (if opt_HasMaxSize o1 then out\<lparr>opt_MaxSize := opt_MaxSize o1, opt_HasMaxSize := True\<rparr> else out, None)" for out
    using parse_limit [OF assms(1)] by (simp add: tail_def) (subst parseOptions.simps, simp)
  have q: "\<not> IsLetter u 39" using assms(1) by (simp add: ascii_tables_def)
  have "parseName u (render o1) =
      (if opt_HasName o1 then (zeroOptions\<lparr>opt_Name := opt_Name o1, opt_HasName := True\<rparr>, tail, True, None)
       else (zeroOptions, tail, False, None))"
    using consume_quoted [OF vn, of u tail] q by (auto simp: parseName_def render tail_def)
  then show ?thesis
    using valid start assms(2) False
    by (cases o1) (auto simp: Parse_def options proper_def zeroOptions_def)
qed

text \<open>Tables for ASCII alone.\<close>

definition ascii_unicode :: unicode where
  "ascii_unicode = \<lparr>IsLetter = (\<lambda>r. 65 \<le> r \<and> r \<le> 90 \<or> 97 \<le> r \<and> r \<le> 122), IsNumber = (\<lambda>r. 48 \<le> r \<and> r \<le> 57),
     ToLower = map (\<lambda>b. if 65 \<le> b \<and> b \<le> 90 then b + 32 else b)\<rparr>"

theorem Parse_render_witness:
  "Parse ascii_unicode (ascii [CHR 0x27, CHR ''a'', CHR '','', CHR 0x5C, CHR 0x27, CHR 0x27] @ ascii '',maxsize:32'') =
     (zeroOptions\<lparr>opt_Name := ascii [CHR ''a'', CHR '','', CHR 0x27], opt_HasName := True, opt_MaxSize := 32, opt_HasMaxSize := True\<rparr>, None)"
proof -
  let ?o = "zeroOptions\<lparr>opt_Name := ascii [CHR ''a'', CHR '','', CHR 0x27], opt_HasName := True, opt_MaxSize := 32, opt_HasMaxSize := True\<rparr>"
  have "ascii_tables ascii_unicode" by (simp add: ascii_tables_def ascii_unicode_def)
  moreover have "proper ?o" by code_simp
  ultimately have "Parse ascii_unicode (render ?o) = (?o, None)" by (rule Parse_render)
  moreover have "render ?o = ascii [CHR 0x27, CHR ''a'', CHR '','', CHR 0x5C, CHR 0x27, CHR 0x27] @ ascii '',maxsize:32''"
    by code_simp
  ultimately show ?thesis by simp
qed

lemma uptoComma_plain: "44 \<notin> set s \<Longrightarrow> uptoComma s = length s"
proof -
  assume "44 \<notin> set s"
  then have "takeWhile (\<lambda>c. c \<noteq> 44) s = s" by (auto simp: takeWhile_eq_all_conv)
  then show ?thesis by (simp only: uptoComma_def IndexByte_def Let_def less_irrefl if_False option.case)
qed

text \<open>A tag without options is its name, as it stands.\<close>

lemma Parse_plain:
  assumes "ValidString name" and "name \<noteq> []" and "name \<noteq> [45]" and "44 \<notin> set name" and "hd name \<noteq> 39"
  shows "Parse u name = (zeroOptions\<lparr>opt_Name := name, opt_HasName := True\<rparr>, None)"
proof -
  have "hd name \<noteq> 44" using assms(2,4) by (cases name) auto
  then show ?thesis
    using assms uptoComma_plain [OF assms(4)]
    by (simp add: Parse_def parseName_def Let_def zeroOptions_def) (subst parseOptions.simps, simp)
qed

end
