(* ===== verification/TagLookup.thy ===== *)
theory TagLookup
  imports Tag
begin

text \<open>
  Finding the tag of a field in its raw struct tag: \<open>reflect.StructTag.Lookup\<close> with the checks of the
  reflection decoder (\<open>internal/decoder/reflection.go\<close>), and \<open>maxminddbTag\<close> of the code generator
  (\<open>maxminddb-gen/generate.go\<close>), which walks over the raw tag itself.
\<close>

definition tagKey :: bytes where
  "tagKey = ascii ''maxminddb''"

section \<open>The walk over a raw tag\<close>

text \<open>The end of a name, and the index of the closing quote of a value from the byte \<open>i\<close> on.\<close>

definition nameByte :: "byte \<Rightarrow> bool" where
  "nameByte b \<longleftrightarrow> b > 32 \<and> b \<noteq> 58 \<and> b \<noteq> 34 \<and> b \<noteq> 0x7F"

fun closingQuote :: "bytes \<Rightarrow> nat \<Rightarrow> nat" where
  "closingQuote [] i = i"
| "closingQuote (b # bs) i =
     (if b = 34 then i
      else if b = 92 then (case bs of [] \<Rightarrow> i + 2 | _ # rest \<Rightarrow> closingQuote rest (i + 2))
      else closingQuote bs (i + 1))"

text \<open>The pair a raw tag begins with: no more pairs, no pair here, an unterminated value, or a pair.\<close>

datatype tag_pair =
    NoPair
  | Malformed bytes bytes
  | Unterminated bytes
  | Pair bytes bytes bytes

definition nextPair :: "bytes \<Rightarrow> tag_pair" where
  "nextPair raw =
     (let raw = dropWhile (\<lambda>b. b = 32) raw; i = length (takeWhile nameByte raw) in
      if raw = [] then NoPair
      else if i = 0 \<or> i + 1 \<ge> length raw \<or> raw ! i \<noteq> 58 \<or> raw ! (i + 1) \<noteq> 34 then Malformed (take i raw) raw
      else
        let name = take i raw; raw = drop (i + 1) raw; i = closingQuote (tl raw) 1 in
        if i \<ge> length raw then Unterminated name
        else Pair name (take (i + 1) raw) (drop (i + 1) raw))"

lemma nextPair_progress: "nextPair raw = Pair name quotedValue rest \<Longrightarrow> length rest < length raw"
  "nextPair raw = Malformed name rest \<Longrightarrow> length rest \<le> length raw \<and> rest \<noteq> []"
  using length_dropWhile_le [of "\<lambda>b. b = 32" raw]
  by (auto simp: nextPair_def Let_def split: if_split_asm)

lemma IndexByte_less: "IndexByte s b = Some n \<Longrightarrow> n < length s"
  by (auto simp: IndexByte_def Let_def split: if_splits)

lemma malformed_progress:
  assumes "nextPair raw = Malformed name rest" and "IndexByte rest b = Some n"
  shows "length rest - Suc n < length raw"
  using nextPair_progress(2) [OF assms(1)] IndexByte_less [OF assms(2)] by linarith

text \<open>\<open>reflect.StructTag.Lookup\<close>.\<close>

function Lookup_tag :: "bytes \<Rightarrow> bytes \<Rightarrow> bytes option" where
  "Lookup_tag key raw =
     (case nextPair raw of
        Pair name quotedValue rest \<Rightarrow> if name = key then Unquote quotedValue else Lookup_tag key rest
      | _ \<Rightarrow> None)"
  by pat_completeness auto
termination
  by (relation "measure (\<lambda>(key, raw). length raw)") (auto dest: nextPair_progress)

declare Lookup_tag.simps [simp del]

section \<open>The reflection decoder\<close>

text \<open>\<open>strings.Index\<close>.\<close>

fun Index :: "bytes \<Rightarrow> bytes \<Rightarrow> nat option" where
  "Index [] sep = (if sep = [] then Some 0 else None)"
| "Index (b # bs) sep =
     (if take (length sep) (b # bs) = sep then Some 0 else map_option Suc (Index bs sep))"

definition validateTag :: "unicode \<Rightarrow> bytes \<Rightarrow> tag_error option" where
  "validateTag u tag =
     (if tag = [] \<or> tag = [45] then None
      else
        (case snd (Parse u tag) of
           None \<Rightarrow> None
         | Some err \<Rightarrow> if \<not> ValidString tag then Some MustBeValidUTF8 else Some err))"

definition validateRawMaxMindDBTagValue :: "bytes \<Rightarrow> tag_error option" where
  "validateRawMaxMindDBTagValue rawTag =
     (let key = tagKey @ [58, 34] in
      case Index rawTag key of
        None \<Rightarrow> None
      | Some start \<Rightarrow>
          let rest = drop (start + length key) rawTag in
          (case IndexByte rest 34 of
             None \<Rightarrow> None
           | Some stop \<Rightarrow> if \<not> ValidString (take stop rest) then Some MustBeValidUTF8 else None))"

text \<open>
  The part of \<open>makeStructFields\<close> that reads the tag of a field: the options, if there is a tag, and the
  first error, where none has been found before.
\<close>

definition readFieldTag :: "unicode \<Rightarrow> bytes \<Rightarrow> Options option \<times> tag_error option" where
  "readFieldTag u raw =
     (let err = validateRawMaxMindDBTagValue raw in
      case Lookup_tag tagKey raw of
        None \<Rightarrow> (None, err)
      | Some tag \<Rightarrow>
          let err = (if err = None then validateTag u tag else err) in
          (case Parse u tag of
             (tagOptions, parseErr) \<Rightarrow> (Some tagOptions, if err = None then parseErr else err)))"

section \<open>The code generator\<close>

datatype raw_error =
    MalformedTag
  | UnterminatedTag
  | InvalidUTF8Tag
  | InvalidTagQuote
  | InvalidTag tag_error

function maxminddbTag :: "unicode \<Rightarrow> bytes \<Rightarrow> raw_error + Options \<times> bool" where
  "maxminddbTag u raw =
     (case nextPair raw of
        NoPair \<Rightarrow> Inr (zeroOptions, False)
      | Malformed name rest \<Rightarrow>
          if name = tagKey then Inl MalformedTag
          else (case IndexByte rest 32 of None \<Rightarrow> Inr (zeroOptions, False) | Some n \<Rightarrow> maxminddbTag u (drop (n + 1) rest))
      | Unterminated name \<Rightarrow> if name = tagKey then Inl UnterminatedTag else Inr (zeroOptions, False)
      | Pair name quotedValue rest \<Rightarrow>
          if name \<noteq> tagKey then maxminddbTag u rest
          else if \<not> ValidString quotedValue then Inl InvalidUTF8Tag
          else
            (case Unquote quotedValue of
               None \<Rightarrow> Inl InvalidTagQuote
             | Some v \<Rightarrow>
                 if \<not> ValidString v then Inl InvalidUTF8Tag
                 else
                   (case Parse u v of
                      (_, Some err) \<Rightarrow> Inl (InvalidTag err)
                    | (options, None) \<Rightarrow> Inr (options, True))))"
  by pat_completeness auto
termination
  by (relation "measure (\<lambda>(u, raw). length raw)") (auto dest: nextPair_progress malformed_progress)

declare maxminddbTag.simps [simp del]

section \<open>Both read the same tag\<close>

lemma validateTag_Parse: "validateTag u tag = None \<longleftrightarrow> snd (Parse u tag) = None"
proof -
  have "snd (Parse u []) = None" by (simp add: Parse_def parseName_def zeroOptions_def) (subst parseOptions.simps, simp)
  moreover have "snd (Parse u [45]) = None" by (simp add: Parse_def)
  ultimately show ?thesis by (auto simp: validateTag_def split: option.split)
qed

lemma generator_tag:
  assumes "maxminddbTag u raw = Inr (options, tagged)"
  shows "(\<forall>tag. Lookup_tag tagKey raw = Some tag \<longrightarrow> tagged \<and> Parse u tag = (options, None) \<and>
      readFieldTag u raw = (Some options, validateRawMaxMindDBTagValue raw)) \<and>
    (\<not> tagged \<longrightarrow> Lookup_tag tagKey raw = None \<and> options = zeroOptions)"
proof -
  have "(\<forall>tag. Lookup_tag tagKey raw = Some tag \<longrightarrow> tagged \<and> Parse u tag = (options, None)) \<and>
    (\<not> tagged \<longrightarrow> Lookup_tag tagKey raw = None \<and> options = zeroOptions)"
    using assms
  proof (induction u raw rule: maxminddbTag.induct)
    case (1 u raw)
    note step = "1.prems" [unfolded maxminddbTag.simps [of u raw]]
    show ?case
    proof (cases "nextPair raw")
      case NoPair
      then show ?thesis using step by (simp add: Lookup_tag.simps)
    next
      case (Malformed name rest)
      show ?thesis
      proof (cases "IndexByte rest 32")
        case None
        then show ?thesis using step Malformed by (simp add: Lookup_tag.simps split: if_splits)
      next
        case (Some n)
        then have "maxminddbTag u (drop (n + 1) rest) = Inr (options, tagged)"
          using step Malformed by (simp split: if_splits)
        with "1.IH"(1) [OF Malformed _ Some] step Malformed show ?thesis
          by (auto simp: Lookup_tag.simps [of _ raw] split: if_splits)
      qed
    next
      case (Unterminated name)
      then show ?thesis using step by (simp add: Lookup_tag.simps split: if_splits)
    next
      case (Pair name quotedValue rest)
      show ?thesis
      proof (cases "name = tagKey")
        case True
        then show ?thesis
          using step Pair by (auto simp: Lookup_tag.simps split: if_splits option.splits prod.splits)
      next
        case False
        then show ?thesis using step Pair "1.IH"(2) [OF Pair] by (simp add: Lookup_tag.simps [of _ raw])
      qed
    qed
  qed
  moreover have "readFieldTag u raw = (Some options, validateRawMaxMindDBTagValue raw)"
    if "Lookup_tag tagKey raw = Some tag" "Parse u tag = (options, None)" for tag
    using that validateTag_Parse [of u tag] by (simp add: readFieldTag_def Let_def)
  ultimately show ?thesis by blast
qed

text \<open>
  C35. Where the generator reads the tag of a field without an error and reflection finds one, they
  have the same options, and reflection reports no error but for bytes it finds elsewhere in the raw
  tag; where the generator finds none reflection finds none.
\<close>

theorem generator_reads_tag:
  assumes "maxminddbTag u raw = Inr (options, tagged)"
  shows "(\<forall>tag. Lookup_tag tagKey raw = Some tag \<longrightarrow> tagged \<and> Parse u tag = (options, None) \<and>
      readFieldTag u raw = (Some options, validateRawMaxMindDBTagValue raw)) \<and>
    (\<not> tagged \<longrightarrow> Lookup_tag tagKey raw = None \<and> options = zeroOptions)"
  by (rule generator_tag [OF assms])

theorem generator_reads_tag_witness:
  "readFieldTag ascii_unicode (ascii [CHR ''j'', CHR '':'', CHR 0x22, CHR 0x22, CHR '' ''] @ tagKey @ [58, 34] @ ascii ''city'' @ [34]) =
     (Some (zeroOptions\<lparr>opt_Name := ascii ''city'', opt_HasName := True\<rparr>), None)"
proof -
  let ?raw = "ascii [CHR ''j'', CHR '':'', CHR 0x22, CHR 0x22, CHR '' ''] @ tagKey @ [58, 34] @ ascii ''city'' @ [34]"
  let ?o = "zeroOptions\<lparr>opt_Name := ascii ''city'', opt_HasName := True\<rparr>"
  have "maxminddbTag ascii_unicode ?raw = Inr (?o, True)" by code_simp
  moreover have "Lookup_tag tagKey ?raw = Some (ascii ''city'')" by code_simp
  moreover have "validateRawMaxMindDBTagValue ?raw = None" by code_simp
  ultimately show ?thesis using generator_reads_tag [of ascii_unicode ?raw ?o True] by simp
qed

text \<open>
  After a malformed pair the generator goes on behind the next space and reflection stops: of the raw
  tag \<open>json maxminddb:"city"\<close> the generator takes the name, and reflection takes the name of the field.
\<close>

lemma malformed_pair_differs:
  "maxminddbTag ascii_unicode (ascii ''json '' @ tagKey @ [58, 34] @ ascii ''city'' @ [34]) =
     Inr (zeroOptions\<lparr>opt_Name := ascii ''city'', opt_HasName := True\<rparr>, True)"
  "readFieldTag ascii_unicode (ascii ''json '' @ tagKey @ [58, 34] @ ascii ''city'' @ [34]) = (None, None)"
  by code_simp+

end
