(* ===== verification/GeneratorTypes.thy ===== *)
theory GeneratorTypes
  imports TagLookup FieldTable
begin

text \<open>
  The analysis of \<open>maxminddb-gen\<close> (\<open>generate.go\<close>): from the struct types of a package to the decode
  plans the generator prints code for. Types are those of \<open>go/types\<close>; a named type is a reference to a
  declaration of the package, so that type graphs may be cyclic. The method sets of \<open>go/types\<close> are a
  parameter of the package.
\<close>

section \<open>Types\<close>

datatype basic =
    BBool | BString | BInt | BInt8 | BInt16 | BInt32 | BInt64
  | BUint | BUint8 | BUint16 | BUint32 | BUint64 | BFloat32 | BFloat64
  | BUintptr | BComplex64 | BComplex128 | BUnsafePointer

datatype gtype =
    TBasic basic
  | TPointer gtype
  | TSlice gtype
  | TMap gtype gtype
  | TNamed gostring
  | TInterface
  | TStruct "gfield list"
  | TOther
and gfield =
  GField (gf_Name: gostring) (gf_Embedded: bool) (gf_Exported: bool) (gf_Type: gtype) (gf_Tag: bytes)

datatype iface = Unmarshaler | CursorUnmarshaler

record typeDeclaration =
  dc_owned :: bool
  dc_typeParams :: nat
  dc_underlying :: gtype

text \<open>
  \<open>Implements\<close> is \<open>types.Implements\<close>; \<open>generatedMethod\<close> tells whether the method of an interface that a
  named type has stands in a generated file.
\<close>

record package =
  decls :: "(gostring \<times> typeDeclaration) list"
  Implements :: "gtype \<Rightarrow> iface \<Rightarrow> bool"
  generatedMethod :: "gostring \<Rightarrow> iface \<Rightarrow> bool"
  tables :: unicode

definition Underlying :: "package \<Rightarrow> gtype \<Rightarrow> gtype" where
  "Underlying P t =
     (case t of
        TNamed n \<Rightarrow> (case map_of (decls P) n of Some d \<Rightarrow> dc_underlying d | None \<Rightarrow> TOther)
      | _ \<Rightarrow> t)"

text \<open>Go's type assertions \<open>t.(*types.Pointer)\<close>, \<open>t.(*types.Basic)\<close> and \<open>t.(*types.Struct)\<close>.\<close>

fun asPointer :: "gtype \<Rightarrow> gtype option" where
  "asPointer (TPointer e) = Some e"
| "asPointer _ = None"

fun asBasic :: "gtype \<Rightarrow> basic option" where
  "asBasic (TBasic b) = Some b"
| "asBasic _ = None"

fun asStruct :: "gtype \<Rightarrow> gfield list option" where
  "asStruct (TStruct fs) = Some fs"
| "asStruct _ = None"

lemma asserted [simp]:
  "asPointer t = Some e \<longleftrightarrow> t = TPointer e"
  "asBasic t = Some b \<longleftrightarrow> t = TBasic b"
  "asStruct t = Some fs \<longleftrightarrow> t = TStruct fs"
  by (cases t; simp)+

lemma not_asserted:
  "asPointer t = None \<longleftrightarrow> (\<nexists>e. t = TPointer e)"
  "asBasic t = None \<longleftrightarrow> (\<nexists>b. t = TBasic b)"
  "asStruct t = None \<longleftrightarrow> (\<nexists>fs. t = TStruct fs)"
  by (cases t; simp)+

definition owned :: "package \<Rightarrow> gostring \<Rightarrow> bool" where
  "owned P n = (case map_of (decls P) n of Some d \<Rightarrow> dc_owned d | None \<Rightarrow> False)"

definition implements :: "package \<Rightarrow> gtype \<Rightarrow> iface \<Rightarrow> bool" where
  "implements P t i =
     (let named = (case asPointer t of Some e \<Rightarrow> e | None \<Rightarrow> t) in
      if (case named of TNamed n \<Rightarrow> owned P n \<and> generatedMethod P n i | _ \<Rightarrow> False) then False
      else if Implements P t i then True
      else if asPointer t \<noteq> None then False
      else Implements P (TPointer t) i)"

section \<open>Plans\<close>

datatype decodeKind =
    decodeBasic | decodeBytes | decodePointer | decodeSlice | decodeMap | decodeStruct
  | decodeUnmarshaler | decodeCursorUnmarshaler

datatype decodePlan =
    PBasic (pl_typ: gtype) basic
  | PBytes (pl_typ: gtype) decodePlan
  | PPointer (pl_typ: gtype) decodePlan
  | PSlice (pl_typ: gtype) decodePlan
  | PMap (pl_typ: gtype) gtype "decodePlan option" decodePlan
  | PStruct (pl_typ: gtype) gostring
  | PUnmarshaler (pl_typ: gtype)
  | PCursorUnmarshaler (pl_typ: gtype)

fun plan_kind :: "decodePlan \<Rightarrow> decodeKind" where
  "plan_kind (PBasic _ _) = decodeBasic"
| "plan_kind (PBytes _ _) = decodeBytes"
| "plan_kind (PPointer _ _) = decodePointer"
| "plan_kind (PSlice _ _) = decodeSlice"
| "plan_kind (PMap _ _ _ _) = decodeMap"
| "plan_kind (PStruct _ _) = decodeStruct"
| "plan_kind (PUnmarshaler _) = decodeUnmarshaler"
| "plan_kind (PCursorUnmarshaler _) = decodeCursorUnmarshaler"

text \<open>The plan of the underlying type as that of a named type; \<open>[]byte\<close> loses its special reading.\<close>

fun retyped :: "gtype \<Rightarrow> decodePlan \<Rightarrow> decodePlan" where
  "retyped t (PBasic _ b) = PBasic t b"
| "retyped t (PBytes _ p) = PSlice t p"
| "retyped t (PPointer _ p) = PPointer t p"
| "retyped t (PSlice _ p) = PSlice t p"
| "retyped t (PMap _ k kp p) = PMap t k kp p"
| "retyped t (PStruct _ n) = PStruct t n"
| "retyped t (PUnmarshaler _) = PUnmarshaler t"
| "retyped t (PCursorUnmarshaler _) = PCursorUnmarshaler t"

datatype gen_error =
    UnsupportedInterface gtype
  | GenericStruct gostring
  | ForeignStruct gostring
  | UnsupportedType gtype
  | UnsupportedBasic basic
  | RecursiveType gostring
  | MapKeyType gtype
  | EmbeddedField gostring
  | FieldTag gostring raw_error
  | FieldConflict gostring gostring
  | FieldError gostring gen_error
  | MaxSizeUnsupported gostring
  | NotAStruct gostring

definition supportedBasic :: "basic \<Rightarrow> gen_error + unit" where
  "supportedBasic b =
     (if b \<in> {BBool, BString, BInt, BInt8, BInt16, BInt32, BInt64, BUint, BUint8, BUint16, BUint32, BUint64,
              BFloat32, BFloat64}
      then Inr () else Inl (UnsupportedBasic b))"

fun maxSizeKindForType :: "package \<Rightarrow> gtype \<Rightarrow> decodeKind option" where
  "maxSizeKindForType P (TPointer t) = maxSizeKindForType P t"
| "maxSizeKindForType P t =
     (case Underlying P t of
        TBasic b \<Rightarrow> if b = BString then Some decodeBasic else None
      | TMap _ _ \<Rightarrow> Some decodeMap
      | TSlice _ \<Rightarrow> if t = TSlice (TBasic BUint8) then Some decodeBytes else Some decodeSlice
      | _ \<Rightarrow> None)"

fun maxSizeKindForPlan :: "package \<Rightarrow> decodePlan \<Rightarrow> decodeKind option" where
  "maxSizeKindForPlan P (PPointer _ p) = maxSizeKindForPlan P p"
| "maxSizeKindForPlan P (PBytes _ _) = Some decodeBytes"
| "maxSizeKindForPlan P (PSlice _ _) = Some decodeSlice"
| "maxSizeKindForPlan P (PMap _ _ _ _) = Some decodeMap"
| "maxSizeKindForPlan P (PBasic _ b) = (if b = BString then Some decodeBasic else None)"
| "maxSizeKindForPlan P (PCursorUnmarshaler t) = maxSizeKindForType P t"
| "maxSizeKindForPlan P (PUnmarshaler t) = maxSizeKindForType P t"
| "maxSizeKindForPlan P (PStruct _ _) = None"

fun isCustomUnmarshalerPlan :: "decodePlan \<Rightarrow> bool" where
  "isCustomUnmarshalerPlan (PPointer _ p) = isCustomUnmarshalerPlan p"
| "isCustomUnmarshalerPlan (PCursorUnmarshaler _) = True"
| "isCustomUnmarshalerPlan (PUnmarshaler _) = True"
| "isCustomUnmarshalerPlan _ = False"

text \<open>The kinds of the set \<open>maxSizeKindExpression\<close> prints; \<open>None\<close> is its panic.\<close>

definition maxSizeKindExpression :: "decodePlan \<Rightarrow> decodeKind \<Rightarrow> Kind list option" where
  "maxSizeKindExpression plan kind =
     (if isCustomUnmarshalerPlan plan then Some [KindMap, KindSlice, KindString, KindBytes]
      else
        case kind of
          decodeBasic \<Rightarrow> Some [KindString]
        | decodeBytes \<Rightarrow> Some [KindBytes, KindSlice]
        | decodeSlice \<Rightarrow> Some [KindSlice]
        | decodeMap \<Rightarrow> Some [KindMap]
        | _ \<Rightarrow> None)"

fun findDecodeBytesPlan :: "decodePlan \<Rightarrow> decodePlan option" where
  "findDecodeBytesPlan (PBytes t p) = Some (PBytes t p)"
| "findDecodeBytesPlan (PPointer _ p) = findDecodeBytesPlan p"
| "findDecodeBytesPlan (PSlice _ p) = findDecodeBytesPlan p"
| "findDecodeBytesPlan (PMap _ _ _ p) = findDecodeBytesPlan p"
| "findDecodeBytesPlan _ = None"

section \<open>The analysis\<close>

record planField =
  pf_plan :: decodePlan
  pf_name :: gostring
  pf_goID :: gostring
  pf_maxSize :: uint
  pf_maxSizeKind :: "decodeKind option"
  pf_hasMaxSize :: bool

record structInfo =
  si_named :: gostring
  si_fields :: "planField list"

type_synonym structs = "(gostring \<times> structInfo) list"

text \<open>Every descent into a named type marks one more declaration.\<close>

definition unmarked :: "package \<Rightarrow> gostring set \<Rightarrow> nat" where
  "unmarked P visiting = card (set (map fst (decls P)) - visiting)"

lemma unmarked_insert: "map_of (decls P) n = Some d \<Longrightarrow> n \<notin> visiting \<Longrightarrow> unmarked P (insert n visiting) < unmarked P visiting"
proof -
  assume d: "map_of (decls P) n = Some d" and n: "n \<notin> visiting"
  from map_of_SomeD [OF d] have "n \<in> set (map fst (decls P))" by force
  with n have "set (map fst (decls P)) - insert n visiting \<subset> set (map fst (decls P)) - visiting" by blast
  then show ?thesis unfolding unmarked_def by (intro psubset_card_mono) simp_all
qed

text \<open>
  The maps \<open>structs\<close> and \<open>visiting\<close> of the generator are passed along: the first returned updated, with
  the newest struct in front, the second restored by its callers' \<open>defer\<close>.
\<close>

function analyzeType :: "package \<Rightarrow> gostring set \<Rightarrow> structs \<Rightarrow> gtype \<Rightarrow> gen_error + decodePlan \<times> structs"
  and analyzeStruct :: "package \<Rightarrow> gostring set \<Rightarrow> structs \<Rightarrow> gostring \<Rightarrow> gen_error + structs"
  and analyzeFields :: "package \<Rightarrow> gostring set \<Rightarrow> structs \<Rightarrow> gfield list \<Rightarrow> gostring set \<Rightarrow> planField list \<Rightarrow>
    gen_error + planField list \<times> structs" where
  "analyzeType P visiting sts t =
     (case asPointer t of
        Some e \<Rightarrow> bindE (analyzeType P visiting sts e) (\<lambda>(elem, sts). Inr (PPointer t elem, sts))
      | None \<Rightarrow>
          if Underlying P t = TInterface then Inl (UnsupportedInterface t)
          else if implements P t CursorUnmarshaler then Inr (PCursorUnmarshaler t, sts)
          else if implements P t Unmarshaler then Inr (PUnmarshaler t, sts)
          else
            (case t of
               TNamed n \<Rightarrow>
                 (case map_of (decls P) n of
                    None \<Rightarrow> Inl (UnsupportedType t)
                  | Some d \<Rightarrow>
                      if asStruct (dc_underlying d) \<noteq> None then
                        if dc_typeParams d \<noteq> 0 then Inl (GenericStruct n)
                        else if \<not> dc_owned d then Inl (ForeignStruct n)
                        else bindE (analyzeStruct P visiting sts n) (\<lambda>sts. Inr (PStruct t n, sts))
                      else
                        (case asBasic (dc_underlying d) of
                           Some b \<Rightarrow> bindE (supportedBasic b) (\<lambda>_. Inr (PBasic t b, sts))
                         | None \<Rightarrow>
                             if n \<in> visiting then Inl (RecursiveType n)
                             else
                               bindE (analyzeType P (insert n visiting) sts (dc_underlying d)) (\<lambda>(plan, sts).
                                 Inr (retyped t plan, sts))))
             | TBasic b \<Rightarrow> bindE (supportedBasic b) (\<lambda>_. Inr (PBasic t b, sts))
             | TSlice e \<Rightarrow>
                 bindE (analyzeType P visiting sts e) (\<lambda>(elem, sts).
                   Inr (if e = TBasic BUint8 then PBytes t elem else PSlice t elem, sts))
             | TMap k e \<Rightarrow>
                 if Underlying P k \<noteq> TBasic BString then Inl (MapKeyType k)
                 else
                   let keyPlan = (if implements P k CursorUnmarshaler then Some (PCursorUnmarshaler k)
                                  else if implements P k Unmarshaler then Some (PUnmarshaler k) else None) in
                   bindE (analyzeType P visiting sts e) (\<lambda>(elem, sts). Inr (PMap t k keyPlan elem, sts))
             | _ \<Rightarrow> Inl (UnsupportedType t)))"
| "analyzeStruct P visiting sts n =
     (case map_of (decls P) n of
        None \<Rightarrow> Inl (NotAStruct n)
      | Some d \<Rightarrow>
          if dc_typeParams d \<noteq> 0 then Inl (GenericStruct n)
          else if map_of sts n \<noteq> None then Inr sts
          else if n \<in> visiting then Inl (RecursiveType n)
          else
            (case asStruct (dc_underlying d) of
               Some fs \<Rightarrow>
                 bindE (analyzeFields P (insert n visiting) sts fs {} []) (\<lambda>(infos, sts).
                   Inr ((n, \<lparr>si_named = n, si_fields = infos\<rparr>) # sts))
             | None \<Rightarrow> Inl (NotAStruct n)))"
| "analyzeFields P visiting sts [] seenNames infos = Inr (infos, sts)"
| "analyzeFields P visiting sts (GField fieldName anonymous exported t raw # fs) seenNames infos =
     (if anonymous then Inl (EmbeddedField fieldName)
      else if \<not> exported then analyzeFields P visiting sts fs seenNames infos
      else
        (case maxminddbTag (tables P) raw of
           Inl err \<Rightarrow> Inl (FieldTag fieldName err)
         | Inr (tag, tagged) \<Rightarrow>
             if opt_Ignored tag then analyzeFields P visiting sts fs seenNames infos
             else
               let name = (if tagged \<and> opt_HasName tag then opt_Name tag else fieldName) in
               if name \<in> seenNames then Inl (FieldConflict fieldName name)
               else
                 bindE (mapErr (FieldError fieldName) (analyzeType P visiting sts t)) (\<lambda>(plan, sts).
                   let kind = maxSizeKindForPlan P plan in
                   if opt_HasMaxSize tag \<and> kind = None then Inl (MaxSizeUnsupported fieldName)
                   else
                     analyzeFields P visiting sts fs (insert name seenNames)
                       (infos @ [\<lparr>pf_plan = plan, pf_name = name, pf_goID = fieldName, pf_maxSize = opt_MaxSize tag,
                                  pf_maxSizeKind = kind, pf_hasMaxSize = opt_HasMaxSize tag\<rparr>]))))"
  by pat_completeness auto

termination
  by (relation "measures [\<lambda>x. case x of Inl (P, visiting, _) \<Rightarrow> unmarked P visiting
                                 | Inr (Inl (P, visiting, _)) \<Rightarrow> unmarked P visiting
                                 | Inr (Inr (P, visiting, _)) \<Rightarrow> unmarked P visiting,
                          \<lambda>x. case x of Inl (_, _, _, t) \<Rightarrow> Suc (size t) | Inr (Inl _) \<Rightarrow> 0
                                 | Inr (Inr (_, _, _, fs, _)) \<Rightarrow> size_list size fs]")
    (auto simp: unmarked_insert)

declare analyzeType.simps [simp del] analyzeStruct.simps [simp del] analyzeFields.simps [simp del]

text \<open>The loop over the targets in \<open>generatePackage\<close>.\<close>

fun analyzeTargets :: "package \<Rightarrow> structs \<Rightarrow> gostring list \<Rightarrow> gen_error + structs" where
  "analyzeTargets P sts [] = Inr sts"
| "analyzeTargets P sts (target # targets) = bindE (analyzeStruct P {} sts target) (\<lambda>sts. analyzeTargets P sts targets)"

end
