(* ===== verification/GeneratorProofs.thy ===== *)
theory GeneratorProofs
  imports GeneratorTypes
begin

text \<open>
  What the analysis of \<open>maxminddb-gen\<close> guarantees: plans describe the types they were made for, struct
  plans only refer to structs analysed before (so that no generated decoder calls itself through a
  cycle), keys are distinct, and limits cover the kinds reflection limits.
\<close>

section \<open>Plans that describe a type\<close>

text \<open>
  What \<open>go/types\<close> documents: the underlying type of a declaration is not a named type, and only named,
  struct and interface types, and pointers to them, have methods.
\<close>

fun may_have_methods :: "gtype \<Rightarrow> bool" where
  "may_have_methods (TPointer t) = (case t of TNamed _ \<Rightarrow> True | TStruct _ \<Rightarrow> True | TInterface \<Rightarrow> True | _ \<Rightarrow> False)"
| "may_have_methods (TNamed _) = True"
| "may_have_methods (TStruct _) = True"
| "may_have_methods TInterface = True"
| "may_have_methods _ = False"

definition go_types :: "package \<Rightarrow> bool" where
  "go_types P \<longleftrightarrow>
     (\<forall>(n, d) \<in> set (decls P). \<forall>m. dc_underlying d \<noteq> TNamed m) \<and>
     (\<forall>t i. Implements P t i \<longrightarrow> may_have_methods t)"

fun describes :: "package \<Rightarrow> gostring set \<Rightarrow> gtype \<Rightarrow> decodePlan \<Rightarrow> bool" where
  "describes P S t (PBasic t' b) \<longleftrightarrow> t' = t \<and> Underlying P t = TBasic b \<and> supportedBasic b = Inr ()"
| "describes P S t (PBytes t' p) \<longleftrightarrow> t' = t \<and> t = TSlice (TBasic BUint8) \<and> describes P S (TBasic BUint8) p"
| "describes P S t (PPointer t' p) \<longleftrightarrow> t' = t \<and> (\<exists>e. Underlying P t = TPointer e \<and> describes P S e p)"
| "describes P S t (PSlice t' p) \<longleftrightarrow>
     t' = t \<and> t \<noteq> TSlice (TBasic BUint8) \<and> (\<exists>e. Underlying P t = TSlice e \<and> describes P S e p)"
| "describes P S t (PMap t' k kp p) \<longleftrightarrow>
     t' = t \<and> Underlying P k = TBasic BString \<and> (\<exists>e. Underlying P t = TMap k e \<and> describes P S e p) \<and>
     kp = (if implements P k CursorUnmarshaler then Some (PCursorUnmarshaler k)
           else if implements P k Unmarshaler then Some (PUnmarshaler k) else None)"
| "describes P S t (PStruct t' n) \<longleftrightarrow> t' = t \<and> t = TNamed n \<and> n \<in> S"
| "describes P S t (PUnmarshaler t') \<longleftrightarrow> t' = t \<and> implements P t Unmarshaler \<and> \<not> implements P t CursorUnmarshaler"
| "describes P S t (PCursorUnmarshaler t') \<longleftrightarrow> t' = t \<and> implements P t CursorUnmarshaler"

lemma describes_mono: "describes P S t p \<Longrightarrow> S \<subseteq> S' \<Longrightarrow> describes P S' t p"
  by (induction P S t p rule: describes.induct) auto

section \<open>Structs\<close>

definition fieldTag :: "package \<Rightarrow> gfield \<Rightarrow> raw_error + Options \<times> bool" where
  "fieldTag P f = maxminddbTag (tables P) (gf_Tag f)"

definition wanted :: "package \<Rightarrow> gfield \<Rightarrow> bool" where
  "wanted P f \<longleftrightarrow> gf_Exported f \<and> (case fieldTag P f of Inr (tag, _) \<Rightarrow> \<not> opt_Ignored tag | Inl _ \<Rightarrow> True)"

definition field_ok :: "package \<Rightarrow> gostring set \<Rightarrow> gfield \<Rightarrow> planField \<Rightarrow> bool" where
  "field_ok P S f info \<longleftrightarrow> (\<exists>tag tagged. fieldTag P f = Inr (tag, tagged) \<and>
     pf_goID info = gf_Name f \<and> pf_name info = (if tagged \<and> opt_HasName tag then opt_Name tag else gf_Name f) \<and>
     describes P S (gf_Type f) (pf_plan info) \<and>
     pf_hasMaxSize info = opt_HasMaxSize tag \<and> pf_maxSize info = opt_MaxSize tag \<and>
     pf_maxSizeKind info = maxSizeKindForPlan P (pf_plan info) \<and> (pf_hasMaxSize info \<longrightarrow> pf_maxSizeKind info \<noteq> None))"

definition fields_ok :: "package \<Rightarrow> gostring set \<Rightarrow> gfield list \<Rightarrow> planField list \<Rightarrow> bool" where
  "fields_ok P S fs infos \<longleftrightarrow>
     (\<forall>f \<in> set fs. \<not> gf_Embedded f) \<and> list_all2 (field_ok P S) (filter (wanted P) fs) infos \<and> distinct (map pf_name infos)"

definition names_of :: "structs \<Rightarrow> gostring set" where
  "names_of sts = fst ` set sts"

lemma names_of_simps [simp]: "names_of [] = {}" "names_of ((n, i) # sts) = insert n (names_of sts)"
  by (simp_all add: names_of_def)

lemma map_of_names: "map_of sts n = None \<longleftrightarrow> n \<notin> names_of sts"
  by (simp add: names_of_def map_of_eq_None_iff)

text \<open>Every struct only refers to structs that stand after it in the list, which were analysed before.\<close>

fun structs_ok :: "package \<Rightarrow> structs \<Rightarrow> bool" where
  "structs_ok P [] \<longleftrightarrow> True"
| "structs_ok P ((n, info) # sts) \<longleftrightarrow>
     n \<notin> names_of sts \<and> si_named info = n \<and>
     (\<exists>d fs. map_of (decls P) n = Some d \<and> dc_typeParams d = 0 \<and> dc_underlying d = TStruct fs \<and>
        fields_ok P (names_of sts) fs (si_fields info)) \<and>
     structs_ok P sts"

definition grown :: "package \<Rightarrow> gostring set \<Rightarrow> structs \<Rightarrow> structs \<Rightarrow> bool" where
  "grown P visiting sts sts' \<longleftrightarrow>
     structs_ok P sts' \<and> names_of sts \<subseteq> names_of sts' \<and> (names_of sts' - names_of sts) \<inter> visiting = {}"

lemma grown_refl: "structs_ok P sts \<Longrightarrow> grown P visiting sts sts"
  by (simp add: grown_def)

lemma grown_trans: "grown P visiting sts sts' \<Longrightarrow> grown P visiting sts' sts'' \<Longrightarrow> grown P visiting sts sts''"
  by (auto simp: grown_def)

lemma grown_weaken: "grown P (insert n visiting) sts sts' \<Longrightarrow> grown P visiting sts sts'"
  by (auto simp: grown_def)

lemma field_ok_mono: "field_ok P S f info \<Longrightarrow> S \<subseteq> S' \<Longrightarrow> field_ok P S' f info"
  unfolding field_ok_def using describes_mono by blast

lemma no_methods:
  assumes "go_types P" and "\<not> may_have_methods t" and "\<not> may_have_methods (TPointer t)"
  shows "\<not> implements P t i"
proof -
  have "\<not> Implements P t i" "\<not> Implements P (TPointer t) i" using assms unfolding go_types_def by blast+
  then show ?thesis by (cases t) (simp_all add: implements_def Let_def)
qed

text \<open>A named type takes over the plan of its underlying type, which has no methods.\<close>

lemma describes_retyped:
  assumes P: "go_types P" and d: "map_of (decls P) n = Some d" and p: "describes P S (dc_underlying d) p"
    and u: "\<nexists>fs. dc_underlying d = TStruct fs" "\<nexists>b. dc_underlying d = TBasic b" "dc_underlying d \<noteq> TInterface"
    and ptr: "\<And>e. dc_underlying d = TPointer e \<Longrightarrow> plan_kind p = decodePointer"
  shows "describes P S (TNamed n) (retyped (TNamed n) p)"
proof -
  have un: "Underlying P (TNamed n) = dc_underlying d" using d by (simp add: Underlying_def)
  have nn: "dc_underlying d \<noteq> TNamed m" for m using P map_of_SomeD [OF d] by (auto simp: go_types_def)
  then have uu: "Underlying P (dc_underlying d) = dc_underlying d" by (simp add: Underlying_def split: gtype.split)
  show ?thesis
  proof (cases "\<exists>e. dc_underlying d = TPointer e")
    case True
    then obtain e where e: "dc_underlying d = TPointer e" by blast
    with ptr obtain t q where "p = PPointer t q" by (cases p) auto
    then show ?thesis using p un e by (simp add: Underlying_def)
  next
    case False
    have "\<not> may_have_methods (dc_underlying d)" "\<not> may_have_methods (TPointer (dc_underlying d))"
      using u nn False by (cases "dc_underlying d"; simp)+
    then have none: "\<not> implements P (dc_underlying d) i" for i by (rule no_methods [OF P])
    show ?thesis
    proof (cases p)
      case (PSlice t q)
      then show ?thesis using p un uu by simp
    next
      case (PBytes t q)
      then show ?thesis using p un by (simp add: Underlying_def)
    next
      case (PMap t k kp q)
      then show ?thesis using p un uu by simp
    qed (use p uu u nn none False in auto)
  qed
qed

lemma Underlying_unnamed: "\<nexists>n. t = TNamed n \<Longrightarrow> Underlying P t = t"
  by (simp add: Underlying_def split: gtype.split)

lemma analyzeType_rejected:
  assumes "analyzeType P visiting sts t = Inr (p, sts')" and "t = TInterface \<or> t = TStruct fs \<or> t = TOther"
  shows "implements P t CursorUnmarshaler \<or> implements P t Unmarshaler"
  using assms by (auto simp: analyzeType.simps [of _ _ _ t] Underlying_unnamed split: if_split_asm)

text \<open>What a successful step of the analysis did, one lemma for each form of type.\<close>

lemma analyzeType_pointer:
  "analyzeType P visiting sts (TPointer e) = Inr (p, sts') \<longleftrightarrow>
     (\<exists>q. analyzeType P visiting sts e = Inr (q, sts') \<and> p = PPointer (TPointer e) q)"
  by (auto simp: analyzeType.simps [of _ _ _ "TPointer e"] bindE_eq_Inr)

lemma analyzeType_custom:
  assumes "analyzeType P visiting sts t = Inr (p, sts')" and "\<nexists>e. t = TPointer e"
    and "implements P t CursorUnmarshaler \<or> implements P t Unmarshaler"
  shows "sts' = sts \<and> describes P S t p"
  using assms(1) [unfolded analyzeType.simps [of _ _ _ t]] assms(2,3) by (cases t) (auto split: if_split_asm)

lemma analyzeType_basic:
  assumes "analyzeType P visiting sts (TBasic b) = Inr (p, sts')"
  shows "sts' = sts \<and> describes P S (TBasic b) p"
  using assms
  by (auto simp: analyzeType.simps [of _ _ _ "TBasic b"] bindE_eq_Inr Underlying_unnamed split: if_split_asm)

lemma analyzeType_slice:
  assumes "analyzeType P visiting sts (TSlice e) = Inr (p, sts')"
    and "\<not> implements P (TSlice e) CursorUnmarshaler" "\<not> implements P (TSlice e) Unmarshaler"
  shows "\<exists>q. analyzeType P visiting sts e = Inr (q, sts') \<and>
    p = (if e = TBasic BUint8 then PBytes (TSlice e) q else PSlice (TSlice e) q)"
  using assms
  by (auto simp: analyzeType.simps [of _ _ _ "TSlice e"] bindE_eq_Inr Underlying_unnamed split: if_split_asm)

lemma analyzeType_map:
  assumes "analyzeType P visiting sts (TMap k e) = Inr (p, sts')"
    and "\<not> implements P (TMap k e) CursorUnmarshaler" "\<not> implements P (TMap k e) Unmarshaler"
  shows "\<exists>q. analyzeType P visiting sts e = Inr (q, sts') \<and> Underlying P k = TBasic BString \<and>
    p = PMap (TMap k e) k
      (if implements P k CursorUnmarshaler then Some (PCursorUnmarshaler k)
       else if implements P k Unmarshaler then Some (PUnmarshaler k) else None) q"
  using assms
  by (auto simp: analyzeType.simps [of _ _ _ "TMap k e"] bindE_eq_Inr Underlying_unnamed Let_def split: if_split_asm)

lemma analyzeType_named:
  assumes "analyzeType P visiting sts (TNamed n) = Inr (p, sts')"
    and "\<not> implements P (TNamed n) CursorUnmarshaler" "\<not> implements P (TNamed n) Unmarshaler"
  obtains d where "map_of (decls P) n = Some d" and "dc_underlying d \<noteq> TInterface"
    and "\<And>fs. dc_underlying d = TStruct fs \<Longrightarrow> dc_typeParams d = 0 \<and> dc_owned d \<and>
      analyzeStruct P visiting sts n = Inr sts' \<and> p = PStruct (TNamed n) n"
    and "\<And>b. dc_underlying d = TBasic b \<Longrightarrow> supportedBasic b = Inr () \<and> sts' = sts \<and> p = PBasic (TNamed n) b"
    and "\<nexists>fs. dc_underlying d = TStruct fs \<Longrightarrow> \<nexists>b. dc_underlying d = TBasic b \<Longrightarrow>
      n \<notin> visiting \<and> (\<exists>q. analyzeType P (insert n visiting) sts (dc_underlying d) = Inr (q, sts') \<and>
        p = retyped (TNamed n) q)"
proof -
  note A = assms(1) [unfolded analyzeType.simps [of _ _ _ "TNamed n"]]
  from A assms(2,3) obtain d where d: "map_of (decls P) n = Some d" and i: "dc_underlying d \<noteq> TInterface"
    by (auto simp: Underlying_def split: if_split_asm option.split_asm)
  note A = A [unfolded d, simplified assms(2,3) Underlying_def d if_False i gtype.case option.case]
  show ?thesis
    using A d i by (intro that [of d]) (auto simp: bindE_eq_Inr split: if_split_asm option.split_asm)
qed

lemma analyzeStruct_Inr:
  assumes "analyzeStruct P visiting sts n = Inr sts'"
  obtains (known) "n \<in> names_of sts" "sts' = sts"
  | (new) d fs infos sts1 where "n \<notin> names_of sts" "n \<notin> visiting"
      "map_of (decls P) n = Some d" "dc_typeParams d = 0" "dc_underlying d = TStruct fs"
      "analyzeFields P (insert n visiting) sts fs {} [] = Inr (infos, sts1)"
      "sts' = (n, \<lparr>si_named = n, si_fields = infos\<rparr>) # sts1"
proof -
  from assms obtain d where d: "map_of (decls P) n = Some d"
    by (auto simp: analyzeStruct.simps split: option.split_asm)
  note A = assms [unfolded analyzeStruct.simps d option.case]
  then have g: "dc_typeParams d = 0" by (simp split: if_split_asm)
  show ?thesis
  proof (cases "n \<in> names_of sts")
    case True
    then have "map_of sts n \<noteq> None" by (simp add: map_of_names)
    with A g show ?thesis by (intro known [OF True]) simp
  next
    case False
    then have k: "map_of sts n = None" by (simp add: map_of_names)
    with A g have v: "n \<notin> visiting" by (simp split: if_split_asm)
    show ?thesis
    proof (cases "dc_underlying d")
      case (TStruct fs)
      with A g k v obtain infos sts1 where "analyzeFields P (insert n visiting) sts fs {} [] = Inr (infos, sts1)"
        "sts' = (n, \<lparr>si_named = n, si_fields = infos\<rparr>) # sts1"
        by (auto simp: bindE_eq_Inr)
      then show ?thesis by (rule new [OF False v d g TStruct])
    qed (use A g k v in simp_all)
  qed
qed

lemma analyzeFields_Cons:
  assumes "analyzeFields P visiting sts (f # fs) seenNames infos = Inr (infos', sts')"
  obtains (skip) "\<not> gf_Embedded f" "\<not> wanted P f" "analyzeFields P visiting sts fs seenNames infos = Inr (infos', sts')"
  | (field) tag tagged plan sts1 name info where "\<not> gf_Embedded f" "wanted P f" "fieldTag P f = Inr (tag, tagged)"
      "name = (if tagged \<and> opt_HasName tag then opt_Name tag else gf_Name f)" "name \<notin> seenNames"
      "analyzeType P visiting sts (gf_Type f) = Inr (plan, sts1)"
      "opt_HasMaxSize tag \<longrightarrow> maxSizeKindForPlan P plan \<noteq> None"
      "info = \<lparr>pf_plan = plan, pf_name = name, pf_goID = gf_Name f, pf_maxSize = opt_MaxSize tag,
                pf_maxSizeKind = maxSizeKindForPlan P plan, pf_hasMaxSize = opt_HasMaxSize tag\<rparr>"
      "analyzeFields P visiting sts1 fs (insert name seenNames) (infos @ [info]) = Inr (infos', sts')"
proof -
  obtain n a x t raw where f: "f = GField n a x t raw" by (cases f)
  note A = assms [unfolded f analyzeFields.simps]
  then have a: "\<not> gf_Embedded f" by (simp add: f split: if_split_asm)
  show ?thesis
  proof (cases "wanted P f")
    case False
    show ?thesis
    proof (rule skip [OF a False])
      show "analyzeFields P visiting sts fs seenNames infos = Inr (infos', sts')"
        using A a False by (auto simp: f wanted_def fieldTag_def split: if_split_asm sum.split_asm)
    qed
  next
    case True
    then obtain tag tagged where t: "fieldTag P f = Inr (tag, tagged)" "\<not> opt_Ignored tag" "x"
      using A a by (auto simp: f wanted_def fieldTag_def split: if_split_asm sum.split_asm)
    define name where "name = (if tagged \<and> opt_HasName tag then opt_Name tag else gf_Name f)"
    have n: "(if tagged \<and> opt_HasName tag then opt_Name tag else n) = name" by (simp add: name_def f)
    note A = A [unfolded t(1) [unfolded fieldTag_def f gfield.sel] sum.case prod.case n Let_def, simplified t(2,3) a [unfolded f gfield.sel], simplified]
    then have s: "name \<notin> seenNames" by (simp split: if_split_asm)
    from A s obtain plan sts1 where p: "analyzeType P visiting sts t = Inr (plan, sts1)"
      by (auto simp: bindE_eq_Inr mapErr_eq_Inr split: if_split_asm)
    show ?thesis
      by (rule field [OF a True t(1) name_def s _ _ refl, of plan sts1])
        (use A s p in \<open>auto simp: f bindE_eq_Inr mapErr_eq_Inr split: if_split_asm\<close>)
  qed
qed

lemma fields_ok_skip: "fields_ok P S fs infos \<Longrightarrow> \<not> gf_Embedded f \<Longrightarrow> \<not> wanted P f \<Longrightarrow> fields_ok P S (f # fs) infos"
  by (simp add: fields_ok_def)

lemma fields_ok_field:
  "fields_ok P S fs infos \<Longrightarrow> \<not> gf_Embedded f \<Longrightarrow> wanted P f \<Longrightarrow> field_ok P S f info \<Longrightarrow>
     pf_name info \<notin> pf_name ` set infos \<Longrightarrow> fields_ok P S (f # fs) (info # infos)"
  by (simp add: fields_ok_def)

lemma analysis:
  "analyzeType P visiting sts t = Inr (p, sts') \<Longrightarrow> structs_ok P sts \<Longrightarrow> go_types P \<Longrightarrow>
     grown P visiting sts sts' \<and> describes P (names_of sts') t p"
  "analyzeStruct P visiting sts n = Inr sts' \<Longrightarrow> structs_ok P sts \<Longrightarrow> go_types P \<Longrightarrow>
     grown P visiting sts sts' \<and> n \<in> names_of sts'"
  "analyzeFields P visiting sts fs seenNames infos = Inr (infos', sts') \<Longrightarrow> structs_ok P sts \<Longrightarrow> go_types P \<Longrightarrow>
     grown P visiting sts sts' \<and> (\<exists>new. infos' = infos @ new \<and> fields_ok P (names_of sts') fs new \<and>
       pf_name ` set new \<inter> seenNames = {})"
proof (induction P visiting sts t and P visiting sts n and P visiting sts fs seenNames infos
    arbitrary: p sts' and sts' and infos' sts' rule: analyzeType_analyzeStruct_analyzeFields.induct)
  case (1 P visiting sts t)
  show ?case
  proof (cases "(\<exists>e. t = TPointer e) \<or> \<not> (implements P t CursorUnmarshaler \<or> implements P t Unmarshaler)")
    case False
    with analyzeType_custom [OF "1.prems"(1)] "1.prems"(2) show ?thesis by (auto simp: grown_refl)
  next
    case custom: True
    show ?thesis
    proof (cases t)
      case (TBasic b)
      with analyzeType_basic [OF "1.prems"(1) [unfolded TBasic]] "1.prems"(2) show ?thesis by (simp add: grown_refl)
    next
      case (TPointer e)
      with "1.prems"(1) obtain q where q: "analyzeType P visiting sts e = Inr (q, sts')" "p = PPointer t q"
        by (auto simp: analyzeType_pointer)
      have "grown P visiting sts sts' \<and> describes P (names_of sts') e q"
        using "1.IH" TPointer q(1) "1.prems"(2,3) by simp
      with q(2) TPointer show ?thesis by (simp add: Underlying_unnamed)
    next
      case (TSlice e)
      with custom have c: "\<not> implements P t CursorUnmarshaler" "\<not> implements P t Unmarshaler" by auto
      with analyzeType_slice "1.prems"(1) TSlice obtain q where q: "analyzeType P visiting sts e = Inr (q, sts')"
        "p = (if e = TBasic BUint8 then PBytes t q else PSlice t q)" by blast
      have "grown P visiting sts sts' \<and> describes P (names_of sts') e q"
        using "1.IH" TSlice c q(1) "1.prems"(2,3) by (simp add: Underlying_unnamed)
      with q(2) TSlice show ?thesis by (auto simp: Underlying_unnamed)
    next
      case (TMap k e)
      with custom have c: "\<not> implements P t CursorUnmarshaler" "\<not> implements P t Unmarshaler" by auto
      with analyzeType_map "1.prems"(1) TMap obtain q where q: "analyzeType P visiting sts e = Inr (q, sts')"
        "Underlying P k = TBasic BString" "p = PMap t k (if implements P k CursorUnmarshaler then Some (PCursorUnmarshaler k)
           else if implements P k Unmarshaler then Some (PUnmarshaler k) else None) q" by blast
      have "grown P visiting sts sts' \<and> describes P (names_of sts') e q"
        using "1.IH" TMap c q(1,2) "1.prems"(2,3) by (simp add: Underlying_unnamed)
      with q(2,3) TMap show ?thesis by (simp add: Underlying_unnamed)
    next
      case (TNamed n)
      with custom have c: "\<not> implements P t CursorUnmarshaler" "\<not> implements P t Unmarshaler" by auto
      from "1.prems"(1) [unfolded TNamed] c [unfolded TNamed] show ?thesis
      proof (cases rule: analyzeType_named)
        case (1 d)
        have U: "Underlying P t = dc_underlying d" using 1(1) TNamed by (simp add: Underlying_def)
        have i: "Underlying P t \<noteq> TInterface" using U 1(2) by simp
        have np: "asPointer t = None" using TNamed by simp
        consider (struct) fs where "dc_underlying d = TStruct fs" | (basic) b where "dc_underlying d = TBasic b"
          | (other) "\<nexists>fs. dc_underlying d = TStruct fs" "\<nexists>b. dc_underlying d = TBasic b" by blast
        then show ?thesis
        proof cases
          case struct
          with 1(3) have s: "analyzeStruct P visiting sts n = Inr sts'" "p = PStruct (TNamed n) n"
            "dc_typeParams d = 0" "dc_owned d" by auto
          have "grown P visiting sts sts' \<and> n \<in> names_of sts'"
            by (rule "1.IH"(3) [OF np i c TNamed 1(1) _ _ _ s(1) "1.prems"(2,3)]) (use struct s(3,4) in simp_all)
          with s(2) TNamed show ?thesis by simp
        next
          case basic
          with 1(4) TNamed U "1.prems"(2) show ?thesis by (simp add: grown_refl)
        next
          case other
          with 1(5) obtain q where q: "n \<notin> visiting" "p = retyped (TNamed n) q"
            "analyzeType P (insert n visiting) sts (dc_underlying d) = Inr (q, sts')" by blast
          have "grown P (insert n visiting) sts sts' \<and> describes P (names_of sts') (dc_underlying d) q"
            by (rule "1.IH"(4) [OF np i c TNamed 1(1) _ _ q(1,3) "1.prems"(2,3)]) (use other in \<open>simp_all add: not_asserted\<close>)
          moreover from q(3) have "plan_kind q = decodePointer" if "dc_underlying d = TPointer e" for e
            using that by (auto simp: analyzeType_pointer)
          ultimately show ?thesis
            using describes_retyped [OF "1.prems"(3) 1(1) _ other 1(2)] q(2) TNamed grown_weaken by blast
        qed
      qed
    qed (use analyzeType_rejected [OF "1.prems"(1)] custom in auto)
  qed
next
  case (2 P visiting sts n)
  from "2.prems"(1) show ?case
  proof (cases rule: analyzeStruct_Inr)
    case known
    with "2.prems"(2) show ?thesis by (simp add: grown_refl)
  next
    case (new d fs infos sts1)
    from new(1) have "\<not> map_of sts n \<noteq> None" by (simp add: map_of_names)
    moreover from new(5) have "asStruct (dc_underlying d) = Some fs" by simp
    ultimately have "grown P (insert n visiting) sts sts1 \<and> (\<exists>new. infos = [] @ new \<and> fields_ok P (names_of sts1) fs new \<and>
        pf_name ` set new \<inter> {} = {})"
      using "2.IH" new(2-4,6) "2.prems"(2,3) by blast
    then
    have g: "grown P (insert n visiting) sts sts1" and f: "fields_ok P (names_of sts1) fs infos" by auto
    from g new(1) have "n \<notin> names_of sts1" by (auto simp: grown_def)
    with g f new(2-5,7) show ?thesis by (auto simp: grown_def)
  qed
next
  case (3 P visiting sts seenNames infos)
  then show ?case by (simp add: analyzeFields.simps grown_refl fields_ok_def)
next
  case (4 P visiting sts fieldName anonymous exported t raw fs seenNames infos)
  let ?f = "GField fieldName anonymous exported t raw"
  from "4.prems"(1) show ?case
  proof (cases rule: analyzeFields_Cons)
    case skip
    have "grown P visiting sts sts' \<and> (\<exists>new. infos' = infos @ new \<and> fields_ok P (names_of sts') fs new \<and>
        pf_name ` set new \<inter> seenNames = {})"
    proof (cases exported)
      case True
      with skip(2) obtain tag tagged where "maxminddbTag (tables P) raw = Inr (tag, tagged)" "opt_Ignored tag"
        by (auto simp: wanted_def fieldTag_def split: sum.split_asm)
      with "4.IH"(2) [OF _ _ _ refl] True skip "4.prems"(2,3) show ?thesis by simp
    qed (use "4.IH"(1) skip "4.prems"(2,3) in simp)
    with skip show ?thesis by (blast intro: fields_ok_skip)
  next
    case (field tag tagged plan sts1 name info)
    have w: "\<not> anonymous" "\<not> \<not> exported" "\<not> opt_Ignored tag" "maxminddbTag (tables P) raw = Inr (tag, tagged)"
      using field(1-3) by (simp_all add: wanted_def fieldTag_def)
    have n: "name = (if tagged \<and> opt_HasName tag then opt_Name tag else fieldName)" using field(4) by simp
    have a: "analyzeType P visiting sts t = Inr (plan, sts1)" using field(6) by simp
    from "4.IH"(3) [OF w(1,2,4) refl w(3) n field(5) a "4.prems"(2,3)]
    have g: "grown P visiting sts sts1" and d: "describes P (names_of sts1) t plan" by auto
    from g have ok: "structs_ok P sts1" by (simp add: grown_def)
    have m: "\<not> (opt_HasMaxSize tag \<and> maxSizeKindForPlan P plan = None)" using field(7) by simp
    have r: "analyzeFields P visiting sts1 fs (insert name seenNames) (infos @ [\<lparr>pf_plan = plan, pf_name = name,
        pf_goID = fieldName, pf_maxSize = opt_MaxSize tag, pf_maxSizeKind = maxSizeKindForPlan P plan,
        pf_hasMaxSize = opt_HasMaxSize tag\<rparr>]) = Inr (infos', sts')" using field(9) [unfolded field(8)] by simp
    have "mapErr (FieldError fieldName) (analyzeType P visiting sts t) = Inr (plan, sts1)" using a by simp
    from "4.IH"(4) [OF w(1,2,4) refl w(3) n field(5) this refl refl m r ok "4.prems"(3)] obtain new where
      g': "grown P visiting sts1 sts'" and new: "infos' = (infos @ [info]) @ new" "fields_ok P (names_of sts') fs new"
        "pf_name ` set new \<inter> insert name seenNames = {}" using field(8) by auto
    have "names_of sts1 \<subseteq> names_of sts'" using g' by (simp add: grown_def)
    with d have "field_ok P (names_of sts') ?f info"
      using field(3,4,7,8) by (auto simp: field_ok_def intro: describes_mono)
    with new field(1,2) have "fields_ok P (names_of sts') (?f # fs) (info # new)"
      by (intro fields_ok_field) (auto simp: field(8))
    moreover have "pf_name ` set (info # new) \<inter> seenNames = {}" using new(3) field(5,8) by auto
    moreover have "infos' = infos @ info # new" using new(1) by simp
    ultimately show ?thesis using grown_trans [OF g g'] by blast
  qed
qed

lemma analyzeTargets_ok:
  "analyzeTargets P sts targets = Inr sts' \<Longrightarrow> go_types P \<Longrightarrow> structs_ok P sts \<Longrightarrow>
     structs_ok P sts' \<and> names_of sts \<union> set targets \<subseteq> names_of sts'"
proof (induction P sts targets rule: analyzeTargets.induct)
  case (2 P sts target targets)
  then obtain sts1 where 1: "analyzeStruct P {} sts target = Inr sts1" and 2: "analyzeTargets P sts1 targets = Inr sts'"
    by (auto simp: bindE_eq_Inr)
  from analysis(2) [OF 1] "2.prems" have "structs_ok P sts1" "names_of sts \<subseteq> names_of sts1" "target \<in> names_of sts1"
    by (auto simp: grown_def)
  with "2.IH" [OF 1 2] "2.prems"(2) show ?case by auto
qed simp

section \<open>The guarantee\<close>

text \<open>
  C13. When the analysis of the targets succeeds, every target has a plan, and so has every struct a
  plan refers to, earlier in the order of analysis: no generated decoder calls itself, directly or
  through others. The fields of a plan are the exported fields of the struct that are not ignored, in
  their order, under distinct keys; each plan describes the type of its field, and a limit is only
  kept where the kinds it applies to are known.
\<close>

theorem generated_plans:
  assumes "analyzeTargets P [] targets = Inr sts" and "go_types P"
  shows "structs_ok P sts \<and> set targets \<subseteq> names_of sts"
  using analyzeTargets_ok [OF assms] by simp

definition quoted :: "bytes \<Rightarrow> bytes" where
  "quoted tag = tagKey @ [58, 34] @ tag @ [34]"

definition sample_package :: package where
  "sample_package = \<lparr>
     decls =
       [(ascii ''Location'', \<lparr>dc_owned = True, dc_typeParams = 0, dc_underlying = TStruct
           [GField (ascii ''Lat'') False True (TBasic BFloat64) (quoted (ascii ''latitude'')),
            GField (ascii ''Skip'') False True TInterface (quoted (ascii ''-'')),
            GField (ascii ''Raw'') False True (TSlice (TBasic BUint8)) (quoted (ascii ''raw,maxsize:9''))]\<rparr>),
        (ascii ''Names'', \<lparr>dc_owned = True, dc_typeParams = 0, dc_underlying = TMap (TBasic BString) (TBasic BString)\<rparr>),
        (ascii ''City'', \<lparr>dc_owned = True, dc_typeParams = 0, dc_underlying = TStruct
           [GField (ascii ''Geo'') False True (TPointer (TNamed (ascii ''Location''))) (quoted (ascii ''location'')),
            GField (ascii ''Names'') False True (TNamed (ascii ''Names'')) []]\<rparr>)],
     Implements = (\<lambda>_ _. False), generatedMethod = (\<lambda>_ _. False), tables = ascii_unicode\<rparr>"

definition sample_plans :: structs where
  "sample_plans =
     [(ascii ''City'', \<lparr>si_named = ascii ''City'', si_fields =
        [\<lparr>pf_plan = PPointer (TPointer (TNamed (ascii ''Location''))) (PStruct (TNamed (ascii ''Location'')) (ascii ''Location'')),
          pf_name = ascii ''location'', pf_goID = ascii ''Geo'', pf_maxSize = 0, pf_maxSizeKind = None, pf_hasMaxSize = False\<rparr>,
         \<lparr>pf_plan = PMap (TNamed (ascii ''Names'')) (TBasic BString) None (PBasic (TBasic BString) BString),
          pf_name = ascii ''Names'', pf_goID = ascii ''Names'', pf_maxSize = 0, pf_maxSizeKind = Some decodeMap, pf_hasMaxSize = False\<rparr>]\<rparr>),
      (ascii ''Location'', \<lparr>si_named = ascii ''Location'', si_fields =
        [\<lparr>pf_plan = PBasic (TBasic BFloat64) BFloat64, pf_name = ascii ''latitude'', pf_goID = ascii ''Lat'',
          pf_maxSize = 0, pf_maxSizeKind = None, pf_hasMaxSize = False\<rparr>,
         \<lparr>pf_plan = PBytes (TSlice (TBasic BUint8)) (PBasic (TBasic BUint8) BUint8),
          pf_name = ascii ''raw'', pf_goID = ascii ''Raw'', pf_maxSize = 9, pf_maxSizeKind = Some decodeBytes, pf_hasMaxSize = True\<rparr>]\<rparr>)]"

lemma sample_go_types: "go_types sample_package"
  by (simp add: go_types_def sample_package_def)

lemma sample_tags:
  "maxminddbTag ascii_unicode [] = Inr (zeroOptions, False)"
  "maxminddbTag ascii_unicode (quoted (ascii ''latitude'')) = Inr (zeroOptions\<lparr>opt_Name := ascii ''latitude'', opt_HasName := True\<rparr>, True)"
  "maxminddbTag ascii_unicode (quoted (ascii ''location'')) = Inr (zeroOptions\<lparr>opt_Name := ascii ''location'', opt_HasName := True\<rparr>, True)"
  "maxminddbTag ascii_unicode (quoted (ascii ''raw,maxsize:9'')) =
     Inr (zeroOptions\<lparr>opt_Name := ascii ''raw'', opt_HasName := True, opt_MaxSize := 9, opt_HasMaxSize := True\<rparr>, True)"
  "maxminddbTag ascii_unicode (quoted (ascii ''-'')) = Inr (zeroOptions\<lparr>opt_Ignored := True\<rparr>, True)"
  by code_simp+
lemma sample_analysis: "analyzeTargets sample_package [] [ascii ''City''] = Inr sample_plans"
  supply analyzeType.simps [simp] analyzeStruct.simps [simp] analyzeFields.simps [simp]
  by (simp add: Let_def sample_package_def sample_tags [simplified ascii_def zeroOptions_def, simplified] bindE_def implements_def Underlying_def supportedBasic_def ascii_def zeroOptions_def sample_plans_def)

theorem generated_plans_witness:
  "structs_ok sample_package sample_plans \<and> set [ascii ''City''] \<subseteq> names_of sample_plans"
  by (rule generated_plans [OF sample_analysis sample_go_types])

end
