(* ===== verification/GeneratorAgreement.thy ===== *)
theory GeneratorAgreement
  imports GeneratorProofs
begin

text \<open>
  The generator and reflection agree: for a struct without methods, embedded structs and malformed raw
  tags, the fields \<open>maxminddb-gen\<close> plans a decoder for (\<open>generate.go\<close>) are the fields of the table
  reflection builds for the type (\<open>makeStructFields\<close>, \<open>FieldTable\<close>), under the same keys and limits.
\<close>

section \<open>The same type seen by both\<close>

fun basicType :: "basic \<Rightarrow> Type option" where
  "basicType BBool = Some BoolT"
| "basicType BString = Some StringT"
| "basicType BInt = Some IntT"
| "basicType BInt8 = Some Int8T"
| "basicType BInt16 = Some Int16T"
| "basicType BInt32 = Some Int32T"
| "basicType BInt64 = Some Int64T"
| "basicType BUint = Some UintT"
| "basicType BUint8 = Some Uint8T"
| "basicType BUint16 = Some Uint16T"
| "basicType BUint32 = Some Uint32T"
| "basicType BUint64 = Some Uint64T"
| "basicType BFloat64 = Some Float64T"
| "basicType _ = None"

text \<open>What reflection makes of a raw tag: its options, or the error it reports for the field.\<close>

definition reads_tag :: "unicode \<Rightarrow> bytes \<Rightarrow> (string + Options) option \<Rightarrow> bool" where
  "reads_tag u raw tag \<longleftrightarrow>
     (case readFieldTag u raw of
        (options, None) \<Rightarrow> tag = map_option Inr options
      | (_, Some err) \<Rightarrow> (\<exists>msg. tag = Some (Inl msg)))"

inductive same_type :: "package \<Rightarrow> gtype \<Rightarrow> Type \<Rightarrow> bool"
  and same_fields :: "package \<Rightarrow> gfield list \<Rightarrow> FieldDecl list \<Rightarrow> bool"
  for P where
  basic: "basicType b = Some T \<Longrightarrow> same_type P (TBasic b) T"
| pointer: "same_type P t T \<Longrightarrow> same_type P (TPointer t) (PtrT T)"
| slice: "same_type P t T \<Longrightarrow> same_type P (TSlice t) (SliceT T)"
| mapping: "same_type P t T \<Longrightarrow> same_type P (TMap (TBasic BString) t) (MapT T)"
| interface: "same_type P TInterface AnyT"
| struct: "map_of (decls P) n = Some d \<Longrightarrow> dc_underlying d = TStruct fs \<Longrightarrow> same_fields P fs fds \<Longrightarrow>
    same_type P (TNamed n) (StructT n fds)"
| no_fields: "same_fields P [] []"
| field: "reads_tag (tables P) raw tag \<Longrightarrow> same_type P t T \<Longrightarrow> same_fields P fs fds \<Longrightarrow>
    same_fields P (GField name anonymous exported t raw # fs) (FieldDecl name exported anonymous tag T # fds)"

inductive_cases same_type_cases [elim!]:
  "same_type P (TBasic b) T" "same_type P (TPointer t) T" "same_type P (TSlice t) T"
  "same_type P (TMap k t) T" "same_type P (TNamed n) T" "same_type P (TStruct fs) T" "same_type P TOther T"

inductive_cases same_type_to [elim!]:
  "same_type P t Uint8T" "same_type P t StringT" "same_type P t (StructT n fds)"

inductive_cases same_fields_cases [elim!]: "same_fields P (f # fs) fds" "same_fields P [] fds"

section \<open>Limits\<close>

definition no_methods_in :: "package \<Rightarrow> bool" where
  "no_methods_in P \<longleftrightarrow> (\<forall>t i. \<not> Implements P t i)"

definition same_limit :: "decodePlan \<Rightarrow> decodeKind option \<Rightarrow> Type \<Rightarrow> bool" where
  "same_limit plan kind T \<longleftrightarrow>
     (case kind of
        None \<Rightarrow> maxSizeKindsForType T = None
      | Some k \<Rightarrow> (\<exists>kinds. maxSizeKindExpression plan k = Some kinds \<and> maxSizeKindsForType T = Some (NewKindSet kinds)))"

lemma plans_without_methods: "no_methods_in P \<Longrightarrow> \<not> implements P t i"
  by (simp add: no_methods_in_def implements_def Let_def)

lemma basicType_string: "basicType b = Some StringT \<longleftrightarrow> b = BString"
  by (cases b) simp_all

lemma basicType_uint8: "basicType b = Some Uint8T \<longleftrightarrow> b = BUint8"
  by (cases b) simp_all

lemma basic_limit: "basicType b = Some T \<Longrightarrow> maxSizeKindsForType T = (if b = BString then Some (NewKindSet [KindString]) else None)"
  by (cases b) (auto simp: maxSizeKindsForType_def)

lemma plan_limit:
  "describes P S t p \<Longrightarrow> no_methods_in P \<Longrightarrow> same_type P t T \<Longrightarrow> same_limit p (maxSizeKindForPlan P p) T"
proof (induction P S t p arbitrary: T rule: describes.induct)
  case (1 P S t t' b)
  then have "t = TBasic b" by (cases t) (auto simp: Underlying_def)
  with "1.prems"(3) have "basicType b = Some T" by (auto elim: same_type.cases)
  from basic_limit [OF this] show ?case by (auto simp: same_limit_def maxSizeKindExpression_def)
next
  case (3 P S t t' p)
  then obtain e where e: "Underlying P t = TPointer e" "describes P S e p" by auto
  from "3.prems"(3) e(1) obtain E where t: "t = TPointer e" "T = PtrT E" "same_type P e E"
    by (cases t) (auto simp: Underlying_def)
  have "maxSizeKindExpression (PPointer t' p) = maxSizeKindExpression p"
    by (rule ext) (simp add: maxSizeKindExpression_def)
  with "3.IH" [OF e(2) "3.prems"(2) t(3)] t(2) show ?case
    by (auto simp: same_limit_def maxSizeKindsForType_def split: option.splits)
qed (auto simp: same_limit_def plans_without_methods maxSizeKindsForType_def maxSizeKindExpression_def
      Underlying_def basic_limit basicType_string basicType_uint8 split: gtype.splits if_splits option.splits)

section \<open>Tags\<close>

text \<open>A raw tag without the malformed pairs and bytes that only one of the two minds.\<close>

definition plain_tag :: "package \<Rightarrow> gfield \<Rightarrow> bool" where
  "plain_tag P f \<longleftrightarrow>
     validateRawMaxMindDBTagValue (gf_Tag f) = None \<and>
     (\<forall>tag. fieldTag P f = Inr (tag, True) \<longrightarrow> Lookup_tag tagKey (gf_Tag f) \<noteq> None)"

lemma plain_tag_read:
  assumes "plain_tag P f" and "fieldTag P f = Inr (tag, tagged)" and "reads_tag (tables P) (gf_Tag f) t"
  shows "t = (if tagged then Some (Inr tag) else None)" and "\<not> tagged \<Longrightarrow> tag = zeroOptions"
proof -
  note g = generator_tag [OF assms(2) [unfolded fieldTag_def]]
  show "t = (if tagged then Some (Inr tag) else None)"
  proof (cases tagged)
    case True
    with assms(1,2) g have "readFieldTag (tables P) (gf_Tag f) = (Some tag, None)" by (auto simp: plain_tag_def)
    with True assms(3) show ?thesis by (simp add: reads_tag_def)
  next
    case False
    with g have "readFieldTag (tables P) (gf_Tag f) = (None, None)"
      using assms(1) by (simp add: plain_tag_def readFieldTag_def Let_def)
    with False assms(3) show ?thesis by (simp add: reads_tag_def)
  qed
qed (use generator_tag [OF assms(2) [unfolded fieldTag_def]] in blast)

section \<open>The fields of a struct\<close>

text \<open>A planned field and an entry of the field table that decode the same field in the same way.\<close>

definition same_decoding :: "package \<Rightarrow> FieldDecl list \<Rightarrow> planField \<Rightarrow> fieldInfo \<Rightarrow> bool" where
  "same_decoding P fds info fi \<longleftrightarrow>
     pf_name info = fi_name fi \<and>
     (\<exists>j < length fds. fi_index fi = [j] \<and> fd_Name (fds ! j) = pf_goID info) \<and>
     same_type P (pl_typ (pf_plan info)) (fi_type fi) \<and>
     pf_maxSize info = fi_maxSize fi \<and>
     (pf_hasMaxSize info \<longleftrightarrow> fi_dispatch fi = dispatchMaxSize) \<and>
     (pf_hasMaxSize info \<longrightarrow> (\<exists>k kinds. pf_maxSizeKind info = Some k \<and>
        maxSizeKindExpression (pf_plan info) k = Some kinds \<and> fi_maxSizeKinds fi = NewKindSet kinds))"

lemma describes_type: "describes P S t p \<Longrightarrow> pl_typ p = t"
  by (induction P S t p rule: describes.induct) auto

lemma dispatch_limit: "field_dispatch opts t = dispatchMaxSize \<longleftrightarrow> opt_HasMaxSize opts \<and> maxSizeKindsForType t \<noteq> None"
  by (auto simp: field_dispatch_def split: Type.split)

lemma planned_field:
  assumes ok: "field_ok P S (GField name False True t raw) info" and P: "no_methods_in P"
    and pl: "plain_tag P (GField name False True t raw)"
    and r: "reads_tag (tables P) raw tag" and T: "same_type P t T" and j: "j < length fds" "fds ! j = FieldDecl name True False tag T"
  shows "fieldError (fds ! j) None = None" and "same_decoding P fds info (makeFieldInfo (fds ! j) [j] 0)"
proof -
  from ok obtain opts tagged where f: "fieldTag P (GField name False True t raw) = Inr (opts, tagged)"
    and i: "pf_goID info = name" "pf_name info = (if tagged \<and> opt_HasName opts then opt_Name opts else name)"
      "describes P S t (pf_plan info)" "pf_hasMaxSize info = opt_HasMaxSize opts" "pf_maxSize info = opt_MaxSize opts"
      "pf_maxSizeKind info = maxSizeKindForPlan P (pf_plan info)" "pf_hasMaxSize info \<longrightarrow> pf_maxSizeKind info \<noteq> None"
    unfolding field_ok_def gfield.sel by blast
  from plain_tag_read [OF pl f, of tag] r have t: "tag = (if tagged then Some (Inr opts) else None)"
    and z: "\<not> tagged \<Longrightarrow> opts = zeroOptions" by auto
  have o: "tagOptions (fds ! j) = opts" using t z j(2) by (cases tagged) (auto simp: tagOptions_def)
  have n: "opt_HasName opts \<Longrightarrow> tagged" using z by (cases tagged) (auto simp: zeroOptions_def)
  from plan_limit [OF i(3) P T] have l: "same_limit (pf_plan info) (pf_maxSizeKind info) T" using i(6) by simp
  have k: "opt_HasMaxSize opts \<Longrightarrow> \<exists>k kinds. pf_maxSizeKind info = Some k \<and>
      maxSizeKindExpression (pf_plan info) k = Some kinds \<and> maxSizeKindsForType T = Some (NewKindSet kinds)"
    using l i(4,7) by (auto simp: same_limit_def split: option.splits)
  show "fieldError (fds ! j) None = None" using o t k j(2) by (auto simp: fieldError_def Let_def)
  show "same_decoding P fds info (makeFieldInfo (fds ! j) [j] 0)"
    unfolding same_decoding_def
    using i n j o k T describes_type [OF i(3)] by (auto simp: makeFieldInfo_def Let_def dispatch_limit)
qed

lemma scan_unchanged: "sc_error st = None \<Longrightarrow> st\<lparr>sc_error := None\<rparr> = st"
  by simp

lemma scan_skipped:
  assumes "\<not> wanted P (GField name False x t raw)" and "x \<Longrightarrow> plain_tag P (GField name False x t raw)"
    and "reads_tag (tables P) raw tag" and "sc_error st = None"
  shows "scanField (FieldDecl name x False tag T) path 0 st = st"
proof (cases x)
  case True
  with assms(1) obtain opts tagged where f: "fieldTag P (GField name False x t raw) = Inr (opts, tagged)" "opt_Ignored opts"
    by (auto simp: wanted_def split: sum.split_asm)
  from plain_tag_read [OF assms(2) [OF True] f(1), of tag] assms(3)
  have t: "tag = (if tagged then Some (Inr opts) else None)" "\<not> tagged \<Longrightarrow> opts = zeroOptions" by auto
  with f(2) have "tag = Some (Inr opts)" by (cases tagged) (auto simp: zeroOptions_def)
  with f(2) True assms(4) show ?thesis
    by (simp add: scanField_def Let_def fieldError_def tagOptions_def scan_unchanged)
qed (simp add: scanField_def)

lemma scan_kept:
  assumes "fieldError (FieldDecl name True False tag T) None = None" and "sc_error st = None"
    and "\<not> opt_Ignored (tagOptions (FieldDecl name True False tag T))"
  shows "scanField (FieldDecl name True False tag T) path 0 st =
    st\<lparr>sc_fields := sc_fields st @ [makeFieldInfo (FieldDecl name True False tag T) path 0]\<rparr>"
  using assms by (simp add: scanField_def Let_def scan_unchanged)

lemma wanted_not_ignored:
  assumes "wanted P (GField name False True t raw)" and "field_ok P S (GField name False True t raw) info"
    and "plain_tag P (GField name False True t raw)" and "reads_tag (tables P) raw tag"
  shows "\<not> opt_Ignored (tagOptions (FieldDecl name True False tag T))"
proof -
  from assms(2) obtain opts tagged where f: "fieldTag P (GField name False True t raw) = Inr (opts, tagged)"
    unfolding field_ok_def by blast
  from plain_tag_read [OF assms(3) f, of tag] assms(4)
  have "tag = (if tagged then Some (Inr opts) else None)" "\<not> tagged \<Longrightarrow> opts = zeroOptions" by auto
  with assms(1) f show ?thesis by (cases tagged) (auto simp: wanted_def tagOptions_def zeroOptions_def)
qed

lemma scan_planned:
  assumes "no_methods_in P"
  shows "same_fields P fs fds' \<Longrightarrow> drop i fds = fds' \<Longrightarrow>
      \<forall>f \<in> set fs. \<not> gf_Embedded f \<and> (gf_Exported f \<longrightarrow> plain_tag P f) \<Longrightarrow>
      list_all2 (field_ok P S) (filter (wanted P) fs) infos \<Longrightarrow> sc_error st = None \<Longrightarrow>
      \<exists>fis. scanFields i fds' [] 0 st = st\<lparr>sc_fields := sc_fields st @ fis\<rparr> \<and> list_all2 (same_decoding P fds) infos fis"
proof (induction fs arbitrary: i fds' infos st)
  case Nil
  then show ?case by (intro exI [of _ "[]"]) auto
next
  case (Cons f fs)
  obtain name a x t raw where f: "f = GField name a x t raw" by (cases f)
  from Cons.prems(1) obtain tag T fds'' where fds: "fds' = FieldDecl name x a tag T # fds''"
    and r: "reads_tag (tables P) raw tag" "same_type P t T" "same_fields P fs fds''" unfolding f by blast
  have a: "\<not> a" and pl: "x \<Longrightarrow> plain_tag P (GField name False x t raw)" using Cons.prems(3) f by auto
  have "drop (i + 1) fds = tl (drop i fds)" by (simp add: drop_Suc tl_drop)
  then have d: "drop (i + 1) fds = fds''" using Cons.prems(2) fds by simp
  have j: "i < length fds" "fds ! i = FieldDecl name x False tag T"
    using Cons.prems(2) fds a by (auto simp: nth_via_drop intro: ccontr)
  have rest: "\<forall>f \<in> set fs. \<not> gf_Embedded f \<and> (gf_Exported f \<longrightarrow> plain_tag P f)" using Cons.prems(3) by simp
  show ?case
  proof (cases "wanted P f")
    case False
    have "scanField (FieldDecl name x False tag T) [i] 0 st = st"
      by (rule scan_skipped [OF _ pl r(1) Cons.prems(5)]) (use False f a in auto)
    with Cons.IH [OF r(3) d rest _ Cons.prems(5)] Cons.prems(4) False fds a show ?thesis by simp
  next
    case True
    then have x: "x" by (simp add: wanted_def f)
    from Cons.prems(4) True obtain info infos' where i: "infos = info # infos'"
      "field_ok P S (GField name False True t raw) info" "list_all2 (field_ok P S) (filter (wanted P) fs) infos'"
      using f a x by (auto simp: list_all2_Cons1)
    have pl1: "plain_tag P (GField name False True t raw)" using pl x by simp
    have j1: "fds ! i = FieldDecl name True False tag T" using j(2) x by simp
    note pf = planned_field [OF i(2) assms pl1 r(1,2) j(1) j1]
    let ?st = "st\<lparr>sc_fields := sc_fields st @ [makeFieldInfo (fds ! i) [i] 0]\<rparr>"
    have s: "scanField (FieldDecl name x a tag T) [i] 0 st = ?st"
      using scan_kept [of name tag T st "[i]"] pf(1) wanted_not_ignored [of P name t raw S info tag T] True f a x i(2) pl1 r(1)
        Cons.prems(5) j1 by simp
    from Cons.prems(5) have "sc_error ?st = None" by simp
    from Cons.IH [OF r(3) d rest i(3) this] obtain fis where
      "scanFields (i + 1) fds'' [] 0 ?st = ?st\<lparr>sc_fields := sc_fields ?st @ fis\<rparr>" "list_all2 (same_decoding P fds) infos' fis"
      by blast
    with pf(2) s fds i(1) x show ?thesis
      by (intro exI [of _ "makeFieldInfo (fds ! i) [i] 0 # fis"]) simp
  qed
qed

lemma resolveNames_distinct:
  assumes "distinct (map fi_name fis)"
  shows "resolveNames fis = fis"
proof -
  have one: "filter (\<lambda>g. fi_name g = fi_name f) fis = [f]" if "f \<in> set fis" for f
    using assms that
  proof (induction fis)
    case (Cons g fis)
    show ?case
    proof (cases "g = f")
      case True
      with Cons.prems(1) have "filter (\<lambda>h. fi_name h = fi_name f) fis = []" by (auto simp: filter_empty_conv image_iff)
      with True show ?thesis by simp
    next
      case False
      with Cons.prems have "f \<in> set fis" "fi_name g \<noteq> fi_name f" by auto
      with Cons show ?thesis by simp
    qed
  qed simp
  have "map (\<lambda>name. dominantField (filter (\<lambda>f. fi_name f = name) fis)) (map fi_name fis) = map (\<lambda>f. f) fis"
    unfolding map_map by (rule map_cong [OF refl]) (simp add: one dominantField_def)
  with assms show ?thesis by (simp add: resolveNames_def distinct_remdups_id)
qed

lemma field_table_agrees:
  assumes P: "no_methods_in P" and s: "same_fields P fs fds" and ok: "fields_ok P S fs infos"
    and pl: "\<forall>f \<in> set fs. gf_Exported f \<longrightarrow> plain_tag P f"
  shows "validationErr (makeStructFields (StructT n fds)) = None \<and>
    list_all2 (same_decoding P fds) infos (namedFields (makeStructFields (StructT n fds)))"
proof -
  let ?st = "\<lparr>sc_queue = [], sc_seen = [StructT n fds], sc_fields = [], sc_error = None\<rparr>"
  from ok have e: "\<forall>f \<in> set fs. \<not> gf_Embedded f \<and> (gf_Exported f \<longrightarrow> plain_tag P f)"
    and l: "list_all2 (field_ok P S) (filter (wanted P) fs) infos" and d: "distinct (map pf_name infos)"
    using pl by (auto simp: fields_ok_def)
  from scan_planned [OF P s _ e l, of 0 fds ?st] obtain fis where
    f: "scanFields 0 fds [] 0 ?st = ?st\<lparr>sc_fields := fis\<rparr>" and a: "list_all2 (same_decoding P fds) infos fis" by auto
  have "map pf_name infos = map fi_name fis"
    using a by (induction rule: list_all2_induct) (auto simp: same_decoding_def)
  with d have r: "resolveNames fis = fis" by (intro resolveNames_distinct) simp
  have "collectFields \<lparr>sc_queue = [(StructT n fds, [], 0)], sc_seen = [StructT n fds], sc_fields = [], sc_error = None\<rparr> =
      ?st\<lparr>sc_fields := fis\<rparr>"
    using f by (simp add: collectFields.simps)
  with r a show ?thesis by (simp add: makeStructFields_def)
qed

lemma structs_ok_struct:
  "structs_ok P sts \<Longrightarrow> (n, info) \<in> set sts \<Longrightarrow> map_of (decls P) n = Some d \<Longrightarrow> dc_underlying d = TStruct fs \<Longrightarrow>
     \<exists>S. fields_ok P S fs (si_fields info)"
  by (induction P sts rule: structs_ok.induct) auto

text \<open>
  C12. For a struct the generator planned a decoder for, the fields of the plan are, in this order, the
  fields of the table reflection uses for the type, which has no error: under the same keys, for the
  same Go fields and types, with the same limits applied to the same kinds. The types of the package
  have no methods (with methods reflection and the generated code both call them), and the raw tags of
  the exported fields are plain: no malformed pair before the tag and no stray invalid bytes, which the
  two scanners treat differently (\<open>malformed_pair_differs\<close>).
\<close>

theorem generated_fields_agree:
  assumes "analyzeTargets P [] targets = Inr sts" and "go_types P" and "no_methods_in P"
    and "(n, info) \<in> set sts" and "map_of (decls P) n = Some d" and "dc_underlying d = TStruct fs"
    and "\<forall>f \<in> set fs. gf_Exported f \<longrightarrow> plain_tag P f" and "same_type P (TNamed n) (StructT n fds)"
  shows "validationErr (makeStructFields (StructT n fds)) = None \<and>
    list_all2 (same_decoding P fds) (si_fields info) (namedFields (makeStructFields (StructT n fds)))"
proof -
  from analyzeTargets_ok [OF assms(1,2)] structs_ok_struct [OF _ assms(4-6)] obtain S where "fields_ok P S fs (si_fields info)"
    by auto
  moreover from assms(5,6,8) have "same_fields P fs fds" by auto
  ultimately show ?thesis using field_table_agrees [OF assms(3) _ _ assms(7)] by blast
qed

text \<open>The declaration of \<open>Location\<close> as reflection sees it.\<close>

definition sample_location :: "FieldDecl list" where
  "sample_location =
     [FieldDecl (ascii ''Lat'') True False (Some (Inr (zeroOptions\<lparr>opt_Name := ascii ''latitude'', opt_HasName := True\<rparr>))) Float64T,
      FieldDecl (ascii ''Skip'') True False (Some (Inr (zeroOptions\<lparr>opt_Ignored := True\<rparr>))) AnyT,
      FieldDecl (ascii ''Raw'') True False (Some (Inr (zeroOptions\<lparr>opt_Name := ascii ''raw'', opt_HasName := True,
        opt_MaxSize := 9, opt_HasMaxSize := True\<rparr>))) (SliceT Uint8T)]"

lemma sample_reads:
  "readFieldTag ascii_unicode (quoted (ascii ''latitude'')) = (Some (zeroOptions\<lparr>opt_Name := ascii ''latitude'', opt_HasName := True\<rparr>), None)"
  "readFieldTag ascii_unicode (quoted (ascii ''-'')) = (Some (zeroOptions\<lparr>opt_Ignored := True\<rparr>), None)"
  "readFieldTag ascii_unicode (quoted (ascii ''raw,maxsize:9'')) =
     (Some (zeroOptions\<lparr>opt_Name := ascii ''raw'', opt_HasName := True, opt_MaxSize := 9, opt_HasMaxSize := True\<rparr>), None)"
  by code_simp+

lemma sample_lookups:
  "Lookup_tag tagKey (quoted (ascii ''latitude'')) \<noteq> None" "validateRawMaxMindDBTagValue (quoted (ascii ''latitude'')) = None"
  "Lookup_tag tagKey (quoted (ascii ''-'')) \<noteq> None" "validateRawMaxMindDBTagValue (quoted (ascii ''-'')) = None"
  "Lookup_tag tagKey (quoted (ascii ''raw,maxsize:9'')) \<noteq> None" "validateRawMaxMindDBTagValue (quoted (ascii ''raw,maxsize:9'')) = None"
  by code_simp+

lemma sample_plain:
  "plain_tag P (GField name a x t (quoted (ascii ''latitude'')))"
  "plain_tag P (GField name a x t (quoted (ascii ''-'')))"
  "plain_tag P (GField name a x t (quoted (ascii ''raw,maxsize:9'')))"
  unfolding plain_tag_def gfield.sel using sample_lookups by blast+

lemma sample_location_decl:
  obtains d where "map_of (decls sample_package) (ascii ''Location'') = Some d"
    and "dc_underlying d = TStruct
      [GField (ascii ''Lat'') False True (TBasic BFloat64) (quoted (ascii ''latitude'')),
       GField (ascii ''Skip'') False True TInterface (quoted (ascii ''-'')),
       GField (ascii ''Raw'') False True (TSlice (TBasic BUint8)) (quoted (ascii ''raw,maxsize:9''))]"
  by (simp add: sample_package_def)

theorem generated_fields_agree_witness:
  "validationErr (makeStructFields (StructT (ascii ''Location'') sample_location)) = None \<and>
   map fi_name (namedFields (makeStructFields (StructT (ascii ''Location'') sample_location))) = [ascii ''latitude'', ascii ''raw'']"
proof -
  obtain d where d: "map_of (decls sample_package) (ascii ''Location'') = Some d"
    and fs: "dc_underlying d = TStruct
      [GField (ascii ''Lat'') False True (TBasic BFloat64) (quoted (ascii ''latitude'')),
       GField (ascii ''Skip'') False True TInterface (quoted (ascii ''-'')),
       GField (ascii ''Raw'') False True (TSlice (TBasic BUint8)) (quoted (ascii ''raw,maxsize:9''))]"
    by (rule sample_location_decl)
  have t: "tables sample_package = ascii_unicode" by (simp add: sample_package_def)
  have s: "same_type sample_package (TNamed (ascii ''Location'')) (StructT (ascii ''Location'') sample_location)"
    unfolding sample_location_def
    by (intro struct [OF d fs] field no_fields basic interface slice) (simp_all add: t reads_tag_def sample_reads)
  have m: "(ascii ''Location'', snd (sample_plans ! 1)) \<in> set sample_plans" by (simp add: sample_plans_def)
  have n: "no_methods_in sample_package" by (simp add: no_methods_in_def sample_package_def)
  have "list_all2 (same_decoding sample_package sample_location) (si_fields (snd (sample_plans ! 1)))
      (namedFields (makeStructFields (StructT (ascii ''Location'') sample_location)))"
    and v: "validationErr (makeStructFields (StructT (ascii ''Location'') sample_location)) = None"
    using generated_fields_agree [OF sample_analysis sample_go_types n m d fs _ s]
    by (simp_all add: sample_plain)
  then have "map fi_name (namedFields (makeStructFields (StructT (ascii ''Location'') sample_location))) =
      map pf_name (si_fields (snd (sample_plans ! 1)))"
    by (intro nth_equalityI) (auto simp: list_all2_conv_all_nth same_decoding_def)
  with v show ?thesis by (simp add: sample_plans_def)
qed

end
