(* ===== verification/GeneratorNames.thy ===== *)
theory GeneratorNames
  imports GeneratorTypes "HOL-Library.List_Lexorder"
begin

text \<open>
  The names \<open>maxminddb-gen\<close> gives its helper functions (\<open>generate.go\<close>): the namespace encoded from the
  name of the output file, the helpers of structs and of byte slices, and the check that no declaration
  of the package has such a name.
\<close>

section \<open>File names\<close>

text \<open>\<open>filepath.Ext\<close>, \<open>filepath.Base\<close> (with the separator \<open>/\<close>) and \<open>strings.TrimSuffix\<close>.\<close>

definition Ext :: "bytes \<Rightarrow> bytes" where
  "Ext path =
     (let tail = takeWhile (\<lambda>b. b \<noteq> 46 \<and> b \<noteq> 47) (rev path) in
      case drop (length tail) (rev path) of b # _ \<Rightarrow> if b = 46 then 46 # rev tail else [] | [] \<Rightarrow> [])"

definition Base :: "bytes \<Rightarrow> bytes" where
  "Base path =
     (if path = [] then [46]
      else
        let trimmed = dropWhile (\<lambda>b. b = 47) (rev path); element = rev (takeWhile (\<lambda>b. b \<noteq> 47) trimmed) in
        if element = [] then [47] else element)"

definition TrimSuffix :: "bytes \<Rightarrow> bytes \<Rightarrow> bytes" where
  "TrimSuffix s suffix =
     (if length suffix \<le> length s \<and> drop (length s - length suffix) s = suffix then take (length s - length suffix) s else s)"

section \<open>Namespaces\<close>

definition hexDigits :: bytes where
  "hexDigits = [48, 49, 50, 51, 52, 53, 54, 55, 56, 57, 97, 98, 99, 100, 101, 102]"

definition encodeByte :: "byte \<Rightarrow> bytes" where
  "encodeByte b =
     (if 97 \<le> b \<and> b \<le> 122 \<or> 65 \<le> b \<and> b \<le> 90 \<or> 48 \<le> b \<and> b \<le> 57 then [b]
      else [95, hexDigits ! unat (drop_bit 4 b), hexDigits ! unat (b AND 0x0F)])"

definition encodeStem :: "bytes \<Rightarrow> bytes" where
  "encodeStem stem = concat (map encodeByte stem)"

definition encodeHelperNamespace :: "bytes \<Rightarrow> bytes" where
  "encodeHelperNamespace out = encodeStem (TrimSuffix (Base out) (Ext out))"

section \<open>Helpers\<close>

definition helperPrefix :: bytes where
  "helperPrefix = ascii ''maxminddbGen''"

definition helperName :: "gostring set \<Rightarrow> bytes \<Rightarrow> gostring \<Rightarrow> bytes" where
  "helperName targetSet helperNamespace n =
     (if n \<in> targetSet then helperPrefix @ ascii ''Decode'' @ n
      else helperPrefix @ [95] @ helperNamespace @ ascii ''_Decode'' @ n)"

definition byteSliceHelperName :: "bytes \<Rightarrow> bytes" where
  "byteSliceHelperName helperNamespace = helperPrefix @ [95] @ helperNamespace @ ascii ''_ByteSlice''"

definition bytesHelperName :: "bytes \<Rightarrow> bytes" where
  "bytesHelperName helperNamespace = helperPrefix @ [95] @ helperNamespace @ ascii ''_Bytes''"

text \<open>Go leaves the order in which the structs are searched open; here it is that of the list.\<close>

definition byteSlicePlan :: "structs \<Rightarrow> decodePlan option" where
  "byteSlicePlan sts =
     (case List.find (\<lambda>p. findDecodeBytesPlan p \<noteq> None) (concat (map (\<lambda>(n, info). map pf_plan (si_fields info)) sts)) of
        None \<Rightarrow> None
      | Some p \<Rightarrow> findDecodeBytesPlan p)"

datatype helper_error = CollidesWithHelper bytes | CollidesWithDeclaration bytes

fun reserve :: "(bytes \<Rightarrow> bool) \<Rightarrow> bytes set \<Rightarrow> bytes list \<Rightarrow> helper_error + unit" where
  "reserve declared reserved [] = Inr ()"
| "reserve declared reserved (name # names) =
     (if name \<in> reserved then Inl (CollidesWithHelper name)
      else if declared name then Inl (CollidesWithDeclaration name)
      else reserve declared (insert name reserved) names)"

definition helperNames :: "gostring set \<Rightarrow> bytes \<Rightarrow> structs \<Rightarrow> bytes list" where
  "helperNames targetSet helperNamespace sts =
     map (helperName targetSet helperNamespace) (sort (map fst sts)) @
     (if byteSlicePlan sts \<noteq> None then [bytesHelperName helperNamespace, byteSliceHelperName helperNamespace] else [])"

definition validateHelperNames :: "(bytes \<Rightarrow> bool) \<Rightarrow> gostring set \<Rightarrow> bytes \<Rightarrow> structs \<Rightarrow> helper_error + unit" where
  "validateHelperNames declared targetSet helperNamespace sts = reserve declared {} (helperNames targetSet helperNamespace sts)"

section \<open>The encoding can be read back\<close>

lemma hexDigit_inj: "i < 16 \<Longrightarrow> j < 16 \<Longrightarrow> hexDigits ! i = hexDigits ! j \<longleftrightarrow> i = j"
  by (rule nth_eq_iff_index_eq) (simp_all add: hexDigits_def)

lemma hexDigit_range: "i < 16 \<Longrightarrow> hexDigits ! i \<in> set hexDigits"
  by (rule nth_mem) (simp add: hexDigits_def)

lemma nibbles:
  "unat (drop_bit 4 (b :: byte)) = unat b div 16" "unat (b AND 0x0F) = unat b mod 16"
proof -
  show "unat (drop_bit 4 b) = unat b div 16" unfolding unat_drop_bit_eq by (simp add: drop_bit_eq_div)
  have "0x0F = (mask 4 :: byte)" by (simp add: mask_eq_exp_minus_1)
  then have "unat (b AND 0x0F) = unat (take_bit 4 b)" by (simp only: take_bit_eq_mask)
  then show "unat (b AND 0x0F) = unat b mod 16" unfolding unsigned_take_bit_eq by (simp add: take_bit_eq_mod)
qed

lemma nibbles_less: "unat (b :: byte) div 16 < 16" "unat b mod 16 < 16"
  using unsigned_less [of b, where 'a = nat] by auto

text \<open>An encoded stem is told apart from what follows it, an underscore and a letter that is no hexadecimal digit.\<close>

lemma encodeByte_cases:
  obtains (plain) "encodeByte b = [b]" "b \<noteq> 95"
  | (escaped) "encodeByte b = [95, hexDigits ! (unat b div 16), hexDigits ! (unat b mod 16)]"
proof (cases "97 \<le> b \<and> b \<le> 122 \<or> 65 \<le> b \<and> b \<le> 90 \<or> 48 \<le> b \<and> b \<le> 57")
  case True
  then have "b \<noteq> 95" by auto
  with True show ?thesis by (intro plain) (simp_all add: encodeByte_def)
qed (intro escaped, simp add: encodeByte_def nibbles)

lemma encodeStem_prefix:
  assumes "encodeStem s @ 95 # c # x = encodeStem s' @ 95 # c' # y" and "c \<notin> set hexDigits" "c' \<notin> set hexDigits"
  shows "s = s' \<and> c = c' \<and> x = y"
  using assms(1)
proof (induction s arbitrary: s')
  case Nil
  show ?case
  proof (cases s')
    case (Cons b t)
    from Nil assms(2) hexDigit_range [OF nibbles_less(1), of b] show ?thesis
      by (cases b rule: encodeByte_cases) (auto simp: encodeStem_def Cons)
  qed (use Nil in \<open>simp add: encodeStem_def\<close>)
next
  case (Cons b s)
  note eq = Cons.prems
  show ?case
  proof (cases s')
    case Nil
    from eq assms(3) hexDigit_range [OF nibbles_less(1), of b] show ?thesis
      by (cases b rule: encodeByte_cases) (auto simp: encodeStem_def Nil)
  next
    case s': (Cons b' t)
    have "b = b' \<and> encodeStem s @ 95 # c # x = encodeStem t @ 95 # c' # y"
    proof (cases b rule: encodeByte_cases)
      case plain
      with eq show ?thesis by (cases b' rule: encodeByte_cases) (auto simp: encodeStem_def s')
    next
      case escaped
      show ?thesis
      proof (cases b' rule: encodeByte_cases)
        case plain
        with eq escaped show ?thesis by (auto simp: encodeStem_def s')
      next
        case escaped': escaped
        with eq escaped have "unat b div 16 = unat b' div 16" "unat b mod 16 = unat b' mod 16"
          and r: "encodeStem s @ 95 # c # x = encodeStem t @ 95 # c' # y"
          by (simp_all add: encodeStem_def s' hexDigit_inj nibbles_less)
        then have "unat b = unat b'" by (metis mult_div_mod_eq)
        with r show ?thesis by (simp add: word_unat_eq_iff)
      qed
    qed
    with Cons.IH [of t] s' show ?thesis by simp
  qed
qed

lemma encodeStem_inj: "encodeStem s = encodeStem s' \<longleftrightarrow> s = s'"
  using encodeStem_prefix [of s 68 "[]" s' 68 "[]"] by (auto simp: hexDigits_def)

section \<open>Names do not collide\<close>

lemma ascii_names:
  "ascii ''_Decode'' = [95, 68, 101, 99, 111, 100, 101]" "ascii ''Decode'' = [68, 101, 99, 111, 100, 101]"
  "ascii ''_Bytes'' = [95, 66, 121, 116, 101, 115]" "ascii ''_ByteSlice'' = [95, 66, 121, 116, 101, 83, 108, 105, 99, 101]"
  by (simp_all add: ascii_def)

lemmas helper_defs = helperName_def byteSliceHelperName_def bytesHelperName_def ascii_names

lemma helperName_inj: "inj (helperName targetSet ns)"
  by (rule injI) (auto simp: helper_defs split: if_split_asm)

lemma helper_letters: "68 \<notin> set hexDigits" "66 \<notin> set hexDigits"
  by (simp_all add: hexDigits_def)

lemma helperName_bytes:
  "helperName targetSet ns n \<noteq> bytesHelperName ns" "helperName targetSet ns n \<noteq> byteSliceHelperName ns"
  by (simp_all add: helper_defs)

lemma helperNames_distinct:
  assumes "distinct (map fst sts)"
  shows "distinct (helperNames targetSet ns sts)"
proof -
  have "distinct (map (helperName targetSet ns) (sort (map fst sts)))"
    using assms helperName_inj [of targetSet ns] by (simp add: distinct_map inj_on_def inj_def)
  moreover have "bytesHelperName ns \<noteq> byteSliceHelperName ns" by (simp add: helper_defs)
  ultimately show ?thesis using helperName_bytes [of targetSet ns] by (auto simp: helperNames_def)
qed

lemma reserve_distinct:
  "distinct names \<Longrightarrow> reserved \<inter> set names = {} \<Longrightarrow>
     reserve declared reserved names =
       (case List.find declared names of None \<Rightarrow> Inr () | Some name \<Rightarrow> Inl (CollidesWithDeclaration name))"
  by (induction declared reserved names rule: reserve.induct) auto

text \<open>
  The helpers of one output never collide with each other: with one entry for each struct the check
  fails only at the first helper, in the order of the struct names, that has the name of a declaration
  of the package.
\<close>

theorem helper_names_checked:
  assumes "distinct (map fst sts)"
  shows "validateHelperNames declared targetSet ns sts =
    (case List.find declared (helperNames targetSet ns sts) of
       None \<Rightarrow> Inr () | Some name \<Rightarrow> Inl (CollidesWithDeclaration name))"
  unfolding validateHelperNames_def using reserve_distinct [OF helperNames_distinct [OF assms]] by simp

theorem helper_names_checked_witness:
  "validateHelperNames (\<lambda>name. name = helperPrefix @ ascii ''Decode'' @ [66]) {[66]} [120]
     [([66], \<lparr>si_named = [66], si_fields = []\<rparr>), ([65], \<lparr>si_named = [65], si_fields = []\<rparr>)] =
   Inl (CollidesWithDeclaration (helperPrefix @ ascii ''Decode'' @ [66]))"
  by (subst helper_names_checked)
    (simp_all add: helperNames_def byteSlicePlan_def helperName_def helperPrefix_def ascii_def)

lemma helper_of_namespace:
  assumes "name \<in> set (helperNames targetSet (encodeStem stem) sts)"
  obtains (target) n where "n \<in> targetSet" "name = helperPrefix @ ascii ''Decode'' @ n"
  | (local) c x where "name = helperPrefix @ [95] @ encodeStem stem @ 95 # c # x" "c \<notin> set hexDigits"
proof -
  from assms consider n where "name = helperName targetSet (encodeStem stem) n"
    | "name = bytesHelperName (encodeStem stem)" | "name = byteSliceHelperName (encodeStem stem)"
    by (auto simp: helperNames_def split: if_split_asm)
  then show ?thesis
  proof cases
    case (1 n)
    then show ?thesis
      by (cases "n \<in> targetSet") (auto simp: helperName_def ascii_names helper_letters intro: target local)
  qed (auto simp: helper_defs helper_letters intro: local)
qed

text \<open>
  C36. Files generated next to each other share no helper: unless the names of the two output files have
  the same stem, a name both define is the helper of a struct that is a target of both.
\<close>

theorem helpers_of_outputs:
  assumes "name \<in> set (helperNames targets (encodeHelperNamespace out) sts)"
    and "name \<in> set (helperNames targets' (encodeHelperNamespace out') sts')"
    and "TrimSuffix (Base out) (Ext out) \<noteq> TrimSuffix (Base out') (Ext out')"
  shows "\<exists>n \<in> targets \<inter> targets'. name = helperPrefix @ ascii ''Decode'' @ n"
  using assms(1) [unfolded encodeHelperNamespace_def]
proof (cases rule: helper_of_namespace)
  case (target n)
  from assms(2) [unfolded encodeHelperNamespace_def] show ?thesis
    by (cases rule: helper_of_namespace) (use target in \<open>auto simp: ascii_names\<close>)
next
  case l: (local c x)
  from assms(2) [unfolded encodeHelperNamespace_def] show ?thesis
  proof (cases rule: helper_of_namespace)
    case (local c' y)
    with l(1) have "encodeStem (TrimSuffix (Base out) (Ext out)) @ 95 # c # x =
      encodeStem (TrimSuffix (Base out') (Ext out')) @ 95 # c' # y" by simp
    from encodeStem_prefix [OF this l(2) local(2)] assms(3) show ?thesis by simp
  qed (use l in \<open>simp add: ascii_names\<close>)
qed

theorem helpers_of_outputs_witness:
  "\<exists>n \<in> {[66]} \<inter> {[66]}. helperPrefix @ ascii ''Decode'' @ [66] = helperPrefix @ ascii ''Decode'' @ n"
  by (rule helpers_of_outputs [of _ _ "ascii ''a_maxminddb.go''" "[([66], \<lparr>si_named = [66], si_fields = []\<rparr>)]" _
        "ascii ''b_maxminddb.go''" "[([66], \<lparr>si_named = [66], si_fields = []\<rparr>)]"])
    (simp_all add: helperNames_def byteSlicePlan_def helperName_def ascii_def TrimSuffix_def Base_def Ext_def)

end
