(* ===== verification/GeneratorFiles.thy ===== *)
theory GeneratorFiles
  imports GeneratorNames
begin

text \<open>
  The files \<open>maxminddb-gen\<close> reads and writes (\<open>main.go\<close>): the build suffix of a file name, the name
  derived for the output, and the build constraints it is given.
\<close>

section \<open>Splitting and joining\<close>

text \<open>\<open>strings.Split\<close> and \<open>strings.Join\<close> with a separator of one byte.\<close>

fun Split :: "byte \<Rightarrow> bytes \<Rightarrow> bytes list" where
  "Split sep [] = [[]]"
| "Split sep (b # bs) = (if b = sep then [] # Split sep bs else (b # hd (Split sep bs)) # tl (Split sep bs))"

fun Join :: "bytes list \<Rightarrow> bytes \<Rightarrow> bytes" where
  "Join [] sep = []"
| "Join [p] sep = p"
| "Join (p # ps) sep = p @ sep @ Join ps sep"

lemma Split_nonempty [simp]: "Split sep s \<noteq> []"
  by (cases s) simp_all

lemma Join_Cons: "ps \<noteq> [] \<Longrightarrow> Join (p # ps) sep = p @ sep @ Join ps sep"
  by (cases ps) simp_all

lemma Join_head: "Join ((b # p) # ps) sep = b # Join (p # ps) sep"
  by (cases ps) simp_all

lemma Join_Split [simp]: "Join (Split sep s) [sep] = s"
proof (induction s)
  case (Cons b s)
  show ?case
  proof (cases "b = sep")
    case False
    have "Split sep s = hd (Split sep s) # tl (Split sep s)" by simp
    with Cons False show ?thesis by (metis Join_head Split.simps(2))
  qed (simp add: Join_Cons Cons)
qed simp

lemma Split_parts: "p \<in> set (Split sep s) \<Longrightarrow> sep \<notin> set p"
proof (induction s arbitrary: p)
  case (Cons b s)
  then show ?case by (cases "Split sep s") (auto split: if_split_asm)
qed simp

lemma Split_append: "sep \<notin> set p \<Longrightarrow> Split sep (p @ sep # s) = p # Split sep s"
  by (induction p) auto

lemma Split_single: "sep \<notin> set p \<Longrightarrow> Split sep p = [p]"
  by (induction p) auto

lemma Split_Join: "ps \<noteq> [] \<Longrightarrow> \<forall>p \<in> set ps. sep \<notin> set p \<Longrightarrow> Split sep (Join ps [sep]) = ps"
  by (induction ps "[sep]" rule: Join.induct) (auto simp: Split_single Split_append)

lemma Join_snoc: "ps \<noteq> [] \<Longrightarrow> Join (ps @ [p]) sep = Join ps sep @ sep @ p"
  by (induction ps sep rule: Join.induct) (simp_all add: Join_Cons)

section \<open>Build suffixes\<close>

definition knownGOOS :: "bytes set" where
  "knownGOOS = set (map ascii
     [''aix'', ''android'', ''darwin'', ''dragonfly'', ''freebsd'', ''hurd'', ''illumos'', ''ios'', ''js'', ''linux'', ''nacl'',
      ''netbsd'', ''openbsd'', ''plan9'', ''solaris'', ''wasip1'', ''windows'', ''zos''])"

definition knownGOARCH :: "bytes set" where
  "knownGOARCH = set (map ascii
     [''386'', ''amd64'', ''amd64p32'', ''arm'', ''armbe'', ''arm64'', ''arm64be'', ''loong64'', ''mips'', ''mipsle'', ''mips64'',
      ''mips64le'', ''mips64p32'', ''mips64p32le'', ''ppc'', ''ppc64'', ''ppc64le'', ''riscv'', ''riscv64'', ''s390'', ''s390x'',
      ''sparc'', ''sparc64'', ''wasm''])"

text \<open>The stem, the suffix and the build constraint.\<close>

definition splitBuildSuffix :: "bytes \<Rightarrow> bytes \<times> bytes \<times> bytes" where
  "splitBuildSuffix filename =
     (let stem = TrimSuffix filename (Ext filename); parts = Split 95 stem; n = length parts; final = parts ! (n - 1) in
      if n < 2 then (stem, [], [])
      else if 3 \<le> n \<and> parts ! (n - 2) \<in> knownGOOS \<and> final \<in> knownGOARCH then
        let goos = parts ! (n - 2) in
        (Join (take (n - 2) parts) [95], [95] @ goos @ [95] @ final, goos @ ascii '' && '' @ final)
      else if final \<in> knownGOOS \<or> final \<in> knownGOARCH then (Join (take (n - 1) parts) [95], [95] @ final, final)
      else (stem, [], []))"

text \<open>The output of \<open>discoverTargets\<close> where none is given.\<close>

definition derivedOutput :: "bytes \<Rightarrow> bytes" where
  "derivedOutput path =
     (case splitBuildSuffix (Base path) of (stem, suffix, _) \<Rightarrow> stem @ ascii ''_maxminddb'' @ suffix @ ascii ''.go'')"

definition appendUnique :: "bytes list \<Rightarrow> bytes \<Rightarrow> bytes list" where
  "appendUnique values v = (if v = [] \<or> v \<in> set values then values else values @ [v])"

definition combineBuildConstraints :: "bytes list \<Rightarrow> bytes" where
  "combineBuildConstraints values =
     (if values = [] then []
      else if length values = 1 then values ! 0
      else Join (map (\<lambda>v. [40] @ v @ [41]) values) (ascii '' && ''))"

text \<open>The version of the main module, where there is build information.\<close>

definition versionFromBuildInfo :: "bytes option \<Rightarrow> bytes" where
  "versionFromBuildInfo info =
     (case info of
        None \<Rightarrow> ascii ''devel''
      | Some version \<Rightarrow> if version = [] \<or> version = ascii ''(devel)'' then ascii ''devel'' else version)"

section \<open>The go command\<close>

text \<open>
  The build tags \<open>go/build\<close> requires of a file for its name (\<open>goodOSArchFile\<close>): what follows the first
  dot and what precedes the first underscore is ignored, and so is a last element \<open>test\<close>.
\<close>

definition goFileTags :: "bytes \<Rightarrow> bytes list" where
  "goFileTags filename =
     (let name = dropWhile (\<lambda>b. b \<noteq> 95) (takeWhile (\<lambda>b. b \<noteq> 46) filename); l = Split 95 name;
          l = (if l ! (length l - 1) = ascii ''test'' then butlast l else l); n = length l in
      if name = [] then []
      else if 2 \<le> n \<and> l ! (n - 2) \<in> knownGOOS \<and> l ! (n - 1) \<in> knownGOARCH then [l ! (n - 2), l ! (n - 1)]
      else if 1 \<le> n \<and> (l ! (n - 1) \<in> knownGOOS \<or> l ! (n - 1) \<in> knownGOARCH) then [l ! (n - 1)]
      else [])"

lemma Ext_go: "Ext (base @ [46, 103, 111]) = [46, 103, 111]"
  by (simp add: Ext_def)

lemma TrimSuffix_append: "TrimSuffix (base @ suffix) suffix = base"
  by (simp add: TrimSuffix_def)

lemma known_nonempty: "[] \<notin> knownGOOS" "[] \<notin> knownGOARCH"
  by (simp_all add: knownGOOS_def knownGOARCH_def ascii_def)

lemma Split_from_underscore:
  "95 \<in> set s \<Longrightarrow> Split 95 (dropWhile (\<lambda>b. b \<noteq> 95) s) = [] # tl (Split 95 s) \<and> tl (Split 95 s) \<noteq> []"
  by (induction s) auto

lemma no_underscore: "95 \<notin> set s \<longleftrightarrow> length (Split 95 s) < 2"
  using Split_from_underscore [of s] Split_single [of 95 s] by (cases "Split 95 s") (auto simp: Suc_le_eq)

text \<open>
  C37. For a source file whose name has one dot and does not end in \<open>_test.go\<close> the build constraint of
  its suffix is the conjunction of the build tags the go command requires of it for its name.
\<close>

theorem suffix_constraint:
  assumes "46 \<notin> set base" and "\<nexists>xs. base = xs @ ascii ''_test''"
  shows "snd (snd (splitBuildSuffix (base @ ascii ''.go''))) = Join (goFileTags (base @ ascii ''.go'')) (ascii '' && '')"
proof -
  let ?parts = "Split 95 base"
  have go: "ascii ''.go'' = [46, 103, 111]" by (simp add: ascii_def)
  have stem: "TrimSuffix (base @ ascii ''.go'') (Ext (base @ ascii ''.go'')) = base"
    unfolding go Ext_go by (rule TrimSuffix_append)
  have cut: "takeWhile (\<lambda>b. b \<noteq> 46) (base @ ascii ''.go'') = base" using assms(1) unfolding go
    by (subst takeWhile_append2) auto
  show ?thesis
  proof (cases "95 \<in> set base")
    case False
    then have "dropWhile (\<lambda>b. b \<noteq> 95) base = []" by (auto simp: dropWhile_eq_Nil_conv)
    moreover have "length ?parts < 2" using False no_underscore by simp
    ultimately show ?thesis by (simp add: splitBuildSuffix_def goFileTags_def stem cut Let_def)
  next
    case True
    let ?l = "Split 95 (dropWhile (\<lambda>b. b \<noteq> 95) base)"
    from Split_from_underscore [OF True] obtain p ps where l: "?l = [] # ps" "?parts = p # ps" "ps \<noteq> []"
      by (cases ?parts) auto
    have "base = Join (p # butlast ps @ [last ps]) [95]" using l Join_Split [of 95 base] by simp
    then have "base = Join (p # butlast ps) [95] @ 95 # last ps"
      using Join_snoc [of "p # butlast ps" "last ps" "[95]"] by simp
    then have t: "last ps \<noteq> ascii ''test''" using assms(2) by (auto simp: ascii_def)
    have n: "?l ! (length ?l - 1) = last ps" "?parts ! (length ?parts - 1) = last ps"
      using l by (simp_all add: last_conv_nth)
    have two: "?l ! (length ?l - 2) = (if length ps = 1 then [] else ps ! (length ps - 2))"
      "2 \<le> length ps \<Longrightarrow> ?parts ! (length ?parts - 2) = ps ! (length ps - 2)"
      using l by (cases ps rule: rev_cases; simp add: nth_Cons' Suc_le_eq)+
    have ne: "dropWhile (\<lambda>b. b \<noteq> 95) base \<noteq> []" using True by (auto simp: dropWhile_eq_Nil_conv)
    have k: "1 \<le> length ps" using l(3) by (simp add: Suc_le_eq)
    show ?thesis
      using l k t ne two n known_nonempty
      by (auto simp: splitBuildSuffix_def goFileTags_def stem cut Let_def)
  qed
qed

theorem suffix_constraint_witness:
  "snd (snd (splitBuildSuffix (ascii ''city_linux_amd64.go''))) = Join (goFileTags (ascii ''city_linux_amd64.go'')) (ascii '' && '')"
  using suffix_constraint [of "ascii ''city_linux_amd64''"] by (auto simp: ascii_def)

text \<open>
  The go command stops at the first dot, the generator at the last one: \<open>a.b_linux.go\<close> is built on every
  system, and its decoders only on Linux.
\<close>

lemma dotted_name_differs:
  "snd (snd (splitBuildSuffix (ascii ''a.b_linux.go''))) = ascii ''linux''"
  "goFileTags (ascii ''a.b_linux.go'') = []"
  by (simp_all add: splitBuildSuffix_def goFileTags_def Ext_def TrimSuffix_def ascii_def knownGOOS_def knownGOARCH_def Let_def)

section \<open>Derived outputs\<close>

lemma maxminddb_unknown: "ascii ''maxminddb'' \<notin> knownGOOS" "ascii ''maxminddb'' \<notin> knownGOARCH" "95 \<notin> set (ascii ''maxminddb'')"
  by (simp_all add: knownGOOS_def knownGOARCH_def ascii_def)

lemma splitBuildSuffix_go:
  "splitBuildSuffix (base @ ascii ''.go'') =
     (let parts = Split 95 base; n = length parts; final = parts ! (n - 1) in
      if n < 2 then (base, [], [])
      else if 3 \<le> n \<and> parts ! (n - 2) \<in> knownGOOS \<and> final \<in> knownGOARCH then
        let goos = parts ! (n - 2) in
        (Join (take (n - 2) parts) [95], [95] @ goos @ [95] @ final, goos @ ascii '' && '' @ final)
      else if final \<in> knownGOOS \<or> final \<in> knownGOARCH then (Join (take (n - 1) parts) [95], [95] @ final, final)
      else (base, [], []))"
proof -
  have "ascii ''.go'' = [46, 103, 111]" by (simp add: ascii_def)
  then have "TrimSuffix (base @ ascii ''.go'') (Ext (base @ ascii ''.go'')) = base" by (simp add: Ext_go TrimSuffix_append)
  then show ?thesis by (simp add: splitBuildSuffix_def)
qed

lemma split_derived:
  assumes "splitBuildSuffix (base @ ascii ''.go'') = (stem, suffix, c)"
  shows "splitBuildSuffix (stem @ ascii ''_maxminddb'' @ suffix @ ascii ''.go'') = (stem @ ascii ''_maxminddb'', suffix, c)"
proof -
  let ?m = "ascii ''maxminddb''"
  have u: "ascii ''_maxminddb'' = [95] @ ?m" by (simp add: ascii_def)
  have parts: "\<forall>p \<in> set (Split 95 base). 95 \<notin> set p" using Split_parts by blast
  note A = assms [unfolded splitBuildSuffix_go Let_def]
  note simps = splitBuildSuffix_go Let_def Join_snoc nth_append maxminddb_unknown
  show ?thesis
  proof (cases "splitBuildSuffix (base @ ascii ''.go'') = (base, [], [])")
    case True
    with assms have c: "stem = base" "suffix = []" "c = []" by simp_all
    have "base @ [95] @ ?m = Join (Split 95 base @ [?m]) [95]" by (simp add: Join_snoc)
    then have "Split 95 (base @ [95] @ ?m) = Split 95 base @ [?m]"
      using parts maxminddb_unknown(3) by (simp add: Split_Join del: append_assoc append.simps)
    with c show ?thesis
      using splitBuildSuffix_go [of "base @ [95] @ ?m"] by (simp add: u Let_def nth_append maxminddb_unknown)
  next
    case False
    obtain ys final where y: "Split 95 base = ys @ [final]" by (cases "Split 95 base" rule: rev_cases) auto
    with False obtain zs goos where z: "ys = zs @ [goos]"
      by (cases ys rule: rev_cases) (auto simp: splitBuildSuffix_go Let_def)
    have ps: "\<forall>p \<in> set (zs @ [goos, final]). 95 \<notin> set p" using parts y z by auto
    show ?thesis
    proof (cases "zs \<noteq> [] \<and> goos \<in> knownGOOS \<and> final \<in> knownGOARCH")
      case True
      with A y z have c: "stem = Join zs [95]" "suffix = [95] @ goos @ [95] @ final" "c = goos @ ascii '' && '' @ final"
        by (simp_all add: nth_append Suc_le_eq)
      have "stem @ [95] @ ?m @ suffix = Join ((zs @ [?m]) @ [goos, final]) [95]"
        using True c by (simp add: Join_snoc [of "zs @ [?m, goos]" final, simplified] Join_snoc [of "zs @ [?m]" goos, simplified] Join_snoc)
      then have "Split 95 (stem @ [95] @ ?m @ suffix) = (zs @ [?m]) @ [goos, final]"
        using ps maxminddb_unknown(3) by (simp add: Split_Join del: append_assoc append.simps)
      with True c show ?thesis
        using splitBuildSuffix_go [of "stem @ [95] @ ?m @ suffix"] by (simp add: u Let_def nth_append Join_snoc)
    next
      case no: False
      with False y z have k: "final \<in> knownGOOS \<or> final \<in> knownGOARCH"
        by (auto simp: splitBuildSuffix_go Let_def nth_append Suc_le_eq split: if_split_asm)
      with A y z no have c: "stem = Join (zs @ [goos]) [95]" "suffix = [95] @ final" "c = final"
        by (auto simp: nth_append Suc_le_eq split: if_split_asm)
      have "stem @ [95] @ ?m @ suffix = Join ((zs @ [goos]) @ [?m, final]) [95]"
        using c by (simp add: Join_snoc [of "zs @ [goos, ?m]" final, simplified] Join_snoc [of "zs @ [goos]" ?m, simplified])
      then have "Split 95 (stem @ [95] @ ?m @ suffix) = (zs @ [goos]) @ [?m, final]"
        using ps maxminddb_unknown(3) by (simp add: Split_Join del: append_assoc append.simps)
      with k c show ?thesis
        using splitBuildSuffix_go [of "stem @ [95] @ ?m @ suffix"]
        by (auto simp: u Let_def nth_append maxminddb_unknown Join_snoc [of "zs @ [goos]" ?m, simplified])
    qed
  qed
qed

lemma split_whole:
  assumes "splitBuildSuffix (base @ ascii ''.go'') = (stem, suffix, c)"
  shows "base = stem @ suffix"
proof -
  obtain ys final where y: "Split 95 base = ys @ [final]" by (cases "Split 95 base" rule: rev_cases) auto
  have b: "base = Join (ys @ [final]) [95]" using Join_Split [of 95 base] y by simp
  note A = assms [unfolded splitBuildSuffix_go Let_def]
  show ?thesis
  proof (cases ys rule: rev_cases)
    case Nil
    with A y show ?thesis by simp
  next
    case (snoc zs goos)
    have j: "zs \<noteq> [] \<Longrightarrow> base = Join zs [95] @ 95 # goos @ 95 # final"
      using b snoc Join_snoc [of "zs @ [goos]" final "[95]"] Join_snoc [of zs goos "[95]"] by simp
    have "base = Join (zs @ [goos]) [95] @ 95 # final" using b snoc Join_snoc [of "zs @ [goos]" final "[95]"] by simp
    with j A y snoc show ?thesis by (auto simp: nth_append Suc_le_eq split: if_split_asm)
  qed
qed

text \<open>
  C38. The output derived from a source file has the build suffix of the source, so that the go command
  builds both under the same constraint, and never overwrites it.
\<close>

theorem derived_output:
  assumes "Base path = base @ ascii ''.go''"
  shows "snd (splitBuildSuffix (derivedOutput path)) = snd (splitBuildSuffix (Base path)) \<and> derivedOutput path \<noteq> Base path"
proof -
  obtain stem suffix c where s: "splitBuildSuffix (base @ ascii ''.go'') = (stem, suffix, c)" by (metis surj_pair)
  from split_derived [OF s] split_whole [OF s] s show ?thesis by (simp add: derivedOutput_def assms ascii_def)
qed

theorem derived_output_witness:
  "snd (splitBuildSuffix (derivedOutput (ascii ''x/city_linux.go''))) = snd (splitBuildSuffix (Base (ascii ''x/city_linux.go''))) \<and>
   derivedOutput (ascii ''x/city_linux.go'') \<noteq> Base (ascii ''x/city_linux.go'')"
  by (rule derived_output [where base = "ascii ''city_linux''"]) (simp add: Base_def ascii_def)

end
