(* ===== verification/Spec2Isabelle.thy ===== *)
theory Spec2Isabelle
  imports Kinds Errors StringCache DataDecoder Skip Validator Strings Budget Cursor CursorReads
    CursorNumbers CursorContainers PushDecoder SearchTree Reader Lookups Networks NetworkProofs
    TreeVerifier Destinations FieldTable Reflection ReflectionScalars ReflectionWalk
    ReflectionStructs ReflectionDispatch ReflectionLimits ReflectionProofs ReflectionCache PathDecoding Opening Verification
    Utf8 Strconv Tag TagLookup GeneratorTypes GeneratorProofs GeneratorAgreement GeneratorNames GeneratorFiles
begin

text \<open>
  A verification of the MaxMind DB reader \<open>maxminddb-golang\<close> (Go).

  The program. A MaxMind DB file is a binary search tree over the bits of IP addresses, a separator
  of 16 zero bytes, a data section of self-describing values that the leaves of the tree point into,
  and, after a marker, a map of metadata. \<open>OpenBytes\<close> finds and decodes the metadata, lays out the
  three parts and walks to the subtree of IPv4 addresses. \<open>Lookup\<close> descends the tree along an address
  and returns a \<open>Result\<close>, an offset in the data section; \<open>Result.Decode\<close> and \<open>Result.DecodePath\<close> decode
  the value there into a Go variable by reflection. \<open>Networks\<close> and \<open>NetworksWithin\<close> enumerate the
  leaves. \<open>Verify\<close> checks a whole file. Generated and hand-written unmarshalers read values with
  \<open>Cursor\<close> (immutable positions) or \<open>Decoder\<close> (a mutable one). All of them share \<open>DataDecoder\<close>, the
  primitive readers over the bytes of the data section, and its cache of interned strings.

  The model. Go's \<open>uint\<close> is a 64-bit word, whose arithmetic wraps as in the code; a byte slice is a
  list of 8-bit words; a fallible operation returns \<open>Inl\<close> of its error or \<open>Inr\<close> of its results; a
  failed bounds check, a nil dereference and an unreachable state are the error \<open>Panic\<close>, so that the
  absence of panics is a theorem and not an assumption. State is passed explicitly: decoders are
  returned with the cache and the limits they have left. Loops are recursive functions with proofs of
  termination; no definition has fuel and none is partial, so that every theorem speaks of calls that
  return.

  Theories, from the bottom up, with what they model (under \<open>src/\<close>):

  \<^item> \<open>Prelude\<close>: words, slices, the error monad, big-endian numbers.
  \<^item> \<open>Kinds\<close>: \<open>Kind\<close> and \<open>KindSet\<close> of \<open>internal/decoder/data_decoder.go\<close> and \<open>decoder.go\<close>.
  \<^item> \<open>Errors\<close>: error values, offsets and paths (\<open>internal/mmdberrors\<close>, \<open>error_context.go\<close>).
  \<^item> \<open>StringCache\<close>: \<open>string_cache.go\<close>, once as a function and once as the interleaved atomic accesses
    of any number of goroutines (an inductive step relation).
  \<^item> \<open>DataDecoder\<close>: control records, pointers, numbers, strings, bytes of \<open>data_decoder.go\<close>.
  \<^item> \<open>Skip\<close>: \<open>nextValueOffset\<close>, and the grammar of the data section \<open>values_at\<close> (a walk over tokens)
    that every other walk is related to.
  \<^item> \<open>Validator\<close>: the allocation-free structural validator of \<open>reflection.go\<close>.
  \<^item> \<open>Strings\<close>: pointer resolution, strings and map keys with their inline fast paths.
  \<^item> \<open>Budget\<close>: the operation limits of \<open>ReflectionDecoder\<close> and the skip that charges them.
  \<^item> \<open>Cursor\<close>, \<open>CursorReads\<close>, \<open>CursorNumbers\<close>, \<open>CursorContainers\<close>: \<open>cursor.go\<close>. Cursors hold addresses
    into a heap of data decoders, so that cursors of different decoders can be told apart. The relation
    \<open>issued\<close> collects the cursors a client can hold; the theorems on successors speak of them.
  \<^item> \<open>PushDecoder\<close>: the mutable \<open>Decoder\<close> of \<open>decoder.go\<close>, its iterators with the client's callback as
    a parameter, \<open>Advance\<close> and \<open>Unmarshal\<close>.
  \<^item> \<open>SearchTree\<close>, \<open>Reader\<close>, \<open>Lookups\<close>: node readers, traversals, opening, \<open>Lookup\<close>, \<open>Result\<close>
    (\<open>reader.go\<close>, \<open>result.go\<close>).
  \<^item> \<open>Networks\<close>, \<open>NetworkProofs\<close>: \<open>traverse.go\<close>; an iteration is the list of the results it yields.
  \<^item> \<open>TreeVerifier\<close>, \<open>Verification\<close>: \<open>verifier.go\<close> and \<open>internal/decoder/verifier.go\<close>.
  \<^item> \<open>Destinations\<close>, \<open>FieldTable\<close>: Go types and values results are decoded into, the field table of a
    struct type with its fingerprint hash table (\<open>reflection.go\<close>).
  \<^item> \<open>Reflection\<close> and the \<open>Reflection\<close>* theories, \<open>PathDecoding\<close>, \<open>Opening\<close>: decoding by reflection,
    along paths, of the metadata and of results (\<open>reflection.go\<close>, \<open>reader.go\<close>, \<open>result.go\<close>).
  \<^item> \<open>Utf8\<close>, \<open>Strconv\<close>: what the code uses of the Go packages \<open>unicode/utf8\<close> and \<open>strconv\<close>.
  \<^item> \<open>Tag\<close>, \<open>TagLookup\<close>: struct tags (\<open>internal/maxminddbtag/tag.go\<close>) and how reflection and the code
    generator find them.
  \<^item> \<open>GeneratorTypes\<close>, \<open>GeneratorProofs\<close>, \<open>GeneratorAgreement\<close>: the analysis of \<open>maxminddb-gen\<close>
    (\<open>generate.go\<close>) from the types of a package to decode plans, and its agreement with reflection.
  \<^item> \<open>GeneratorNames\<close>, \<open>GeneratorFiles\<close>: its names of helpers, build suffixes and outputs (\<open>main.go\<close>).

  What the lemmas show. The primitive readers invert shortest encodings and read what the grammar
  says. Each optimised routine (inline fast paths, the node readers of three widths, compact headers,
  dispatch per field type, fingerprint tables, the string cache) equals the plain one it replaces, on
  every input, errors included. All walks over the data section (skipping, validating, charging,
  cursors, push decoder, reflection) agree on where values end. Decoding never panics, returns values
  of the destination's type, and stays within its limits, children and payload apart. Lookups descend the tree along the address,
  iteration tiles the address space in order with the answers lookups give, and \<open>Verify\<close> guarantees
  that lookups and the decoding of their results succeed (\<open>verified_database\<close>), which ties the
  components together: \<open>OpenBytes_opens\<close> gives its hypothesis. The code generator plans decoders for
  the fields, keys and limits that reflection has for the same struct (\<open>generated_fields_agree\<close>), its
  analysis never meets a cycle unnoticed, and its names do not collide.

  Interfaces. \<open>value_stream\<close> and \<open>strict_stream\<close> are the contract of a walk over tokens, \<open>scalar_read\<close>,
  \<open>number_read\<close> and \<open>push_read\<close> those between a read and the decoder of its payload, \<open>node_reader\<close> and
  \<open>traversal\<close> those between a traversal and the reader of its nodes, and \<open>string_interner\<close> that between a
  decoder and its cache of strings; each is interpreted on the definitions of the code.

  Bounds. A slice has at most \<open>2 ^ 63 - 1\<close> bytes (Go's \<open>int\<close>); sizes of values are at most 16,843,036
  (the widest control record); nesting is at most 512 deep; an operation has 32,768 child slots and 2
  MiB of payload; containers of 1,024 values on are validated before they are allocated. They are the
  constants of the code, and the theorems use them as they are.

  Choices that do not show. Go leaves the order of map iteration open: where it decides which of
  several errors is reported, the model takes the order of the entries. The offset hints that
  \<open>decodeStructWithFields\<close> keeps for repeated keys are not threaded through \<open>decodeFields\<close>:
  \<open>hintedFields\<close> of \<open>ReflectionDispatch\<close> is the loop with them, shared with other goroutines, and
  \<open>struct_by_name\<close> shows that it decodes the same. A pool hands out a decoder at
  any address. Texts are modelled where the code builds them from parts that matter (paths, kinds).

  Parameters. The tables of the package \<open>unicode\<close> are an argument of the tag parser, the method sets
  \<open>go/types\<close> computes and the declarations of a package one of the analysis.

  Not modelled. Of \<open>maxminddb-gen\<close> the loading of packages (\<open>go/packages\<close>), the stubs for earlier outputs,
  the selection of targets and the printing of the source of the planned decoders; memory mapping and
  file access (system calls); \<open>mmdbdata\<close> (re-exports); and of reflection: unmarshalers called by it,
  named, \<open>float32\<close>, \<open>uintptr\<close> and array destinations, maps with keys other than strings, a non-nil
  pointer inside an \<open>any\<close>, recursive struct types.
\<close>

end
